(* ===== verification/Ast_Prelude.thy ===== *)
theory Ast_Prelude
  imports Main "HOL-Library.Multiset" "HOL-Library.Word" "HOL-Library.Signed_Division"
begin

text \<open>
  Shared vocabulary of the development: the collections of rewrite rules the component
  proofs use, and the generic facts on lists and multisets that several components need.

  Conventions of the model. A C string is a \<open>string\<close> without its terminating NUL; the end
  of the list is the NUL. A counter or a length that the code keeps in a \<open>size_t\<close> and never
  lets wrap is a \<open>nat\<close>; an integer on which the code relies on wrap-around is a word;
  other \<open>int\<close> and \<open>long\<close> values are \<open>int\<close>. Success or failure of an allocation is
  an argument of the operation that allocates.
\<close>

named_theorems run_simps \<open>unfolding rules of the operations on a running channel\<close>

section \<open>Multisets of the values of a function on an interval\<close>

definition mset_upto :: "(nat \<Rightarrow> 'a) \<Rightarrow> nat \<Rightarrow> 'a multiset" where
  "mset_upto g n = image_mset g (mset_set {1..n})"

lemma mset_upto_0 [simp]: "mset_upto g 0 = {#}"
  by (simp add: mset_upto_def)

lemma mset_upto_Suc [simp]: "mset_upto g (Suc n) = add_mset (g (Suc n)) (mset_upto g n)"
proof -
  have "{1..Suc n} = insert (Suc n) {1..n}" by auto
  then show ?thesis by (simp add: mset_upto_def)
qed

lemma mset_upto_cong:
  "(\<And>i. 1 \<le> i \<Longrightarrow> i \<le> n \<Longrightarrow> f i = g i) \<Longrightarrow> mset_upto f n = mset_upto g n"
  unfolding mset_upto_def by (rule image_mset_cong) simp

lemma set_mset_upto [simp]: "set_mset (mset_upto g n) = g ` {1..n}"
  by (simp add: mset_upto_def)

lemma mset_upto_remove:
  assumes "1 \<le> i" "i \<le> n"
  shows "mset_upto g n = add_mset (g i) (image_mset g (mset_set ({1..n} - {i})))"
proof -
  from assms have "{1..n} = insert i ({1..n} - {i})" by auto
  then have "mset_set {1..n} = add_mset i (mset_set ({1..n} - {i}))"
    by (metis Diff_iff finite_Diff finite_atLeastAtMost insertI1 mset_set.insert)
  then show ?thesis by (simp add: mset_upto_def)
qed

lemma mset_upto_fun_upd:
  assumes "1 \<le> i" "i \<le> n"
  shows "add_mset (g i) (mset_upto (g(i := x)) n) = add_mset x (mset_upto g n)"
proof -
  have "image_mset (g(i := x)) (mset_set ({1..n} - {i})) = image_mset g (mset_set ({1..n} - {i}))"
    by (rule image_mset_cong) simp
  with mset_upto_remove [OF assms, of g] mset_upto_remove [OF assms, of "g(i := x)"]
  show ?thesis by simp
qed

section \<open>Lists of lists updated at one position\<close>

lemma mset_concat_update:
  "h < length xss \<Longrightarrow>
   mset (concat (xss[h := ys])) + mset (xss ! h) = mset ys + mset (concat xss)"
proof (induction xss arbitrary: h)
  case (Cons xs xss)
  then show ?case by (cases h) (auto simp: ac_simps)
qed simp

lemma mset_concat_push:
  "h < length xss \<Longrightarrow> mset (concat (xss[h := y # xss ! h])) = add_mset y (mset (concat xss))"
  using mset_concat_update [of h xss "y # xss ! h"] by simp

lemma mset_concat_remove1:
  assumes "h < length xss" "y \<in> set (xss ! h)"
  shows "mset (concat xss) = add_mset y (mset (concat (xss[h := remove1 y (xss ! h)])))"
proof -
  have cancel: "C = add_mset y X" if "X + M = R + C" "M = add_mset y R" for X M R C :: "'a multiset"
    using that by (simp add: ac_simps)
  have "mset (xss ! h) = add_mset y (mset (remove1 y (xss ! h)))"
    using assms(2) by simp
  then show ?thesis
    by (rule cancel [OF mset_concat_update [OF assms(1), of "remove1 y (xss ! h)"]])
qed

lemma distinct_map_remove1: "distinct (map f xs) \<Longrightarrow> distinct (map f (remove1 x xs))"
proof (induction xs)
  case (Cons a xs)
  with set_remove1_subset [of x xs] show ?case by auto
qed simp

lemma option_eqI: "(\<And>z. a = Some z \<longleftrightarrow> b = Some z) \<Longrightarrow> a = b"
  by (cases a; cases b) auto

lemma card_remove_less: "finite A \<Longrightarrow> x \<in> A \<Longrightarrow> card A < Suc n \<Longrightarrow> card (A - {x}) < n"
  by (metis Suc_less_eq card_Suc_Diff1)

section \<open>C integers\<close>

text \<open>Conversion of a wider value to \<open>int\<close>.\<close>

definition to_int32 :: "int \<Rightarrow> int" where
  "to_int32 x = sint (word_of_int x :: 32 word)"

lemma to_int32_id: "- 2147483648 \<le> x \<Longrightarrow> x < 2147483648 \<Longrightarrow> to_int32 x = x"
  by (simp add: to_int32_def signed_of_int signed_take_bit_int_eq_self)

lemma sdiv_nonneg: "0 \<le> (a::int) \<Longrightarrow> 0 \<le> b \<Longrightarrow> a sdiv b = a div b"
  by (auto simp: signed_divide_int_def sgn_if)

end
