(* ===== verification/Ast_Heap.thy ===== *)
theory Ast_Heap
  imports Ast_Prelude
begin

text \<open>
  The binary max-heap of \<open>main/heap.c\<close>: an array of element pointers with 1-based node
  numbers, a comparison callback, and an index that the heap stores inside each element.
\<close>

section \<open>The heap structure and its operations\<close>

text \<open>
  \<open>struct ast_heap\<close>, less its lock. A slot of the array that was never written is \<open>None\<close>.
  \<open>index_of\<close> is the \<open>ssize_t\<close> found at \<open>index_offset\<close> inside each element.
\<close>

record 'a ast_heap =
  cmp_fn :: "'a \<Rightarrow> 'a \<Rightarrow> int"
  index_offset :: int
  cur_len :: nat
  avail_len :: nat
  heap :: "'a option list"
  index_of :: "'a \<Rightarrow> int"

definition left_node :: "nat \<Rightarrow> nat" where
  "left_node i = 2 * i"

definition right_node :: "nat \<Rightarrow> nat" where
  "right_node i = 2 * i + 1"

definition parent_node :: "nat \<Rightarrow> nat" where
  "parent_node i = i div 2"

definition heap_get :: "'a ast_heap \<Rightarrow> nat \<Rightarrow> 'a" where
  "heap_get h i = the (heap h ! (i - 1))"

definition get_index :: "'a ast_heap \<Rightarrow> 'a \<Rightarrow> int" where
  "get_index h elm = (if index_offset h < 0 then -1 else index_of h elm)"

definition heap_set :: "'a ast_heap \<Rightarrow> nat \<Rightarrow> 'a \<Rightarrow> 'a ast_heap" where
  "heap_set h i elm =
     (let h' = h\<lparr>heap := (heap h)[i - 1 := Some elm]\<rparr>
      in if 0 \<le> index_offset h then h'\<lparr>index_of := (index_of h')(elm := int i)\<rparr> else h')"

text \<open>\<open>ast_heap_verify\<close>: the loop over the inner nodes, 0 when every child is in order.\<close>

definition ast_heap_verify :: "'a ast_heap \<Rightarrow> int" where
  "ast_heap_verify h =
     (if \<forall>i \<in> set [1..<Suc (cur_len h div 2)].
           (left_node i \<le> cur_len h \<longrightarrow> \<not> cmp_fn h (heap_get h i) (heap_get h (left_node i)) < 0) \<and>
           (right_node i \<le> cur_len h \<longrightarrow> \<not> cmp_fn h (heap_get h i) (heap_get h (right_node i)) < 0)
      then 0 else -1)"

text \<open>
  \<open>ast_heap_create\<close>: a missing comparison function and both allocations can fail. The
  index fields of the elements keep whatever they held (\<open>mem\<close>).
\<close>

definition ast_heap_create ::
  "bool \<Rightarrow> nat \<Rightarrow> ('a \<Rightarrow> 'a \<Rightarrow> int) option \<Rightarrow> int \<Rightarrow> ('a \<Rightarrow> int) \<Rightarrow> 'a ast_heap option" where
  "ast_heap_create alloc_ok init_height cmp offset mem =
     (case cmp of
        None \<Rightarrow> None
      | Some f \<Rightarrow>
          (let height = (if init_height = 0 then 8 else init_height); len = 2 ^ height - 1
           in if \<not> alloc_ok then None
              else Some \<lparr>cmp_fn = f, index_offset = offset, cur_len = 0, avail_len = len,
                         heap = replicate len None, index_of = mem\<rparr>))"

text \<open>\<open>grow_heap\<close>: on a failed \<open>realloc\<close> the heap forgets all its elements.\<close>

definition grow_heap :: "bool \<Rightarrow> 'a ast_heap \<Rightarrow> int \<times> 'a ast_heap" where
  "grow_heap alloc_ok h =
     (let len = avail_len h * 2 + 1
      in if alloc_ok
         then (0, h\<lparr>avail_len := len, heap := heap h @ replicate (len - length (heap h)) None\<rparr>)
         else (-1, h\<lparr>heap := [], cur_len := 0, avail_len := 0\<rparr>))"

definition heap_swap :: "'a ast_heap \<Rightarrow> nat \<Rightarrow> nat \<Rightarrow> 'a ast_heap" where
  "heap_swap h i j =
     (let tmp = heap_get h i; h1 = heap_set h i (heap_get h j) in heap_set h1 j tmp)"

definition max_child :: "'a ast_heap \<Rightarrow> nat \<Rightarrow> nat" where
  "max_child h i =
     (let l = left_node i; r = right_node i;
          mx = (if l \<le> cur_len h \<and> cmp_fn h (heap_get h l) (heap_get h i) > 0 then l else i)
      in if r \<le> cur_len h \<and> cmp_fn h (heap_get h r) (heap_get h mx) > 0 then r else mx)"

lemma heap_swap_fields [simp]:
  "cur_len (heap_swap h i j) = cur_len h"
  "avail_len (heap_swap h i j) = avail_len h"
  "cmp_fn (heap_swap h i j) = cmp_fn h"
  "index_offset (heap_swap h i j) = index_offset h"
  "length (heap (heap_swap h i j)) = length (heap h)"
  by (simp_all add: heap_swap_def heap_set_def Let_def)

lemma max_child_cases:
  "max_child h i = i \<or> i < max_child h i \<and> max_child h i \<le> cur_len h"
  by (auto simp: max_child_def Let_def left_node_def right_node_def)

function max_heapify :: "'a ast_heap \<Rightarrow> nat \<Rightarrow> 'a ast_heap" where
  "max_heapify h i =
     (if max_child h i = i then h
      else max_heapify (heap_swap h i (max_child h i)) (max_child h i))"
  by pat_completeness auto
termination
proof (relation "measure (\<lambda>(h, i). cur_len h - i)", goal_cases)
  case (2 h i)
  with max_child_cases [of h i] show ?case by auto
qed simp

declare max_heapify.simps [simp del]

function bubble_up :: "'a ast_heap \<Rightarrow> nat \<Rightarrow> 'a ast_heap \<times> nat" where
  "bubble_up h i =
     (if i > 1 \<and> cmp_fn h (heap_get h (parent_node i)) (heap_get h i) < 0
      then bubble_up (heap_swap h i (parent_node i)) (parent_node i)
      else (h, i))"
  by pat_completeness auto
termination
  by (relation "measure snd") (auto simp: parent_node_def)

declare bubble_up.simps [simp del]

definition ast_heap_push :: "bool \<Rightarrow> 'a ast_heap \<Rightarrow> 'a \<Rightarrow> int \<times> 'a ast_heap" where
  "ast_heap_push alloc_ok h elm =
     (let (rc, h1) = (if cur_len h = avail_len h then grow_heap alloc_ok h else (0, h))
      in if rc \<noteq> 0 then (-1, h1)
         else let h2 = heap_set (h1\<lparr>cur_len := cur_len h1 + 1\<rparr>) (cur_len h1 + 1) elm
              in (0, fst (bubble_up h2 (cur_len h2))))"

text \<open>\<open>_ast_heap_remove\<close>, the removal by node number; \<open>None\<close> is the \<open>NULL\<close> result.\<close>

definition heap_remove_at :: "'a ast_heap \<Rightarrow> nat \<Rightarrow> 'a option \<times> 'a ast_heap" where
  "heap_remove_at h index =
     (if index = 0 \<or> index > cur_len h then (None, h)
      else let ret = heap_get h index;
               lst = heap_get h (cur_len h);
               h1 = heap_set (h\<lparr>cur_len := cur_len h - 1\<rparr>) index lst;
               (h2, index') = bubble_up h1 index
           in (Some ret, max_heapify h2 index'))"

text \<open>
  \<open>ast_heap_remove\<close> passes the \<open>ssize_t\<close> index on as an \<open>unsigned int\<close>: a negative
  index other than -1 becomes a number above every node number, which the callee rejects.
\<close>

definition ast_heap_remove :: "'a ast_heap \<Rightarrow> 'a \<Rightarrow> 'a option \<times> 'a ast_heap" where
  "ast_heap_remove h elm =
     (let i = get_index h elm
      in if i = -1 then (None, h)
         else heap_remove_at h (if i < 0 then cur_len h + 1 else nat i))"

definition ast_heap_pop :: "'a ast_heap \<Rightarrow> 'a option \<times> 'a ast_heap" where
  "ast_heap_pop h = heap_remove_at h 1"

definition ast_heap_peek :: "'a ast_heap \<Rightarrow> nat \<Rightarrow> 'a option" where
  "ast_heap_peek h index =
     (if cur_len h = 0 \<or> index = 0 \<or> index > cur_len h then None else Some (heap_get h index))"

definition ast_heap_size :: "'a ast_heap \<Rightarrow> nat" where
  "ast_heap_size h = cur_len h"

section \<open>Array accesses\<close>

text \<open>The array always has the advertised size and its live part fits into it.\<close>

definition heap_wf :: "'a ast_heap \<Rightarrow> bool" where
  "heap_wf h \<longleftrightarrow> length (heap h) = avail_len h \<and> cur_len h \<le> avail_len h"

definition heap_elems :: "'a ast_heap \<Rightarrow> 'a multiset" where
  "heap_elems h = mset_upto (heap_get h) (cur_len h)"

text \<open>Every element of the heap carries its own node number.\<close>

definition index_ok :: "'a ast_heap \<Rightarrow> bool" where
  "index_ok h \<longleftrightarrow> (\<forall>i. 1 \<le> i \<and> i \<le> cur_len h \<longrightarrow> index_of h (heap_get h i) = int i)"

lemma heap_set_fields [simp]:
  "cur_len (heap_set h i x) = cur_len h"
  "avail_len (heap_set h i x) = avail_len h"
  "cmp_fn (heap_set h i x) = cmp_fn h"
  "index_offset (heap_set h i x) = index_offset h"
  "length (heap (heap_set h i x)) = length (heap h)"
  by (simp_all add: heap_set_def Let_def)

lemma heap_get_cur_len [simp]: "heap_get (h\<lparr>cur_len := n\<rparr>) i = heap_get h i"
  by (simp add: heap_get_def)

lemma heap_get_set:
  "1 \<le> i \<Longrightarrow> i \<le> length (heap h) \<Longrightarrow> 1 \<le> k \<Longrightarrow>
   heap_get (heap_set h i x) k = (if k = i then x else heap_get h k)"
  by (auto simp: heap_get_def heap_set_def Let_def nth_list_update)

lemma index_of_set:
  "index_of (heap_set h i x) =
     (if 0 \<le> index_offset h then (index_of h)(x := int i) else index_of h)"
  by (simp add: heap_set_def Let_def)

lemma heap_get_swap:
  "1 \<le> i \<Longrightarrow> i \<le> length (heap h) \<Longrightarrow> 1 \<le> j \<Longrightarrow> j \<le> length (heap h) \<Longrightarrow> 1 \<le> k \<Longrightarrow>
   heap_get (heap_swap h i j) k =
     (if k = j then heap_get h i else if k = i then heap_get h j else heap_get h k)"
  by (simp add: heap_swap_def Let_def heap_get_set)

lemma index_of_swap:
  "0 \<le> index_offset h \<Longrightarrow>
   index_of (heap_swap h i j) = (index_of h)(heap_get h j := int i, heap_get h i := int j)"
  by (simp add: heap_swap_def Let_def index_of_set)

lemma heap_wf_swap [simp]: "heap_wf (heap_swap h i j) = heap_wf h"
  by (simp add: heap_wf_def)

lemma index_ok_inj:
  "index_ok h \<Longrightarrow> 1 \<le> i \<Longrightarrow> i \<le> cur_len h \<Longrightarrow> 1 \<le> j \<Longrightarrow> j \<le> cur_len h \<Longrightarrow>
   heap_get h i = heap_get h j \<Longrightarrow> i = j"
  unfolding index_ok_def by (metis of_nat_eq_iff)

text \<open>
  Swapping two live nodes keeps the elements and the indices. The element that leaves the
  root of a removal may sit one slot beyond the live part, hence the bound on \<open>j\<close> only.
\<close>

lemma index_ok_swap:
  assumes "index_ok h" "heap_wf h" "0 \<le> index_offset h"
    and "1 \<le> i" "i \<le> cur_len h" "1 \<le> j" "j \<le> cur_len h"
  shows "index_ok (heap_swap h i j)"
proof -
  from assms have len: "i \<le> length (heap h)" "j \<le> length (heap h)"
    by (auto simp: heap_wf_def)
  have "index_of (heap_swap h i j) (heap_get (heap_swap h i j) k) = int k"
    if k: "1 \<le> k" "k \<le> cur_len h" for k
    using k assms len
    by (auto simp: heap_get_swap index_of_swap dest: index_ok_inj)
       (auto simp: index_ok_def)
  then show ?thesis by (simp add: index_ok_def)
qed

lemma heap_elems_swap:
  assumes "heap_wf h" "1 \<le> i" "i \<le> cur_len h" "1 \<le> j" "j \<le> cur_len h"
  shows "heap_elems (heap_swap h i j) = heap_elems h"
proof -
  let ?g = "heap_get h" and ?n = "cur_len h"
  from assms have len: "i \<le> length (heap h)" "j \<le> length (heap h)"
    by (auto simp: heap_wf_def)
  have "mset_upto (heap_get (heap_swap h i j)) ?n = mset_upto (?g(i := ?g j, j := ?g i)) ?n"
    by (rule mset_upto_cong) (use assms len in \<open>auto simp: heap_get_swap\<close>)
  moreover have "add_mset ((?g(i := ?g j)) j) (mset_upto (?g(i := ?g j, j := ?g i)) ?n)
      = add_mset (?g i) (mset_upto (?g(i := ?g j)) ?n)"
    using assms by (intro mset_upto_fun_upd)
  moreover have "add_mset (?g i) (mset_upto (?g(i := ?g j)) ?n) = add_mset (?g j) (mset_upto ?g ?n)"
    using assms by (intro mset_upto_fun_upd)
  ultimately show ?thesis by (simp add: heap_elems_def split: if_splits)
qed

section \<open>Sifting keeps the elements\<close>

text \<open>
  What every sequence of swaps of live nodes keeps: the fields other than the array, the
  multiset of elements and the agreement of the stored indices.
\<close>

definition same_content :: "'a ast_heap \<Rightarrow> 'a ast_heap \<Rightarrow> bool" where
  "same_content h h' \<longleftrightarrow>
     cur_len h' = cur_len h \<and> avail_len h' = avail_len h \<and> cmp_fn h' = cmp_fn h \<and>
     index_offset h' = index_offset h \<and> heap_wf h' \<and> heap_elems h' = heap_elems h \<and>
     (0 \<le> index_offset h \<and> index_ok h \<longrightarrow> index_ok h')"

lemma same_content_refl: "heap_wf h \<Longrightarrow> same_content h h"
  by (simp add: same_content_def)

lemma same_content_trans: "same_content a b \<Longrightarrow> same_content b c \<Longrightarrow> same_content a c"
  by (auto simp: same_content_def)

lemma same_content_swap:
  "heap_wf h \<Longrightarrow> 1 \<le> i \<Longrightarrow> i \<le> cur_len h \<Longrightarrow> 1 \<le> j \<Longrightarrow> j \<le> cur_len h \<Longrightarrow>
   same_content h (heap_swap h i j)"
  by (simp add: same_content_def heap_elems_swap index_ok_swap)

lemma same_content_max_heapify:
  "heap_wf h \<Longrightarrow> 1 \<le> i \<Longrightarrow> same_content h (max_heapify h i)"
proof (induction h i rule: max_heapify.induct)
  case (1 h i)
  show ?case
  proof (cases "max_child h i = i")
    case True
    with 1 show ?thesis by (simp add: max_heapify.simps same_content_refl)
  next
    case False
    let ?j = "max_child h i"
    from False max_child_cases [of h i] have j: "i < ?j" "?j \<le> cur_len h" by auto
    with 1 have "same_content h (heap_swap h i ?j)"
      by (intro same_content_swap) auto
    moreover from 1 False j have "same_content (heap_swap h i ?j) (max_heapify (heap_swap h i ?j) ?j)"
      by simp
    ultimately show ?thesis
      using False by (simp add: max_heapify.simps [of h i]) (rule same_content_trans)
  qed
qed

lemma same_content_bubble_up:
  "heap_wf h \<Longrightarrow> 1 \<le> i \<Longrightarrow> i \<le> cur_len h \<Longrightarrow>
   same_content h (fst (bubble_up h i)) \<and> 1 \<le> snd (bubble_up h i) \<and> snd (bubble_up h i) \<le> i"
proof (induction h i rule: bubble_up.induct)
  case (1 h i)
  let ?p = "parent_node i" and ?c = "i > 1 \<and> cmp_fn h (heap_get h (parent_node i)) (heap_get h i) < 0"
  show ?case
  proof (cases ?c)
    case True
    then have p: "1 \<le> ?p" "?p < i" by (auto simp: parent_node_def)
    with 1 have s: "same_content h (heap_swap h i ?p)" by (intro same_content_swap) auto
    from p 1 True have "same_content (heap_swap h i ?p) (fst (bubble_up (heap_swap h i ?p) ?p)) \<and>
        1 \<le> snd (bubble_up (heap_swap h i ?p) ?p) \<and> snd (bubble_up (heap_swap h i ?p) ?p) \<le> ?p"
      by simp
    with s p True show ?thesis
      by (auto simp: bubble_up.simps [of h i] intro: same_content_trans)
  next
    case False
    then have "bubble_up h i = (h, i)" by (subst bubble_up.simps) auto
    with 1 show ?thesis by (simp add: same_content_refl)
  qed
qed

section \<open>The heap order\<close>

text \<open>\<open>edge_ok h i\<close>: node \<open>i\<close> does not compare above its parent.\<close>

definition edge_ok :: "'a ast_heap \<Rightarrow> nat \<Rightarrow> bool" where
  "edge_ok h i \<longleftrightarrow> 0 \<le> cmp_fn h (heap_get h (i div 2)) (heap_get h i)"

definition is_heap :: "'a ast_heap \<Rightarrow> bool" where
  "is_heap h \<longleftrightarrow> (\<forall>i. 2 \<le> i \<and> i \<le> cur_len h \<longrightarrow> edge_ok h i)"

text \<open>
  The two intermediate states of sifting at node \<open>k\<close>: \<open>hole h k\<close> says that only the edges
  that touch \<open>k\<close> may be wrong, \<open>down_hole h k\<close> that only those to its children may be;
  in both, the parent of \<open>k\<close> already dominates the children of \<open>k\<close>.
\<close>

definition bridge :: "'a ast_heap \<Rightarrow> nat \<Rightarrow> bool" where
  "bridge h k \<longleftrightarrow> (2 \<le> k \<longrightarrow> (\<forall>i. i div 2 = k \<and> i \<le> cur_len h \<longrightarrow>
       0 \<le> cmp_fn h (heap_get h (k div 2)) (heap_get h i)))"

definition hole :: "'a ast_heap \<Rightarrow> nat \<Rightarrow> bool" where
  "hole h k \<longleftrightarrow> bridge h k \<and>
     (\<forall>i. 2 \<le> i \<and> i \<le> cur_len h \<and> i \<noteq> k \<and> i div 2 \<noteq> k \<longrightarrow> edge_ok h i)"

definition down_hole :: "'a ast_heap \<Rightarrow> nat \<Rightarrow> bool" where
  "down_hole h k \<longleftrightarrow> bridge h k \<and>
     (\<forall>i. 2 \<le> i \<and> i \<le> cur_len h \<and> i div 2 \<noteq> k \<longrightarrow> edge_ok h i)"

definition children_ok :: "'a ast_heap \<Rightarrow> nat \<Rightarrow> bool" where
  "children_ok h k \<longleftrightarrow> (\<forall>i. 2 \<le> i \<and> i \<le> cur_len h \<and> i div 2 = k \<longrightarrow> edge_ok h i)"

lemma is_heap_iff: "down_hole h k \<Longrightarrow> children_ok h k \<Longrightarrow> is_heap h"
  unfolding down_hole_def children_ok_def is_heap_def by blast

text \<open>
  What the comparison callback has to satisfy: its sign is antisymmetric and \<open>not below\<close>
  is transitive.
\<close>

locale heap_order =
  fixes cmp :: "'a \<Rightarrow> 'a \<Rightarrow> int"
  assumes cmp_anti: "cmp a b < 0 \<longleftrightarrow> 0 < cmp b a"
    and cmp_trans: "0 \<le> cmp a b \<Longrightarrow> 0 \<le> cmp b c \<Longrightarrow> 0 \<le> cmp a c"
begin

lemma cmp_ge_of_lt: "cmp a b < 0 \<Longrightarrow> 0 \<le> cmp b a"
  using cmp_anti [of a b] by linarith

lemma cmp_ge_iff: "0 \<le> cmp a b \<longleftrightarrow> cmp b a \<le> 0"
  using cmp_anti [of a b] by linarith

lemma cmp_refl: "cmp a a = 0"
  using cmp_anti [of a a] by linarith

lemma hole_swap_up:
  assumes "cmp_fn h = cmp" "heap_wf h" "hole h k" "1 < k" "k \<le> cur_len h"
    and lt: "cmp (heap_get h (k div 2)) (heap_get h k) < 0"
  shows "hole (heap_swap h k (k div 2)) (k div 2) \<and> children_ok (heap_swap h k (k div 2)) (k div 2)"
proof -
  let ?p = "k div 2" and ?h' = "heap_swap h k (k div 2)" and ?g = "heap_get h"
  from assms have p: "1 \<le> ?p" "?p < k" "k \<le> length (heap h)" "?p \<le> length (heap h)"
    by (auto simp: heap_wf_def)
  have get: "heap_get ?h' i = (if i = ?p then ?g k else if i = k then ?g ?p else ?g i)" if "1 \<le> i" for i
    using p that by (simp add: heap_get_swap)
  have A: "0 \<le> cmp (?g (i div 2)) (?g i)" if "2 \<le> i" "i \<le> cur_len h" "i \<noteq> k" "i div 2 \<noteq> k" for i
    using that assms by (auto simp: hole_def edge_ok_def)
  have B: "0 \<le> cmp (?g ?p) (?g i)" if "i div 2 = k" "i \<le> cur_len h" for i
    using that assms by (auto simp: hole_def bridge_def)
  have up: "0 \<le> cmp (?g k) (?g ?p)" using lt by (rule cmp_ge_of_lt)
  have child: "0 \<le> cmp (?g ?p) (?g i)" if "i div 2 = ?p" "i \<noteq> k" "2 \<le> i" "i \<le> cur_len h" for i
    using A [of i] that p by auto
  have "children_ok ?h' ?p"
    using child up p by (auto simp: children_ok_def edge_ok_def get assms(1) intro: cmp_trans [OF up])
  moreover have "bridge ?h' ?p"
  proof -
    have "0 \<le> cmp (?g (?p div 2)) (?g i)"
      if "2 \<le> ?p" "i = ?p \<or> i div 2 = ?p \<and> i \<noteq> k" "i \<le> cur_len h" for i
    proof -
      have "0 \<le> cmp (?g (?p div 2)) (?g ?p)"
        using that A [of ?p] p \<open>k \<le> cur_len h\<close> by linarith
      moreover have "2 \<le> i" using that by auto
      ultimately show ?thesis using that child [of i] by (auto intro: cmp_trans)
    qed
    then show ?thesis
      using p assms(1) by (auto simp: bridge_def get)
  qed
  moreover have "edge_ok ?h' i" if "2 \<le> i" "i \<le> cur_len h" "i \<noteq> ?p" "i div 2 \<noteq> ?p" for i
    using that A [of i] B [of i] p assms(1) by (auto simp: edge_ok_def get)
  ultimately show ?thesis by (simp add: hole_def)
qed

lemma bubble_up_sifts:
  "cmp_fn h = cmp \<Longrightarrow> heap_wf h \<Longrightarrow> hole h k \<Longrightarrow> 1 \<le> k \<Longrightarrow> k \<le> cur_len h \<Longrightarrow>
   down_hole (fst (bubble_up h k)) (snd (bubble_up h k)) \<and>
   (children_ok h k \<longrightarrow> children_ok (fst (bubble_up h k)) (snd (bubble_up h k)))"
proof (induction h k rule: bubble_up.induct)
  case (1 h k)
  let ?p = "parent_node k" and ?c = "k > 1 \<and> cmp_fn h (heap_get h (parent_node k)) (heap_get h k) < 0"
  show ?case
  proof (cases ?c)
    case True
    with 1 have "hole (heap_swap h k ?p) ?p \<and> children_ok (heap_swap h k ?p) ?p"
      unfolding parent_node_def by (intro hole_swap_up) auto
    moreover from True have "1 \<le> ?p" "?p < k" by (auto simp: parent_node_def)
    ultimately show ?thesis
      using 1 True by (simp add: bubble_up.simps [of h k])
  next
    case False
    then have "bubble_up h k = (h, k)" by (subst bubble_up.simps) auto
    moreover from False have "edge_ok h k" if "2 \<le> k"
      using that by (auto simp: edge_ok_def parent_node_def)
    ultimately show ?thesis
      using 1 by (auto simp: down_hole_def hole_def)
  qed
qed

lemma max_child_dominates:
  assumes "cmp_fn h = cmp"
  shows "0 \<le> cmp (heap_get h (max_child h k)) (heap_get h k)" (is ?self)
    and "2 \<le> i \<Longrightarrow> i \<le> cur_len h \<Longrightarrow> i div 2 = k \<Longrightarrow>
         0 \<le> cmp (heap_get h (max_child h k)) (heap_get h i)"
proof -
  let ?g = "heap_get h" and ?l = "left_node k" and ?r = "right_node k" and ?m = "max_child h k"
  define m where "m = (if ?l \<le> cur_len h \<and> cmp (?g ?l) (?g k) > 0 then ?l else k)"
  have max: "?m = (if ?r \<le> cur_len h \<and> cmp (?g ?r) (?g m) > 0 then ?r else m)"
    by (simp add: max_child_def Let_def m_def assms)
  have mk: "0 \<le> cmp (?g m) (?g k)" and ml: "?l \<le> cur_len h \<longrightarrow> 0 \<le> cmp (?g m) (?g ?l)"
    by (auto simp: m_def cmp_refl cmp_ge_iff [of "?g k" "?g ?l"])
  have mm: "0 \<le> cmp (?g ?m) (?g m)" and mr: "?r \<le> cur_len h \<longrightarrow> 0 \<le> cmp (?g ?m) (?g ?r)"
    by (auto simp: max cmp_refl cmp_ge_iff [of "?g m" "?g ?r"])
  from mm mk show ?self by (rule cmp_trans)
  show "0 \<le> cmp (?g ?m) (?g i)" if "2 \<le> i" "i \<le> cur_len h" "i div 2 = k"
  proof -
    have "i = ?l \<or> i = ?r" using that by (auto simp: left_node_def right_node_def)
    with that ml mm mr show ?thesis by (auto intro: cmp_trans)
  qed
qed

lemma down_hole_swap:
  assumes "cmp_fn h = cmp" "heap_wf h" "down_hole h k" "1 \<le> k" "max_child h k \<noteq> k"
  shows "down_hole (heap_swap h k (max_child h k)) (max_child h k)"
proof -
  let ?m = "max_child h k" and ?g = "heap_get h" and ?h' = "heap_swap h k (max_child h k)"
  from assms max_child_cases [of h k] have m: "k < ?m" "?m \<le> cur_len h" by auto
  have mk: "?m div 2 = k"
    using assms(5) by (auto simp: max_child_def Let_def left_node_def right_node_def split: if_splits)
  from m assms(2) have len: "k \<le> length (heap h)" "?m \<le> length (heap h)" by (auto simp: heap_wf_def)
  have get: "heap_get ?h' i = (if i = ?m then ?g k else if i = k then ?g ?m else ?g i)" if "1 \<le> i" for i
    using len assms(4) m that by (simp add: heap_get_swap)
  have A: "0 \<le> cmp (?g (i div 2)) (?g i)" if "2 \<le> i" "i \<le> cur_len h" "i div 2 \<noteq> k" for i
    using that assms by (auto simp: down_hole_def edge_ok_def)
  have B: "0 \<le> cmp (?g (k div 2)) (?g ?m)" if "2 \<le> k"
    using that assms mk m by (auto simp: down_hole_def bridge_def)
  have "0 \<le> cmp (?g ?m) (?g i)" if "i div 2 = ?m" "i \<le> cur_len h" for i
    using A [of i] that m by auto
  then have "bridge ?h' ?m"
    using m mk by (auto simp: bridge_def get assms(1))
  moreover have "edge_ok ?h' i" if i: "2 \<le> i" "i \<le> cur_len h" "i div 2 \<noteq> ?m" for i
    using i A [of i] B max_child_dominates(1) [OF assms(1), of k] m mk \<open>1 \<le> k\<close>
      max_child_dominates(2) [OF assms(1), of i k]
    by (auto simp: edge_ok_def get assms(1) simp del: One_nat_def)
  ultimately show ?thesis by (simp add: down_hole_def)
qed

lemma max_heapify_heap:
  "cmp_fn h = cmp \<Longrightarrow> heap_wf h \<Longrightarrow> down_hole h k \<Longrightarrow> 1 \<le> k \<Longrightarrow> is_heap (max_heapify h k)"
proof (induction h k rule: max_heapify.induct)
  case (1 h k)
  show ?case
  proof (cases "max_child h k = k")
    case True
    have "children_ok h k"
      using max_child_dominates(2) [OF 1(2), of _ k] True
      by (simp add: children_ok_def edge_ok_def 1(2))
    with True 1 show ?thesis by (auto simp: max_heapify.simps [of h k] intro: is_heap_iff)
  next
    case False
    with 1 max_child_cases [of h k] show ?thesis
      by (simp add: max_heapify.simps [of h k] down_hole_swap)
  qed
qed

lemma root_is_max:
  assumes "cmp_fn h = cmp" "is_heap h"
  shows "1 \<le> i \<Longrightarrow> i \<le> cur_len h \<Longrightarrow> 0 \<le> cmp (heap_get h 1) (heap_get h i)"
proof (induction i rule: less_induct)
  case (less i)
  show ?case
  proof (cases "i = 1")
    case False
    with less have i: "2 \<le> i" by simp
    with less have "0 \<le> cmp (heap_get h 1) (heap_get h (i div 2))" by simp
    moreover from i less.prems assms have "0 \<le> cmp (heap_get h (i div 2)) (heap_get h i)"
      by (simp add: is_heap_def edge_ok_def)
    ultimately show ?thesis by (rule cmp_trans)
  qed (simp add: cmp_refl)
qed

end

section \<open>Push, remove and pop\<close>

text \<open>The state invariant of a heap, without and with the stored indices.\<close>

definition heap_inv :: "'a ast_heap \<Rightarrow> bool" where
  "heap_inv h \<longleftrightarrow> heap_wf h \<and> is_heap h"

definition heap_indexed :: "'a ast_heap \<Rightarrow> bool" where
  "heap_indexed h \<longleftrightarrow> 0 \<le> index_offset h \<and> index_ok h"

text \<open>\<open>push_slot h x\<close>: the state of a push just before the new node is sifted up.\<close>

definition push_slot :: "'a ast_heap \<Rightarrow> 'a \<Rightarrow> 'a ast_heap" where
  "push_slot h x =
     (let h1 = (if cur_len h = avail_len h then snd (grow_heap True h) else h)
      in heap_set (h1\<lparr>cur_len := cur_len h1 + 1\<rparr>) (cur_len h1 + 1) x)"

lemma ast_heap_push_slot:
  "ast_heap_push True h x = (0, fst (bubble_up (push_slot h x) (cur_len (push_slot h x))))"
  by (simp add: ast_heap_push_def push_slot_def grow_heap_def Let_def)

lemma push_slot_fields [simp]:
  "cur_len (push_slot h x) = Suc (cur_len h)"
  "cmp_fn (push_slot h x) = cmp_fn h"
  "index_offset (push_slot h x) = index_offset h"
  by (simp_all add: push_slot_def grow_heap_def Let_def)

lemma push_slot_wf: "heap_wf h \<Longrightarrow> heap_wf (push_slot h x)"
  by (auto simp: heap_wf_def push_slot_def grow_heap_def Let_def)

lemma push_slot_get:
  assumes "heap_wf h" "1 \<le> i" "i \<le> Suc (cur_len h)"
  shows "heap_get (push_slot h x) i = (if i = Suc (cur_len h) then x else heap_get h i)"
proof -
  have "heap_get (snd (grow_heap True h)) i = heap_get h i" if "i \<le> cur_len h"
    using assms that by (auto simp: heap_get_def grow_heap_def Let_def heap_wf_def nth_append)
  with assms show ?thesis
    by (auto simp: push_slot_def Let_def heap_get_set heap_wf_def grow_heap_def)
qed

lemma push_slot_elems:
  assumes "heap_wf h"
  shows "heap_elems (push_slot h x) = add_mset x (heap_elems h)"
proof -
  have "mset_upto (heap_get (push_slot h x)) (cur_len h) = mset_upto (heap_get h) (cur_len h)"
    using assms by (intro mset_upto_cong) (simp add: push_slot_get)
  with assms show ?thesis by (simp add: heap_elems_def push_slot_get)
qed

lemma push_slot_index:
  assumes "heap_wf h" "heap_indexed h" "x \<notin># heap_elems h"
  shows "index_ok (push_slot h x)"
proof -
  have idx: "index_of (push_slot h x) = (index_of h)(x := int (Suc (cur_len h)))"
    using assms by (auto simp: push_slot_def Let_def index_of_set grow_heap_def heap_indexed_def)
  have "heap_get h i \<noteq> x" if "1 \<le> i" "i \<le> cur_len h" for i
    using assms(3) that by (auto simp: heap_elems_def)
  with assms show ?thesis
    by (auto simp: index_ok_def idx push_slot_get heap_indexed_def le_Suc_eq)
qed

text \<open>\<open>remove_slot h k\<close>: the state of a removal just after the last node took the place of \<open>k\<close>.\<close>

definition remove_slot :: "'a ast_heap \<Rightarrow> nat \<Rightarrow> 'a ast_heap" where
  "remove_slot h k = heap_set (h\<lparr>cur_len := cur_len h - 1\<rparr>) k (heap_get h (cur_len h))"

lemma remove_slot_fields [simp]:
  "cur_len (remove_slot h k) = cur_len h - 1"
  "cmp_fn (remove_slot h k) = cmp_fn h"
  "index_offset (remove_slot h k) = index_offset h"
  by (simp_all add: remove_slot_def)

lemma remove_slot_wf: "heap_wf h \<Longrightarrow> heap_wf (remove_slot h k)"
  by (auto simp: heap_wf_def remove_slot_def)

lemma remove_slot_get:
  "heap_wf h \<Longrightarrow> 1 \<le> k \<Longrightarrow> k \<le> cur_len h \<Longrightarrow> 1 \<le> i \<Longrightarrow>
   heap_get (remove_slot h k) i = (if i = k then heap_get h (cur_len h) else heap_get h i)"
  by (simp add: remove_slot_def heap_get_set heap_wf_def)

lemma remove_slot_elems:
  assumes "heap_wf h" "1 \<le> k" "k \<le> cur_len h"
  shows "heap_elems h = add_mset (heap_get h k) (heap_elems (remove_slot h k))"
proof -
  let ?g = "heap_get h" and ?n = "cur_len h - 1"
  from assms have n: "cur_len h = Suc ?n" by simp
  have e: "heap_elems (remove_slot h k) = mset_upto (?g(k := ?g (cur_len h))) ?n"
    unfolding heap_elems_def using assms by (auto intro: mset_upto_cong simp: remove_slot_get)
  show ?thesis
  proof (cases "k = cur_len h")
    case True
    then have "mset_upto (?g(k := ?g (cur_len h))) ?n = mset_upto ?g ?n"
      by (intro mset_upto_cong) (use n in auto)
    with e n True show ?thesis by (metis heap_elems_def mset_upto_Suc)
  next
    case False
    with assms have "add_mset (?g k) (mset_upto (?g(k := ?g (cur_len h))) ?n)
        = add_mset (?g (cur_len h)) (mset_upto ?g ?n)"
      by (intro mset_upto_fun_upd) auto
    with e n show ?thesis by (metis heap_elems_def mset_upto_Suc)
  qed
qed

lemma remove_slot_index:
  assumes "heap_wf h" "heap_indexed h" "1 \<le> k" "k \<le> cur_len h"
  shows "index_ok (remove_slot h k)"
proof -
  have idx: "index_of (remove_slot h k) = (index_of h)(heap_get h (cur_len h) := int k)"
    using assms by (simp add: remove_slot_def index_of_set heap_indexed_def)
  have "heap_get h i \<noteq> heap_get h (cur_len h)" if "1 \<le> i" "i \<le> cur_len h - 1" for i
  proof -
    from that assms have "i \<noteq> cur_len h" "i \<le> cur_len h" by auto
    with index_ok_inj [of h i "cur_len h"] that assms show ?thesis by (auto simp: heap_indexed_def)
  qed
  with assms show ?thesis
    by (auto simp: index_ok_def idx remove_slot_get heap_indexed_def)
qed

lemma heap_remove_at_slot:
  "1 \<le> k \<Longrightarrow> k \<le> cur_len h \<Longrightarrow>
   heap_remove_at h k =
     (let (h2, k') = bubble_up (remove_slot h k) k in (Some (heap_get h k), max_heapify h2 k'))"
  by (simp add: heap_remove_at_def remove_slot_def Let_def split: prod.splits)

text \<open>Removing the last node sifts nothing.\<close>

lemma max_heapify_beyond: "cur_len h < 2 * i \<Longrightarrow> max_heapify h i = h"
  by (subst max_heapify.simps) (auto simp: max_child_def left_node_def right_node_def Let_def)

context heap_order
begin

lemma hole_remove_slot:
  assumes "cmp_fn h = cmp" "heap_inv h" "1 \<le> k" "k < cur_len h"
  shows "hole (remove_slot h k) k"
proof -
  from assms have wf: "heap_wf h" and E: "\<And>i. 2 \<le> i \<Longrightarrow> i \<le> cur_len h \<Longrightarrow>
      0 \<le> cmp (heap_get h (i div 2)) (heap_get h i)"
    by (auto simp: heap_inv_def is_heap_def edge_ok_def)
  note get = remove_slot_get [OF wf \<open>1 \<le> k\<close> less_imp_le [OF \<open>k < cur_len h\<close>]]
  have "edge_ok (remove_slot h k) i" if "2 \<le> i" "i \<le> cur_len h - 1" "i \<noteq> k" "i div 2 \<noteq> k" for i
    using E [of i] that by (simp add: edge_ok_def get assms(1))
  moreover have "0 \<le> cmp (heap_get (remove_slot h k) (k div 2)) (heap_get (remove_slot h k) i)"
    if "2 \<le> k" "i div 2 = k" "i \<le> cur_len h - 1" for i
  proof -
    have "0 \<le> cmp (heap_get h (k div 2)) (heap_get h k)" using E [of k] that assms by simp
    moreover have "0 \<le> cmp (heap_get h k) (heap_get h i)" using E [of i] that by auto
    ultimately have "0 \<le> cmp (heap_get h (k div 2)) (heap_get h i)" by (rule cmp_trans)
    moreover have "k div 2 \<noteq> k" "1 \<le> k div 2" "i \<noteq> k" "1 \<le> i" using that by auto
    ultimately show ?thesis by (simp add: get)
  qed
  then have "bridge (remove_slot h k) k"
    by (simp add: bridge_def assms(1))
  ultimately show ?thesis by (simp add: hole_def)
qed

lemma push_correct:
  assumes "cmp_fn h = cmp" "heap_inv h"
  shows "fst (ast_heap_push True h x) = 0"
    and "heap_inv (snd (ast_heap_push True h x))"
    and "heap_elems (snd (ast_heap_push True h x)) = add_mset x (heap_elems h)"
    and "cmp_fn (snd (ast_heap_push True h x)) = cmp"
    and "heap_indexed h \<Longrightarrow> x \<notin># heap_elems h \<Longrightarrow> heap_indexed (snd (ast_heap_push True h x))"
proof -
  let ?s = "push_slot h x" and ?n = "Suc (cur_len h)"
  from assms have wf: "heap_wf h" and E: "\<And>i. 2 \<le> i \<Longrightarrow> i \<le> cur_len h \<Longrightarrow> edge_ok h i"
    by (auto simp: heap_inv_def is_heap_def)
  note s_wf = push_slot_wf [OF wf, of x] and get = push_slot_get [OF wf]
  have "edge_ok ?s i" if "2 \<le> i" "i \<le> cur_len h" for i
  proof -
    from that have "i div 2 \<noteq> Suc (cur_len h)" by auto
    with E [OF that] that show ?thesis by (simp add: edge_ok_def get)
  qed
  then have hole: "hole ?s ?n" by (auto simp: hole_def bridge_def)
  have kids: "children_ok ?s ?n" by (auto simp: children_ok_def)
  have s: "cmp_fn ?s = cmp" using assms by simp
  note up = bubble_up_sifts [OF s s_wf hole] and same = same_content_bubble_up [OF s_wf, of ?n]
  from up kids same have inv: "heap_inv (fst (bubble_up ?s ?n))"
    by (auto simp: heap_inv_def same_content_def intro: is_heap_iff)
  show "fst (ast_heap_push True h x) = 0" by (simp add: ast_heap_push_slot)
  from inv show "heap_inv (snd (ast_heap_push True h x))" by (simp add: ast_heap_push_slot)
  from same show "heap_elems (snd (ast_heap_push True h x)) = add_mset x (heap_elems h)"
    by (simp add: ast_heap_push_slot same_content_def push_slot_elems [OF wf])
  from same s show "cmp_fn (snd (ast_heap_push True h x)) = cmp"
    by (simp add: ast_heap_push_slot same_content_def)
  show "heap_indexed (snd (ast_heap_push True h x))" if "heap_indexed h" "x \<notin># heap_elems h"
    using same push_slot_index [OF wf that] that
    by (simp add: ast_heap_push_slot same_content_def heap_indexed_def)
qed

lemma remove_at_correct:
  assumes "cmp_fn h = cmp" "heap_inv h" "1 \<le> k" "k \<le> cur_len h"
  shows "fst (heap_remove_at h k) = Some (heap_get h k)"
    and "heap_inv (snd (heap_remove_at h k))"
    and "heap_elems h = add_mset (heap_get h k) (heap_elems (snd (heap_remove_at h k)))"
    and "cmp_fn (snd (heap_remove_at h k)) = cmp"
    and "heap_indexed h \<Longrightarrow> heap_indexed (snd (heap_remove_at h k))"
proof -
  let ?s = "remove_slot h k" and ?h' = "snd (heap_remove_at h k)"
  from assms have wf: "heap_wf h" by (simp add: heap_inv_def)
  note s_wf = remove_slot_wf [OF wf, of k]
  have s: "cmp_fn ?s = cmp" using assms by simp
  have "same_content ?s ?h' \<and> is_heap ?h'"
  proof (cases "k = cur_len h")
    case True
    have "edge_ok h k" if "1 < k" using that True assms by (simp add: heap_inv_def is_heap_def)
    moreover have "k div 2 \<noteq> k" using \<open>1 \<le> k\<close> by linarith
    ultimately have "\<not> (k > 1 \<and> cmp_fn ?s (heap_get ?s (parent_node k)) (heap_get ?s k) < 0)"
      using True assms by (auto simp: edge_ok_def parent_node_def remove_slot_get [OF wf])
    then have "bubble_up ?s k = (?s, k)" by (subst bubble_up.simps) auto
    then have h': "?h' = ?s"
      using assms True by (simp add: heap_remove_at_slot max_heapify_beyond)
    moreover have "edge_ok ?s i" if "2 \<le> i" "i \<le> cur_len h - 1" for i
      using that assms True by (auto simp: heap_inv_def is_heap_def edge_ok_def remove_slot_get [OF wf])
    ultimately show ?thesis by (simp add: same_content_refl s_wf is_heap_def)
  next
    case False
    with assms have k: "1 \<le> k" "k < cur_len h" "k \<le> cur_len ?s" by auto
    obtain h2 k2 where b: "bubble_up ?s k = (h2, k2)" by fastforce
    with same_content_bubble_up [OF s_wf k(1,3)]
    have 1: "same_content ?s h2" "1 \<le> k2" by auto
    with s have 2: "cmp_fn h2 = cmp" "heap_wf h2" by (auto simp: same_content_def)
    have "down_hole h2 k2"
      using bubble_up_sifts [OF s s_wf hole_remove_slot [OF assms(1-2) k(1,2)] k(1,3)] b by simp
    then have "is_heap (max_heapify h2 k2)" by (rule max_heapify_heap [OF 2 _ 1(2)])
    moreover have "same_content ?s (max_heapify h2 k2)"
      by (rule same_content_trans [OF 1(1) same_content_max_heapify [OF 2(2) 1(2)]])
    ultimately show ?thesis using b k by (simp add: heap_remove_at_slot)
  qed
  then have same: "same_content ?s ?h'" and hp: "is_heap ?h'" by auto
  from assms show "fst (heap_remove_at h k) = Some (heap_get h k)"
    by (simp add: heap_remove_at_slot split: prod.splits)
  from same hp show "heap_inv ?h'" by (simp add: heap_inv_def same_content_def)
  from same show "heap_elems h = add_mset (heap_get h k) (heap_elems ?h')"
    by (simp add: remove_slot_elems [OF wf assms(3,4)] same_content_def)
  from same s show "cmp_fn ?h' = cmp" by (simp add: same_content_def)
  show "heap_indexed ?h'" if "heap_indexed h"
    using same remove_slot_index [OF wf that assms(3,4)] that
    by (simp add: same_content_def heap_indexed_def)
qed

end

section \<open>The priority-queue contract\<close>

text \<open>
  What a client such as the scheduler relies on. \<open>urgent x y\<close> says that \<open>x\<close> need not
  come after \<open>y\<close>; a queue holds each element once and can drop any element it holds.
\<close>

locale prio_queue =
  fixes urgent :: "'a \<Rightarrow> 'a \<Rightarrow> bool"
    and push :: "'q \<Rightarrow> 'a \<Rightarrow> 'q"
    and pop :: "'q \<Rightarrow> 'a option \<times> 'q"
    and remove :: "'q \<Rightarrow> 'a \<Rightarrow> 'a option \<times> 'q"
    and peek :: "'q \<Rightarrow> 'a option"
    and elems :: "'q \<Rightarrow> 'a set"
    and inv :: "'q \<Rightarrow> bool"
  assumes elems_finite: "inv q \<Longrightarrow> finite (elems q)"
    and push_elem: "inv q \<Longrightarrow> x \<notin> elems q \<Longrightarrow>
          inv (push q x) \<and> elems (push q x) = insert x (elems q)"
    and pop_empty: "inv q \<Longrightarrow> elems q = {} \<Longrightarrow> pop q = (None, q) \<and> peek q = None"
    and pop_elem: "inv q \<Longrightarrow> elems q \<noteq> {} \<Longrightarrow>
          \<exists>x \<in> elems q. fst (pop q) = Some x \<and> peek q = Some x \<and> inv (snd (pop q)) \<and>
            elems (snd (pop q)) = elems q - {x} \<and> (\<forall>y \<in> elems q. urgent x y)"
    and remove_elem: "inv q \<Longrightarrow> x \<in> elems q \<Longrightarrow>
          fst (remove q x) = Some x \<and> inv (snd (remove q x)) \<and>
          elems (snd (remove q x)) = elems q - {x}"
begin

lemma peek_Some:
  assumes "inv q" "peek q = Some x"
  shows "x \<in> elems q \<and> fst (pop q) = Some x \<and> inv (snd (pop q)) \<and>
         elems (snd (pop q)) = elems q - {x} \<and> (\<forall>y \<in> elems q. urgent x y)"
proof -
  have "elems q \<noteq> {}" using pop_empty [OF assms(1)] assms(2) by auto
  with pop_elem [OF assms(1)] assms(2) show ?thesis by auto
qed

lemma peek_None: "inv q \<Longrightarrow> peek q = None \<longleftrightarrow> elems q = {}"
  using pop_empty [of q] pop_elem [of q] by (cases "elems q = {}") auto

lemma pop_None: "inv q \<Longrightarrow> fst (pop q) = None \<longleftrightarrow> elems q = {}"
  using pop_empty [of q] pop_elem [of q] by (cases "elems q = {}") auto

end

text \<open>The elements a run of pops delivers, in order.\<close>

inductive pop_run :: "('q \<Rightarrow> 'a option \<times> 'q) \<Rightarrow> 'q \<Rightarrow> 'a list \<Rightarrow> 'q \<Rightarrow> bool"
  for pop :: "'q \<Rightarrow> 'a option \<times> 'q" where
  pop_run_nil: "pop_run pop q [] q"
| pop_run_cons: "pop q = (Some x, q') \<Longrightarrow> pop_run pop q' xs q'' \<Longrightarrow> pop_run pop q (x # xs) q''"

context prio_queue
begin

text \<open>Pops come out in the order of urgency and leave exactly the other elements.\<close>

lemma pop_run_sorted:
  "pop_run pop q xs q' \<Longrightarrow> inv q \<Longrightarrow>
   sorted_wrt urgent xs \<and> distinct xs \<and> set xs \<subseteq> elems q \<and> elems q' = elems q - set xs \<and> inv q' \<and>
   (\<forall>x \<in> set xs. \<forall>y \<in> elems q'. urgent x y)"
proof (induction rule: pop_run.induct)
  case (pop_run_cons q x q' xs q'')
  have "elems q \<noteq> {}" using pop_empty [OF pop_run_cons.prems] pop_run_cons.hyps(1) by auto
  with pop_elem [OF pop_run_cons.prems] pop_run_cons.hyps(1)
  have x: "x \<in> elems q" "inv q'" "elems q' = elems q - {x}" "\<forall>y \<in> elems q. urgent x y" by auto
  with pop_run_cons.IH show ?case by auto
qed simp

lemma pop_run_all:
  assumes "inv q"
  shows "\<exists>xs q'. pop_run pop q xs q' \<and> fst (pop q') = None"
  using assms
proof (induction "card (elems q)" arbitrary: q)
  case 0
  then have "elems q = {}" using elems_finite by auto
  with 0 pop_empty [of q] pop_run_nil [of pop q] show ?case by (metis fst_conv)
next
  case (Suc n)
  then have ne: "elems q \<noteq> {}" by auto
  from pop_elem [OF Suc.prems ne] obtain x where x: "x \<in> elems q" "fst (pop q) = Some x"
    "inv (snd (pop q))" "elems (snd (pop q)) = elems q - {x}" by auto
  with Suc elems_finite have "n = card (elems (snd (pop q)))" by simp
  from Suc.hyps(1) [OF this x(3)] obtain xs q' where
    "pop_run pop (snd (pop q)) xs q'" "fst (pop q') = None" by blast
  with x show ?case by (metis pop_run_cons prod.collapse)
qed

end

text \<open>A heap whose comparison is an order and that stores indices is a priority queue.\<close>

definition pq_ok :: "('a \<Rightarrow> 'a \<Rightarrow> int) \<Rightarrow> 'a ast_heap \<Rightarrow> bool" where
  "pq_ok cmp h \<longleftrightarrow> cmp_fn h = cmp \<and> heap_inv h \<and> heap_indexed h"

definition heap_set_of :: "'a ast_heap \<Rightarrow> 'a set" where
  "heap_set_of h = set_mset (heap_elems h)"

lemma heap_set_of_empty: "heap_set_of h = {} \<longleftrightarrow> cur_len h = 0"
  by (auto simp: heap_set_of_def heap_elems_def)

lemma heap_elems_once:
  assumes "heap_indexed h" "heap_elems h = add_mset x M"
  shows "x \<notin># M"
proof
  assume x: "x \<in># M"
  from assms(2) have "x \<in># heap_elems h" by simp
  then obtain i where i: "1 \<le> i" "i \<le> cur_len h" "x = heap_get h i"
    by (auto simp: heap_elems_def)
  with assms(2) mset_upto_remove [OF i(1,2), of "heap_get h"]
  have "M = image_mset (heap_get h) (mset_set ({1..cur_len h} - {i}))" by (simp add: heap_elems_def)
  with x have "x \<in> heap_get h ` ({1..cur_len h} - {i})" by simp
  then obtain j where "x = heap_get h j" "j \<in> {1..cur_len h} - {i}" by (rule imageE)
  with i index_ok_inj [of h i j] assms(1) show False by (simp add: heap_indexed_def)
qed

lemma heap_set_of_remove:
  "heap_indexed h \<Longrightarrow> heap_elems h = add_mset x (heap_elems h') \<Longrightarrow> heap_set_of h' = heap_set_of h - {x}"
  using heap_elems_once [of h x] by (auto simp: heap_set_of_def)

lemma heap_remove_by_index:
  assumes "heap_indexed h" "x \<in> heap_set_of h"
  obtains i where "1 \<le> i" "i \<le> cur_len h" "heap_get h i = x" "ast_heap_remove h x = heap_remove_at h i"
proof -
  from assms(2) obtain i where i: "1 \<le> i" "i \<le> cur_len h" "x = heap_get h i"
    by (auto simp: heap_set_of_def heap_elems_def)
  with assms(1) have "get_index h x = int i"
    by (simp add: heap_indexed_def index_ok_def get_index_def)
  with i that show ?thesis by (simp add: ast_heap_remove_def)
qed

sublocale heap_order \<subseteq> prio_queue "\<lambda>x y. 0 \<le> cmp x y" "\<lambda>h x. snd (ast_heap_push True h x)"
  ast_heap_pop ast_heap_remove "\<lambda>h. ast_heap_peek h 1" heap_set_of "pq_ok cmp"
proof (unfold_locales, goal_cases)
  case (1 q)
  show ?case by (simp add: heap_set_of_def)
next
  case (2 q x)
  with push_correct [of q x] show ?case by (simp add: pq_ok_def heap_set_of_def)
next
  case (3 q)
  then show ?case
    by (simp add: heap_set_of_empty ast_heap_pop_def heap_remove_at_def ast_heap_peek_def)
next
  case (4 q)
  then have q: "cmp_fn q = cmp" "heap_inv q" "heap_indexed q" "1 \<le> cur_len q"
    by (auto simp: pq_ok_def heap_set_of_empty)
  let ?x = "heap_get q 1"
  note r = remove_at_correct [OF q(1,2) order_refl q(4)]
  have "?x \<in> heap_set_of q" using r(3) by (simp add: heap_set_of_def)
  moreover have "\<forall>y \<in> heap_set_of q. 0 \<le> cmp ?x y"
    using root_is_max [OF q(1)] q(2) by (auto simp: heap_set_of_def heap_elems_def heap_inv_def)
  ultimately show ?case
    using r q heap_set_of_remove [OF q(3) r(3)]
    by (intro bexI [of _ ?x]) (auto simp: ast_heap_pop_def ast_heap_peek_def pq_ok_def)
next
  case (5 q x)
  then have q: "cmp_fn q = cmp" "heap_inv q" "heap_indexed q" by (auto simp: pq_ok_def)
  from heap_remove_by_index [OF q(3) 5(2)] obtain i where
    i: "1 \<le> i" "i \<le> cur_len q" "heap_get q i = x" "ast_heap_remove q x = heap_remove_at q i" .
  with remove_at_correct [OF q(1,2) i(1,2)] q heap_set_of_remove [OF q(3)] show ?case
    by (simp add: pq_ok_def)
qed

section \<open>Verification routine and creation\<close>

lemma ast_heap_verify_iff: "ast_heap_verify h = 0 \<longleftrightarrow> is_heap h"
proof -
  let ?ok = "\<lambda>i. 0 \<le> cmp_fn h (heap_get h (i div 2)) (heap_get h i)"
  have "(\<forall>i. 1 \<le> i \<and> i \<le> cur_len h div 2 \<longrightarrow>
           (left_node i \<le> cur_len h \<longrightarrow> ?ok (left_node i)) \<and> (right_node i \<le> cur_len h \<longrightarrow> ?ok (right_node i)))
        \<longleftrightarrow> (\<forall>i. 2 \<le> i \<and> i \<le> cur_len h \<longrightarrow> ?ok i)" (is "?A \<longleftrightarrow> ?B")
  proof
    assume A: ?A
    show ?B
    proof (intro allI impI)
      fix i assume i: "2 \<le> i \<and> i \<le> cur_len h"
      then have "i = left_node (i div 2) \<or> i = right_node (i div 2)" "1 \<le> i div 2" "i div 2 \<le> cur_len h div 2"
        by (auto simp: left_node_def right_node_def div_le_mono)
      with A i show "?ok i" by metis
    qed
  next
    assume B: ?B
    show ?A
    proof (intro allI impI conjI)
      fix i assume "1 \<le> i \<and> i \<le> cur_len h div 2"
      then have "2 \<le> left_node i" "2 \<le> right_node i" by (auto simp: left_node_def right_node_def)
      with B show "left_node i \<le> cur_len h \<Longrightarrow> ?ok (left_node i)"
        and "right_node i \<le> cur_len h \<Longrightarrow> ?ok (right_node i)" by auto
    qed
  qed
  then show ?thesis
    by (auto simp: ast_heap_verify_def is_heap_def edge_ok_def left_node_def right_node_def less_Suc_eq_le not_less)
qed

lemma ast_heap_create_ok:
  "ast_heap_create True n (Some f) off mem = Some h \<Longrightarrow>
   heap_inv h \<and> cmp_fn h = f \<and> index_offset h = off \<and> heap_elems h = {#} \<and> (0 \<le> off \<longrightarrow> heap_indexed h)"
  by (auto simp: ast_heap_create_def Let_def heap_inv_def heap_wf_def is_heap_def heap_elems_def
      heap_indexed_def index_ok_def)

context heap_order
begin

lemma pops_all_in_order:
  assumes "pq_ok cmp h"
  shows "\<exists>xs h'. pop_run ast_heap_pop h xs h' \<and> ast_heap_size h' = 0 \<and> distinct xs \<and>
    set xs = heap_set_of h \<and> sorted_wrt (\<lambda>x y. 0 \<le> cmp x y) xs"
proof -
  from pop_run_all [OF assms] obtain xs h' where r: "pop_run ast_heap_pop h xs h'" "fst (ast_heap_pop h') = None"
    by blast
  note s = pop_run_sorted [OF r(1) assms]
  with r(2) have "heap_set_of h' = {}" using pop_None by blast
  with s r(1) show ?thesis by (auto simp: heap_set_of_empty ast_heap_size_def)
qed

end

section \<open>Properties\<close>

text \<open>A heap of integers, largest first, built by the heap's own operations.\<close>

definition int_heap :: "int list \<Rightarrow> int ast_heap" where
  "int_heap xs = foldl (\<lambda>h x. snd (ast_heap_push True h x))
     (the (ast_heap_create True 2 (Some (\<lambda>a b. a - b)) 0 (\<lambda>_. 0))) xs"

interpretation ih: heap_order "\<lambda>a b. a - b :: int"
  by unfold_locales auto

lemma int_heap_ok: "distinct xs \<Longrightarrow> pq_ok (\<lambda>a b. a - b) (int_heap xs) \<and> heap_set_of (int_heap xs) = set xs"
proof (induction xs rule: rev_induct)
  case Nil
  obtain h where h: "ast_heap_create True 2 (Some (\<lambda>a b. a - b :: int)) 0 (\<lambda>_. 0) = Some h"
    by (simp add: ast_heap_create_def Let_def)
  with ast_heap_create_ok [OF h] show ?case by (simp add: int_heap_def pq_ok_def heap_set_of_def)
next
  case (snoc x xs)
  then show ?case using ih.push_elem [of "int_heap xs" x] by (simp add: int_heap_def)
qed

text \<open>
  C5: \<open>ast_heap_push\<close> succeeds when its allocation does, keeps the heap order and the array bounds,
  adds exactly the new element, and keeps every element's recorded index right.
\<close>

theorem heap_push_correct:
  assumes "heap_order (cmp_fn h)" "heap_inv h"
  shows "fst (ast_heap_push True h x) = 0 \<and> heap_inv (snd (ast_heap_push True h x)) \<and>
    heap_elems (snd (ast_heap_push True h x)) = add_mset x (heap_elems h) \<and>
    (heap_indexed h \<and> x \<notin># heap_elems h \<longrightarrow> heap_indexed (snd (ast_heap_push True h x)))"
  using heap_order.push_correct [OF assms(1) refl assms(2), of x] by blast

theorem heap_push_correct_witness:
  "heap_inv (int_heap [3, 8, 5]) \<and> heap_indexed (snd (ast_heap_push True (int_heap [3, 8, 5]) 9))"
proof -
  have "pq_ok (\<lambda>a b. a - b) (int_heap [3, 8, 5])" "heap_set_of (int_heap [3, 8, 5]) = {3, 8, 5}"
    using int_heap_ok [of "[3, 8, 5]"] by auto
  then show ?thesis
    using heap_push_correct [of "int_heap [3, 8, 5]" 9] ih.heap_order_axioms
    by (auto simp: pq_ok_def heap_set_of_def)
qed

text \<open>
  C4: \<open>ast_heap_pop\<close> on a non-empty heap returns an element no other element exceeds, removes exactly
  that one occurrence, and leaves a heap.
\<close>

theorem heap_pop_correct:
  assumes "heap_order (cmp_fn h)" "heap_inv h" "ast_heap_size h \<noteq> 0"
  shows "\<exists>x h'. ast_heap_pop h = (Some x, h') \<and> heap_elems h = add_mset x (heap_elems h') \<and>
    (\<forall>y. y \<in># heap_elems h \<longrightarrow> 0 \<le> cmp_fn h x y) \<and> heap_inv h' \<and> (heap_indexed h \<longrightarrow> heap_indexed h')"
proof -
  have len: "1 \<le> cur_len h" using assms(3) by (simp add: ast_heap_size_def)
  have "0 \<le> cmp_fn h (heap_get h 1) y" if "y \<in># heap_elems h" for y
    using heap_order.root_is_max [OF assms(1) refl] assms(2) that by (auto simp: heap_inv_def heap_elems_def)
  with heap_order.remove_at_correct [OF assms(1) refl assms(2) order_refl len] show ?thesis
    by (intro exI [of _ "heap_get h 1"] exI [of _ "snd (ast_heap_pop h)"]) (auto simp: ast_heap_pop_def prod_eq_iff)
qed

theorem heap_pop_correct_witness:
  "\<exists>x h'. ast_heap_pop (int_heap [3, 8, 5]) = (Some x, h') \<and> 3 \<le> x \<and> 8 \<le> x \<and> 5 \<le> x"
proof -
  have h: "pq_ok (\<lambda>a b. a - b) (int_heap [3, 8, 5])" "heap_set_of (int_heap [3, 8, 5]) = {3, 8, 5}"
    using int_heap_ok [of "[3, 8, 5]"] by auto
  then have "ast_heap_size (int_heap [3, 8, 5]) \<noteq> 0"
    using heap_set_of_empty [of "int_heap [3, 8, 5]"] by (auto simp: ast_heap_size_def)
  with h show ?thesis
    using heap_pop_correct [of "int_heap [3, 8, 5]"] ih.heap_order_axioms
    by (force simp: pq_ok_def heap_set_of_def)
qed

text \<open>
  \<open>ast_heap_remove\<close> of a stored element finds it through its recorded index, removes exactly it,
  and keeps the heap and the indices of all other elements in order.
\<close>

theorem heap_remove_correct:
  assumes "heap_order (cmp_fn h)" "heap_inv h" "heap_indexed h" "x \<in># heap_elems h"
  shows "fst (ast_heap_remove h x) = Some x \<and>
    heap_elems h = add_mset x (heap_elems (snd (ast_heap_remove h x))) \<and>
    heap_inv (snd (ast_heap_remove h x)) \<and> heap_indexed (snd (ast_heap_remove h x)) \<and>
    x \<notin># heap_elems (snd (ast_heap_remove h x))"
proof -
  from assms(3,4) obtain i where i: "1 \<le> i" "i \<le> cur_len h" "heap_get h i = x"
    "ast_heap_remove h x = heap_remove_at h i"
    using heap_remove_by_index [of h x] by (auto simp: heap_set_of_def)
  with heap_order.remove_at_correct [OF assms(1) refl assms(2) i(1,2)] heap_elems_once [OF assms(3)] assms(3)
  show ?thesis by simp
qed

theorem heap_remove_correct_witness:
  "fst (ast_heap_remove (int_heap [3, 8, 5]) 5) = Some 5 \<and>
   5 \<notin># heap_elems (snd (ast_heap_remove (int_heap [3, 8, 5]) 5))"
proof -
  have "pq_ok (\<lambda>a b. a - b) (int_heap [3, 8, 5])" "heap_set_of (int_heap [3, 8, 5]) = {3, 8, 5}"
    using int_heap_ok [of "[3, 8, 5]"] by auto
  then show ?thesis
    using heap_remove_correct [of "int_heap [3, 8, 5]" 5] ih.heap_order_axioms
    by (auto simp: pq_ok_def heap_set_of_def)
qed

text \<open>
  Popping until the heap is empty terminates and delivers every element once, in an order in
  which no element is exceeded by a later one.
\<close>

theorem heap_drains_in_order:
  assumes "heap_order cmp" "pq_ok cmp h"
  shows "\<exists>xs h'. pop_run ast_heap_pop h xs h' \<and> ast_heap_size h' = 0 \<and> distinct xs \<and>
    set xs = heap_set_of h \<and> sorted_wrt (\<lambda>x y. 0 \<le> cmp x y) xs"
  by (rule heap_order.pops_all_in_order [OF assms])

theorem heap_drains_in_order_witness:
  "\<exists>xs h'. pop_run ast_heap_pop (int_heap [3, 8, 5]) xs h' \<and> set xs = {3, 8, 5} \<and>
    sorted_wrt (\<lambda>x y. 0 \<le> x - y) xs"
  using heap_drains_in_order [OF ih.heap_order_axioms, of "int_heap [3, 8, 5]"] int_heap_ok [of "[3, 8, 5]"]
  by auto

end
