(* ===== verification/Ast_Hashtab.thy ===== *)
theory Ast_Hashtab
  imports Ast_Prelude
begin

unbundle bit_operations_syntax

text \<open>
  The hash table of \<open>main/hashtab.c\<close>: an array of collision chains, a list that threads
  through all buckets, the prime sizes the table grows to, insertion, lookup, removal and
  resizing; and the object-table contract its clients rely on.
\<close>

section \<open>Primes and sizes\<close>

lemma div_le_abs: "(a::int) div b \<le> \<bar>a\<bar>"
proof -
  have pos: "x div y \<le> \<bar>x\<bar>" if "0 < y" for x y :: int
    using that zdiv_mono2 [of x 1 y] div_neg_pos_less0 [of x y] by (cases "0 \<le> x") auto
  show ?thesis
    using pos [of b a] pos [of "- b" "- a"] by (cases b "0::int" rule: linorder_cases) auto
qed

text \<open>
  The loop of \<open>ast_is_prime\<close> over \<open>tnum\<close> and \<open>limit\<close>. Both are positive whenever the
  body runs, so C's \<open>/\<close> and \<open>%\<close> agree with \<open>div\<close> and \<open>mod\<close>.
\<close>

function prime_loop :: "int \<Rightarrow> int \<Rightarrow> int \<Rightarrow> bool" where
  "prime_loop num tnum limit =
     (if tnum < limit then (if num mod tnum = 0 then False else prime_loop num (tnum + 2) (num div tnum))
      else True)"
  by pat_completeness auto
termination
proof (relation "measure (\<lambda>(num, tnum, limit). nat (max limit \<bar>num\<bar> - tnum))", goal_cases)
  case (2 num tnum limit)
  with div_le_abs [of num tnum] show ?case by auto
qed simp

declare prime_loop.simps [simp del]

definition ast_is_prime :: "int \<Rightarrow> bool" where
  "ast_is_prime num = (if even num then False else prime_loop num 3 num)"

text \<open>The search \<open>while (!ast_is_prime(i)) i++\<close> stops because there are infinitely many primes.\<close>

definition prime_number :: "int \<Rightarrow> bool" where
  "prime_number p \<longleftrightarrow> 2 \<le> p \<and> (\<forall>d. 1 \<le> d \<longrightarrow> d dvd p \<longrightarrow> d = 1 \<or> d = p)"

lemma less_of_div_le:
  assumes "0 < k" "(n::int) div k \<le> m"
  shows "n < (m + 1) * k"
proof -
  have "n = k * (n div k) + n mod k" by simp
  also have "\<dots> < k * (n div k) + k" using pos_mod_bound [OF assms(1), of n] by linarith
  also have "\<dots> \<le> k * m + k" using assms by (simp add: mult_left_mono)
  finally show ?thesis by (simp add: algebra_simps)
qed

lemma even_dvd_odd: "odd (n::int) \<Longrightarrow> even e \<Longrightarrow> \<not> e dvd n"
  using dvd_trans by blast

lemma prime_loop_step:
  assumes "tnum < limit"
  shows "prime_loop num tnum limit \<longleftrightarrow> \<not> tnum dvd num \<and> prime_loop num (tnum + 2) (num div tnum)"
  using assms by (auto simp: prime_loop.simps [of num tnum limit] dvd_eq_mod_eq_0)

lemma prime_loop_stop: "\<not> tnum < limit \<Longrightarrow> prime_loop num tnum limit"
  by (simp add: prime_loop.simps)

text \<open>
  The loop decides whether \<open>num\<close> has a divisor between \<open>tnum\<close> and its square root, as long
  as the limit is the one the previous round computed.
\<close>

lemma no_divisor_beyond_limit:
  assumes "3 \<le> tnum" "odd tnum" "(num::int) \<ge> 3"
    and "limit = (if tnum = 3 then num else num div (tnum - 2))" "limit \<le> tnum"
    and "tnum \<le> d" "d * d \<le> num"
  shows False
proof (cases "tnum = 3")
  case True
  with assms mult_mono [of 3 d 3 d] show ?thesis by auto
next
  case ne: False
  with assms have t: "5 \<le> tnum" by (cases "tnum = 4") auto
  with assms ne less_of_div_le [of "tnum - 2" num tnum] have "num < (tnum + 1) * (tnum - 2)" by simp
  also have "\<dots> \<le> tnum * tnum" using t by (simp add: algebra_simps)
  also have "\<dots> \<le> d * d" using assms t by (intro mult_mono) auto
  finally show ?thesis using assms by simp
qed

lemma prime_loop_correct:
  "3 \<le> tnum \<Longrightarrow> odd tnum \<Longrightarrow> odd num \<Longrightarrow> 3 \<le> num \<Longrightarrow>
   limit = (if tnum = 3 then num else num div (tnum - 2)) \<Longrightarrow>
   \<forall>d. 1 < d \<and> d < tnum \<longrightarrow> \<not> d dvd num \<Longrightarrow>
   prime_loop num tnum limit \<longleftrightarrow> (\<forall>d. 1 < d \<and> d < num \<longrightarrow> \<not> d dvd num)"
proof (induction num tnum limit rule: prime_loop.induct)
  case (1 num tnum limit)
  note prems = "1.prems"
  show ?case
  proof (cases "tnum < limit")
    case False
    have "\<not> d dvd num" if d: "1 < d" "d < num" for d
    proof
      assume "d dvd num"
      then obtain e where e: "num = d * e" by blast
      with d prems(4) have e1: "1 < e" by (cases "e = 1") (auto simp: zero_less_mult_iff dest: leI)
      define m where "m = min d e"
      have "m dvd num" "1 < m" "m * m \<le> num"
        using d e e1 by (auto simp: m_def min_def intro: mult_left_mono mult_right_mono)
      moreover from this prems(6) have "tnum \<le> m" by force
      ultimately show False
        using no_divisor_beyond_limit [OF prems(1,2) _ prems(5)] prems(4) False by auto
    qed
    with False show ?thesis by (auto simp: prime_loop_stop)
  next
    case True
    have lim: "limit \<le> num" using prems div_le_abs [of num "tnum - 2"] by auto
    show ?thesis
    proof (cases "tnum dvd num")
      case dvd: True
      with True lim prems(1) show ?thesis by (auto simp: prime_loop_step intro!: exI [of _ tnum])
    next
      case ndvd: False
      have "\<not> e dvd num" if "1 < e" "e < tnum + 2" for e
      proof -
        consider "e < tnum" | "e = tnum" | "e = tnum + 1" using \<open>e < tnum + 2\<close> by linarith
        then show ?thesis
          using that ndvd prems even_dvd_odd [of num e] by cases auto
      qed
      with 1 True ndvd show ?thesis by (simp add: prime_loop_step dvd_eq_mod_eq_0)
    qed
  qed
qed

lemma prime_number_iff: "prime_number n \<longleftrightarrow> 2 \<le> n \<and> (\<forall>d. 1 < d \<and> d < n \<longrightarrow> \<not> d dvd n)"
proof -
  have "d \<le> n" if "d dvd n" "2 \<le> n" for d
    using that by (simp add: zdvd_imp_le)
  then show ?thesis
    unfolding prime_number_def by (metis less_le_not_le order_le_less)
qed

lemma ast_is_prime_iff: "3 \<le> n \<Longrightarrow> odd n \<Longrightarrow> ast_is_prime n \<longleftrightarrow> prime_number n"
proof -
  assume n: "3 \<le> n" "odd n"
  have "\<not> d dvd n" if "1 < d" "d < 3" for d
    using that even_dvd_odd [OF n(2), of d] by (cases "d = 2") auto
  with n have "prime_loop n 3 n \<longleftrightarrow> (\<forall>d. 1 < d \<and> d < n \<longrightarrow> \<not> d dvd n)"
    by (intro prime_loop_correct) auto
  with n show ?thesis by (simp add: ast_is_prime_def prime_number_iff)
qed

lemma ast_is_prime_odd: "ast_is_prime n \<Longrightarrow> odd n"
  by (auto simp: ast_is_prime_def split: if_splits)

text \<open>Euclid: the least divisor above 1 of the successor of a product is a new prime.\<close>

lemma least_divisor_prime:
  assumes "2 \<le> (m::int)"
  obtains p where "prime_number p" "p dvd m"
proof -
  let ?P = "\<lambda>k. 2 \<le> k \<and> int k dvd m"
  define k where "k = (LEAST k. ?P k)"
  have k: "?P k" unfolding k_def by (rule LeastI [of ?P "nat m"]) (use assms in auto)
  have "\<not> d dvd int k" if "1 < d" "d < int k" for d
  proof
    assume "d dvd int k"
    with k that have "?P (nat d)" by (auto intro: dvd_trans)
    then have "k \<le> nat d" unfolding k_def by (rule Least_le)
    with that show False by auto
  qed
  with k that [of "int k"] show ?thesis by (auto simp: prime_number_iff)
qed

lemma prime_above:
  obtains p where "n \<le> p" "3 \<le> p" "ast_is_prime p"
proof -
  define N where "N = max n 3"
  let ?m = "(\<Prod>i\<in>{1..N}. i) + 1"
  have "0 < (\<Prod>i\<in>{1..N}. i)" by (rule prod_pos) simp
  then obtain p where p: "prime_number p" "p dvd ?m"
    using least_divisor_prime [of ?m] by auto
  have "N < p"
  proof (rule ccontr)
    assume "\<not> N < p"
    with p(1) have "p dvd (\<Prod>i\<in>{1..N}. i)"
      by (intro dvd_prodI [where f = "\<lambda>i. i"]) (auto simp: prime_number_def)
    with p(2) have "p dvd 1" by (simp add: dvd_add_right_iff)
    with p(1) show False by (auto simp: prime_number_def)
  qed
  then have b: "n \<le> p" "3 \<le> p" by (auto simp: N_def)
  moreover have "odd p" using p(1) b by (auto simp: prime_number_iff)
  ultimately show ?thesis using that p(1) ast_is_prime_iff by blast
qed

definition steps_to_prime :: "int \<Rightarrow> nat" where
  "steps_to_prime i = (LEAST n. ast_is_prime (i + int n))"

lemma steps_to_prime_dec:
  assumes "\<not> ast_is_prime i"
  shows "steps_to_prime (i + 1) < steps_to_prime i"
proof -
  obtain p where p: "i \<le> p" "ast_is_prime p" using prime_above by blast
  define n where "n = steps_to_prime i"
  have "ast_is_prime (i + int n)"
    unfolding n_def steps_to_prime_def by (rule LeastI [of _ "nat (p - i)"]) (use p in simp)
  with assms obtain k where k: "n = Suc k" "ast_is_prime (i + int (Suc k))"
    by (cases n) auto
  then have "steps_to_prime (i + 1) \<le> k"
    unfolding steps_to_prime_def by (intro Least_le) (simp add: algebra_simps)
  with k show ?thesis by (simp add: n_def)
qed

function next_prime :: "int \<Rightarrow> int" where
  "next_prime i = (if ast_is_prime i then i else next_prime (i + 1))"
  by pat_completeness auto
termination
  by (relation "measure steps_to_prime") (auto simp: steps_to_prime_dec)

declare next_prime.simps [simp del]

lemma next_prime_ge: "i \<le> next_prime i \<and> ast_is_prime (next_prime i)"
  by (induction i rule: next_prime.induct) (subst (1 2) next_prime.simps, auto)

section \<open>The table\<close>

text \<open>
  \<open>struct ast_hashtab_bucket\<close>: the stored object and the identity of the bucket, which is
  its address in the C code. The four link fields are the order of the chain and of the
  list of all buckets.
\<close>

datatype 'a bucket = Bucket (baddr: nat) (object: 'a)

text \<open>
  \<open>struct ast_hashtab\<close>. The resize and newsize callbacks only read the two counters, so
  they are functions of those. \<open>ht_next_addr\<close> is the allocator's next address.
\<close>

record 'a ast_hashtab =
  ht_array :: "'a bucket list list"
  ht_tlist :: "'a bucket list"
  ht_compare :: "'a \<Rightarrow> 'a \<Rightarrow> int"
  ht_newsize :: "int \<Rightarrow> int"
  ht_resize :: "int \<Rightarrow> int \<Rightarrow> bool"
  ht_hash :: "'a \<Rightarrow> 32 word"
  hash_tab_size :: int
  hash_tab_elements :: int
  largest_bucket_size :: int
  resize_count :: int
  ht_next_addr :: nat

text \<open>
  \<open>ast_hashtab_resize_java\<close> compares a quotient of doubles with 0.75. Both counters are
  below 2^31, where the correctly rounded quotient is above 0.75 exactly when the
  rational one is.
\<close>

definition ast_hashtab_resize_java :: "int \<Rightarrow> int \<Rightarrow> bool" where
  "ast_hashtab_resize_java elements sz = (4 * elements > 3 * sz)"

definition ast_hashtab_resize_tight :: "int \<Rightarrow> int \<Rightarrow> bool" where
  "ast_hashtab_resize_tight elements sz = (elements > sz)"

definition ast_hashtab_resize_none :: "int \<Rightarrow> int \<Rightarrow> bool" where
  "ast_hashtab_resize_none elements sz = False"

definition ast_hashtab_newsize_java :: "int \<Rightarrow> int" where
  "ast_hashtab_newsize_java sz = next_prime (2 * sz)"

definition ast_hashtab_newsize_tight :: "int \<Rightarrow> int" where
  "ast_hashtab_newsize_tight sz = next_prime (sz + 2 * sz)"

definition ast_hashtab_newsize_none :: "int \<Rightarrow> int" where
  "ast_hashtab_newsize_none sz = sz"

definition hash_step :: "32 word \<Rightarrow> 32 word \<Rightarrow> 32 word" where
  "hash_step tot c =
     (let tmp = tot; tot = push_bit 1 tot; tot = tot + tmp;
          tot = push_bit 2 tot; tot = tot + tmp
      in tot + c)"

definition ast_hashtab_hash_string :: "string \<Rightarrow> 32 word" where
  "ast_hashtab_hash_string str = foldl (\<lambda>tot c. hash_step tot (of_char c)) 0 str"

definition ast_hashtab_hash_string_sax :: "string \<Rightarrow> 32 word" where
  "ast_hashtab_hash_string_sax str =
     foldl (\<lambda>tot c. tot XOR (push_bit 5 tot + drop_bit 2 tot + push_bit 10 tot + of_char c)) 0 str"

definition c_toupper :: "char \<Rightarrow> char" where
  "c_toupper c = (if 97 \<le> (of_char c :: nat) \<and> (of_char c :: nat) \<le> 122
                  then char_of ((of_char c :: nat) - 32) else c)"

definition ast_hashtab_hash_string_nocase :: "string \<Rightarrow> 32 word" where
  "ast_hashtab_hash_string_nocase str = foldl (\<lambda>tot c. hash_step tot (of_char (c_toupper c))) 0 str"

definition ast_hashtab_hash_int :: "int \<Rightarrow> 32 word" where
  "ast_hashtab_hash_int x = word_of_int x"

definition ast_hashtab_create ::
  "bool \<Rightarrow> int \<Rightarrow> ('a \<Rightarrow> 'a \<Rightarrow> int) \<Rightarrow> (int \<Rightarrow> int \<Rightarrow> bool) option \<Rightarrow> (int \<Rightarrow> int) option \<Rightarrow>
   ('a \<Rightarrow> 32 word) \<Rightarrow> 'a ast_hashtab option" where
  "ast_hashtab_create alloc_ok initial_buckets cmp resize newsize hash =
     (if \<not> alloc_ok then None
      else let n = next_prime initial_buckets
           in Some \<lparr>ht_array = replicate (nat n) [], ht_tlist = [], ht_compare = cmp,
                    ht_newsize = (case newsize of None \<Rightarrow> ast_hashtab_newsize_java | Some f \<Rightarrow> f),
                    ht_resize = (case resize of None \<Rightarrow> ast_hashtab_resize_java | Some f \<Rightarrow> f),
                    ht_hash = hash, hash_tab_size = n, hash_tab_elements = 0,
                    largest_bucket_size = 0, resize_count = 0, ht_next_addr = 0\<rparr>)"

definition hash_index :: "'a ast_hashtab \<Rightarrow> 'a \<Rightarrow> nat" where
  "hash_index tab obj = unat (ht_hash tab obj) mod nat (hash_tab_size tab)"

definition ast_hashtab_lookup_internal :: "'a ast_hashtab \<Rightarrow> 'a \<Rightarrow> nat \<Rightarrow> 'a option" where
  "ast_hashtab_lookup_internal tab obj h =
     map_option object (find (\<lambda>b. ht_compare tab obj (object b) = 0) (ht_array tab ! h))"

definition ast_hashtab_lookup :: "'a ast_hashtab \<Rightarrow> 'a \<Rightarrow> 'a option" where
  "ast_hashtab_lookup tab obj = ast_hashtab_lookup_internal tab obj (hash_index tab obj)"

definition ast_hashtab_lookup_bucket :: "'a ast_hashtab \<Rightarrow> 'a \<Rightarrow> 'a option \<times> nat" where
  "ast_hashtab_lookup_bucket tab obj =
     (ast_hashtab_lookup_internal tab obj (hash_index tab obj), hash_index tab obj)"

text \<open>
  \<open>ast_hashtab_resize\<close>: the old array is gone before the new one is allocated; on failure
  the table is left without an array.
\<close>

definition place_bucket :: "'a ast_hashtab \<Rightarrow> 'a bucket list list \<Rightarrow> 'a bucket \<Rightarrow> 'a bucket list list" where
  "place_bucket tab arr b =
     (let h = hash_index tab (object b) in arr[h := b # arr ! h])"

definition ast_hashtab_resize :: "bool \<Rightarrow> 'a ast_hashtab \<Rightarrow> 'a ast_hashtab" where
  "ast_hashtab_resize alloc_ok tab =
     (let newsize = ht_newsize tab (hash_tab_size tab)
      in if \<not> alloc_ok then tab\<lparr>ht_array := []\<rparr>
         else let tab1 = tab\<lparr>resize_count := resize_count tab + 1, hash_tab_size := newsize\<rparr>;
                  arr = foldl (place_bucket tab1) (replicate (nat newsize) []) (ht_tlist tab)
              in tab1\<lparr>ht_array := arr, largest_bucket_size := fold max (map (int \<circ> length) arr) 0\<rparr>)"

definition ast_hashtab_insert_immediate_bucket ::
  "bool \<Rightarrow> bool \<Rightarrow> 'a ast_hashtab \<Rightarrow> 'a \<Rightarrow> nat \<Rightarrow> int \<times> 'a ast_hashtab" where
  "ast_hashtab_insert_immediate_bucket bucket_ok array_ok tab obj h =
     (let c = int (length (ht_array tab ! h));
          tab1 = (if c + 1 > largest_bucket_size tab then tab\<lparr>largest_bucket_size := c + 1\<rparr> else tab)
      in if \<not> bucket_ok then (0, tab1)
         else let b = Bucket (ht_next_addr tab1) obj;
                  tab2 = tab1\<lparr>ht_array := (ht_array tab1)[h := b # ht_array tab1 ! h],
                              ht_tlist := b # ht_tlist tab1,
                              hash_tab_elements := hash_tab_elements tab1 + 1,
                              ht_next_addr := Suc (ht_next_addr tab1)\<rparr>
              in if ht_resize tab2 (hash_tab_elements tab2) (hash_tab_size tab2)
                 then (1, ast_hashtab_resize array_ok tab2) else (1, tab2))"

definition ast_hashtab_insert_immediate ::
  "bool \<Rightarrow> bool \<Rightarrow> 'a ast_hashtab \<Rightarrow> 'a \<Rightarrow> int \<times> 'a ast_hashtab" where
  "ast_hashtab_insert_immediate bucket_ok array_ok tab obj =
     ast_hashtab_insert_immediate_bucket bucket_ok array_ok tab obj (hash_index tab obj)"

definition ast_hashtab_insert_safe ::
  "bool \<Rightarrow> bool \<Rightarrow> 'a ast_hashtab \<Rightarrow> 'a \<Rightarrow> int \<times> 'a ast_hashtab" where
  "ast_hashtab_insert_safe bucket_ok array_ok tab obj =
     (case ast_hashtab_lookup_bucket tab obj of
        (None, bucket) \<Rightarrow> ast_hashtab_insert_immediate_bucket bucket_ok array_ok tab obj bucket
      | (Some _, _) \<Rightarrow> (0, tab))"

definition ast_hashtab_size :: "'a ast_hashtab \<Rightarrow> int" where
  "ast_hashtab_size tab = hash_tab_elements tab"

definition ast_hashtab_remove_object_internal ::
  "'a ast_hashtab \<Rightarrow> 'a bucket \<Rightarrow> nat \<Rightarrow> 'a \<times> 'a ast_hashtab" where
  "ast_hashtab_remove_object_internal tab b h =
     (object b, tab\<lparr>ht_array := (ht_array tab)[h := remove1 b (ht_array tab ! h)],
                    ht_tlist := remove1 b (ht_tlist tab),
                    hash_tab_elements := hash_tab_elements tab - 1\<rparr>)"

definition remove_found :: "'a ast_hashtab \<Rightarrow> nat \<Rightarrow> 'a bucket option \<Rightarrow> 'a option \<times> 'a ast_hashtab" where
  "remove_found tab h found =
     (case found of
        None \<Rightarrow> (None, tab)
      | Some b \<Rightarrow> (let (obj2, tab') = ast_hashtab_remove_object_internal tab b h in (Some obj2, tab')))"

definition ast_hashtab_remove_object_via_lookup :: "'a ast_hashtab \<Rightarrow> 'a \<Rightarrow> 'a option \<times> 'a ast_hashtab" where
  "ast_hashtab_remove_object_via_lookup tab obj =
     (let h = hash_index tab obj
      in remove_found tab h (find (\<lambda>b. ht_compare tab obj (object b) = 0) (ht_array tab ! h)))"

definition ast_hashtab_remove_this_object :: "'a ast_hashtab \<Rightarrow> 'a \<Rightarrow> 'a option \<times> 'a ast_hashtab" where
  "ast_hashtab_remove_this_object tab obj =
     (let h = hash_index tab obj
      in remove_found tab h (find (\<lambda>b. obj = object b) (ht_array tab ! h)))"

section \<open>The table invariant\<close>

definition ht_objs :: "'a ast_hashtab \<Rightarrow> 'a set" where
  "ht_objs tab = object ` set (ht_tlist tab)"

text \<open>
  Well-formedness: the array has the advertised size, every bucket sits in the chain its hash
  selects, the chains together hold exactly the buckets of the global list, the counter
  counts them, and every bucket has an address of its own.
\<close>

definition ht_wf :: "'a ast_hashtab \<Rightarrow> bool" where
  "ht_wf tab \<longleftrightarrow>
     0 < hash_tab_size tab \<and> length (ht_array tab) = nat (hash_tab_size tab) \<and>
     (\<forall>h < length (ht_array tab). \<forall>b \<in> set (ht_array tab ! h). hash_index tab (object b) = h) \<and>
     mset (concat (ht_array tab)) = mset (ht_tlist tab) \<and>
     hash_tab_elements tab = int (length (ht_tlist tab)) \<and>
     distinct (map baddr (ht_tlist tab)) \<and> (\<forall>b \<in> set (ht_tlist tab). baddr b < ht_next_addr tab) \<and>
     (\<forall>s > 0. 0 < ht_newsize tab s)"

text \<open>No two stored objects have the same key.\<close>

definition ht_unique :: "'a ast_hashtab \<Rightarrow> bool" where
  "ht_unique tab \<longleftrightarrow> (\<forall>b \<in> set (ht_tlist tab). \<forall>c \<in> set (ht_tlist tab).
     ht_compare tab (object b) (object c) = 0 \<longrightarrow> b = c)"

lemma hash_index_bound: "ht_wf tab \<Longrightarrow> hash_index tab x < length (ht_array tab)"
  by (simp add: ht_wf_def hash_index_def)

lemma chain_iff:
  assumes "ht_wf tab"
  shows "b \<in> set (ht_array tab ! hash_index tab x) \<longleftrightarrow>
         b \<in> set (ht_tlist tab) \<and> hash_index tab (object b) = hash_index tab x"
proof -
  let ?arr = "ht_array tab" and ?h = "hash_index tab x"
  have wf: "\<And>h b. h < length ?arr \<Longrightarrow> b \<in> set (?arr ! h) \<Longrightarrow> hash_index tab (object b) = h"
    using assms by (auto simp: ht_wf_def)
  have t: "set (concat ?arr) = set (ht_tlist tab)"
    by (rule mset_eq_setD) (use assms in \<open>simp only: ht_wf_def\<close>)
  have hb: "?h < length ?arr" using assms by (rule hash_index_bound)
  show ?thesis
  proof
    assume b: "b \<in> set (?arr ! ?h)"
    then have "b \<in> set (concat ?arr)" using nth_mem [OF hb] by auto
    with t wf [OF hb b] show "b \<in> set (ht_tlist tab) \<and> hash_index tab (object b) = ?h" by simp
  next
    assume b: "b \<in> set (ht_tlist tab) \<and> hash_index tab (object b) = ?h"
    with t obtain xs where "xs \<in> set ?arr" "b \<in> set xs" by auto
    then obtain h where h: "h < length ?arr" "b \<in> set (?arr ! h)" by (metis in_set_conv_nth)
    with wf [OF h] b show "b \<in> set (?arr ! ?h)" by simp
  qed
qed

lemma place_bucket_fields:
  "length (place_bucket tab arr b) = length arr"
  by (simp add: place_bucket_def Let_def)

lemma place_buckets:
  assumes "\<forall>b \<in> set bs. hash_index tab (object b) < length arr"
    and "\<forall>h < length arr. \<forall>b \<in> set (arr ! h). hash_index tab (object b) = h"
  shows "length (foldl (place_bucket tab) arr bs) = length arr \<and>
    mset (concat (foldl (place_bucket tab) arr bs)) = mset (concat arr) + mset bs \<and>
    (\<forall>h < length arr. \<forall>b \<in> set (foldl (place_bucket tab) arr bs ! h). hash_index tab (object b) = h)"
  using assms
proof (induction bs arbitrary: arr)
  case (Cons b bs)
  let ?arr = "place_bucket tab arr b" and ?h = "hash_index tab (object b)"
  from Cons.prems have h: "?h < length arr" by simp
  have c: "hash_index tab (object e) = k" if "k < length arr" "e \<in> set (?arr ! k)" for k e
    using that Cons.prems(2) h
    by (cases "k = ?h") (auto simp: place_bucket_def Let_def)
  have "length (foldl (place_bucket tab) ?arr bs) = length ?arr \<and>
    mset (concat (foldl (place_bucket tab) ?arr bs)) = mset (concat ?arr) + mset bs \<and>
    (\<forall>h < length ?arr. \<forall>b \<in> set (foldl (place_bucket tab) ?arr bs ! h). hash_index tab (object b) = h)"
    by (rule Cons.IH) (use Cons.prems(1) c in \<open>simp_all add: place_bucket_fields\<close>)
  moreover have "mset (concat ?arr) = add_mset b (mset (concat arr))"
    using h by (simp add: place_bucket_def Let_def mset_concat_push)
  ultimately show ?case by (simp add: place_bucket_fields)
qed simp

lemma resize_wf:
  assumes "ht_wf tab"
  shows "ht_wf (ast_hashtab_resize True tab)"
proof -
  let ?n = "ht_newsize tab (hash_tab_size tab)"
  let ?tab = "tab\<lparr>resize_count := resize_count tab + 1, hash_tab_size := ?n\<rparr>"
  have n: "0 < ?n" using assms by (simp add: ht_wf_def)
  have h: "hash_index ?tab x < nat ?n" for x using n by (simp add: hash_index_def)
  have idx: "hash_index (ast_hashtab_resize True tab) x = hash_index ?tab x" for x
    by (simp add: hash_index_def ast_hashtab_resize_def Let_def)
  have "\<forall>b \<in> set (ht_tlist tab). hash_index ?tab (object b) < length (replicate (nat ?n) ([] :: 'a bucket list))"
    using h by simp
  from place_buckets [OF this] n assms show ?thesis
    unfolding ht_wf_def idx by (simp add: ast_hashtab_resize_def Let_def)
qed

lemma resize_fields [simp]:
  "ht_tlist (ast_hashtab_resize ok tab) = ht_tlist tab"
  "ht_compare (ast_hashtab_resize ok tab) = ht_compare tab"
  "ht_hash (ast_hashtab_resize ok tab) = ht_hash tab"
  "hash_tab_elements (ast_hashtab_resize ok tab) = hash_tab_elements tab"
  by (simp_all add: ast_hashtab_resize_def Let_def)

text \<open>\<open>add_bucket\<close>: the table after an insertion, before the resize check.\<close>

definition add_bucket :: "'a ast_hashtab \<Rightarrow> 'a \<Rightarrow> 'a ast_hashtab" where
  "add_bucket tab obj =
     (let h = hash_index tab obj; b = Bucket (ht_next_addr tab) obj
      in tab\<lparr>largest_bucket_size :=
               (if int (length (ht_array tab ! h)) + 1 > largest_bucket_size tab
                then int (length (ht_array tab ! h)) + 1 else largest_bucket_size tab),
             ht_array := (ht_array tab)[h := b # ht_array tab ! h], ht_tlist := b # ht_tlist tab,
             hash_tab_elements := hash_tab_elements tab + 1, ht_next_addr := Suc (ht_next_addr tab)\<rparr>)"

lemma insert_immediate_add:
  "ast_hashtab_insert_immediate True True tab obj =
     (1, let t = add_bucket tab obj
         in if ht_resize t (hash_tab_elements t) (hash_tab_size t) then ast_hashtab_resize True t else t)"
  by (cases tab) (simp add: ast_hashtab_insert_immediate_def
      ast_hashtab_insert_immediate_bucket_def add_bucket_def Let_def hash_index_def)

lemma add_bucket_fields [simp]:
  "ht_tlist (add_bucket tab obj) = Bucket (ht_next_addr tab) obj # ht_tlist tab"
  "ht_compare (add_bucket tab obj) = ht_compare tab"
  "ht_hash (add_bucket tab obj) = ht_hash tab"
  by (simp_all add: add_bucket_def Let_def)

lemma add_bucket_wf: "ht_wf tab \<Longrightarrow> ht_wf (add_bucket tab obj)"
proof -
  assume wf: "ht_wf tab"
  have idx: "hash_index (add_bucket tab obj) x = hash_index tab x" for x
    by (simp add: hash_index_def add_bucket_def Let_def)
  from wf hash_index_bound [OF wf, of obj] show ?thesis
    unfolding ht_wf_def idx
    by (auto simp: add_bucket_def Let_def nth_list_update mset_concat_push less_Suc_eq)
qed

lemma insert_immediate_correct:
  assumes "ht_wf tab"
  shows "fst (ast_hashtab_insert_immediate True True tab obj) = 1"
    and "ht_wf (snd (ast_hashtab_insert_immediate True True tab obj))"
    and "ht_tlist (snd (ast_hashtab_insert_immediate True True tab obj))
         = Bucket (ht_next_addr tab) obj # ht_tlist tab"
    and "ht_compare (snd (ast_hashtab_insert_immediate True True tab obj)) = ht_compare tab"
    and "ht_hash (snd (ast_hashtab_insert_immediate True True tab obj)) = ht_hash tab"
  using add_bucket_wf [OF assms, of obj]
  by (simp_all add: insert_immediate_add Let_def resize_wf)

lemma remove_internal_wf:
  assumes "ht_wf tab" "b \<in> set (ht_tlist tab)"
  shows "ht_wf (snd (ast_hashtab_remove_object_internal tab b (hash_index tab (object b))))"
proof -
  let ?h = "hash_index tab (object b)" and ?t = "snd (ast_hashtab_remove_object_internal tab b (hash_index tab (object b)))"
  have idx: "hash_index ?t x = hash_index tab x" for x
    by (simp add: hash_index_def ast_hashtab_remove_object_internal_def)
  have b: "?h < length (ht_array tab)" "b \<in> set (ht_array tab ! ?h)"
    using assms by (simp_all add: hash_index_bound chain_iff)
  have m: "mset (concat (ht_array ?t)) = mset (ht_tlist ?t)"
    using mset_concat_remove1 [OF b] assms(1)
    by (simp add: ht_wf_def ast_hashtab_remove_object_internal_def) (metis add_mset_remove_trivial)
  have l: "int (length (remove1 b (ht_tlist tab))) = int (length (ht_tlist tab)) - 1"
  proof -
    have "0 < length (ht_tlist tab)" using assms(2) by (rule length_pos_if_in_set)
    moreover have "length (remove1 b (ht_tlist tab)) = length (ht_tlist tab) - 1"
      using assms(2) by (simp add: length_remove1)
    ultimately show ?thesis by linarith
  qed
  have c: "hash_index tab (object e) = k"
    if "k < length (ht_array tab)" "e \<in> set (ht_array ?t ! k)" for k e
  proof -
    have "e \<in> set (ht_array tab ! k)"
      using that b(1) set_remove1_subset [of b "ht_array tab ! ?h"]
      by (cases "k = ?h") (auto simp: ast_hashtab_remove_object_internal_def)
    with that assms(1) show ?thesis by (simp add: ht_wf_def)
  qed
  have t: "ht_tlist ?t = remove1 b (ht_tlist tab)"
    by (simp add: ast_hashtab_remove_object_internal_def)
  have a: "baddr e < ht_next_addr tab" if "e \<in> set (ht_tlist ?t)" for e
    using that assms(1) set_remove1_subset [of b "ht_tlist tab"] by (auto simp: t ht_wf_def)
  have f: "hash_tab_size ?t = hash_tab_size tab" "length (ht_array ?t) = length (ht_array tab)"
      "ht_newsize ?t = ht_newsize tab" "ht_next_addr ?t = ht_next_addr tab"
      "hash_tab_elements ?t = hash_tab_elements tab - 1"
    by (simp_all add: ast_hashtab_remove_object_internal_def)
  show ?thesis
    unfolding ht_wf_def idx m f
    using assms(1) l c a distinct_map_remove1 [of baddr "ht_tlist tab" b]
    by (simp add: ht_wf_def t del: mset_remove1)
qed

definition ht_ok :: "('a \<Rightarrow> 'a \<Rightarrow> int) \<Rightarrow> ('a \<Rightarrow> 32 word) \<Rightarrow> 'a ast_hashtab \<Rightarrow> bool" where
  "ht_ok cmp hsh tab \<longleftrightarrow> ht_wf tab \<and> ht_unique tab \<and> ht_compare tab = cmp \<and> ht_hash tab = hsh"

section \<open>The object-table contract\<close>

text \<open>
  What the clients of a hash table rely on: a set of objects, at most one for each key,
  where \<open>same\<close> says that two objects have the same key.
\<close>

locale object_table =
  fixes same :: "'a \<Rightarrow> 'a \<Rightarrow> bool"
    and lookup :: "'t \<Rightarrow> 'a \<Rightarrow> 'a option"
    and insert_safe :: "'t \<Rightarrow> 'a \<Rightarrow> int \<times> 't"
    and remove_this :: "'t \<Rightarrow> 'a \<Rightarrow> 'a option \<times> 't"
    and objs :: "'t \<Rightarrow> 'a set"
    and inv :: "'t \<Rightarrow> bool"
  assumes same_refl: "same x x"
    and same_sym: "same x y \<Longrightarrow> same y x"
    and same_trans: "same x y \<Longrightarrow> same y z \<Longrightarrow> same x z"
    and lookup_Some: "inv t \<Longrightarrow> lookup t x = Some y \<longleftrightarrow> y \<in> objs t \<and> same x y"
    and insert_new: "inv t \<Longrightarrow> lookup t x = None \<Longrightarrow>
          fst (insert_safe t x) = 1 \<and> inv (snd (insert_safe t x)) \<and>
          objs (snd (insert_safe t x)) = insert x (objs t)"
    and insert_dup: "inv t \<Longrightarrow> lookup t x = Some y \<Longrightarrow> insert_safe t x = (0, t)"
    and remove_present: "inv t \<Longrightarrow> x \<in> objs t \<Longrightarrow>
          fst (remove_this t x) = Some x \<and> inv (snd (remove_this t x)) \<and>
          objs (snd (remove_this t x)) = objs t - {x}"
    and remove_absent: "inv t \<Longrightarrow> x \<notin> objs t \<Longrightarrow> remove_this t x = (None, t)"
begin

lemma lookup_None: "inv t \<Longrightarrow> lookup t x = None \<longleftrightarrow> (\<forall>y \<in> objs t. \<not> same x y)"
  using lookup_Some [of t x] by (cases "lookup t x") auto

lemma key_unique: "inv t \<Longrightarrow> x \<in> objs t \<Longrightarrow> y \<in> objs t \<Longrightarrow> same x y \<Longrightarrow> x = y"
  using lookup_Some [of t x x] lookup_Some [of t x y] same_refl by auto

lemma lookup_insert:
  assumes "inv t" "lookup t x = None"
  shows "lookup (snd (insert_safe t x)) y = (if same y x then Some x else lookup t y)"
proof -
  let ?t = "snd (insert_safe t x)"
  from insert_new [OF assms] have t: "inv ?t" "objs ?t = insert x (objs t)" by auto
  show ?thesis
  proof (cases "same y x")
    case True
    with t lookup_Some [of ?t y x] show ?thesis by simp
  next
    case False
    then have "lookup ?t y = Some z \<longleftrightarrow> lookup t y = Some z" for z
      using lookup_Some [OF t(1), of y z] lookup_Some [OF assms(1), of y z] t(2) by auto
    then have "lookup ?t y = lookup t y" by (rule option_eqI)
    with False show ?thesis by simp
  qed
qed

lemma lookup_remove:
  assumes "inv t" "x \<in> objs t"
  shows "lookup (snd (remove_this t x)) y = (if same y x then None else lookup t y)"
proof -
  let ?t = "snd (remove_this t x)"
  from remove_present [OF assms] have t: "inv ?t" "objs ?t = objs t - {x}" by auto
  show ?thesis
  proof (cases "same y x")
    case True
    have "\<not> same y z" if "z \<in> objs ?t" for z
    proof
      assume "same y z"
      with True have "same x z" by (blast intro: same_sym same_trans)
      with that t key_unique [OF assms(1), of x z] assms show False by auto
    qed
    with t True show ?thesis by (simp add: lookup_None)
  next
    case False
    then have "lookup ?t y = Some z \<longleftrightarrow> lookup t y = Some z" for z
      using lookup_Some [OF t(1), of y z] lookup_Some [OF assms(1), of y z] t(2) by auto
    then have "lookup ?t y = lookup t y" by (rule option_eqI)
    with False show ?thesis by simp
  qed
qed

end

text \<open>
  The contract of the two callbacks of a table: \<open>compare\<close> is 0 on an equivalence, and equal
  objects hash alike. A table with such callbacks is an object table.
\<close>

locale hash_key =
  fixes compare :: "'a \<Rightarrow> 'a \<Rightarrow> int"
    and hash :: "'a \<Rightarrow> 32 word"
  assumes compare_refl: "compare x x = 0"
    and compare_sym: "compare x y = 0 \<Longrightarrow> compare y x = 0"
    and compare_trans: "compare x y = 0 \<Longrightarrow> compare y z = 0 \<Longrightarrow> compare x z = 0"
    and hash_compare: "compare x y = 0 \<Longrightarrow> hash x = hash y"
begin

lemma same_chain: "ht_ok compare hash tab \<Longrightarrow> compare x y = 0 \<Longrightarrow> hash_index tab x = hash_index tab y"
  by (simp add: ht_ok_def hash_index_def hash_compare)

lemma find_in_chain:
  assumes "ht_ok compare hash tab" "\<And>b. P b \<Longrightarrow> compare x (object b) = 0"
  shows "find P (ht_array tab ! hash_index tab x) = Some b \<longleftrightarrow> b \<in> set (ht_tlist tab) \<and> P b"
proof -
  from assms have wf: "ht_wf tab" by (simp add: ht_ok_def)
  have one: "b = c" if "b \<in> set (ht_tlist tab)" "c \<in> set (ht_tlist tab)" "P b" "P c" for b c
    using that assms compare_sym compare_trans by (metis ht_ok_def ht_unique_def)
  show ?thesis
  proof
    assume "find P (ht_array tab ! hash_index tab x) = Some b"
    then have "b \<in> set (ht_array tab ! hash_index tab x)" "P b"
      by (auto simp: find_Some_iff in_set_conv_nth)
    with wf show "b \<in> set (ht_tlist tab) \<and> P b" by (simp add: chain_iff)
  next
    assume b: "b \<in> set (ht_tlist tab) \<and> P b"
    with assms(2) have "hash_index tab x = hash_index tab (object b)"
      by (intro same_chain [OF assms(1)]) auto
    with b wf have "b \<in> set (ht_array tab ! hash_index tab x)" by (simp add: chain_iff)
    with b obtain c where c: "find P (ht_array tab ! hash_index tab x) = Some c"
      by (metis find_None_iff not_None_eq)
    then have "c \<in> set (ht_array tab ! hash_index tab x)" "P c"
      by (auto simp: find_Some_iff in_set_conv_nth)
    with b wf one c show "find P (ht_array tab ! hash_index tab x) = Some b"
      by (auto simp: chain_iff)
  qed
qed

lemma lookup_iff:
  assumes "ht_ok compare hash tab"
  shows "ast_hashtab_lookup tab x = Some y \<longleftrightarrow> y \<in> ht_objs tab \<and> compare x y = 0"
  using find_in_chain [OF assms, of "\<lambda>b. compare x (object b) = 0" x] assms
  by (auto simp: ast_hashtab_lookup_def ast_hashtab_lookup_internal_def ht_ok_def ht_objs_def)

lemma insert_safe_new:
  assumes "ht_ok compare hash tab" "ast_hashtab_lookup tab x = None"
  shows "fst (ast_hashtab_insert_safe True True tab x) = 1 \<and>
         ht_ok compare hash (snd (ast_hashtab_insert_safe True True tab x)) \<and>
         ht_objs (snd (ast_hashtab_insert_safe True True tab x)) = insert x (ht_objs tab)"
proof -
  have ins: "ast_hashtab_insert_safe True True tab x = ast_hashtab_insert_immediate True True tab x"
    using assms(2)
    by (simp add: ast_hashtab_insert_safe_def ast_hashtab_lookup_bucket_def ast_hashtab_lookup_def
        ast_hashtab_insert_immediate_def)
  from assms have wf: "ht_wf tab" by (simp add: ht_ok_def)
  have fresh: "compare x (object b) \<noteq> 0 \<and> compare (object b) x \<noteq> 0" if "b \<in> set (ht_tlist tab)" for b
    using that assms lookup_iff [OF assms(1), of x "object b"] compare_sym [of "object b" x]
    by (auto simp: ht_objs_def)
  from insert_immediate_correct [OF wf, of x] fresh assms(1) show ?thesis
    by (auto simp: ins ht_ok_def ht_unique_def ht_objs_def)
qed

lemma remove_bucket:
  assumes "ht_ok compare hash tab" "b \<in> set (ht_tlist tab)"
  shows "ht_ok compare hash (snd (ast_hashtab_remove_object_internal tab b (hash_index tab (object b)))) \<and>
         ht_objs (snd (ast_hashtab_remove_object_internal tab b (hash_index tab (object b))))
           = ht_objs tab - {object b}"
proof -
  let ?t = "snd (ast_hashtab_remove_object_internal tab b (hash_index tab (object b)))"
  have d: "distinct (ht_tlist tab)"
    using assms by (auto simp: ht_ok_def ht_wf_def simp: distinct_map)
  have "ht_wf ?t" using assms by (intro remove_internal_wf) (auto simp: ht_ok_def)
  moreover have "object c \<noteq> object b" if "c \<in> set (ht_tlist tab)" "c \<noteq> b" for c
    using that assms compare_refl by (metis ht_ok_def ht_unique_def)
  ultimately show ?thesis
    using assms d
    by (auto simp: ht_ok_def ht_unique_def ht_objs_def ast_hashtab_remove_object_internal_def)
qed

lemma remove_this_present:
  assumes "ht_ok compare hash tab" "x \<in> ht_objs tab"
  shows "fst (ast_hashtab_remove_this_object tab x) = Some x \<and>
         ht_ok compare hash (snd (ast_hashtab_remove_this_object tab x)) \<and>
         ht_objs (snd (ast_hashtab_remove_this_object tab x)) = ht_objs tab - {x}"
proof -
  from assms obtain b where b: "b \<in> set (ht_tlist tab)" "object b = x" by (auto simp: ht_objs_def)
  then have "find (\<lambda>b. x = object b) (ht_array tab ! hash_index tab x) = Some b"
    by (subst find_in_chain [OF assms(1)]) (auto simp: compare_refl)
  with b remove_bucket [OF assms(1) b(1)] show ?thesis
    by (auto simp: ast_hashtab_remove_this_object_def remove_found_def Let_def
        ast_hashtab_remove_object_internal_def)
qed

lemma remove_this_absent:
  assumes "ht_ok compare hash tab" "x \<notin> ht_objs tab"
  shows "ast_hashtab_remove_this_object tab x = (None, tab)"
proof -
  have "find (\<lambda>b. x = object b) (ht_array tab ! hash_index tab x) \<noteq> Some b" for b
    using assms by (subst find_in_chain [OF assms(1)]) (auto simp: compare_refl ht_objs_def)
  then show ?thesis
    by (cases "find (\<lambda>b. x = object b) (ht_array tab ! hash_index tab x)")
       (auto simp: ast_hashtab_remove_this_object_def remove_found_def Let_def)
qed

end

sublocale hash_key \<subseteq> object_table "\<lambda>x y. compare x y = 0" ast_hashtab_lookup
  "ast_hashtab_insert_safe True True" ast_hashtab_remove_this_object ht_objs "ht_ok compare hash"
proof (unfold_locales, goal_cases)
  case (6 t x y)
  then show ?case
    by (simp add: ast_hashtab_insert_safe_def ast_hashtab_lookup_bucket_def ast_hashtab_lookup_def)
qed (auto simp: lookup_iff insert_safe_new remove_this_present remove_this_absent compare_refl
      intro: compare_sym compare_trans)

context hash_key
begin

lemma table_insert:
  assumes "ht_ok compare hash t" "ast_hashtab_lookup t x = None"
  shows "fst (ast_hashtab_insert_safe True True t x) = 1 \<and>
    ht_ok compare hash (snd (ast_hashtab_insert_safe True True t x)) \<and>
    ast_hashtab_lookup (snd (ast_hashtab_insert_safe True True t x)) y =
      (if compare y x = 0 then Some x else ast_hashtab_lookup t y)"
  using insert_new [OF assms] lookup_insert [OF assms] by blast

lemma table_remove:
  assumes "ht_ok compare hash t" "x \<in> ht_objs t"
  shows "fst (ast_hashtab_remove_this_object t x) = Some x \<and>
    ht_ok compare hash (snd (ast_hashtab_remove_this_object t x)) \<and>
    ast_hashtab_lookup (snd (ast_hashtab_remove_this_object t x)) y =
      (if compare y x = 0 then None else ast_hashtab_lookup t y)"
  using remove_present [OF assms] lookup_remove [OF assms] by blast

text \<open>Removal by key removes the stored object with that key.\<close>

lemma remove_via_lookup:
  assumes "ht_ok compare hash t"
  shows "ast_hashtab_remove_object_via_lookup t x =
    (case ast_hashtab_lookup t x of None \<Rightarrow> (None, t) | Some y \<Rightarrow> ast_hashtab_remove_this_object t y)"
proof (cases "find (\<lambda>b. compare x (object b) = 0) (ht_array t ! hash_index t x)")
  case None
  with assms show ?thesis
    by (simp add: ast_hashtab_remove_object_via_lookup_def remove_found_def ast_hashtab_lookup_def
        ast_hashtab_lookup_internal_def ht_ok_def)
next
  case (Some b)
  then have b: "b \<in> set (ht_tlist t)" "compare x (object b) = 0"
    using find_in_chain [OF assms, of "\<lambda>b. compare x (object b) = 0" x b] by simp_all
  have "find (\<lambda>c. object b = object c) (ht_array t ! hash_index t (object b)) = Some b"
    using b by (subst find_in_chain [OF assms]) (auto simp: compare_refl)
  with Some b same_chain [OF assms b(2)] assms show ?thesis
    by (simp add: ast_hashtab_remove_object_via_lookup_def ast_hashtab_remove_this_object_def ast_hashtab_lookup_def
        ast_hashtab_lookup_internal_def ht_ok_def)
qed

lemma table_remove_key:
  assumes "ht_ok compare hash t"
  shows "ht_ok compare hash (snd (ast_hashtab_remove_object_via_lookup t x)) \<and>
    ht_objs (snd (ast_hashtab_remove_object_via_lookup t x)) = {y \<in> ht_objs t. compare x y \<noteq> 0}"
proof (cases "ast_hashtab_lookup t x")
  case None
  with assms lookup_None [OF assms, of x] show ?thesis by (auto simp: remove_via_lookup)
next
  case (Some y)
  then have y: "y \<in> ht_objs t" "compare x y = 0" using lookup_iff [OF assms] by auto
  have "z = y" if "z \<in> ht_objs t" "compare x z = 0" for z
    by (rule key_unique [OF assms that(1) y(1)]) (rule compare_trans [OF compare_sym [OF that(2)] y(2)])
  then have "{z \<in> ht_objs t. compare x z \<noteq> 0} = ht_objs t - {y}" using y by blast
  with Some remove_present [OF assms y(1)] assms show ?thesis by (simp add: remove_via_lookup)
qed

lemma table_insert_objs:
  assumes "ht_ok compare hash t"
  shows "ht_ok compare hash (snd (ast_hashtab_insert_safe True True t x)) \<and>
    ht_objs (snd (ast_hashtab_insert_safe True True t x)) =
      (if \<exists>y \<in> ht_objs t. compare x y = 0 then ht_objs t else insert x (ht_objs t))"
proof (cases "ast_hashtab_lookup t x")
  case None
  with insert_new [OF assms None] lookup_None [OF assms, of x] show ?thesis by auto
next
  case (Some y)
  with insert_dup [OF assms Some] lookup_iff [OF assms, of x y] assms show ?thesis by auto
qed

lemma create_ok:
  assumes "ast_hashtab_create True n compare (Some resize) (Some newsize) hash = Some t" "0 < n"
    "\<And>s. 0 < s \<Longrightarrow> 0 < newsize s"
  shows "ht_ok compare hash t \<and> ht_objs t = {}"
proof -
  have "0 < next_prime n" using next_prime_ge [of n] assms(2) by linarith
  with assms(1,3) show ?thesis
    by (auto simp: ast_hashtab_create_def Let_def ht_ok_def ht_wf_def ht_unique_def ht_objs_def)
qed

end

lemma newsize_java_pos: "0 < s \<Longrightarrow> 0 < ast_hashtab_newsize_java s"
  using next_prime_ge [of "2 * s"] by (simp add: ast_hashtab_newsize_java_def)

section \<open>Properties\<close>

text \<open>A table of strings keyed by \<open>strcmp\<close> equality and hashed by \<open>ast_hashtab_hash_string\<close>.\<close>

definition string_cmp :: "string \<Rightarrow> string \<Rightarrow> int" where
  "string_cmp a b = (if a = b then 0 else 1)"

interpretation sk: hash_key string_cmp ast_hashtab_hash_string
  by unfold_locales (auto simp: string_cmp_def split: if_splits)

definition string_table :: "string ast_hashtab" where
  "string_table = the (ast_hashtab_create True 3 string_cmp (Some ast_hashtab_resize_java)
     (Some ast_hashtab_newsize_java) ast_hashtab_hash_string)"

lemma string_table_ok: "ht_ok string_cmp ast_hashtab_hash_string string_table \<and> ht_objs string_table = {}"
  unfolding string_table_def
  by (rule sk.create_ok [where n = 3 and newsize = ast_hashtab_newsize_java and resize = ast_hashtab_resize_java])
     (simp_all add: ast_hashtab_create_def Let_def newsize_java_pos)

text \<open>
  An object inserted with \<open>ast_hashtab_insert_safe\<close> is what a lookup of its key returns from then
  on, and the lookups of all other keys are unchanged, also when the insertion resizes the table.
\<close>

theorem hashtab_lookup_insert:
  assumes "hash_key cmp hsh" "ht_ok cmp hsh t" "ast_hashtab_lookup t x = None"
  shows "fst (ast_hashtab_insert_safe True True t x) = 1 \<and>
    ht_ok cmp hsh (snd (ast_hashtab_insert_safe True True t x)) \<and>
    ast_hashtab_lookup (snd (ast_hashtab_insert_safe True True t x)) y =
      (if cmp y x = 0 then Some x else ast_hashtab_lookup t y)"
  using hash_key.table_insert [OF assms] .

theorem hashtab_lookup_insert_witness:
  "ast_hashtab_lookup (snd (ast_hashtab_insert_safe True True string_table ''sip'')) ''sip'' = Some ''sip''"
  using hashtab_lookup_insert [OF sk.hash_key_axioms, of string_table "''sip''" "''sip''"] string_table_ok
    sk.lookup_None [of string_table "''sip''"] by (simp add: string_cmp_def)

text \<open>
  \<open>ast_hashtab_remove_this_object\<close> returns a stored object and makes the lookup of its key fail,
  leaving every other lookup and the invariant of the table intact.
\<close>

theorem hashtab_lookup_remove:
  assumes "hash_key cmp hsh" "ht_ok cmp hsh t" "x \<in> ht_objs t"
  shows "fst (ast_hashtab_remove_this_object t x) = Some x \<and>
    ht_ok cmp hsh (snd (ast_hashtab_remove_this_object t x)) \<and>
    ast_hashtab_lookup (snd (ast_hashtab_remove_this_object t x)) y =
      (if cmp y x = 0 then None else ast_hashtab_lookup t y)"
  using hash_key.table_remove [OF assms] .

theorem hashtab_lookup_remove_witness:
  "ast_hashtab_lookup (snd (ast_hashtab_remove_this_object
     (snd (ast_hashtab_insert_safe True True string_table ''sip'')) ''sip'')) ''sip'' = None"
proof -
  have "ast_hashtab_lookup string_table ''sip'' = None"
    using sk.lookup_None [of string_table "''sip''"] string_table_ok by simp
  then have "ht_ok string_cmp ast_hashtab_hash_string (snd (ast_hashtab_insert_safe True True string_table ''sip''))"
    "''sip'' \<in> ht_objs (snd (ast_hashtab_insert_safe True True string_table ''sip''))"
    using sk.insert_new [of string_table "''sip''"] string_table_ok by auto
  then show ?thesis
    using hashtab_lookup_remove [OF sk.hash_key_axioms, of _ "''sip''" "''sip''"] by (simp add: string_cmp_def)
qed

text \<open>
  \<open>ast_hashtab_resize\<close> keeps every stored object and its place in the order of insertion, puts
  each into the chain its hash selects in the new array, and so keeps the table well formed.
\<close>

theorem hashtab_resize_keeps:
  assumes "ht_wf t"
  shows "ht_wf (ast_hashtab_resize True t) \<and> ht_tlist (ast_hashtab_resize True t) = ht_tlist t \<and>
    hash_tab_size (ast_hashtab_resize True t) = ht_newsize t (hash_tab_size t)"
  using resize_wf [OF assms] by (simp add: ast_hashtab_resize_def Let_def)

theorem hashtab_resize_keeps_witness:
  "ht_wf (ast_hashtab_resize True string_table)"
  using hashtab_resize_keeps [of string_table] string_table_ok by (simp add: ht_ok_def)

text \<open>
  For every size of at least 2 the size \<open>ast_hashtab_newsize_java\<close> computes is an odd prime at least twice
  as large, so the search for a prime ends and a resized table has a prime number of chains.
\<close>

theorem newsize_java_prime:
  assumes "2 \<le> n"
  shows "prime_number (ast_hashtab_newsize_java n) \<and> odd (ast_hashtab_newsize_java n) \<and>
    2 * n \<le> ast_hashtab_newsize_java n"
proof -
  let ?p = "next_prime (2 * n)"
  have "2 * n \<le> ?p" "ast_is_prime ?p" using next_prime_ge by auto
  moreover from this have "odd ?p" using ast_is_prime_odd by blast
  ultimately show ?thesis using assms ast_is_prime_iff [of ?p] by (simp add: ast_hashtab_newsize_java_def)
qed

theorem newsize_java_prime_witness: "prime_number (ast_hashtab_newsize_java 23)"
  using newsize_java_prime [of 23] by simp

end
