(* ===== verification/Ast_Time.thy ===== *)
theory Ast_Time
  imports Ast_Prelude
begin

text \<open>
  The time arithmetic of \<open>include/asterisk/time.h\<close> and \<open>main/utils.c\<close> on \<open>struct timeval\<close>.
\<close>

section \<open>Time values\<close>

datatype timeval = Timeval (tv_sec: int) (tv_usec: int)

text \<open>Time values are ordered by seconds, then microseconds.\<close>

instantiation timeval :: linorder
begin

definition less_eq_timeval :: "timeval \<Rightarrow> timeval \<Rightarrow> bool" where
  "less_eq_timeval a b \<longleftrightarrow> tv_sec a < tv_sec b \<or> tv_sec a = tv_sec b \<and> tv_usec a \<le> tv_usec b"

definition less_timeval :: "timeval \<Rightarrow> timeval \<Rightarrow> bool" where
  "less_timeval a b \<longleftrightarrow> tv_sec a < tv_sec b \<or> tv_sec a = tv_sec b \<and> tv_usec a < tv_usec b"

instance
  by standard (auto simp: less_eq_timeval_def less_timeval_def timeval.expand)

end

definition ast_tvdiff_sec :: "timeval \<Rightarrow> timeval \<Rightarrow> int" where
  "ast_tvdiff_sec end_tv start =
     (let result = tv_sec end_tv - tv_sec start
      in if result > 0 \<and> tv_usec end_tv < tv_usec start then result - 1
         else if result < 0 \<and> tv_usec end_tv > tv_usec start then result + 1
         else result)"

definition ast_tvdiff_us :: "timeval \<Rightarrow> timeval \<Rightarrow> int" where
  "ast_tvdiff_us end_tv start =
     (tv_sec end_tv - tv_sec start) * 1000000 + tv_usec end_tv - tv_usec start"

text \<open>C's division truncates towards zero, which \<open>sdiv\<close> does.\<close>

definition ast_tvdiff_ms :: "timeval \<Rightarrow> timeval \<Rightarrow> int" where
  "ast_tvdiff_ms end_tv start =
     (let sec_dif = (tv_sec end_tv - tv_sec start) * 1000;
          usec_dif = (1000000 + tv_usec end_tv - tv_usec start) sdiv 1000 - 1000
      in sec_dif + usec_dif)"

definition ast_tvzero :: "timeval \<Rightarrow> bool" where
  "ast_tvzero t \<longleftrightarrow> tv_sec t = 0 \<and> tv_usec t = 0"

definition ast_tvcmp :: "timeval \<Rightarrow> timeval \<Rightarrow> int" where
  "ast_tvcmp a b =
     (if tv_sec a < tv_sec b then -1
      else if tv_sec a > tv_sec b then 1
      else if tv_usec a < tv_usec b then -1
      else if tv_usec a > tv_usec b then 1
      else 0)"

definition ast_tveq :: "timeval \<Rightarrow> timeval \<Rightarrow> bool" where
  "ast_tveq a b \<longleftrightarrow> tv_sec a = tv_sec b \<and> tv_usec a = tv_usec b"

definition ast_tv :: "int \<Rightarrow> int \<Rightarrow> timeval" where
  "ast_tv sec usec = Timeval sec usec"

text \<open>\<open>ast_samp2tv\<close> computes in \<open>unsigned int\<close>.\<close>

definition ast_samp2tv :: "32 word \<Rightarrow> 32 word \<Rightarrow> timeval" where
  "ast_samp2tv nsamp rate =
     ast_tv (uint (nsamp div rate)) (uint (((nsamp mod rate) * (4000000 div rate)) div 4))"

definition tvfix :: "timeval \<Rightarrow> timeval" where
  "tvfix a =
     (if tv_usec a \<ge> 1000000
      then Timeval (tv_sec a + tv_usec a sdiv 1000000) (tv_usec a smod 1000000)
      else if tv_usec a < 0 then Timeval (tv_sec a) 0 else a)"

definition ast_tvadd :: "timeval \<Rightarrow> timeval \<Rightarrow> timeval" where
  "ast_tvadd a b =
     (let a = tvfix a; b = tvfix b;
          sec = tv_sec a + tv_sec b; usec = tv_usec a + tv_usec b
      in if usec \<ge> 1000000 then Timeval (sec + 1) (usec - 1000000) else Timeval sec usec)"

definition ast_tvsub :: "timeval \<Rightarrow> timeval \<Rightarrow> timeval" where
  "ast_tvsub a b =
     (let a = tvfix a; b = tvfix b;
          sec = tv_sec a - tv_sec b; usec = tv_usec a - tv_usec b
      in if usec < 0 then Timeval (sec - 1) (usec + 1000000) else Timeval sec usec)"

text \<open>\<open>ast_remaining_ms\<close>, with the clock reading \<open>now\<close>.\<close>

definition ast_remaining_ms :: "timeval \<Rightarrow> timeval \<Rightarrow> int \<Rightarrow> int" where
  "ast_remaining_ms now start max_ms =
     (if max_ms < 0 then max_ms
      else let ms = max_ms - ast_tvdiff_ms now start in if ms < 0 then 0 else ms)"

section \<open>Time values as microseconds\<close>

definition tv_us :: "timeval \<Rightarrow> int" where
  "tv_us t = tv_sec t * 1000000 + tv_usec t"

definition tv_ok :: "timeval \<Rightarrow> bool" where
  "tv_ok t \<longleftrightarrow> 0 \<le> tv_usec t \<and> tv_usec t < 1000000"

lemma tvfix_ok [simp]: "tv_ok t \<Longrightarrow> tvfix t = t"
  by (simp add: tvfix_def tv_ok_def)

lemma tvadd_ok: "tv_ok a \<Longrightarrow> tv_ok b \<Longrightarrow> tv_ok (ast_tvadd a b) \<and> tv_us (ast_tvadd a b) = tv_us a + tv_us b"
  by (auto simp: ast_tvadd_def Let_def) (auto simp: tv_ok_def tv_us_def)

lemma tvsub_ok: "tv_ok a \<Longrightarrow> tv_ok b \<Longrightarrow> tv_ok (ast_tvsub a b) \<and> tv_us (ast_tvsub a b) = tv_us a - tv_us b"
  by (auto simp: ast_tvsub_def Let_def) (auto simp: tv_ok_def tv_us_def)

lemma tvcmp_sgn: "ast_tvcmp a b = (if a < b then -1 else if b < a then 1 else 0)"
  by (auto simp: ast_tvcmp_def less_timeval_def)

lemma tvcmp_before: "ast_tvcmp a b = -1 \<longleftrightarrow> a < b"
  by (simp add: tvcmp_sgn)

lemma tv_less_us: "tv_ok a \<Longrightarrow> tv_ok b \<Longrightarrow> a < b \<longleftrightarrow> tv_us a < tv_us b"
  by (auto simp: tv_ok_def tv_us_def less_timeval_def)

lemma tv_le_us: "tv_ok a \<Longrightarrow> tv_ok b \<Longrightarrow> a \<le> b \<longleftrightarrow> tv_us a \<le> tv_us b"
  by (auto simp: tv_ok_def tv_us_def less_eq_timeval_def)

lemma tvdiff_ms_floor:
  assumes "tv_ok a" "tv_ok b"
  shows "ast_tvdiff_ms a b = (tv_us a - tv_us b) div 1000"
proof -
  have nn: "0 \<le> 1000000 + tv_usec a - tv_usec b" using assms by (simp add: tv_ok_def)
  then have "(1000000 + tv_usec a - tv_usec b) sdiv 1000 = (1000000 + tv_usec a - tv_usec b) div 1000"
    by (auto simp: signed_divide_int_def sgn_if)
  moreover have "tv_us a - tv_us b
      = (1000000 + tv_usec a - tv_usec b) + ((tv_sec a - tv_sec b) * 1000 - 1000) * 1000"
    by (simp add: tv_us_def)
  ultimately show ?thesis
    by (simp add: ast_tvdiff_ms_def Let_def)
qed

lemma tvdiff_us_eq: "ast_tvdiff_us a b = tv_us a - tv_us b"
  by (simp add: ast_tvdiff_us_def tv_us_def)

lemma samp2tv_ms: "ast_samp2tv (n :: 32 word) 1000 = Timeval (uint n div 1000) (uint n mod 1000 * 1000)"
proof -
  have m: "uint (n mod 1000) = uint n mod 1000" by (simp add: uint_mod)
  have "uint ((n mod 1000) * 4000) = uint n mod 1000 * 4000"
    using m by (simp add: uint_word_ariths)
  then show ?thesis
    by (simp add: ast_samp2tv_def ast_tv_def uint_div m)
qed

lemma samp2tv_ms_ok: "tv_ok (ast_samp2tv n 1000) \<and> tv_us (ast_samp2tv n 1000) = uint n * 1000"
proof -
  have "uint n = uint n div 1000 * 1000 + uint n mod 1000" by simp
  then have "uint n div 1000 * 1000000 + uint n mod 1000 * 1000 = uint n * 1000" by linarith
  then show ?thesis by (simp add: samp2tv_ms tv_ok_def tv_us_def)
qed

section \<open>Properties\<close>

text \<open>
  On normalised times \<open>ast_tvadd\<close> and \<open>ast_tvsub\<close> are exact, give normalised times, and undo each
  other.
\<close>

theorem tvadd_tvsub_exact:
  assumes "tv_ok a" "tv_ok b"
  shows "tv_ok (ast_tvadd a b) \<and> tv_us (ast_tvadd a b) = tv_us a + tv_us b \<and>
    tv_ok (ast_tvsub a b) \<and> tv_us (ast_tvsub a b) = tv_us a - tv_us b \<and> ast_tvsub (ast_tvadd a b) b = a"
proof -
  note ab = tvadd_ok [OF assms] tvsub_ok [OF assms]
  moreover have "tv_ok (ast_tvsub (ast_tvadd a b) b)" "tv_us (ast_tvsub (ast_tvadd a b) b) = tv_us a"
    using tvsub_ok [of "ast_tvadd a b" b] ab assms by auto
  then have "ast_tvsub (ast_tvadd a b) b = a"
    using tv_le_us [OF _ assms(1)] tv_le_us [OF assms(1)] by (auto intro: antisym)
  ultimately show ?thesis by blast
qed

theorem tvadd_tvsub_exact_witness:
  "tv_us (ast_tvadd (Timeval 5 999000) (Timeval 1 2000)) = 7001000"
  using tvadd_tvsub_exact [of "Timeval 5 999000" "Timeval 1 2000"] by (simp add: tv_ok_def tv_us_def)

text \<open>
  On normalised times \<open>ast_tvdiff_ms\<close> is the difference in microseconds divided by 1000, rounded down
  for negative differences too, and \<open>ast_tvcmp\<close> is the sign of that difference.
\<close>

theorem tvdiff_ms_exact:
  assumes "tv_ok a" "tv_ok b"
  shows "ast_tvdiff_ms a b = (tv_us a - tv_us b) div 1000 \<and> ast_tvcmp a b = sgn (tv_us a - tv_us b)"
  using tvdiff_ms_floor [OF assms] assms by (simp add: tvcmp_sgn tv_less_us sgn_if)

theorem tvdiff_ms_exact_witness:
  "ast_tvdiff_ms (Timeval 5 0) (Timeval 5 1) = -1"
  using tvdiff_ms_exact [of "Timeval 5 0" "Timeval 5 1"] by (simp add: tv_ok_def tv_us_def)

end
