(* ===== verification/Ast_Sched.thy ===== *)
theory Ast_Sched
  imports Ast_Heap Ast_Hashtab Ast_Time
begin

text \<open>
  The event scheduler of \<open>main/sched.c\<close>: scheduled entries kept both in a heap ordered by
  time and in a hash table keyed by entry number, with a cache of released entries.
\<close>

section \<open>State\<close>

text \<open>Function pointers and data pointers are addresses, with 0 for \<open>NULL\<close>.\<close>

type_synonym ptr = nat

text \<open>\<open>struct sched\<close>; its \<open>__heap_index\<close> lives in the heap's \<open>index_of\<close>.\<close>

record sched =
  sched_id :: int
  sched_when :: timeval
  sched_resched :: int
  sched_variable :: int
  sched_data :: ptr
  sched_callback :: ptr

record sched_context =
  eventcnt :: "32 word"
  schedcnt :: "32 word"
  highwater :: "32 word"
  schedq_ht :: "sched ast_hashtab"
  sched_heap :: "sched ast_heap"
  schedc :: "sched list"
  schedccnt :: "32 word"

text \<open>Which of the allocations of an operation succeed.\<close>

record mem =
  mem_entry :: bool
  mem_heap :: bool
  mem_bucket :: bool
  mem_array :: bool

definition mem_all :: mem where
  "mem_all = \<lparr>mem_entry = True, mem_heap = True, mem_bucket = True, mem_array = True\<rparr>"

section \<open>Operations\<close>

definition sched_cmp :: "sched \<Rightarrow> sched \<Rightarrow> int" where
  "sched_cmp a b = (if sched_id a \<noteq> sched_id b then 1 else 0)"

definition sched_hash :: "sched \<Rightarrow> 32 word" where
  "sched_hash s = word_of_int (sched_id s)"

definition sched_time_cmp :: "sched \<Rightarrow> sched \<Rightarrow> int" where
  "sched_time_cmp a b = ast_tvcmp (sched_when b) (sched_when a)"

text \<open>The key \<open>struct sched tmp = { .id = id }\<close> used for lookups.\<close>

definition sched_probe :: "int \<Rightarrow> sched" where
  "sched_probe i = \<lparr>sched_id = i, sched_when = Timeval 0 0, sched_resched = 0,
                     sched_variable = 0, sched_data = 0, sched_callback = 0\<rparr>"

text \<open>
  \<open>sched_context_create\<close> does not look at the result of \<open>ast_hashtab_create\<close>: when that
  allocation fails it returns a context whose table is \<open>NULL\<close> (\<open>Created_no_table\<close>).
\<close>

datatype create_result = Create_failed | Created_no_table | Created sched_context

definition sched_context_create :: "mem \<Rightarrow> (sched \<Rightarrow> int) \<Rightarrow> create_result" where
  "sched_context_create m idx =
     (if \<not> mem_entry m then Create_failed
      else let ht = ast_hashtab_create (mem_bucket m) 23 sched_cmp (Some ast_hashtab_resize_java)
                      (Some ast_hashtab_newsize_java) sched_hash
           in case ast_heap_create (mem_heap m) 8 (Some sched_time_cmp) 0 idx of
                None \<Rightarrow> Create_failed
              | Some h \<Rightarrow>
                  (case ht of
                     None \<Rightarrow> Created_no_table
                   | Some tab \<Rightarrow> Created \<lparr>eventcnt = 1, schedcnt = 0, highwater = 0, schedq_ht = tab,
                                       sched_heap = h, schedc = [], schedccnt = 0\<rparr>))"

definition SCHED_MAX_CACHE :: "32 word" where
  "SCHED_MAX_CACHE = 128"

text \<open>\<open>sched_alloc\<close>: is an entry available, and the context after taking it.\<close>

definition sched_alloc :: "mem \<Rightarrow> sched_context \<Rightarrow> bool \<times> sched_context" where
  "sched_alloc m con =
     (case schedc con of
        tmp # rest \<Rightarrow> (True, con\<lparr>schedc := rest, schedccnt := schedccnt con - 1\<rparr>)
      | [] \<Rightarrow> (mem_entry m, con))"

definition sched_release :: "sched_context \<Rightarrow> sched \<Rightarrow> sched_context" where
  "sched_release con tmp =
     (if schedccnt con < SCHED_MAX_CACHE
      then con\<lparr>schedc := tmp # schedc con, schedccnt := schedccnt con + 1\<rparr> else con)"

text \<open>\<open>ast_sched_wait\<close>: the 64-bit difference is stored into an \<open>int\<close>.\<close>

definition ast_sched_wait :: "timeval \<Rightarrow> sched_context \<Rightarrow> int" where
  "ast_sched_wait now con =
     (case ast_heap_peek (sched_heap con) 1 of
        Some s \<Rightarrow> (let ms = to_int32 (ast_tvdiff_ms (sched_when s) now) in if ms < 0 then 0 else ms)
      | None \<Rightarrow> -1)"

definition schedule :: "mem \<Rightarrow> sched_context \<Rightarrow> sched \<Rightarrow> sched_context" where
  "schedule m con s =
     (let h = snd (ast_heap_push (mem_heap m) (sched_heap con) s);
          t = snd (ast_hashtab_insert_safe (mem_bucket m) (mem_array m) (schedq_ht con) s);
          cnt = schedcnt con + 1
      in con\<lparr>sched_heap := h, schedq_ht := t, schedcnt := cnt,
             highwater := (if cnt > highwater con then cnt else highwater con)\<rparr>)"

text \<open>\<open>sched_settime\<close> passes the signed delay to \<open>ast_samp2tv\<close>, which takes it as unsigned.\<close>

definition sched_settime :: "timeval \<Rightarrow> timeval \<Rightarrow> int \<Rightarrow> timeval" where
  "sched_settime now t wh =
     (let t1 = (if ast_tvzero t then now else t);
          t2 = ast_tvadd t1 (ast_samp2tv (word_of_int wh) 1000)
      in if ast_tvcmp t2 now < 0 then now else t2)"

definition ast_sched_add_variable ::
  "mem \<Rightarrow> timeval \<Rightarrow> sched_context \<Rightarrow> int \<Rightarrow> ptr \<Rightarrow> ptr \<Rightarrow> int \<Rightarrow> int \<times> sched_context" where
  "ast_sched_add_variable m now con wh callback data variable =
     (let (ok, con1) = sched_alloc m con
      in if \<not> ok then (-1, con1)
         else let newid = sint (eventcnt con1);
                  con2 = con1\<lparr>eventcnt := eventcnt con1 + 1\<rparr>;
                  tmp = \<lparr>sched_id = newid, sched_when = sched_settime now (ast_tv 0 0) wh,
                         sched_resched = wh, sched_variable = variable,
                         sched_data = data, sched_callback = callback\<rparr>
              in (newid, schedule m con2 tmp))"

definition ast_sched_add ::
  "mem \<Rightarrow> timeval \<Rightarrow> sched_context \<Rightarrow> int \<Rightarrow> ptr \<Rightarrow> ptr \<Rightarrow> int \<times> sched_context" where
  "ast_sched_add m now con wh callback data = ast_sched_add_variable m now con wh callback data 0"

definition ast_sched_find_data :: "sched_context \<Rightarrow> int \<Rightarrow> ptr" where
  "ast_sched_find_data con i =
     (case ast_hashtab_lookup (schedq_ht con) (sched_probe i) of Some s \<Rightarrow> sched_data s | None \<Rightarrow> 0)"

definition ast_sched_del :: "sched_context \<Rightarrow> int \<Rightarrow> int \<times> sched_context" where
  "ast_sched_del con i =
     (if i < 0 then (0, con)
      else case ast_hashtab_lookup (schedq_ht con) (sched_probe i) of
        None \<Rightarrow> (-1, con)
      | Some s \<Rightarrow>
          (let con1 = con\<lparr>sched_heap := snd (ast_heap_remove (sched_heap con) s),
                          schedq_ht := snd (ast_hashtab_remove_this_object (schedq_ht con) s),
                          schedcnt := schedcnt con - 1\<rparr>
           in (0, sched_release con1 s)))"

text \<open>The macro \<open>AST_SCHED_DEL\<close>: at most ten attempts.\<close>

fun sched_del_attempts :: "nat \<Rightarrow> sched_context \<Rightarrow> int \<Rightarrow> sched_context" where
  "sched_del_attempts 0 con i = con"
| "sched_del_attempts (Suc n) con i =
     (if i > -1
      then let (res, con') = ast_sched_del con i
           in if res \<noteq> 0 then sched_del_attempts n con' i else con'
      else con)"

definition ast_sched_replace_variable ::
  "mem \<Rightarrow> timeval \<Rightarrow> int \<Rightarrow> sched_context \<Rightarrow> int \<Rightarrow> ptr \<Rightarrow> ptr \<Rightarrow> int \<Rightarrow> int \<times> sched_context" where
  "ast_sched_replace_variable m now old_id con wh callback data variable =
     (let con1 = (if old_id > 0 then sched_del_attempts 10 con old_id else con)
      in ast_sched_add_variable m now con1 wh callback data variable)"

definition ast_sched_replace ::
  "mem \<Rightarrow> timeval \<Rightarrow> int \<Rightarrow> sched_context \<Rightarrow> int \<Rightarrow> ptr \<Rightarrow> ptr \<Rightarrow> int \<times> sched_context" where
  "ast_sched_replace m now old_id con wh callback data =
     (let con1 = (if old_id > -1 then sched_del_attempts 10 con old_id else con)
      in ast_sched_add m now con1 wh callback data)"

definition ast_sched_when :: "timeval \<Rightarrow> sched_context \<Rightarrow> int \<Rightarrow> int" where
  "ast_sched_when now con i =
     (case ast_hashtab_lookup (schedq_ht con) (sched_probe i) of
        Some s \<Rightarrow> tv_sec (sched_when s) - tv_sec now
      | None \<Rightarrow> -1)"

text \<open>
  \<open>ast_sched_runq\<close>. \<open>run s con\<close> is the effect of the callback of entry \<open>s\<close>, which runs
  without the lock: its result and the context after it. \<open>clock\<close> gives the time at
  each call of \<open>sched_settime\<close>. The loop may go on for ever when callbacks keep adding due
  entries, so it has fuel. The entries run are recorded in order.
\<close>

definition runq_finish :: "mem \<Rightarrow> timeval \<Rightarrow> sched \<Rightarrow> int \<Rightarrow> sched_context \<Rightarrow> sched_context" where
  "runq_finish m now current res con =
     (if res \<noteq> 0
      then schedule m con (current\<lparr>sched_when :=
             sched_settime now (sched_when current)
               (if sched_variable current \<noteq> 0 then res else sched_resched current)\<rparr>)
      else sched_release con current)"

definition runq_take :: "sched_context \<Rightarrow> sched \<Rightarrow> sched_context" where
  "runq_take con current =
     con\<lparr>sched_heap := snd (ast_heap_pop (sched_heap con)),
         schedq_ht := snd (ast_hashtab_remove_this_object (schedq_ht con) current),
         schedcnt := schedcnt con - 1\<rparr>"

fun runq_loop ::
  "mem \<Rightarrow> (nat \<Rightarrow> timeval) \<Rightarrow> (sched \<Rightarrow> sched_context \<Rightarrow> int \<times> sched_context) \<Rightarrow> timeval \<Rightarrow>
   nat \<Rightarrow> nat \<Rightarrow> sched_context \<Rightarrow> (sched list \<times> sched_context) option" where
  "runq_loop m clock run limit 0 numevents con = None"
| "runq_loop m clock run limit (Suc fuel) numevents con =
     (case ast_heap_peek (sched_heap con) 1 of
        None \<Rightarrow> Some ([], con)
      | Some current \<Rightarrow>
          if ast_tvcmp (sched_when current) limit \<noteq> -1 then Some ([], con)
          else let con1 = runq_take con current;
                   (res, con2) = run current con1;
                   con3 = runq_finish m (clock numevents) current res con2
               in map_option (\<lambda>(fired, con'). (current # fired, con'))
                    (runq_loop m clock run limit fuel (Suc numevents) con3))"

definition ast_sched_runq ::
  "mem \<Rightarrow> timeval \<Rightarrow> (nat \<Rightarrow> timeval) \<Rightarrow> (sched \<Rightarrow> sched_context \<Rightarrow> int \<times> sched_context) \<Rightarrow>
   nat \<Rightarrow> sched_context \<Rightarrow> (sched list \<times> sched_context) option" where
  "ast_sched_runq m now clock run fuel con =
     runq_loop m clock run (ast_tvadd now (ast_tv 0 1000)) fuel 0 con"

text \<open>\<open>sched_context_destroy\<close>: the entries it frees, in order, out of the heap.\<close>

fun heap_drain :: "nat \<Rightarrow> sched ast_heap \<Rightarrow> sched list option" where
  "heap_drain 0 h = None"
| "heap_drain (Suc fuel) h =
     (case ast_heap_pop h of
        (None, _) \<Rightarrow> Some []
      | (Some s, h') \<Rightarrow> map_option ((#) s) (heap_drain fuel h'))"

definition sched_context_destroy :: "nat \<Rightarrow> sched_context \<Rightarrow> sched list option" where
  "sched_context_destroy fuel con = map_option ((@) (schedc con)) (heap_drain fuel (sched_heap con))"

section \<open>The scheduler's heap and table\<close>

interpretation sq: heap_order sched_time_cmp
  by unfold_locales (auto simp: sched_time_cmp_def tvcmp_sgn split: if_splits)

interpretation st: hash_key sched_cmp sched_hash
  by unfold_locales (auto simp: sched_cmp_def sched_hash_def split: if_splits)

lemma urgent_iff: "0 \<le> sched_time_cmp a b \<longleftrightarrow> sched_when a \<le> sched_when b"
  by (auto simp: sched_time_cmp_def tvcmp_sgn)

lemma sched_cmp_iff [simp]: "sched_cmp a b = 0 \<longleftrightarrow> sched_id a = sched_id b"
  by (simp add: sched_cmp_def)

lemma sched_probe_id [simp]: "sched_id (sched_probe i) = i"
  by (simp add: sched_probe_def)

text \<open>
  The scheduler invariant: heap and table are sound, they hold the same entries, their times
  are normalised, the counters count the entries and the cache, and the cache is bounded.
\<close>

definition entries :: "sched_context \<Rightarrow> sched set" where
  "entries con = heap_set_of (sched_heap con)"

definition sched_ok :: "sched_context \<Rightarrow> bool" where
  "sched_ok con \<longleftrightarrow> pq_ok sched_time_cmp (sched_heap con) \<and>
     ht_ok sched_cmp sched_hash (schedq_ht con) \<and>
     ht_objs (schedq_ht con) = entries con \<and> schedcnt con = of_nat (card (entries con)) \<and>
     (\<forall>s \<in> entries con. tv_ok (sched_when s)) \<and>
     schedccnt con = of_nat (length (schedc con)) \<and> length (schedc con) \<le> 128"

definition id_free :: "sched_context \<Rightarrow> int \<Rightarrow> bool" where
  "id_free con i \<longleftrightarrow> (\<forall>s \<in> entries con. sched_id s \<noteq> i)"

lemma entries_finite: "sched_ok con \<Longrightarrow> finite (entries con)"
  by (simp add: sched_ok_def entries_def sq.elems_finite)

lemma lookup_id:
  "sched_ok con \<Longrightarrow>
   ast_hashtab_lookup (schedq_ht con) (sched_probe i) = Some s \<longleftrightarrow> s \<in> entries con \<and> sched_id s = i"
  by (auto simp: sched_ok_def st.lookup_Some)

lemma lookup_free:
  "sched_ok con \<Longrightarrow> ast_hashtab_lookup (schedq_ht con) (sched_probe i) = None \<longleftrightarrow> id_free con i"
  using lookup_id [of con i] by (cases "ast_hashtab_lookup (schedq_ht con) (sched_probe i)") (auto simp: id_free_def)

lemma ids_unique: "sched_ok con \<Longrightarrow> s \<in> entries con \<Longrightarrow> t \<in> entries con \<Longrightarrow> sched_id s = sched_id t \<Longrightarrow> s = t"
  using st.key_unique [of "schedq_ht con" s t] by (auto simp: sched_ok_def)

lemma lookup_entry:
  "sched_ok con \<Longrightarrow> ast_hashtab_lookup (schedq_ht con) s = None \<longleftrightarrow> id_free con (sched_id s)"
  using st.lookup_None [of "schedq_ht con" s] by (auto simp: id_free_def sched_ok_def)

lemma sched_ok_eventcnt [simp]:
  "sched_ok (con\<lparr>eventcnt := n\<rparr>) = sched_ok con" "entries (con\<lparr>eventcnt := n\<rparr>) = entries con"
  by (simp_all add: sched_ok_def entries_def)

lemma sched_settime_ok:
  assumes "tv_ok now" "tv_ok t"
  shows "tv_ok (sched_settime now t w)"
    and "tv_us (sched_settime now t w) =
         max (tv_us now) ((if ast_tvzero t then tv_us now else tv_us t) + uint (word_of_int w :: 32 word) * 1000)"
proof -
  let ?t = "if ast_tvzero t then now else t"
  let ?s = "ast_samp2tv (word_of_int w) 1000"
  have "tv_ok ?t" using assms by simp
  then have a: "tv_ok (ast_tvadd ?t ?s)" "tv_us (ast_tvadd ?t ?s) = tv_us ?t + uint (word_of_int w :: 32 word) * 1000"
    using tvadd_ok [of ?t ?s] samp2tv_ms_ok [of "word_of_int w"] by auto
  then have "ast_tvcmp (ast_tvadd ?t ?s) now < 0 \<longleftrightarrow> tv_us (ast_tvadd ?t ?s) < tv_us now"
    using assms by (auto simp: tvcmp_sgn tv_less_us)
  with a assms show "tv_ok (sched_settime now t w)"
    "tv_us (sched_settime now t w) =
         max (tv_us now) ((if ast_tvzero t then tv_us now else tv_us t) + uint (word_of_int w :: 32 word) * 1000)"
    by (auto simp: sched_settime_def Let_def max_def)
qed

lemma schedule_correct:
  assumes "sched_ok con" "id_free con (sched_id s)" "tv_ok (sched_when s)"
  shows "sched_ok (schedule mem_all con s)" "entries (schedule mem_all con s) = insert s (entries con)"
proof -
  have new: "s \<notin> entries con" using assms(2) by (auto simp: id_free_def)
  note push = sq.push_elem [of "sched_heap con" s]
  note ins = st.insert_new [of "schedq_ht con" s]
  show e: "entries (schedule mem_all con s) = insert s (entries con)"
    using push assms(1) new by (simp add: schedule_def Let_def entries_def sched_ok_def mem_all_def)
  show "sched_ok (schedule mem_all con s)"
    using push ins lookup_entry [OF assms(1), of s] e new assms entries_finite [OF assms(1)]
    by (simp add: sched_ok_def schedule_def Let_def entries_def mem_all_def add.commute)
qed

lemma sched_release_correct:
  assumes "sched_ok con"
  shows "sched_ok (sched_release con s)" "entries (sched_release con s) = entries con"
proof -
  have "schedccnt con < SCHED_MAX_CACHE \<longleftrightarrow> length (schedc con) < 128"
    using assms by (simp add: sched_ok_def SCHED_MAX_CACHE_def word_less_nat_alt unat_of_nat)
  with assms show "sched_ok (sched_release con s)" "entries (sched_release con s) = entries con"
    by (auto simp: sched_ok_def sched_release_def entries_def)
qed

lemma sched_alloc_correct:
  assumes "sched_ok con"
  shows "sched_ok (snd (sched_alloc m con))" "entries (snd (sched_alloc m con)) = entries con"
    "eventcnt (snd (sched_alloc m con)) = eventcnt con"
  using assms by (auto simp: sched_ok_def sched_alloc_def entries_def split: list.split)

text \<open>Taking an entry out of heap and table, as \<open>ast_sched_del\<close> and \<open>ast_sched_runq\<close> do.\<close>

lemma take_out_ok:
  assumes "sched_ok con" "s \<in> entries con"
    "pq_ok sched_time_cmp h" "heap_set_of h = entries con - {s}"
  shows "sched_ok (con\<lparr>sched_heap := h,
           schedq_ht := snd (ast_hashtab_remove_this_object (schedq_ht con) s), schedcnt := schedcnt con - 1\<rparr>)"
proof -
  have "card (entries con) = Suc (card (entries con - {s}))"
    using card.remove [OF entries_finite [OF assms(1)] assms(2)] .
  moreover have "\<forall>s \<in> entries con. tv_ok (sched_when s)" using assms(1) by (simp add: sched_ok_def)
  ultimately show ?thesis
    using assms st.remove_present [of "schedq_ht con" s]
    by (simp add: sched_ok_def entries_def)
qed

lemma sched_del_present:
  assumes "sched_ok con" "s \<in> entries con" "0 \<le> sched_id s"
  shows "fst (ast_sched_del con (sched_id s)) = 0" "sched_ok (snd (ast_sched_del con (sched_id s)))"
    "entries (snd (ast_sched_del con (sched_id s))) = entries con - {s}"
proof -
  have l: "ast_hashtab_lookup (schedq_ht con) (sched_probe (sched_id s)) = Some s"
    using assms lookup_id by simp
  note rm = sq.remove_elem [of "sched_heap con" s]
  let ?c = "con\<lparr>sched_heap := snd (ast_heap_remove (sched_heap con) s),
           schedq_ht := snd (ast_hashtab_remove_this_object (schedq_ht con) s), schedcnt := schedcnt con - 1\<rparr>"
  have rm': "pq_ok sched_time_cmp (snd (ast_heap_remove (sched_heap con) s))"
    "heap_set_of (snd (ast_heap_remove (sched_heap con) s)) = entries con - {s}"
    using rm assms by (auto simp: sched_ok_def entries_def)
  have "sched_ok ?c" using take_out_ok [OF assms(1,2) rm'] .
  moreover have "entries ?c = entries con - {s}" using rm' by (simp add: entries_def)
  ultimately show "fst (ast_sched_del con (sched_id s)) = 0" "sched_ok (snd (ast_sched_del con (sched_id s)))"
    "entries (snd (ast_sched_del con (sched_id s))) = entries con - {s}"
    using l assms(3) sched_release_correct [of ?c s] by (auto simp: ast_sched_del_def Let_def)
qed

lemma sched_del_absent:
  "sched_ok con \<Longrightarrow> 0 \<le> i \<Longrightarrow> id_free con i \<Longrightarrow> ast_sched_del con i = (-1, con)"
  using lookup_free [of con i] by (simp add: ast_sched_del_def)

lemma runq_take_correct:
  assumes "sched_ok con" "ast_heap_peek (sched_heap con) 1 = Some s"
  shows "s \<in> entries con" "sched_ok (runq_take con s)" "entries (runq_take con s) = entries con - {s}"
    "\<And>t. t \<in> entries con \<Longrightarrow> sched_when s \<le> sched_when t"
proof -
  have p: "pq_ok sched_time_cmp (sched_heap con)" using assms(1) by (simp add: sched_ok_def)
  note pk = sq.peek_Some [OF p assms(2)]
  then show s: "s \<in> entries con" "\<And>t. t \<in> entries con \<Longrightarrow> sched_when s \<le> sched_when t"
    "entries (runq_take con s) = entries con - {s}"
    by (auto simp: entries_def urgent_iff runq_take_def)
  show "sched_ok (runq_take con s)"
    unfolding runq_take_def using take_out_ok [OF assms(1) s(1)] pk by (simp add: entries_def)
qed

lemma peek_empty: "sched_ok con \<Longrightarrow> ast_heap_peek (sched_heap con) 1 = None \<longleftrightarrow> entries con = {}"
  using sq.peek_None [of "sched_heap con"] by (simp add: sched_ok_def entries_def)

text \<open>The entry \<open>ast_sched_add_variable\<close> builds.\<close>

definition new_entry :: "timeval \<Rightarrow> sched_context \<Rightarrow> int \<Rightarrow> ptr \<Rightarrow> ptr \<Rightarrow> int \<Rightarrow> sched" where
  "new_entry now con wh callback data variable =
     \<lparr>sched_id = sint (eventcnt con), sched_when = sched_settime now (Timeval 0 0) wh,
      sched_resched = wh, sched_variable = variable, sched_data = data, sched_callback = callback\<rparr>"

lemma sched_add_correct:
  assumes "sched_ok con" "id_free con (sint (eventcnt con))" "tv_ok now"
  shows "fst (ast_sched_add_variable mem_all now con wh cb dat var) = sint (eventcnt con)"
    "sched_ok (snd (ast_sched_add_variable mem_all now con wh cb dat var))"
    "entries (snd (ast_sched_add_variable mem_all now con wh cb dat var)) =
     insert (new_entry now con wh cb dat var) (entries con)"
proof -
  let ?c = "snd (sched_alloc mem_all con)"
  let ?e = "new_entry now con wh cb dat var"
  note al = sched_alloc_correct [OF assms(1), of mem_all]
  have ok: "fst (sched_alloc mem_all con)" by (simp add: sched_alloc_def mem_all_def split: list.split)
  let ?d = "?c\<lparr>eventcnt := eventcnt con + 1\<rparr>"
  have d: "sched_ok ?d" "entries ?d = entries con" using al by simp_all
  then have free: "id_free ?d (sched_id ?e)" using assms(2) by (simp add: id_free_def new_entry_def)
  have tv: "tv_ok (sched_when ?e)"
    using sched_settime_ok(1) [OF assms(3), of "Timeval 0 0" wh] by (simp add: new_entry_def tv_ok_def)
  have eq: "ast_sched_add_variable mem_all now con wh cb dat var = (sint (eventcnt con), schedule mem_all ?d ?e)"
    using ok al(3) by (cases "sched_alloc mem_all con")
      (simp add: ast_sched_add_variable_def new_entry_def ast_tv_def Let_def)
  show "fst (ast_sched_add_variable mem_all now con wh cb dat var) = sint (eventcnt con)"
    "sched_ok (snd (ast_sched_add_variable mem_all now con wh cb dat var))"
    "entries (snd (ast_sched_add_variable mem_all now con wh cb dat var)) = insert ?e (entries con)"
    using eq schedule_correct [OF d(1) free tv] d(2) by simp_all
qed

section \<open>Running the queue\<close>

text \<open>
  \<open>passive_cb ret\<close>: callbacks that leave the context alone and return \<open>ret callback data\<close>. The delay
  after which an entry comes back is positive when \<open>rearms ret s\<close>.
\<close>

definition passive_cb :: "(ptr \<Rightarrow> ptr \<Rightarrow> int) \<Rightarrow> sched \<Rightarrow> sched_context \<Rightarrow> int \<times> sched_context" where
  "passive_cb ret s con = (ret (sched_callback s) (sched_data s), con)"

definition rearm_delay :: "(ptr \<Rightarrow> ptr \<Rightarrow> int) \<Rightarrow> sched \<Rightarrow> int" where
  "rearm_delay ret s =
     (if sched_variable s \<noteq> 0 then ret (sched_callback s) (sched_data s) else sched_resched s)"

definition rearms_later :: "(ptr \<Rightarrow> ptr \<Rightarrow> int) \<Rightarrow> sched \<Rightarrow> bool" where
  "rearms_later ret s \<longleftrightarrow>
     (ret (sched_callback s) (sched_data s) \<noteq> 0 \<longrightarrow> 1 \<le> rearm_delay ret s \<and> rearm_delay ret s < 2 ^ 31)"

text \<open>How often an entry can still run before the loop's limit.\<close>

definition due_weight :: "timeval \<Rightarrow> timeval \<Rightarrow> sched \<Rightarrow> nat" where
  "due_weight now limit s =
     (if sched_when s < now then 2 else if sched_when s < limit then 1 else 0)"

definition due_total :: "timeval \<Rightarrow> timeval \<Rightarrow> sched_context \<Rightarrow> nat" where
  "due_total now limit con = (\<Sum>s \<in> entries con. due_weight now limit s)"

lemma due_total_remove:
  assumes "sched_ok con" "s \<in> entries con"
  shows "due_total now limit con = due_weight now limit s + (\<Sum>t \<in> entries con - {s}. due_weight now limit t)"
  using sum.remove [OF entries_finite [OF assms(1)] assms(2)] by (simp add: due_total_def)

lemma due_total_bound: "due_total now limit con \<le> 2 * card (entries con)"
  using sum_bounded_above [of "entries con" "due_weight now limit" 2]
  by (simp add: due_total_def due_weight_def mult.commute)

abbreviation rearmed :: "timeval \<Rightarrow> int \<Rightarrow> sched \<Rightarrow> sched" where
  "rearmed tm d s \<equiv> s\<lparr>sched_when := sched_settime tm (sched_when s) d\<rparr>"

lemma rearmed_weight:
  assumes "tv_ok now" "tv_ok tm" "now \<le> tm" "tv_ok (sched_when s)" "1 \<le> d" "d < 2 ^ 31"
    "sched_when s < ast_tvadd now (Timeval 0 1000)"
  shows "due_weight now (ast_tvadd now (Timeval 0 1000)) (rearmed tm d s)
         < due_weight now (ast_tvadd now (Timeval 0 1000)) s"
proof -
  let ?s = "rearmed tm d s" and ?l = "ast_tvadd now (Timeval 0 1000)"
  have u: "uint (word_of_int d :: 32 word) = d" using assms(5,6) by (simp add: take_bit_int_eq_self unsigned_of_int)
  have l: "tv_ok ?l" "tv_us ?l = tv_us now + 1000"
    using tvadd_ok [OF assms(1), of "Timeval 0 1000"] by (auto simp: tv_ok_def tv_us_def)
  have ok: "tv_ok (sched_when ?s)" using sched_settime_ok(1) [OF assms(2,4)] by simp
  have us: "tv_us (sched_when ?s) = max (tv_us tm)
      ((if ast_tvzero (sched_when s) then tv_us tm else tv_us (sched_when s)) + d * 1000)"
    using sched_settime_ok(2) [OF assms(2,4)] u by simp
  have tm: "tv_us now \<le> tv_us tm" using assms(1-3) tv_le_us by simp
  then have now: "now \<le> sched_when ?s" using us tm tv_le_us [OF assms(1) ok] by simp
  show "due_weight now ?l ?s < due_weight now ?l s"
  proof (cases "sched_when s < now")
    case True
    then show ?thesis using now by (simp add: due_weight_def)
  next
    case False
    then have "tv_us now \<le> tv_us (sched_when s)" using tv_less_us [OF assms(4,1)] by simp
    then have "tv_us ?l \<le> tv_us (sched_when ?s)" using us l assms(5) tm by auto
    then show ?thesis using False assms(7) now tv_less_us [OF ok l(1)]
      by (simp add: due_weight_def)
  qed
qed

text \<open>
  Callbacks that use the scheduler themselves. The context they get and the context they leave
  satisfy the invariant, and they do not take the number of the entry being run.
\<close>

type_synonym callback = "sched \<Rightarrow> sched_context \<Rightarrow> int \<times> sched_context"

definition callback_ok :: "callback \<Rightarrow> bool" where
  "callback_ok run \<longleftrightarrow> (\<forall>s con. sched_ok con \<longrightarrow> id_free con (sched_id s) \<longrightarrow>
     sched_ok (snd (run s con)) \<and> id_free (snd (run s con)) (sched_id s))"

text \<open>What they add is not due within the run; what they return for an entry like \<open>Q\<close> rearms it after a positive delay.\<close>

definition adds_later :: "timeval \<Rightarrow> callback \<Rightarrow> bool" where
  "adds_later lim run \<longleftrightarrow> (\<forall>s con. sched_ok con \<longrightarrow> id_free con (sched_id s) \<longrightarrow>
     (\<forall>t \<in> entries (snd (run s con)). sched_when t < lim \<longrightarrow> t \<in> entries con))"

definition cancels_none :: "callback \<Rightarrow> bool" where
  "cancels_none run \<longleftrightarrow> (\<forall>s con. sched_ok con \<longrightarrow> id_free con (sched_id s) \<longrightarrow> entries con \<subseteq> entries (snd (run s con)))"

abbreviation delay_of :: "sched \<Rightarrow> int \<Rightarrow> int" where
  "delay_of s res \<equiv> if sched_variable s \<noteq> 0 then res else sched_resched s"

lemma runq_step:
  assumes "sched_ok con" "ast_heap_peek (sched_heap con) 1 = Some s" "tv_ok tm" "callback_ok run"
    "run s (runq_take con s) = (res, con2)"
  shows "sched_ok (runq_finish mem_all tm s res con2)"
    "entries (runq_finish mem_all tm s res con2) = (if res = 0 then {} else {rearmed tm (delay_of s res) s}) \<union> entries con2"
    "sched_ok con2" "id_free con2 (sched_id s)" "sched_ok (runq_take con s)" "id_free (runq_take con s) (sched_id s)"
proof -
  note tk = runq_take_correct [OF assms(1,2)]
  have ok: "tv_ok (sched_when s)" using assms(1) tk(1) by (simp add: sched_ok_def)
  show t: "sched_ok (runq_take con s)" "id_free (runq_take con s) (sched_id s)"
    using tk(2,3) ids_unique [OF assms(1) tk(1)] by (fastforce simp: id_free_def)+
  then show c2: "sched_ok con2" "id_free con2 (sched_id s)" using assms(4,5) unfolding callback_ok_def by (metis snd_conv)+
  have tv: "tv_ok (sched_when (rearmed tm d s))" for d using sched_settime_ok(1) [OF assms(3) ok] by simp
  have free: "id_free con2 (sched_id (rearmed tm d s))" for d using c2(2) by simp
  show "sched_ok (runq_finish mem_all tm s res con2)"
    "entries (runq_finish mem_all tm s res con2) = (if res = 0 then {} else {rearmed tm (delay_of s res) s}) \<union> entries con2"
    using schedule_correct [OF c2(1) free tv] sched_release_correct [OF c2(1)] by (auto simp: runq_finish_def)
qed

lemma runq_step_less:
  assumes "sched_ok con" "ast_heap_peek (sched_heap con) 1 = Some s" "tv_ok now" "tv_ok tm" "now \<le> tm" "callback_ok run"
    "run s (runq_take con s) = (res, con2)" "adds_later (ast_tvadd now (Timeval 0 1000)) run"
    "sched_when s < ast_tvadd now (Timeval 0 1000)" "res \<noteq> 0 \<longrightarrow> 1 \<le> delay_of s res \<and> delay_of s res < 2 ^ 31"
  shows "due_total now (ast_tvadd now (Timeval 0 1000)) (runq_finish mem_all tm s res con2) < due_total now (ast_tvadd now (Timeval 0 1000)) con"
proof -
  let ?l = "ast_tvadd now (Timeval 0 1000)" let ?w = "due_weight now ?l"
  note tk = runq_take_correct [OF assms(1,2)] and st = runq_step [OF assms(1,2,4,6,7)]
  have ok: "tv_ok (sched_when s)" using assms(1) tk(1) by (simp add: sched_ok_def)
  have fin: "finite (entries con)" "finite (entries con2)" using entries_finite assms(1) st(3) by auto
  have "t \<in> entries con - {s}" if "t \<in> entries con2" "?w t \<noteq> 0" for t
  proof -
    have nl: "now \<le> ?l" using tvadd_ok [OF assms(3), of "Timeval 0 1000"] assms(3) by (simp add: tv_ok_def tv_us_def tv_le_us)
    then have "sched_when t < ?l" using that(2) by (auto simp: due_weight_def split: if_splits)
    then have "t \<in> entries (runq_take con s)" using assms(7,8) st(5,6) that(1) unfolding adds_later_def by (metis snd_conv)
    then show ?thesis using tk(3) by simp
  qed
  then have "{t \<in> entries con2. ?w t \<noteq> 0} \<subseteq> entries con - {s}" by blast
  moreover have "sum ?w (entries con2) = sum ?w {t \<in> entries con2. ?w t \<noteq> 0}" using fin(2) by (intro sum.mono_neutral_right) auto
  ultimately have le: "sum ?w (entries con2) \<le> sum ?w (entries con - {s})" using fin(1) sum_mono2 [of "entries con - {s}" _ ?w] by simp
  have new: "rearmed tm d s \<notin> entries con2" for d using st(4) by (auto simp: id_free_def)
  have pos: "0 < ?w s" using assms(9) by (simp add: due_weight_def)
  have "due_total now ?l (runq_finish mem_all tm s res con2) < ?w s + sum ?w (entries con - {s})"
  proof (cases "res = 0")
    case True
    with st(2) le pos show ?thesis by (simp add: due_total_def)
  next
    case False
    then have "?w (rearmed tm (delay_of s res) s) < ?w s" using rearmed_weight [OF assms(3-5) ok _ _ assms(9)] assms(10) by simp
    moreover have "due_total now ?l (runq_finish mem_all tm s res con2) = ?w (rearmed tm (delay_of s res) s) + sum ?w (entries con2)"
      using False st(2) new fin(2) by (simp add: due_total_def del: due_weight_def)
    ultimately show ?thesis using le by linarith
  qed
  with due_total_remove [OF assms(1) tk(1), of now ?l] show ?thesis by simp
qed

lemma runq_terminates:
  fixes now :: timeval
  defines "lim \<equiv> ast_tvadd now (Timeval 0 1000)"
  assumes "callback_ok run" "adds_later lim run" "tv_ok now" "\<And>n. tv_ok (clock n) \<and> now \<le> clock n"
    and Q: "\<forall>s tm. Q s \<longrightarrow> Q (s\<lparr>sched_when := tm\<rparr>)"
      "\<forall>s c res c'. Q s \<longrightarrow> run s c = (res, c') \<longrightarrow> res \<noteq> 0 \<longrightarrow> 1 \<le> delay_of s res \<and> delay_of s res < 2 ^ 31"
    and "sched_ok con" "\<forall>s \<in> entries con. sched_when s < lim \<longrightarrow> Q s" "due_total now lim con < fuel"
  shows "\<exists>fired con'. runq_loop mem_all clock run lim fuel k con = Some (fired, con') \<and> sched_ok con' \<and>
     (\<forall>s \<in> entries con'. lim \<le> sched_when s) \<and> (\<forall>s \<in> set fired. sched_when s < lim \<and> (\<exists>t \<in> entries con. sched_when t < lim \<and> sched_id t = sched_id s)) \<and>
     (cancels_none run \<longrightarrow> {s \<in> entries con. sched_when s < lim} \<subseteq> set fired) \<and>
     (fired = [] \<longleftrightarrow> (\<forall>s \<in> entries con. lim \<le> sched_when s)) \<and> length fired \<le> due_total now lim con"
  using assms(8-10)
proof (induction fuel arbitrary: con k)
  case (Suc fuel)
  show ?case
  proof (cases "ast_heap_peek (sched_heap con) 1")
    case None
    then have "entries con = {}" using peek_empty [OF Suc.prems(1)] by simp
    with None Suc.prems(1) show ?thesis by auto
  next
    case (Some s)
    note tk = runq_take_correct [OF Suc.prems(1) Some]
    show ?thesis
    proof (cases "sched_when s < lim")
      case False
      then have "\<forall>t \<in> entries con. lim \<le> sched_when t" using tk(4) by (meson not_less order_trans)
      moreover have "{s \<in> entries con. sched_when s < lim} = {}" using calculation by (auto simp: leD)
      ultimately show ?thesis using Some False Suc.prems(1) by (auto simp: tvcmp_sgn)
    next
      case True
      obtain res con2 where run: "run s (runq_take con s) = (res, con2)" by fastforce
      let ?c = "runq_finish mem_all (clock k) s res con2"
      have clk: "tv_ok (clock k)" "now \<le> clock k" using assms(5) by auto
      note st = runq_step [OF Suc.prems(1) Some clk(1) assms(2) run]
      have Qs: "Q s" using Suc.prems(2) tk(1) True by blast
      then have d: "res \<noteq> 0 \<longrightarrow> 1 \<le> delay_of s res \<and> delay_of s res < 2 ^ 31" using Q(2) run by blast
      note less = runq_step_less [OF Suc.prems(1) Some assms(4) clk assms(2) run assms(3) [unfolded lim_def] True [unfolded lim_def] d, folded lim_def]
      have c2: "t \<in> entries con" if "t \<in> entries con2" "sched_when t < lim" for t
        using assms(3) st(5,6) run that tk(3) unfolding adds_later_def by (metis Diff_iff snd_conv)
      then have "\<forall>t \<in> entries ?c. sched_when t < lim \<longrightarrow> Q t" using st(2) Suc.prems(2) Q(1) Qs by auto
      from Suc.IH [OF st(1) this, of "Suc k"] less Suc.prems(3) obtain fired con' where r:
        "runq_loop mem_all clock run lim fuel (Suc k) ?c = Some (fired, con')"
        "sched_ok con'" "\<forall>s \<in> entries con'. lim \<le> sched_when s"
        "\<forall>s \<in> set fired. sched_when s < lim \<and> (\<exists>t \<in> entries ?c. sched_when t < lim \<and> sched_id t = sched_id s)"
        "cancels_none run \<longrightarrow> {s \<in> entries ?c. sched_when s < lim} \<subseteq> set fired" "length fired \<le> due_total now lim ?c" by auto
      have "runq_loop mem_all clock run lim (Suc fuel) k con = Some (s # fired, con')"
        using r(1) Some True run by (simp add: Let_def tvcmp_sgn)
      moreover have "\<forall>t \<in> set (s # fired). sched_when t < lim \<and> (\<exists>u \<in> entries con. sched_when u < lim \<and> sched_id u = sched_id t)"
        using r(4) True tk(1) st(2) c2 by (fastforce split: if_splits)
      moreover have "cancels_none run \<longrightarrow> {t \<in> entries con. sched_when t < lim} \<subseteq> set (s # fired)"
      proof
        assume c: "cancels_none run"
        then have "entries (runq_take con s) \<subseteq> entries con2" using st(5,6) run unfolding cancels_none_def by (metis snd_conv)
        then show "{t \<in> entries con. sched_when t < lim} \<subseteq> set (s # fired)" using r(5) c tk(3) st(2) by auto
      qed
      moreover have "\<not> (\<forall>t \<in> entries con. lim \<le> sched_when t)" using tk(1) True by (meson leD)
      ultimately show ?thesis using r(2,3,6) less by auto
    qed
  qed
qed simp



section \<open>Destruction\<close>

lemma heap_drain_all:
  assumes "pq_ok sched_time_cmp h" "card (heap_set_of h) < fuel"
  shows "\<exists>xs. heap_drain fuel h = Some xs \<and> distinct xs \<and> set xs = heap_set_of h"
  using assms
proof (induction fuel arbitrary: h)
  case (Suc fuel)
  show ?case
  proof (cases "heap_set_of h = {}")
    case True
    with sq.pop_empty [OF Suc.prems(1)] show ?thesis by simp
  next
    case False
    from sq.pop_elem [OF Suc.prems(1) False] obtain x where x: "x \<in> heap_set_of h"
      "fst (ast_heap_pop h) = Some x" "pq_ok sched_time_cmp (snd (ast_heap_pop h))"
      "heap_set_of (snd (ast_heap_pop h)) = heap_set_of h - {x}" by blast
    with Suc.prems sq.elems_finite [OF Suc.prems(1)]
    have "card (heap_set_of (snd (ast_heap_pop h))) < fuel" by (simp add: card_remove_less del: card_Diff_insert card_Diff_singleton)
    from Suc.IH [OF x(3) this] obtain xs where
      "heap_drain fuel (snd (ast_heap_pop h)) = Some xs" "distinct xs" "set xs = heap_set_of h - {x}"
      using x(4) by auto
    with x show ?thesis by (cases "ast_heap_pop h") auto
  qed
qed simp

lemma sched_create_ok: "sched_context_create m idx = Created con \<Longrightarrow> sched_ok con \<and> entries con = {} \<and> eventcnt con = 1"
proof -
  assume c: "sched_context_create m idx = Created con"
  then have "mem_heap m" "mem_bucket m"
    by (auto simp: sched_context_create_def Let_def ast_heap_create_def ast_hashtab_create_def split: if_splits option.splits)
  with c obtain ht h where parts: "ast_hashtab_create True 23 sched_cmp (Some ast_hashtab_resize_java)
      (Some ast_hashtab_newsize_java) sched_hash = Some ht" "ast_heap_create True 8 (Some sched_time_cmp) 0 idx = Some h"
    "con = \<lparr>eventcnt = 1, schedcnt = 0, highwater = 0, schedq_ht = ht, sched_heap = h, schedc = [], schedccnt = 0\<rparr>"
    by (auto simp: sched_context_create_def Let_def split: if_splits option.splits)
  have "ht_ok sched_cmp sched_hash ht \<and> ht_objs ht = {}"
    by (rule st.create_ok [OF parts(1)]) (auto simp: newsize_java_pos)
  with ast_heap_create_ok [OF parts(2)] parts(3) show ?thesis
    by (auto simp: sched_ok_def entries_def pq_ok_def heap_set_of_def)
qed

text \<open>A fresh context, and one with two entries, due at 5.020 s and 5.500 s.\<close>

definition sched_empty :: sched_context where
  "sched_empty = (case sched_context_create mem_all (\<lambda>_. 0) of Created con \<Rightarrow> con)"

definition sched_two :: sched_context where
  "sched_two = snd (ast_sched_add mem_all (Timeval 5 0)
     (snd (ast_sched_add mem_all (Timeval 5 0) sched_empty 20 1 2)) 500 3 4)"

lemma sched_empty_ok: "sched_ok sched_empty" "entries sched_empty = {}" "eventcnt sched_empty = 1"
proof -
  obtain con where "sched_context_create mem_all (\<lambda>_. 0) = Created con"
    by (simp add: sched_context_create_def mem_all_def ast_heap_create_def ast_hashtab_create_def Let_def)
  then show "sched_ok sched_empty" "entries sched_empty = {}" "eventcnt sched_empty = 1"
    using sched_create_ok by (auto simp: sched_empty_def)
qed

lemma eventcnt_add: "sched_ok con \<Longrightarrow> eventcnt (snd (ast_sched_add mem_all now con w cb d)) = eventcnt con + 1"
  using sched_alloc_correct(3) [of con mem_all]
  by (cases "schedc con") (auto simp: ast_sched_add_def ast_sched_add_variable_def sched_alloc_def Let_def schedule_def mem_all_def)

lemma sched_two_ok:
  "sched_ok sched_two" "eventcnt sched_two = 3"
  "entries sched_two =
     {\<lparr>sched_id = 1, sched_when = Timeval 5 20000, sched_resched = 20, sched_variable = 0, sched_data = 2, sched_callback = 1\<rparr>,
      \<lparr>sched_id = 2, sched_when = Timeval 5 500000, sched_resched = 500, sched_variable = 0, sched_data = 4, sched_callback = 3\<rparr>}"
proof -
  let ?c = "snd (ast_sched_add mem_all (Timeval 5 0) sched_empty 20 1 2)"
  have t: "tv_ok (Timeval 5 0)" by (simp add: tv_ok_def)
  have w: "sched_settime (Timeval 5 0) (Timeval 0 0) 20 = Timeval 5 20000"
    "sched_settime (Timeval 5 0) (Timeval 0 0) 500 = Timeval 5 500000"
    by (simp_all add: sched_settime_def Let_def ast_tvzero_def samp2tv_ms ast_tvadd_def ast_tvcmp_def tvfix_def)
  note e = sched_empty_ok
  have "id_free sched_empty (sint (eventcnt sched_empty))" using e by (simp add: id_free_def)
  from sched_add_correct [OF e(1) this t, of 20 1 2 0]
  have c: "sched_ok ?c" "entries ?c = {new_entry (Timeval 5 0) sched_empty 20 1 2 0}" "eventcnt ?c = 2"
    using e eventcnt_add [OF e(1)] by (simp_all add: ast_sched_add_def)
  then have "id_free ?c (sint (eventcnt ?c))" using e by (simp add: id_free_def new_entry_def)
  from sched_add_correct [OF c(1) this t, of 500 3 4 0] c e w eventcnt_add [OF c(1)]
  show "sched_ok sched_two" "eventcnt sched_two = 3" "entries sched_two =
     {\<lparr>sched_id = 1, sched_when = Timeval 5 20000, sched_resched = 20, sched_variable = 0, sched_data = 2, sched_callback = 1\<rparr>,
      \<lparr>sched_id = 2, sched_when = Timeval 5 500000, sched_resched = 500, sched_variable = 0, sched_data = 4, sched_callback = 3\<rparr>}"
    by (auto simp: sched_two_def ast_sched_add_def new_entry_def)
qed

section \<open>Properties\<close>

lemma find_data_entry:
  assumes "sched_ok con"
  shows "s \<in> entries con \<Longrightarrow> ast_sched_find_data con (sched_id s) = sched_data s"
    and "id_free con i \<Longrightarrow> ast_sched_find_data con i = 0"
  using lookup_id [OF assms, of "sched_id s" s] lookup_free [OF assms, of i]
  by (auto simp: ast_sched_find_data_def)

text \<open>
  \<open>ast_sched_add_variable\<close>, when memory is available and the next number is not in use, returns that number,
  adds exactly one entry due the given delay from now, keeps heap, table and counters in step, and
  makes the entry's data retrievable under the number.
\<close>

theorem sched_add_adds_entry:
  assumes "sched_ok con" "id_free con (sint (eventcnt con))" "tv_ok now" "0 \<le> wh" "wh < 2 ^ 31"
  shows "let (i, con') = ast_sched_add_variable mem_all now con wh cb dat var in
     i = sint (eventcnt con) \<and> sched_ok con' \<and> ast_sched_find_data con' i = dat \<and>
     (\<exists>e. entries con' = insert e (entries con) \<and> e \<notin> entries con \<and>
        sched_id e = i \<and> tv_us (sched_when e) = tv_us now + wh * 1000)"
proof -
  let ?e = "new_entry now con wh cb dat var"
  obtain i con' where r: "ast_sched_add_variable mem_all now con wh cb dat var = (i, con')" by fastforce
  note add = sched_add_correct [OF assms(1-3), of wh cb dat var, unfolded r fst_conv snd_conv]
  have "uint (word_of_int wh :: 32 word) = wh"
    using assms(4,5) by (simp add: unsigned_of_int take_bit_int_eq_self)
  then have "tv_us (sched_when ?e) = tv_us now + wh * 1000"
    using sched_settime_ok(2) [OF assms(3), of "Timeval 0 0" wh] assms(4)
    by (simp add: new_entry_def tv_ok_def ast_tvzero_def max_def)
  moreover have "?e \<notin> entries con" using assms(2) by (auto simp: id_free_def new_entry_def)
  moreover have "ast_sched_find_data con' i = dat"
    using find_data_entry(1) [OF add(2), of ?e] add(1,3) by (simp add: new_entry_def)
  moreover have "sched_id ?e = i" using add(1) by (simp add: new_entry_def)
  ultimately show ?thesis using add r by auto
qed

theorem sched_add_adds_entry_witness:
  "ast_sched_find_data (snd (ast_sched_add_variable mem_all (Timeval 6 0) sched_two 40 7 9 1)) 3 = 9"
proof -
  have "id_free sched_two (sint (eventcnt sched_two))" using sched_two_ok by (simp add: id_free_def)
  from sched_add_adds_entry [OF sched_two_ok(1) this, of "Timeval 6 0" 40 7 9 1] show ?thesis
    using sched_two_ok by (simp add: tv_ok_def split: prod.splits)
qed

lemma sched_del_parts:
  assumes "sched_ok con" "0 \<le> i"
  shows "sched_ok (snd (ast_sched_del con i)) \<and> entries (snd (ast_sched_del con i)) = {s \<in> entries con. sched_id s \<noteq> i} \<and>
    fst (ast_sched_del con i) = (if id_free con i then -1 else 0)"
proof (cases "id_free con i")
  case True
  then show ?thesis using sched_del_absent [OF assms True] assms(1) by (auto simp: id_free_def)
next
  case False
  then obtain s where s: "s \<in> entries con" "sched_id s = i" by (auto simp: id_free_def)
  have "entries con - {s} = {t \<in> entries con. sched_id t \<noteq> i}"
    using ids_unique [OF assms(1) s(1)] s(2) by fastforce
  then show ?thesis using sched_del_present [OF assms(1) s(1)] s(2) assms(2) False by auto
qed

text \<open>
  \<open>ast_sched_del\<close> with a non-negative number returns 0 and removes exactly the entry of that number
  when there is one; otherwise it returns -1 and changes nothing. Either way the number is free afterwards.
\<close>

theorem sched_del_exact:
  assumes "sched_ok con" "0 \<le> i"
  shows "let (r, con') = ast_sched_del con i in
     sched_ok con' \<and> entries con' = {s \<in> entries con. sched_id s \<noteq> i} \<and>
     r = (if id_free con i then -1 else 0) \<and> ast_sched_find_data con' i = 0"
proof -
  obtain r con' where d: "ast_sched_del con i = (r, con')" by fastforce
  have "sched_ok con' \<and> entries con' = {s \<in> entries con. sched_id s \<noteq> i} \<and> r = (if id_free con i then -1 else 0)"
    using sched_del_parts [OF assms] d by simp
  moreover from this have "ast_sched_find_data con' i = 0"
    using find_data_entry(2) by (auto simp: id_free_def)
  ultimately show ?thesis using d by simp
qed

theorem sched_del_exact_witness:
  "fst (ast_sched_del sched_two 2) = 0 \<and> ast_sched_find_data (snd (ast_sched_del sched_two 2)) 2 = 0"
  using sched_del_exact [OF sched_two_ok(1), of 2] sched_two_ok(3)
  by (auto simp: id_free_def split: prod.splits)

text \<open>
  C3: \<open>ast_sched_runq\<close> ends when callbacks leave the queue alone and rearm after a positive delay, and when the clock
  does not go back: it makes at most two runs for each entry, runs every entry due within the
  millisecond, runs none that is due later, and leaves only later entries in a consistent queue.
\<close>

theorem sched_runq_terminates:
  assumes "sched_ok con" "tv_ok now" "\<forall>n. tv_ok (clock n) \<and> now \<le> clock n"
    "\<forall>s \<in> entries con. rearms_later ret s" "2 * card (entries con) < fuel"
  shows "\<exists>fired con'. ast_sched_runq mem_all now clock (passive_cb ret) fuel con = Some (fired, con') \<and>
     sched_ok con' \<and> length fired \<le> 2 * card (entries con) \<and>
     (\<forall>s \<in> entries con. sched_when s < ast_tvadd now (ast_tv 0 1000) \<longrightarrow> s \<in> set fired) \<and>
     (\<forall>s \<in> set fired. sched_when s < ast_tvadd now (ast_tv 0 1000)) \<and>
     (\<forall>s \<in> entries con'. ast_tvadd now (ast_tv 0 1000) \<le> sched_when s)"
proof -
  let ?l = "ast_tvadd now (Timeval 0 1000)"
  note b = due_total_bound [of now ?l con]
  have p: "callback_ok (passive_cb ret)" "adds_later ?l (passive_cb ret)" "cancels_none (passive_cb ret)"
    by (simp_all add: callback_ok_def adds_later_def cancels_none_def passive_cb_def)
  have q: "\<forall>s tm. rearms_later ret s \<longrightarrow> rearms_later ret (s\<lparr>sched_when := tm\<rparr>)"
    "\<forall>s c res c'. rearms_later ret s \<longrightarrow> passive_cb ret s c = (res, c') \<longrightarrow> res \<noteq> 0 \<longrightarrow> 1 \<le> delay_of s res \<and> delay_of s res < 2 ^ 31"
    by (auto simp: rearms_later_def rearm_delay_def passive_cb_def)
  have "due_total now ?l con < fuel" "\<forall>s \<in> entries con. sched_when s < ?l \<longrightarrow> rearms_later ret s" using b assms(4,5) by auto
  from runq_terminates [OF p(1,2) assms(2) _ q assms(1) this(2,1), of clock 0] assms(3)
  obtain fired con' where "runq_loop mem_all clock (passive_cb ret) ?l fuel 0 con = Some (fired, con')"
    "sched_ok con'" "\<forall>s \<in> entries con'. ?l \<le> sched_when s" "\<forall>s \<in> set fired. sched_when s < ?l"
    "{s \<in> entries con. sched_when s < ?l} \<subseteq> set fired" "length fired \<le> due_total now ?l con"
    using p(3) by blast
  with b show ?thesis unfolding ast_sched_runq_def ast_tv_def by (intro exI conjI) auto
qed

theorem sched_runq_terminates_witness:
  "\<exists>fired con'. ast_sched_runq mem_all (Timeval 6 0) (\<lambda>_. Timeval 6 0) (passive_cb (\<lambda>_ _. 1)) 5 sched_two
     = Some (fired, con') \<and> length fired \<le> 4"
  using sched_runq_terminates [OF sched_two_ok(1), of "Timeval 6 0" "\<lambda>_. Timeval 6 0" "\<lambda>_ _. 1" 5] sched_two_ok(3)
  by (auto simp: tv_ok_def rearms_later_def rearm_delay_def)



lemma del_two:
  assumes "sched_ok con"
  shows "sched_ok (snd (ast_sched_del con 2)) \<and> entries (snd (ast_sched_del con 2)) = {s \<in> entries con. sched_id s \<noteq> 2}"
  using sched_del_parts [OF assms, of 2] by simp



text \<open>
  C2: callbacks may use the scheduler while it runs, as long as they keep its invariant, do not take the number of the
  entry that runs, add nothing that is due within the run and rearm after a positive delay, and the clock does not go back. Then
  \<open>ast_sched_runq\<close> ends after at most two runs for each entry; it runs only entries that were due, with
  their numbers, runs some if any was due and all of them when the callbacks cancel none, and leaves a consistent queue with nothing due.
\<close>

theorem sched_runq_invariant:
  assumes "sched_ok con" "tv_ok now" "\<forall>n. tv_ok (clock n) \<and> now \<le> clock n"
    "callback_ok run" "adds_later (ast_tvadd now (ast_tv 0 1000)) run"
    "\<forall>s c. sched_variable s \<noteq> 0 \<longrightarrow> 0 \<le> fst (run s c) \<and> fst (run s c) < 2 ^ 31"
    "\<forall>s \<in> entries con. 1 \<le> sched_resched s \<and> sched_resched s < 2 ^ 31" "2 * card (entries con) < fuel"
  shows "\<exists>fired con'. ast_sched_runq mem_all now clock run fuel con = Some (fired, con') \<and> sched_ok con' \<and>
     (\<forall>s \<in> entries con'. ast_tvadd now (ast_tv 0 1000) \<le> sched_when s) \<and>
     (\<forall>s \<in> set fired. sched_when s < ast_tvadd now (ast_tv 0 1000) \<and>
        (\<exists>t \<in> entries con. sched_when t < ast_tvadd now (ast_tv 0 1000) \<and> sched_id t = sched_id s)) \<and>
     (cancels_none run \<longrightarrow> {s \<in> entries con. sched_when s < ast_tvadd now (ast_tv 0 1000)} \<subseteq> set fired) \<and>
     (fired = [] \<longleftrightarrow> (\<forall>s \<in> entries con. ast_tvadd now (ast_tv 0 1000) \<le> sched_when s)) \<and>
     length fired \<le> 2 * card (entries con)"
proof -
  let ?l = "ast_tvadd now (Timeval 0 1000)" and ?Q = "\<lambda>s. 1 \<le> sched_resched s \<and> sched_resched s < 2 ^ 31"
  note b = due_total_bound [of now ?l con]
  have l: "ast_tv 0 1000 = Timeval 0 1000" by (simp add: ast_tv_def)
  have q1: "\<forall>s tm. ?Q s \<longrightarrow> ?Q (s\<lparr>sched_when := tm\<rparr>)" by simp
  have q2: "\<forall>s c res c'. ?Q s \<longrightarrow> run s c = (res, c') \<longrightarrow> res \<noteq> 0 \<longrightarrow> 1 \<le> delay_of s res \<and> delay_of s res < 2 ^ 31"
  proof (intro allI impI)
    fix s c res c' assume a: "?Q s" "run s c = (res, c')" "res \<noteq> 0"
    then have "sched_variable s \<noteq> 0 \<longrightarrow> 0 \<le> res \<and> res < 2 ^ 31" using assms(6) by (metis fst_conv)
    with a show "1 \<le> delay_of s res \<and> delay_of s res < 2 ^ 31" by auto
  qed
  have "due_total now ?l con < fuel" "\<forall>s \<in> entries con. sched_when s < ?l \<longrightarrow> ?Q s" using b assms(7,8) by auto
  from runq_terminates [OF assms(4) assms(5) [unfolded l] assms(2) _ q1 q2 assms(1) this(2,1), of clock 0] assms(3)
  obtain fired con' where r: "runq_loop mem_all clock run ?l fuel 0 con = Some (fired, con')" "sched_ok con'"
    "\<forall>s \<in> entries con'. ?l \<le> sched_when s"
    "\<forall>s \<in> set fired. sched_when s < ?l \<and> (\<exists>t \<in> entries con. sched_when t < ?l \<and> sched_id t = sched_id s)"
    "cancels_none run \<longrightarrow> {s \<in> entries con. sched_when s < ?l} \<subseteq> set fired"
    "fired = [] \<longleftrightarrow> (\<forall>s \<in> entries con. ?l \<le> sched_when s)" "length fired \<le> due_total now ?l con" by blast
  then have "length fired \<le> 2 * card (entries con)" using b by simp
  with r(1-6) show ?thesis unfolding ast_sched_runq_def l by blast
qed

text \<open>A callback that cancels the entry 2, due or not, and asks to run again.\<close>

definition cancel_two :: callback where
  "cancel_two s con = (1, snd (ast_sched_del con 2))"

theorem sched_runq_invariant_witness:
  "\<exists>fired con'. ast_sched_runq mem_all (Timeval 5 100000) (\<lambda>_. Timeval 6 0) cancel_two 5 sched_two = Some (fired, con') \<and>
     sched_ok con' \<and> fired \<noteq> []"
proof -
  have l: "ast_tvadd (Timeval 5 100000) (ast_tv 0 1000) = Timeval 5 101000"
    by (simp add: ast_tvadd_def ast_tv_def tvfix_def)
  have c: "callback_ok cancel_two" "adds_later lim cancel_two" for lim
    unfolding callback_ok_def adds_later_def cancel_two_def using del_two by (auto simp: id_free_def)
  have n: "\<not> (\<forall>s \<in> entries sched_two. Timeval 5 101000 \<le> sched_when s)"
    unfolding sched_two_ok(3) by (simp add: less_eq_timeval_def)
  have "\<forall>s \<in> entries sched_two. 1 \<le> sched_resched s \<and> sched_resched s < 2 ^ 31" "2 * card (entries sched_two) < 5"
    unfolding sched_two_ok(3) by simp_all
  from sched_runq_invariant [OF sched_two_ok(1) _ _ c _ this, of "Timeval 5 100000" "\<lambda>_. Timeval 6 0"] n show ?thesis
    unfolding l by (auto simp: tv_ok_def less_eq_timeval_def cancel_two_def)
qed

text \<open>
  \<open>ast_sched_wait\<close> returns -1 for an empty queue and otherwise the whole milliseconds until the
  earliest entry, 0 when that is past, provided this number fits into an \<open>int\<close>.
\<close>

theorem sched_wait_earliest:
  assumes "sched_ok con" "tv_ok now" "\<forall>s \<in> entries con. \<bar>tv_us (sched_when s) - tv_us now\<bar> < 2147483648 * 1000"
  shows "(entries con = {} \<longrightarrow> ast_sched_wait now con = -1) \<and>
    (entries con \<noteq> {} \<longrightarrow> (\<exists>s \<in> entries con. (\<forall>t \<in> entries con. sched_when s \<le> sched_when t) \<and>
       ast_sched_wait now con = max 0 ((tv_us (sched_when s) - tv_us now) div 1000)))"
proof (cases "ast_heap_peek (sched_heap con) 1")
  case None
  then show ?thesis using peek_empty [OF assms(1)] by (simp add: ast_sched_wait_def)
next
  case (Some s)
  note tk = runq_take_correct [OF assms(1) Some]
  let ?d = "tv_us (sched_when s) - tv_us now"
  have "tv_ok (sched_when s)" using assms(1) tk(1) by (simp add: sched_ok_def)
  then have ms: "ast_tvdiff_ms (sched_when s) now = ?d div 1000" using tvdiff_ms_floor assms(2) by blast
  have "\<bar>?d\<bar> < 2147483648 * 1000" using assms(3) tk(1) by blast
  then have "-2147483648 \<le> ?d div 1000" "?d div 1000 < 2147483648" by linarith+
  then have "to_int32 (?d div 1000) = ?d div 1000"
    by (simp add: to_int32_def signed_of_int signed_take_bit_int_eq_self)
  then have "ast_sched_wait now con = max 0 (?d div 1000)"
    using Some ms by (simp add: ast_sched_wait_def Let_def max_def)
  with tk(1,4) show ?thesis by blast
qed

theorem sched_wait_earliest_witness:
  "\<exists>s. s \<in> entries sched_two \<and> ast_sched_wait (Timeval 5 0) sched_two = max 0 ((tv_us (sched_when s) - 5000000) div 1000)"
proof -
  have b: "\<forall>s \<in> entries sched_two. \<bar>tv_us (sched_when s) - tv_us (Timeval 5 0)\<bar> < 2147483648 * 1000"
    "tv_ok (Timeval 5 0)" "tv_us (Timeval 5 0) = 5000000" "entries sched_two \<noteq> {}"
    by (simp_all add: sched_two_ok(3) tv_us_def tv_ok_def)
  from sched_wait_earliest [OF sched_two_ok(1) b(2,1)] b(4) show ?thesis unfolding b(3) by blast
qed

text \<open>
  \<open>sched_context_destroy\<close> ends and frees every cached entry and every queued entry,
  the queued ones exactly once.
\<close>

theorem sched_destroy_frees_all:
  assumes "sched_ok con" "card (entries con) < fuel"
  shows "\<exists>queued. sched_context_destroy fuel con = Some (schedc con @ queued) \<and>
    distinct queued \<and> set queued = entries con"
  using heap_drain_all [of "sched_heap con" fuel] assms
  by (auto simp: sched_context_destroy_def sched_ok_def entries_def)

theorem sched_destroy_frees_all_witness:
  "\<exists>queued. sched_context_destroy 3 sched_two = Some (schedc sched_two @ queued) \<and> length queued = 2"
proof -
  have c: "card (entries sched_two) = 2" using sched_two_ok(3) by simp
  with sched_destroy_frees_all [OF sched_two_ok(1), of 3] obtain queued where
    "sched_context_destroy 3 sched_two = Some (schedc sched_two @ queued)" "distinct queued" "set queued = entries sched_two"
    by auto
  with c show ?thesis using distinct_card [of queued] by auto
qed

text \<open>
  A negative delay does not mean "at once": \<open>ast_samp2tv\<close> reads it as unsigned, and the entry
  becomes due more than 24 days later.
\<close>

theorem sched_negative_delay:
  assumes "tv_ok now" "- (2 ^ 31) \<le> wh" "wh < 0"
  shows "tv_us (sched_settime now (ast_tv 0 0) wh) = tv_us now + (4294967296 + wh) * 1000"
proof -
  have "uint (word_of_int wh :: 32 word) = 4294967296 + wh"
    using assms(2,3) mod_pos_pos_trivial [of "wh + 4294967296" 4294967296]
    by (simp add: unsigned_of_int take_bit_eq_mod)
  then show ?thesis
    using sched_settime_ok(2) [OF assms(1), of "ast_tv 0 0" wh] assms(2)
    by (simp add: ast_tv_def tv_ok_def ast_tvzero_def max_def)
qed

theorem sched_negative_delay_witness:
  "tv_us (sched_settime (Timeval 5 0) (ast_tv 0 0) (-1)) = 4294972295000"
  using sched_negative_delay [of "Timeval 5 0" "-1"] by (simp add: tv_ok_def tv_us_def)

text \<open>
  Once \<open>eventcnt\<close> has passed the largest \<open>int\<close>, added entries get negative numbers, and
  \<open>ast_sched_del\<close> reports success for such a number without deleting the entry.
\<close>

theorem sched_negative_id_undeletable:
  assumes "sched_ok con" "tv_ok now" "eventcnt con = 2147483648" "id_free con (- 2147483648)"
  shows "let (i, con') = ast_sched_add_variable mem_all now con wh cb dat var in
    i = - 2147483648 \<and> ast_sched_del con' i = (0, con') \<and> \<not> id_free con' i"
proof -
  have "sint (eventcnt con) = - 2147483648" unfolding assms(3) by simp
  with sched_add_correct [OF assms(1) _ assms(2), of wh cb dat var] assms(4) show ?thesis
    by (auto simp: ast_sched_del_def id_free_def new_entry_def split: prod.splits)
qed

theorem sched_negative_id_undeletable_witness:
  "fst (ast_sched_add_variable mem_all (Timeval 5 0) (sched_empty\<lparr>eventcnt := 2147483648\<rparr>) 20 1 2 0) = - 2147483648"
  using sched_negative_id_undeletable [of "sched_empty\<lparr>eventcnt := 2147483648\<rparr>" "Timeval 5 0" 20 1 2 0] sched_empty_ok
  by (auto simp: tv_ok_def id_free_def split: prod.splits)

end
