(* ===== verification/Adaptive_Jb.thy ===== *)
theory Adaptive_Jb
  imports Ast_Prelude
begin

text \<open>
  The adaptive jitter buffer of \<open>main/jitterbuf.c\<close> and \<open>include/jitterbuf.h\<close>: a queue of frames
  ordered by time stamp, a history of the last 500 delays with a cache of its extremes, and the
  control loop that grows and shrinks the buffer.
\<close>

section \<open>State\<close>

datatype jb_return_code = JB_OK | JB_EMPTY | JB_NOFRAME | JB_INTERP | JB_DROP | JB_SCHED

datatype jb_frame_type = JB_TYPE_CONTROL | JB_TYPE_VOICE | JB_TYPE_VIDEO | JB_TYPE_SILENCE

definition JB_HISTORY_SZ :: nat where "JB_HISTORY_SZ = 500"
definition JB_HISTORY_DROPPCT :: nat where "JB_HISTORY_DROPPCT = 3"
definition JB_HISTORY_MAXBUF_SZ :: nat where "JB_HISTORY_MAXBUF_SZ = 500 * 4 div 100"
definition JB_TARGET_EXTRA :: int where "JB_TARGET_EXTRA = 40"
definition JB_ADJUST_DELAY :: int where "JB_ADJUST_DELAY = 40"
definition JB_LONGMAX :: int where "JB_LONGMAX = 2147483647"
definition JB_LONGMIN :: int where "JB_LONGMIN = - JB_LONGMAX - 1"

record jb_conf =
  max_jitterbuf :: int
  resync_threshold :: int
  max_contig_interp :: int
  target_extra :: int

text \<open>\<open>min_delay\<close> is the field \<open>min\<close> of \<open>struct jb_info\<close>.\<close>

record jb_info =
  conf :: jb_conf
  frames_in :: int
  frames_out :: int
  frames_late :: int
  frames_lost :: int
  frames_dropped :: int
  frames_ooo :: int
  frames_cur :: int
  jitter :: int
  min_delay :: int
  current :: int
  target :: int
  losspct :: int
  next_voice_ts :: int
  last_voice_ms :: int
  silence_begin_ts :: int
  last_adjustment :: int
  last_delay :: int
  cnt_delay_discont :: int
  resync_offset :: int
  cnt_contig_interp :: int

record 'd jb_frame =
  frame_data :: 'd
  frame_ts :: int
  frame_ms :: int
  frame_type :: jb_frame_type

text \<open>
  The circular list \<open>frames\<close> is the list of its nodes from the lowest time stamp on; \<open>frames->prev\<close>
  is its last element. \<open>free_frames\<close> is the list \<open>free\<close> of unused nodes.
\<close>

record 'd jitterbuf =
  info :: jb_info
  history :: "int list"
  hist_ptr :: nat
  hist_maxbuf :: "int list"
  hist_minbuf :: "int list"
  hist_maxbuf_valid :: bool
  dropem :: bool
  frames :: "'d jb_frame list"
  free_frames :: "'d jb_frame list"

section \<open>Operations\<close>

definition increment_losspct :: "jb_info \<Rightarrow> jb_info" where
  "increment_losspct i = i\<lparr>losspct := (100000 + 499 * losspct i) sdiv 500\<rparr>"

definition decrement_losspct :: "jb_info \<Rightarrow> jb_info" where
  "decrement_losspct i = i\<lparr>losspct := (499 * losspct i) sdiv 500\<rparr>"

definition info_zero :: "jb_conf \<Rightarrow> jb_info" where
  "info_zero c = \<lparr>conf = c, frames_in = 0, frames_out = 0, frames_late = 0, frames_lost = 0,
     frames_dropped = 0, frames_ooo = 0, frames_cur = 0, jitter = 0, min_delay = 0, current = 0,
     target = 0, losspct = 0, next_voice_ts = 0, last_voice_ms = 0, silence_begin_ts = 0,
     last_adjustment = 0, last_delay = 0, cnt_delay_discont = 0, resync_offset = 0,
     cnt_contig_interp = 0\<rparr>"

definition jb_reset :: "'d jitterbuf \<Rightarrow> 'd jitterbuf" where
  "jb_reset jb =
     \<lparr>info = (info_zero ((conf (info jb))\<lparr>target_extra := JB_TARGET_EXTRA\<rparr>))
        \<lparr>current := JB_TARGET_EXTRA, target := JB_TARGET_EXTRA, silence_begin_ts := -1\<rparr>,
      history = replicate JB_HISTORY_SZ 0, hist_ptr = 0,
      hist_maxbuf = replicate JB_HISTORY_MAXBUF_SZ 0, hist_minbuf = replicate JB_HISTORY_MAXBUF_SZ 0,
      hist_maxbuf_valid = False, dropem = False, frames = [], free_frames = []\<rparr>"

text \<open>\<open>jb_new\<close> resets freshly allocated memory, whose content \<open>garbage\<close> is arbitrary.\<close>

definition jb_new :: "bool \<Rightarrow> 'd jitterbuf \<Rightarrow> 'd jitterbuf option" where
  "jb_new alloc_ok garbage = (if alloc_ok then Some (jb_reset garbage) else None)"

text \<open>\<open>abs\<close> of \<open>stdlib.h\<close> works on \<open>int\<close>, so a \<open>long\<close> argument is first converted.\<close>

definition c_abs :: "int \<Rightarrow> int" where
  "c_abs x = to_int32 \<bar>to_int32 x\<bar>"

text \<open>\<open>check_resync\<close>: is the frame to be dropped, the delay to go on with, the buffer.\<close>

definition check_resync ::
  "'d jitterbuf \<Rightarrow> int \<Rightarrow> int \<Rightarrow> jb_frame_type \<Rightarrow> int \<Rightarrow> bool \<times> int \<times> 'd jitterbuf" where
  "check_resync jb ts now type delay =
     (let threshold = 2 * jitter (info jb) + resync_threshold (conf (info jb));
          numts = (if frames jb = [] then 0 else frame_ts (last (frames jb)) - frame_ts (hd (frames jb)));
          dropped = info_update (\<lambda>i. i\<lparr>frames_dropped := frames_dropped i + 1\<rparr>)
      in if numts \<ge> max_jitterbuf (conf (info jb))
         then (True, delay, dropped (jb\<lparr>dropem := True\<rparr>))
         else
           let jb = jb\<lparr>dropem := False\<rparr> in
           if resync_threshold (conf (info jb)) \<noteq> -1
           then if c_abs (delay - last_delay (info jb)) > threshold
                then let jb = info_update (\<lambda>i. i\<lparr>cnt_delay_discont := cnt_delay_discont i + 1\<rparr>) jb in
                     if cnt_delay_discont (info jb) > 3 \<or> type = JB_TYPE_CONTROL
                     then (False, 0,
                           info_update (\<lambda>i. i\<lparr>cnt_delay_discont := 0, resync_offset := ts - now, last_delay := 0\<rparr>)
                             (jb\<lparr>hist_ptr := 0, hist_maxbuf_valid := False\<rparr>))
                     else (True, delay, dropped jb)
                else (False, delay, info_update (\<lambda>i. i\<lparr>last_delay := delay, cnt_delay_discont := 0\<rparr>) jb)
           else (False, delay, jb))"

definition history_put :: "'d jitterbuf \<Rightarrow> int \<Rightarrow> int \<Rightarrow> 'd jitterbuf" where
  "history_put jb ts delay =
     (if ts \<le> 0 then jb
      else let kicked = history jb ! (hist_ptr jb mod JB_HISTORY_SZ);
               jb = jb\<lparr>history := (history jb)[hist_ptr jb mod JB_HISTORY_SZ := delay],
                       hist_ptr := hist_ptr jb + 1\<rparr>
           in if \<not> hist_maxbuf_valid jb then jb
              else if hist_ptr jb < JB_HISTORY_SZ
                    \<or> delay < hist_minbuf jb ! (JB_HISTORY_MAXBUF_SZ - 1)
                    \<or> delay > hist_maxbuf jb ! (JB_HISTORY_MAXBUF_SZ - 1)
                    \<or> kicked \<le> hist_minbuf jb ! (JB_HISTORY_MAXBUF_SZ - 1)
                    \<or> kicked \<ge> hist_maxbuf jb ! (JB_HISTORY_MAXBUF_SZ - 1)
                   then jb\<lparr>hist_maxbuf_valid := False\<rparr> else jb)"

text \<open>
  The insertion sort of \<open>history_calc_maxbuf\<close> into one of the two buffers: \<open>before x y\<close> is
  \<open>x > y\<close> for the buffer of maxima and \<open>x < y\<close> for the buffer of minima.
\<close>

fun buf_insert :: "(int \<Rightarrow> int \<Rightarrow> bool) \<Rightarrow> int \<Rightarrow> int list \<Rightarrow> int list" where
  "buf_insert before x [] = []"
| "buf_insert before x (y # ys) =
     (if before x y then x # butlast (y # ys) else y # buf_insert before x ys)"

definition buf_put :: "(int \<Rightarrow> int \<Rightarrow> bool) \<Rightarrow> int list \<Rightarrow> int \<Rightarrow> int list" where
  "buf_put before buf x =
     (if before x (buf ! (JB_HISTORY_MAXBUF_SZ - 1)) then buf_insert before x buf else buf)"

definition history_window :: "int list \<Rightarrow> nat \<Rightarrow> int list" where
  "history_window h p = map (\<lambda>i. h ! (i mod JB_HISTORY_SZ)) [p - JB_HISTORY_SZ..<p]"

definition history_calc_maxbuf :: "'d jitterbuf \<Rightarrow> 'd jitterbuf" where
  "history_calc_maxbuf jb =
     (if hist_ptr jb = 0 then jb
      else let w = history_window (history jb) (hist_ptr jb)
           in jb\<lparr>hist_maxbuf := foldl (buf_put (>)) (replicate JB_HISTORY_MAXBUF_SZ JB_LONGMIN) w,
                 hist_minbuf := foldl (buf_put (<)) (replicate JB_HISTORY_MAXBUF_SZ JB_LONGMAX) w,
                 hist_maxbuf_valid := True\<rparr>)"

text \<open>The index is never negative, so the code's last sanity check has no branch here.\<close>

definition history_get :: "'d jitterbuf \<Rightarrow> 'd jitterbuf" where
  "history_get jb0 =
     (let jb = (if hist_maxbuf_valid jb0 then jb0 else history_calc_maxbuf jb0);
          count = (if hist_ptr jb < JB_HISTORY_SZ then hist_ptr jb else JB_HISTORY_SZ);
          idx0 = count * JB_HISTORY_DROPPCT div 100;
          idx = (if idx0 > JB_HISTORY_MAXBUF_SZ - 1 then JB_HISTORY_MAXBUF_SZ - 1 else idx0);
          mx = hist_maxbuf jb ! idx;
          mn = hist_minbuf jb ! idx
      in info_update (\<lambda>i. i\<lparr>min_delay := mn, jitter := mx - mn\<rparr>) jb)"

text \<open>
  \<open>queue_put\<close> walks back from the end: \<open>queue_pos fs ts k\<close> is the position at which the new node
  goes when the walk has reached position \<open>k\<close>, which never is the head's.
\<close>

fun queue_pos :: "'d jb_frame list \<Rightarrow> int \<Rightarrow> nat \<Rightarrow> nat" where
  "queue_pos fs ts 0 = 0"
| "queue_pos fs ts (Suc k) = (if ts < frame_ts (fs ! k) \<and> k \<noteq> 0 then queue_pos fs ts k else Suc k)"

definition queue_put ::
  "bool \<Rightarrow> 'd jitterbuf \<Rightarrow> 'd \<Rightarrow> jb_frame_type \<Rightarrow> int \<Rightarrow> int \<Rightarrow> bool \<times> 'd jitterbuf" where
  "queue_put alloc_ok jb data type ms ts =
     (let resync_ts = ts - resync_offset (info jb) in
      if free_frames jb = [] \<and> \<not> alloc_ok then (False, jb)
      else
        let jb = info_update (\<lambda>i. i\<lparr>frames_cur := frames_cur i + 1\<rparr>) (jb\<lparr>free_frames := tl (free_frames jb)\<rparr>);
            frame = \<lparr>frame_data = data, frame_ts = resync_ts, frame_ms = ms, frame_type = type\<rparr>;
            fs = frames jb;
            ooo = info_update (\<lambda>i. i\<lparr>frames_ooo := frames_ooo i + 1\<rparr>)
        in if fs = [] then (True, jb\<lparr>frames := [frame]\<rparr>)
           else if resync_ts < frame_ts (hd fs) then (True, ooo (jb\<lparr>frames := frame # fs\<rparr>))
           else let k = queue_pos fs resync_ts (length fs);
                    jb = (if resync_ts < frame_ts (last fs) then ooo jb else jb)
                in (False, jb\<lparr>frames := take k fs @ frame # drop k fs\<rparr>))"

definition queue_next :: "'d jitterbuf \<Rightarrow> int" where
  "queue_next jb = (if frames jb = [] then -1 else frame_ts (hd (frames jb)))"

definition queue_last :: "'d jitterbuf \<Rightarrow> int" where
  "queue_last jb = (if frames jb = [] then -1 else frame_ts (last (frames jb)))"

definition queue_get_aux :: "'d jitterbuf \<Rightarrow> int \<Rightarrow> bool \<Rightarrow> 'd jb_frame option \<times> 'd jitterbuf" where
  "queue_get_aux jb ts every =
     (case frames jb of
        [] \<Rightarrow> (None, jb)
      | frame # rest \<Rightarrow>
          if every \<or> ts \<ge> frame_ts frame
          then (Some frame, info_update (\<lambda>i. i\<lparr>frames_cur := frames_cur i - 1\<rparr>)
                  (jb\<lparr>frames := rest, free_frames := frame # free_frames jb\<rparr>))
          else (None, jb))"

definition queue_get :: "'d jitterbuf \<Rightarrow> int \<Rightarrow> 'd jb_frame option \<times> 'd jitterbuf" where
  "queue_get jb ts = queue_get_aux jb ts False"

definition queue_getall :: "'d jitterbuf \<Rightarrow> 'd jb_frame option \<times> 'd jitterbuf" where
  "queue_getall jb = queue_get_aux jb 0 True"

definition jb_put ::
  "bool \<Rightarrow> 'd jitterbuf \<Rightarrow> 'd \<Rightarrow> jb_frame_type \<Rightarrow> int \<Rightarrow> int \<Rightarrow> int \<Rightarrow> jb_return_code \<times> 'd jitterbuf" where
  "jb_put alloc_ok jb data type ms ts now =
     (case check_resync jb ts now type (now - (ts - resync_offset (info jb))) of
        (True, _, jb) \<Rightarrow> (JB_DROP, jb)
      | (False, delay, jb) \<Rightarrow>
          let jb = (if type = JB_TYPE_VOICE then history_put jb ts delay else jb);
              jb = info_update (\<lambda>i. i\<lparr>frames_in := frames_in i + 1\<rparr>) jb;
              (head, jb) = queue_put alloc_ok jb data type ms ts
          in (if head then JB_SCHED else JB_OK, jb))"

text \<open>
  \<open>_jb_get\<close>, in its three parts. Each result is the return code, the frame copied to
  \<open>*frameout\<close> if one is, and the buffer. \<open>jb_get_target\<close> refreshes the statistics and the target.
\<close>

definition jb_get_target :: "'d jitterbuf \<Rightarrow> 'd jitterbuf" where
  "jb_get_target jb0 =
     (let jb = history_get jb0;
          i = info jb;
          t = jitter i + min_delay i + target_extra (conf i);
          t' = (if max_jitterbuf (conf i) \<noteq> 0 \<and> t - min_delay i > max_jitterbuf (conf i)
                then min_delay i + max_jitterbuf (conf i) else t)
      in info_update (\<lambda>i. i\<lparr>target := t'\<rparr>) jb)"

definition contig_interp_check :: "jb_info \<Rightarrow> jb_info" where
  "contig_interp_check i =
     (if max_contig_interp (conf i) \<noteq> 0 \<and> cnt_contig_interp i \<ge> max_contig_interp (conf i)
      then i\<lparr>silence_begin_ts := next_voice_ts i - current i\<rparr> else i)"

text \<open>The part of the non-silent case after a voice frame that is not late, or no frame, was taken.\<close>

definition jb_get_timely ::
  "'d jb_frame option \<Rightarrow> int \<Rightarrow> int \<Rightarrow> int \<Rightarrow> jb_info \<Rightarrow> jb_return_code \<times> 'd jb_frame option \<times> jb_info" where
  "jb_get_timely frame diff now interpl i0 =
     (let i = (case frame of
                 Some f \<Rightarrow> if frame_ms f > 0 then i0\<lparr>last_voice_ms := frame_ms f\<rparr> else i0
               | None \<Rightarrow> i0)
      in if diff < - target_extra (conf i) \<and>
            (frame = None \<and> last_adjustment i + 80 < now \<or> last_adjustment i + 500 < now)
         then let i = i\<lparr>last_adjustment := now, cnt_contig_interp := 0\<rparr> in
              case frame of
                Some f \<Rightarrow>
                  (JB_DROP, frame,
                   (decrement_losspct (i\<lparr>current := current i - frame_ms f, frames_out := frames_out i + 1\<rparr>))
                     \<lparr>frames_dropped := frames_dropped i + 1\<rparr>)
              | None \<Rightarrow>
                  (JB_NOFRAME, None,
                   increment_losspct (i\<lparr>current := current i - last_voice_ms i, frames_lost := frames_lost i + 1\<rparr>))
         else case frame of
                None \<Rightarrow>
                  (JB_INTERP, None,
                   contig_interp_check ((increment_losspct (i\<lparr>frames_lost := frames_lost i + 1\<rparr>))
                     \<lparr>next_voice_ts := next_voice_ts i + interpl, last_voice_ms := interpl,
                      cnt_contig_interp := cnt_contig_interp i + 1\<rparr>))
              | Some f \<Rightarrow>
                  (JB_OK, frame,
                   decrement_losspct (i\<lparr>next_voice_ts := next_voice_ts i + frame_ms f,
                     frames_out := frames_out i + 1, cnt_contig_interp := 0\<rparr>)))"

definition jb_get_talking ::
  "'d jitterbuf \<Rightarrow> int \<Rightarrow> int \<Rightarrow> int \<Rightarrow> jb_return_code \<times> 'd jb_frame option \<times> 'd jitterbuf" where
  "jb_get_talking jb diff now interpl =
     (let i = info jb in
      if diff > 0 \<and> (last_adjustment i + JB_ADJUST_DELAY < now \<or> diff > queue_last jb - queue_next jb)
      then (JB_INTERP, None,
            jb\<lparr>info := contig_interp_check (i\<lparr>current := current i + interpl,
              next_voice_ts := next_voice_ts i + interpl, last_voice_ms := interpl,
              last_adjustment := now, cnt_contig_interp := cnt_contig_interp i + 1\<rparr>)\<rparr>)
      else
        case queue_get jb (next_voice_ts i - current i) of
          (Some frame, jb) \<Rightarrow>
            (let i = info jb in
             if frame_type frame \<noteq> JB_TYPE_VOICE
             then let i = (if frame_type frame = JB_TYPE_SILENCE
                           then i\<lparr>silence_begin_ts := frame_ts frame, cnt_contig_interp := 0\<rparr> else i)
                  in (JB_OK, Some frame, jb\<lparr>info := i\<lparr>frames_out := frames_out i + 1\<rparr>\<rparr>)
             else if frame_ts frame + current i < next_voice_ts i
             then if frame_ts frame + current i > next_voice_ts i - last_voice_ms i
                  then (JB_OK, Some frame,
                        jb\<lparr>info := (decrement_losspct (i\<lparr>next_voice_ts := frame_ts frame + current i + frame_ms frame,
                             frames_out := frames_out i + 1\<rparr>))\<lparr>cnt_contig_interp := 0\<rparr>\<rparr>)
                  else (JB_DROP, Some frame,
                        jb\<lparr>info := (decrement_losspct (i\<lparr>frames_out := frames_out i + 1\<rparr>))
                             \<lparr>frames_late := frames_late i + 1, frames_lost := frames_lost i - 1\<rparr>\<rparr>)
             else (case jb_get_timely (Some frame) diff now interpl i of (r, f, i) \<Rightarrow> (r, f, jb\<lparr>info := i\<rparr>)))
        | (None, jb) \<Rightarrow>
            (case jb_get_timely None diff now interpl (info jb) of (r, f, i) \<Rightarrow> (r, f, jb\<lparr>info := i\<rparr>)))"

definition jb_get_silent ::
  "'d jitterbuf \<Rightarrow> int \<Rightarrow> int \<Rightarrow> int \<Rightarrow> jb_return_code \<times> 'd jb_frame option \<times> 'd jitterbuf" where
  "jb_get_silent jb0 diff now interpl =
     (let i = info jb0;
          jb = (if diff < - target_extra (conf i) \<and> last_adjustment i + 10 \<le> now
                then jb0\<lparr>info := i\<lparr>current := current i - interpl, last_adjustment := now\<rparr>\<rparr> else jb0)
      in case queue_get jb (now - current (info jb)) of
           (None, jb) \<Rightarrow> (JB_NOFRAME, None, jb)
         | (Some frame, jb) \<Rightarrow>
             (let i = info jb in
              if frame_type frame \<noteq> JB_TYPE_VOICE
              then (JB_OK, Some frame, jb\<lparr>info := i\<lparr>frames_out := frames_out i + 1\<rparr>\<rparr>)
              else if frame_ts frame < silence_begin_ts i
              then (JB_DROP, Some frame,
                    jb\<lparr>info := (decrement_losspct (i\<lparr>frames_out := frames_out i + 1\<rparr>))
                         \<lparr>frames_late := frames_late i + 1, frames_lost := frames_lost i - 1\<rparr>\<rparr>)
              else (JB_OK, Some frame,
                    jb\<lparr>info := decrement_losspct (i\<lparr>current := target i, silence_begin_ts := 0,
                         next_voice_ts := frame_ts frame + target i + frame_ms frame,
                         last_voice_ms := frame_ms frame, frames_out := frames_out i + 1\<rparr>)\<rparr>)))"

definition jb_get_aux ::
  "'d jitterbuf \<Rightarrow> int \<Rightarrow> int \<Rightarrow> jb_return_code \<times> 'd jb_frame option \<times> 'd jitterbuf" where
  "jb_get_aux jb0 now interpl =
     (let jb = jb_get_target jb0;
          diff = target (info jb) - current (info jb)
      in if silence_begin_ts (info jb) = 0 then jb_get_talking jb diff now interpl
         else jb_get_silent jb diff now interpl)"

definition jb_next :: "'d jitterbuf \<Rightarrow> int \<times> 'd jitterbuf" where
  "jb_next jb =
     (if silence_begin_ts (info jb) \<noteq> 0
      then if frames jb \<noteq> []
           then let next = queue_next jb;
                    jb = history_get jb;
                    i = info jb
                in if target i - current i < - target_extra (conf i) then (last_adjustment i + 10, jb)
                   else (next + target i, jb)
           else (JB_LONGMAX, jb)
      else (next_voice_ts (info jb), jb))"

text \<open>\<open>jb_get\<close> writes to the caller's \<open>*frameout\<close>, also the length of an interpolated frame.\<close>

definition jb_get ::
  "'d jitterbuf \<Rightarrow> 'd jb_frame \<Rightarrow> int \<Rightarrow> int \<Rightarrow> jb_return_code \<times> 'd jb_frame \<times> 'd jitterbuf" where
  "jb_get jb frameout now interpl =
     (case jb_get_aux jb now interpl of
        (ret, f, jb) \<Rightarrow>
          let out = (case f of Some frame \<Rightarrow> frame | None \<Rightarrow> frameout)
          in (ret, if ret = JB_INTERP then out\<lparr>frame_ms := last_voice_ms (info jb)\<rparr> else out, jb))"

definition jb_getall :: "'d jitterbuf \<Rightarrow> 'd jb_frame \<Rightarrow> jb_return_code \<times> 'd jb_frame \<times> 'd jitterbuf" where
  "jb_getall jb frameout =
     (case queue_getall jb of
        (None, jb) \<Rightarrow> (JB_NOFRAME, frameout, jb)
      | (Some frame, jb) \<Rightarrow> (JB_OK, frame, jb))"

definition jb_getinfo :: "'d jitterbuf \<Rightarrow> jb_info \<times> 'd jitterbuf" where
  "jb_getinfo jb = (let jb = history_get jb in (info jb, jb))"

definition jb_setconf :: "'d jitterbuf \<Rightarrow> jb_conf \<Rightarrow> 'd jitterbuf" where
  "jb_setconf jb c =
     (let extra = (if target_extra c = -1 then JB_TARGET_EXTRA else target_extra c)
      in info_update (\<lambda>i. i\<lparr>conf := (conf i)\<lparr>max_jitterbuf := max_jitterbuf c,
             resync_threshold := resync_threshold c, max_contig_interp := max_contig_interp c,
             target_extra := extra\<rparr>, current := extra, target := extra\<rparr>) jb)"

section \<open>The history and its cache\<close>

text \<open>The \<open>n\<close> first elements of a list in the order of an injective key, after padding.\<close>

definition extremes :: "(int \<Rightarrow> int) \<Rightarrow> int \<Rightarrow> int list \<Rightarrow> int list" where
  "extremes key pad xs = take JB_HISTORY_MAXBUF_SZ (sort_key key (xs @ replicate JB_HISTORY_MAXBUF_SZ pad))"

definition cache_exact :: "'d jitterbuf \<Rightarrow> bool" where
  "cache_exact jb \<longleftrightarrow>
     hist_maxbuf jb = extremes uminus JB_LONGMIN (history_window (history jb) (hist_ptr jb)) \<and>
     hist_minbuf jb = extremes (\<lambda>x. x) JB_LONGMAX (history_window (history jb) (hist_ptr jb))"

lemma maxbuf_sz [simp]: "JB_HISTORY_MAXBUF_SZ = 20"
  by (simp add: JB_HISTORY_MAXBUF_SZ_def)

lemma history_sz [simp]: "JB_HISTORY_SZ = 500"
  by (simp add: JB_HISTORY_SZ_def)

lemma length_buf_insert [simp]: "length (buf_insert b x ys) = length ys"
  by (induction ys) auto

lemma length_buf_put [simp]: "length (buf_put b ys x) = length ys"
  by (simp add: buf_put_def)

lemma length_foldl_buf_put [simp]: "length (foldl (buf_put b) ys xs) = length ys"
  by (induction xs arbitrary: ys) auto

lemma buf_insert_take:
  "inj f \<Longrightarrow> sorted (map f ys) \<Longrightarrow> buf_insert (\<lambda>x y. f x < f y) x ys = take (length ys) (insort_key f x ys)"
proof (induction ys)
  case (Cons y ys)
  then show ?case
    by (cases "f x = f y")
       (auto simp: butlast_conv_take insort_is_Cons dest: injD)
qed simp

lemma take_insort_take:
  "sorted (map f s) \<Longrightarrow> take n (insort_key f x (take n s)) = take n (insort_key f x s)"
proof (induction s arbitrary: n)
  case (Cons y s)
  then show ?case by (cases n) (auto simp: take_Cons')
qed simp

lemma sorted_map_nth: "sorted (map f s) \<Longrightarrow> i \<le> j \<Longrightarrow> j < length s \<Longrightarrow> f (s ! i) \<le> f (s ! j)"
  using sorted_nth_mono [of "map f s" i j] by simp

text \<open>An element that is not before the last of the first \<open>n\<close> does not change these.\<close>

lemma take_insort_beyond:
  "inj f \<Longrightarrow> sorted (map f s) \<Longrightarrow> n < length s \<Longrightarrow> f (s ! n) \<le> f x \<Longrightarrow> take (Suc n) (insort_key f x s) = take (Suc n) s"
proof (induction s arbitrary: n)
  case (Cons y s)
  have hd_le: "f y \<le> f ((y # s) ! k)" if "k \<le> n" for k
    using sorted_map_nth [OF Cons.prems(2), of 0 k] that Cons.prems(3) by simp
  show ?case
  proof (cases "f x \<le> f y")
    case True
    with hd_le [of n] Cons.prems(4) have e: "f x = f y" "f ((y # s) ! n) = f y" by auto
    then have eq: "x = y" using Cons.prems(1) by (auto dest: injD)
    have "(y # s) ! k = y" if "k \<le> n" for k
    proof -
      have "f ((y # s) ! k) \<le> f ((y # s) ! n)"
        using sorted_map_nth [OF Cons.prems(2), of k n] that Cons.prems(3) by simp
      with hd_le [OF that] e show ?thesis using injD [OF Cons.prems(1), of "(y # s) ! k" y] by simp
    qed
    then have t: "take (Suc n) (y # s) = replicate (Suc n) y"
      using Cons.prems(3) by (intro nth_equalityI) (simp_all del: take_Suc_Cons replicate_Suc)
    have "take n (y # s) = take n (take (Suc n) (y # s))" by (simp del: take_Suc_Cons)
    also have "\<dots> = replicate n y" unfolding t by (simp del: replicate_Suc)
    finally have "take (Suc n) (y # y # s) = replicate (Suc n) y" by simp
    then show ?thesis using True eq t by (simp del: take_Suc_Cons)
  next
    case False
    then show ?thesis using Cons by (cases n) auto
  qed
qed simp

lemma take_insort_drop:
  "inj f \<Longrightarrow> sorted (map f s) \<Longrightarrow> n < length s \<Longrightarrow> f (insort_key f x s ! n) < f x \<Longrightarrow>
   take (Suc n) (insort_key f x s) = take (Suc n) s"
proof (induction s arbitrary: n)
  case (Cons y s)
  show ?case
  proof (cases "f x \<le> f y")
    case True
    have "f x \<le> f ((x # y # s) ! n)"
      using sorted_map_nth [of f "x # y # s" 0 n] True Cons.prems(2,3) by fastforce
    with True Cons.prems(4) show ?thesis by simp
  next
    case False
    with Cons show ?thesis by (cases n) auto
  qed
qed simp

lemma sort_key_perm: "inj f \<Longrightarrow> mset xs = mset ys \<Longrightarrow> sort_key f xs = sort_key f ys"
  by (rule sort_key_inj_key_eq) (auto intro: inj_on_subset)

lemma foldl_buf_put:
  assumes "inj f" "sorted (map f s)" "length s \<ge> 20"
  shows "foldl (buf_put (\<lambda>x y. f x < f y)) (take 20 s) xs = take 20 (foldl (\<lambda>s x. insort_key f x s) s xs)"
  using assms(2,3)
proof (induction xs arbitrary: s)
  case (Cons x xs)
  have "buf_put (\<lambda>x y. f x < f y) (take 20 s) x = take 20 (insort_key f x s)"
  proof (cases "f x < f (s ! 19)")
    case True
    have "sorted (map f (take 20 s))" using Cons.prems(1) by (simp add: sorted_wrt_take take_map [symmetric])
    from buf_insert_take [OF assms(1) this, of x] True Cons.prems show ?thesis
      by (simp add: buf_put_def take_insort_take min_def)
  next
    case False
    then show ?thesis using take_insort_beyond [OF assms(1) Cons.prems(1), of 19 x] Cons.prems(2)
      by (simp add: buf_put_def)
  qed
  then show ?case using Cons by (simp add: sorted_insort_key)
qed simp

lemma foldl_insort:
  "inj f \<Longrightarrow> sorted (map f s) \<Longrightarrow> foldl (\<lambda>s x. insort_key f x s) s xs = sort_key f (xs @ s)"
proof (induction xs arbitrary: s)
  case Nil
  then show ?case by (simp add: sorted_sort_id sort_key_id_if_sorted)
next
  case (Cons x xs)
  then have "foldl (\<lambda>s x. insort_key f x s) s (x # xs) = sort_key f (xs @ insort_key f x s)"
    by (simp add: sorted_insort_key)
  also have "\<dots> = sort_key f ((x # xs) @ s)" by (rule sort_key_perm) (use Cons.prems in auto)
  finally show ?case .
qed

lemma foldl_buf_put_extremes:
  assumes "inj f"
  shows "foldl (buf_put (\<lambda>x y. f x < f y)) (replicate 20 pad) xs = extremes f pad xs"
  using foldl_buf_put [OF assms, of "replicate 20 pad" xs] foldl_insort [OF assms, of "replicate 20 pad" xs]
  by (simp add: extremes_def)

lemma inj_uminus_int: "inj (uminus :: int \<Rightarrow> int)"
  by (rule injI) simp

lemma inj_self: "inj (\<lambda>x :: int. x)"
  by (rule injI)

lemma calc_maxbuf_exact: "hist_ptr jb \<noteq> 0 \<Longrightarrow> cache_exact (history_calc_maxbuf jb)"
  using foldl_buf_put_extremes [OF inj_uminus_int, of JB_LONGMIN] foldl_buf_put_extremes [OF inj_self, of JB_LONGMAX]
  by (simp add: history_calc_maxbuf_def cache_exact_def Let_def)

text \<open>What a new delay does to the window of the last 500.\<close>

lemma window_put_short:
  assumes "length h = 500" "p < 500"
  shows "history_window (h[p mod 500 := d]) (Suc p) = history_window h p @ [d]"
  using assms by (auto simp: history_window_def)

lemma window_put_full:
  assumes "length h = 500" "500 \<le> p"
  shows "history_window h p = h ! (p mod 500) # tl (history_window h p)"
    "history_window (h[p mod 500 := d]) (Suc p) = tl (history_window h p) @ [d]"
proof -
  have split: "[p - 500..<p] = (p - 500) # [Suc (p - 500)..<p]" by (rule upt_conv_Cons) (use assms(2) in simp)
  have "(p - 500) mod 500 = p mod 500" using le_mod_geq [OF assms(2)] by (rule sym)
  with split show "history_window h p = h ! (p mod 500) # tl (history_window h p)"
    by (simp add: history_window_def)
  have "i mod 500 \<noteq> p mod 500" if "p - 500 < i" "i < p" for i
  proof
    assume "i mod 500 = p mod 500"
    then have "500 dvd p - i" using that mod_eq_dvd_iff_nat [of i p 500] by simp
    with that show False by (auto dest: dvd_imp_le)
  qed
  then have "h[p mod 500 := d] ! (i mod 500) = h ! (i mod 500)" if "p - 500 < i" "i < p" for i
    using that by (metis nth_list_update_neq)
  moreover have "[Suc p - 500..<Suc p] = [Suc (p - 500)..<p] @ [p]" 
    using assms(2) Suc_diff_le [OF assms(2)] by (simp del: diff_Suc_numeral)
  ultimately show "history_window (h[p mod 500 := d]) (Suc p) = tl (history_window h p) @ [d]"
    using assms split by (simp add: history_window_def Suc_le_eq)
qed

lemma extremes_insert:
  assumes "inj f" "f (extremes f pad xs ! 19) \<le> f x"
  shows "extremes f pad (x # xs) = extremes f pad xs"
proof -
  let ?s = "sort_key f (xs @ replicate 20 pad)"
  have "take 20 (insort_key f x ?s) = take 20 ?s"
    using take_insort_beyond [OF assms(1), of ?s 19 x] assms(2) by (simp add: extremes_def)
  then show ?thesis by (simp add: extremes_def)
qed

lemma extremes_remove:
  assumes "inj f" "f (extremes f pad (x # xs) ! 19) < f x"
  shows "extremes f pad (x # xs) = extremes f pad xs"
proof -
  let ?s = "sort_key f (xs @ replicate 20 pad)"
  have "take 20 (insort_key f x ?s) = take 20 ?s"
    using take_insort_drop [OF assms(1), of ?s 19 x] assms(2) by (simp add: extremes_def)
  then show ?thesis by (simp add: extremes_def)
qed

lemma extremes_perm: "inj f \<Longrightarrow> mset xs = mset ys \<Longrightarrow> extremes f pad xs = extremes f pad ys"
  using sort_key_perm [of f "xs @ replicate 20 pad" "ys @ replicate 20 pad"] by (simp add: extremes_def)

lemma extremes_shift:
  assumes "inj f" "length h = 500" "f (extremes f pad (history_window h p) ! 19) \<le> f d"
    "f (extremes f pad (history_window h p) ! 19) < f (h ! (p mod 500))"
  shows "extremes f pad (history_window (h[p mod 500 := d]) (Suc p)) = extremes f pad (history_window h p)"
proof (cases "p < 500")
  case True
  have "extremes f pad (history_window h p @ [d]) = extremes f pad (d # history_window h p)"
    by (rule extremes_perm [OF assms(1)]) simp
  then show ?thesis using window_put_short [OF assms(2) True, of d] extremes_insert [OF assms(1,3)] by simp
next
  case False
  let ?w = "tl (history_window h p)" and ?k = "h ! (p mod 500)"
  note win = window_put_full [OF assms(2), of p, simplified not_less, OF False [unfolded not_less]]
  have rm: "extremes f pad (history_window h p) = extremes f pad ?w"
    using extremes_remove [OF assms(1), of pad ?k ?w] assms(4) by (simp add: win(1) [symmetric])
  have "extremes f pad (?w @ [d]) = extremes f pad (d # ?w)"
    by (rule extremes_perm [OF assms(1)]) simp
  also have "\<dots> = extremes f pad ?w" using extremes_insert [OF assms(1), of pad ?w d] assms(3) rm by simp
  finally show ?thesis using win(2) rm by simp
qed

definition hist_ok :: "'d jitterbuf \<Rightarrow> bool" where
  "hist_ok jb \<longleftrightarrow> length (history jb) = 500 \<and> length (hist_maxbuf jb) = 20 \<and> length (hist_minbuf jb) = 20 \<and>
     (hist_maxbuf_valid jb \<longrightarrow> hist_ptr jb \<noteq> 0 \<and> cache_exact jb)"

lemma history_put_ok: "hist_ok jb \<Longrightarrow> hist_ok (history_put jb ts d)"
  using extremes_shift [OF inj_uminus_int, of "history jb" JB_LONGMIN "hist_ptr jb" d]
    extremes_shift [OF inj_self, of "history jb" JB_LONGMAX "hist_ptr jb" d]
  by (auto simp: hist_ok_def history_put_def Let_def cache_exact_def)

lemma history_calc_maxbuf_ok: "hist_ok jb \<Longrightarrow> hist_ok (history_calc_maxbuf jb)"
  using calc_maxbuf_exact [of jb] by (auto simp: hist_ok_def history_calc_maxbuf_def Let_def)

lemma hist_ok_info [simp]: "hist_ok (info_update g jb) = hist_ok jb"
  by (simp add: hist_ok_def cache_exact_def)

lemma hist_ok_queue [simp]:
  "hist_ok (jb\<lparr>frames := fs\<rparr>) = hist_ok jb" "hist_ok (jb\<lparr>free_frames := fs\<rparr>) = hist_ok jb"
  "hist_ok (jb\<lparr>dropem := b\<rparr>) = hist_ok jb"
  by (simp_all add: hist_ok_def cache_exact_def)

lemma history_get_ok: "hist_ok jb \<Longrightarrow> hist_ok (history_get jb)"
  by (simp add: history_get_def Let_def history_calc_maxbuf_ok)

section \<open>The frame queue\<close>

lemma queue_pos_spec:
  assumes "sorted (map frame_ts fs)" "fs \<noteq> []" "frame_ts (hd fs) \<le> t" "0 < k" "k \<le> length fs"
    "\<forall>f \<in> set (drop k fs). t < frame_ts f"
  shows "queue_pos fs t k \<le> length fs \<and> (\<forall>f \<in> set (take (queue_pos fs t k) fs). frame_ts f \<le> t) \<and>
    (\<forall>f \<in> set (drop (queue_pos fs t k) fs). t < frame_ts f)"
  using assms(4-6)
proof (induction k)
  case (Suc k)
  show ?case
  proof (cases "t < frame_ts (fs ! k) \<and> k \<noteq> 0")
    case True
    have "drop k fs = fs ! k # drop (Suc k) fs" using Suc.prems by (simp add: Cons_nth_drop_Suc)
    with True Suc show ?thesis by auto
  next
    case False
    then have "frame_ts (fs ! k) \<le> t" using assms(2,3) by (cases "k = 0") (auto simp: hd_conv_nth)
    moreover have "frame_ts f \<le> frame_ts (fs ! k)" if "f \<in> set (take (Suc k) fs)" for f
      using that sorted_map_nth [OF assms(1), of _ k] Suc.prems by (auto simp: in_set_conv_nth)
    ultimately show ?thesis using False Suc.prems by fastforce
  qed
qed simp

text \<open>A stable insertion: behind the frames with an equal time stamp.\<close>

definition queue_insert :: "'d jb_frame \<Rightarrow> 'd jb_frame list \<Rightarrow> 'd jb_frame list" where
  "queue_insert f fs = filter (\<lambda>g. frame_ts g \<le> frame_ts f) fs @ f # filter (\<lambda>g. frame_ts f < frame_ts g) fs"

lemma filter_split:
  assumes "\<forall>x \<in> set xs. P x" "\<forall>x \<in> set ys. \<not> P x"
  shows "filter P (xs @ ys) = xs" "filter (\<lambda>x. \<not> P x) (xs @ ys) = ys"
  using assms by (auto simp: filter_id_conv filter_empty_conv)

lemma queue_insert_split:
  assumes "\<forall>g \<in> set xs. frame_ts g \<le> frame_ts f" "\<forall>g \<in> set ys. frame_ts f < frame_ts g"
  shows "queue_insert f (xs @ ys) = xs @ f # ys"
  using filter_split [of xs "\<lambda>g. frame_ts g \<le> frame_ts f" ys] assms
  by (simp add: queue_insert_def not_le)

lemma queue_insert_sorted: "sorted (map frame_ts fs) \<Longrightarrow> sorted (map frame_ts (queue_insert f fs))"
  by (auto simp: queue_insert_def sorted_append sorted_wrt_filter sorted_map intro: order_trans less_imp_le)

lemma queue_insert_mset: "mset (queue_insert f fs) = add_mset f (mset fs)"
  using multiset_partition [of "mset fs" "\<lambda>g. frame_ts g \<le> frame_ts f"] by (simp add: queue_insert_def not_le)

lemma length_queue_insert [simp]: "length (queue_insert f fs) = Suc (length fs)"
  using arg_cong [OF queue_insert_mset, of size] by simp

lemma queue_put_frames:
  assumes "sorted (map frame_ts (frames jb))" "free_frames jb \<noteq> [] \<or> alloc_ok"
  shows "frames (snd (queue_put alloc_ok jb data type ms ts)) =
    queue_insert \<lparr>frame_data = data, frame_ts = ts - resync_offset (info jb), frame_ms = ms, frame_type = type\<rparr> (frames jb)"
proof -
  let ?t = "ts - resync_offset (info jb)" and ?fs = "frames jb"
  let ?f = "\<lparr>frame_data = data, frame_ts = ?t, frame_ms = ms, frame_type = type\<rparr>"
  consider "?fs = []" | "?fs \<noteq> []" "?t < frame_ts (hd ?fs)" | "?fs \<noteq> []" "frame_ts (hd ?fs) \<le> ?t"
    by linarith
  then show ?thesis
  proof cases
    case 1
    then show ?thesis using assms(2) by (auto simp: queue_put_def Let_def queue_insert_def)
  next
    case 2
    then have "\<forall>g \<in> set ?fs. ?t < frame_ts g" using assms(1) by (cases ?fs) auto
    then have "queue_insert ?f ?fs = ?f # ?fs" using queue_insert_split [of "[]" ?f ?fs] by simp
    with 2 assms(2) show ?thesis by (auto simp: queue_put_def Let_def)
  next
    case 3
    let ?k = "queue_pos ?fs ?t (length ?fs)"
    have "queue_insert ?f (take ?k ?fs @ drop ?k ?fs) = take ?k ?fs @ ?f # drop ?k ?fs"
      using queue_pos_spec [OF assms(1) 3, of "length ?fs"] 3 by (intro queue_insert_split) auto
    with 3 assms(2) show ?thesis by (auto simp: queue_put_def Let_def)
  qed
qed

lemma queue_put_other:
  shows "hist_ok (snd (queue_put a jb data type ms ts)) = hist_ok jb"
    "frames_cur (info (snd (queue_put a jb data type ms ts))) =
     frames_cur (info jb) + (if free_frames jb = [] \<and> \<not> a then 0 else 1)"
    "frames_in (info (snd (queue_put a jb data type ms ts))) = frames_in (info jb)"
    "frames_out (info (snd (queue_put a jb data type ms ts))) = frames_out (info jb)"
    "losspct (info (snd (queue_put a jb data type ms ts))) = losspct (info jb)"
    "conf (info (snd (queue_put a jb data type ms ts))) = conf (info jb)"
  by (auto simp: queue_put_def Let_def)

lemma queue_put_nomem: "free_frames jb = [] \<Longrightarrow> queue_put False jb data type ms ts = (False, jb)"
  by (simp add: queue_put_def)

lemma queue_put_head:
  "fst (queue_put True jb data type ms ts) \<longleftrightarrow> frames jb = [] \<or> ts - resync_offset (info jb) < frame_ts (hd (frames jb))"
  by (auto simp: queue_put_def Let_def)

section \<open>The invariant of the buffer\<close>

definition jb_ok :: "'d jitterbuf \<Rightarrow> bool" where
  "jb_ok jb \<longleftrightarrow> hist_ok jb \<and> sorted (map frame_ts (frames jb)) \<and>
     frames_cur (info jb) = int (length (frames jb)) \<and> 0 \<le> losspct (info jb) \<and> losspct (info jb) \<le> 100000"

text \<open>Frames that went in and neither came out nor wait: those \<open>jb_getall\<close> took or memory failed for.\<close>

definition unaccounted :: "'d jitterbuf \<Rightarrow> int" where
  "unaccounted jb = frames_in (info jb) - frames_out (info jb) - int (length (frames jb))"

lemma losspct_step:
  assumes "0 \<le> l" "l \<le> (100000 :: int)"
  shows "0 \<le> (100000 + 499 * l) sdiv 500" "(100000 + 499 * l) sdiv 500 \<le> 100000"
    "0 \<le> (499 * l) sdiv 500" "(499 * l) sdiv 500 \<le> 100000"
  using assms by (auto simp: sdiv_nonneg)

lemma history_get_simps [simp]:
  "frames (history_get jb) = frames jb" "free_frames (history_get jb) = free_frames jb"
  "losspct (info (history_get jb)) = losspct (info jb)" "frames_cur (info (history_get jb)) = frames_cur (info jb)"
  "frames_in (info (history_get jb)) = frames_in (info jb)" "frames_out (info (history_get jb)) = frames_out (info jb)"
  "silence_begin_ts (info (history_get jb)) = silence_begin_ts (info jb)"
  "next_voice_ts (info (history_get jb)) = next_voice_ts (info jb)"
  "current (info (history_get jb)) = current (info jb)" "target (info (history_get jb)) = target (info jb)"
  "conf (info (history_get jb)) = conf (info jb)"
  "last_adjustment (info (history_get jb)) = last_adjustment (info jb)"
  by (simp_all add: history_get_def history_calc_maxbuf_def Let_def)

lemma jb_get_target_simps [simp]:
  "frames (jb_get_target jb) = frames jb" "hist_ok jb \<Longrightarrow> hist_ok (jb_get_target jb)"
  "losspct (info (jb_get_target jb)) = losspct (info jb)" "frames_cur (info (jb_get_target jb)) = frames_cur (info jb)"
  "frames_in (info (jb_get_target jb)) = frames_in (info jb)" "frames_out (info (jb_get_target jb)) = frames_out (info jb)"
  "silence_begin_ts (info (jb_get_target jb)) = silence_begin_ts (info jb)"
  "next_voice_ts (info (jb_get_target jb)) = next_voice_ts (info jb)"
  "current (info (jb_get_target jb)) = current (info jb)"
  by (simp_all add: jb_get_target_def Let_def history_get_ok)

text \<open>What one \<open>_jb_get\<close> does to queue and counters, whatever branch it takes.\<close>

definition get_effect :: "'d jitterbuf \<Rightarrow> jb_return_code \<times> 'd jb_frame option \<times> 'd jitterbuf \<Rightarrow> bool" where
  "get_effect jb res \<longleftrightarrow> (case res of (r, f, jb') \<Rightarrow>
     jb_ok jb' \<and> frames_in (info jb') = frames_in (info jb) \<and>
     (case f of
        None \<Rightarrow> frames jb' = frames jb \<and> frames_out (info jb') = frames_out (info jb) \<and> (r = JB_INTERP \<or> r = JB_NOFRAME)
      | Some x \<Rightarrow> frames jb = x # frames jb' \<and> frames_out (info jb') = frames_out (info jb) + 1 \<and> (r = JB_OK \<or> r = JB_DROP)))"

lemma hist_ok_set_info [simp]: "hist_ok (jb\<lparr>info := i\<rparr>) = hist_ok jb"
  by (simp add: hist_ok_def cache_exact_def)

lemma jb_ok_set_info:
  "jb_ok jb \<Longrightarrow> frames_cur i = frames_cur (info jb) \<Longrightarrow> 0 \<le> losspct i \<Longrightarrow> losspct i \<le> 100000 \<Longrightarrow> jb_ok (jb\<lparr>info := i\<rparr>)"
  by (simp add: jb_ok_def)

lemma contig_interp_check_simps [simp]:
  "losspct (contig_interp_check i) = losspct i" "frames_cur (contig_interp_check i) = frames_cur i"
  "frames_in (contig_interp_check i) = frames_in i" "frames_out (contig_interp_check i) = frames_out i"
  "next_voice_ts (contig_interp_check i) = next_voice_ts i" "last_voice_ms (contig_interp_check i) = last_voice_ms i"
  by (simp_all add: contig_interp_check_def)

lemma queue_get_cases:
  assumes "jb_ok jb"
  obtains "queue_get jb t = (None, jb)"
  | x jb' where "queue_get jb t = (Some x, jb')" "frames jb = x # frames jb'" "frame_ts x \<le> t" "jb_ok jb'"
      "jb' = info_update (\<lambda>i. i\<lparr>frames_cur := frames_cur i - 1\<rparr>)
               (jb\<lparr>frames := tl (frames jb), free_frames := x # free_frames jb\<rparr>)"
proof (cases "frames jb = [] \<or> t < frame_ts (hd (frames jb))")
  case True
  then show ?thesis using that(1) by (cases "frames jb") (auto simp: queue_get_def queue_get_aux_def)
next
  case False
  then obtain x rest where "frames jb = x # rest" "frame_ts x \<le> t" by (cases "frames jb") auto
  then show ?thesis using that(2) assms by (simp add: queue_get_def queue_get_aux_def jb_ok_def)
qed

lemma jb_get_timely_effect:
  assumes "jb_get_timely f diff now interpl i = (r, f', i')" "0 \<le> losspct i" "losspct i \<le> 100000"
  shows "f' = f \<and> frames_cur i' = frames_cur i \<and> frames_in i' = frames_in i \<and> 0 \<le> losspct i' \<and> losspct i' \<le> 100000 \<and>
    frames_out i' = frames_out i + (if f = None then 0 else 1) \<and>
    (if f = None then r = JB_INTERP \<or> r = JB_NOFRAME else r = JB_OK \<or> r = JB_DROP)"
  using assms losspct_step [OF assms(2,3)]
  by (cases f) (auto simp: jb_get_timely_def Let_def decrement_losspct_def increment_losspct_def split: if_splits)

lemma jb_get_talking_effect:
  assumes "jb_ok jb"
  shows "get_effect jb (jb_get_talking jb diff now interpl)"
proof (cases "diff > 0 \<and> (last_adjustment (info jb) + JB_ADJUST_DELAY < now \<or> diff > queue_last jb - queue_next jb)")
  case True
  then show ?thesis using assms by (auto simp: jb_get_talking_def Let_def get_effect_def jb_ok_def)
next
  case False
  let ?t = "next_voice_ts (info jb) - current (info jb)"
  show ?thesis
  proof (rule queue_get_cases [OF assms, of ?t])
    assume q: "queue_get jb ?t = (None, jb)"
    obtain r f i where t: "jb_get_timely None diff now interpl (info jb) = (r, f :: 'a jb_frame option, i)"
      by (metis prod_cases3)
    have "0 \<le> losspct (info jb)" "losspct (info jb) \<le> 100000" using assms by (simp_all add: jb_ok_def)
    from jb_get_timely_effect [OF t this] q t False assms show ?thesis
      by (auto simp: jb_get_talking_def Let_def get_effect_def jb_ok_set_info jb_ok_def)
  next
    fix x jb' assume q: "queue_get jb ?t = (Some x, jb')" "frames jb = x # frames jb'" "jb_ok jb'"
      and jb': "jb' = info_update (\<lambda>i. i\<lparr>frames_cur := frames_cur i - 1\<rparr>)
               (jb\<lparr>frames := tl (frames jb), free_frames := x # free_frames jb\<rparr>)"
    obtain r f i where t: "jb_get_timely (Some x) diff now interpl (info jb') = (r, f, i)" by (metis prod_cases3)
    have l: "0 \<le> losspct (info jb')" "losspct (info jb') \<le> 100000" using q(3) by (simp_all add: jb_ok_def)
    have c: "frames_in (info jb') = frames_in (info jb)" "frames_out (info jb') = frames_out (info jb)"
      by (simp_all add: jb')
    from jb_get_timely_effect [OF t l] losspct_step [OF l] q t False c show ?thesis
      unfolding jb_get_talking_def Let_def
      by (auto simp: get_effect_def decrement_losspct_def jb_ok_def)
  qed
qed

lemma jb_get_silent_effect:
  assumes "jb_ok jb"
  shows "get_effect jb (jb_get_silent jb diff now interpl)"
proof -
  define jb1 where "jb1 = (if diff < - target_extra (conf (info jb)) \<and> last_adjustment (info jb) + 10 \<le> now
    then jb\<lparr>info := (info jb)\<lparr>current := current (info jb) - interpl, last_adjustment := now\<rparr>\<rparr> else jb)"
  have ok: "jb_ok jb1" and f: "frames jb1 = frames jb" "frames_in (info jb1) = frames_in (info jb)"
    "frames_out (info jb1) = frames_out (info jb)" using assms by (simp_all add: jb1_def jb_ok_def)
  show ?thesis
  proof (rule queue_get_cases [OF ok, of "now - current (info jb1)"])
    assume "queue_get jb1 (now - current (info jb1)) = (None, jb1)"
    then show ?thesis using ok f by (simp add: jb_get_silent_def Let_def get_effect_def jb1_def [symmetric])
  next
    fix x jb' assume q: "queue_get jb1 (now - current (info jb1)) = (Some x, jb')" "frames jb1 = x # frames jb'" "jb_ok jb'"
      and jb': "jb' = info_update (\<lambda>i. i\<lparr>frames_cur := frames_cur i - 1\<rparr>)
               (jb1\<lparr>frames := tl (frames jb1), free_frames := x # free_frames jb1\<rparr>)"
    have l: "0 \<le> losspct (info jb')" "losspct (info jb') \<le> 100000" using q(3) by (simp_all add: jb_ok_def)
    have c: "frames_in (info jb') = frames_in (info jb)" "frames_out (info jb') = frames_out (info jb)"
      using f by (simp_all add: jb')
    show ?thesis
      unfolding jb_get_silent_def Let_def jb1_def [symmetric] q(1)
      using losspct_step [OF l] q c f by (auto simp: get_effect_def decrement_losspct_def jb_ok_def)
  qed
qed

lemma jb_get_aux_effect:
  assumes "jb_ok jb"
  shows "get_effect jb (jb_get_aux jb now interpl)"
proof -
  have "jb_ok (jb_get_target jb)" using assms by (simp add: jb_ok_def)
  then have "get_effect (jb_get_target jb) (jb_get_aux jb now interpl)"
    by (simp add: jb_get_aux_def Let_def jb_get_talking_effect jb_get_silent_effect)
  then show ?thesis by (auto simp: get_effect_def split: option.splits)
qed

lemma check_resync_effect:
  assumes "check_resync jb ts now type d = (drp, d', jb')"
  shows "frames jb' = frames jb" "free_frames jb' = free_frames jb" "hist_ok jb \<Longrightarrow> hist_ok jb'"
    "losspct (info jb') = losspct (info jb)" "frames_cur (info jb') = frames_cur (info jb)"
    "frames_in (info jb') = frames_in (info jb)" "frames_out (info jb') = frames_out (info jb)"
  using assms by (auto simp: check_resync_def Let_def hist_ok_def cache_exact_def split: if_splits)

lemma history_put_simps [simp]:
  "frames (history_put jb ts d) = frames jb" "free_frames (history_put jb ts d) = free_frames jb"
  "info (history_put jb ts d) = info jb"
  by (simp_all add: history_put_def Let_def)

text \<open>\<open>check_resync\<close> may move the offset, so the queued time stamp is that of the state it leaves.\<close>

lemma jb_put_effect:
  assumes "jb_ok jb" "jb_put alloc_ok jb data type ms ts now = (r, jb')" "alloc_ok \<or> free_frames jb \<noteq> []"
  shows "jb_ok jb'"
    and "r = JB_DROP \<Longrightarrow> frames jb' = frames jb \<and> frames_in (info jb') = frames_in (info jb)"
    and "r \<noteq> JB_DROP \<Longrightarrow> frames jb' = queue_insert \<lparr>frame_data = data,
           frame_ts = ts - resync_offset (info jb'), frame_ms = ms, frame_type = type\<rparr> (frames jb) \<and>
           frames_in (info jb') = frames_in (info jb) + 1"
    and "r = JB_SCHED \<Longrightarrow> frame_data (hd (frames jb')) = data"
    and "frames_out (info jb') = frames_out (info jb)" "r = JB_OK \<or> r = JB_DROP \<or> r = JB_SCHED"
proof -
  obtain drp d jb1 where c: "check_resync jb ts now type (now - (ts - resync_offset (info jb))) = (drp, d, jb1)"
    by (metis prod_cases3)
  note ce = check_resync_effect [OF c]
  have all: "jb_ok jb' \<and> (r = JB_DROP \<longrightarrow> frames jb' = frames jb \<and> frames_in (info jb') = frames_in (info jb)) \<and>
    (r \<noteq> JB_DROP \<longrightarrow> frames jb' = queue_insert \<lparr>frame_data = data,
           frame_ts = ts - resync_offset (info jb'), frame_ms = ms, frame_type = type\<rparr> (frames jb) \<and>
           frames_in (info jb') = frames_in (info jb) + 1) \<and>
    (r = JB_SCHED \<longrightarrow> frame_data (hd (frames jb')) = data) \<and>
    frames_out (info jb') = frames_out (info jb) \<and> (r = JB_OK \<or> r = JB_DROP \<or> r = JB_SCHED)"
  proof (cases drp)
    case True
    then show ?thesis using assms ce c by (auto simp: jb_put_def jb_ok_def)
  next
    case False
    define jb2 where "jb2 = info_update (\<lambda>i. i\<lparr>frames_in := frames_in i + 1\<rparr>)
      (if type = JB_TYPE_VOICE then history_put jb1 ts d else jb1)"
    obtain h jb3 where q: "queue_put alloc_ok jb2 data type ms ts = (h, jb3)" by fastforce
    have r: "r = (if h then JB_SCHED else JB_OK)" "jb' = jb3"
      using assms(2) c False q by (auto simp: jb_put_def Let_def jb2_def)
    have j2: "frames jb2 = frames jb" "free_frames jb2 = free_frames jb" "hist_ok jb2"
      "losspct (info jb2) = losspct (info jb)" "frames_cur (info jb2) = frames_cur (info jb)"
      "frames_in (info jb2) = frames_in (info jb) + 1" "frames_out (info jb2) = frames_out (info jb)"
      "resync_offset (info jb2) = resync_offset (info jb1)"
      using ce assms(1) by (simp_all add: jb2_def history_put_ok jb_ok_def)
    let ?f = "\<lparr>frame_data = data, frame_ts = ts - resync_offset (info jb2), frame_ms = ms, frame_type = type\<rparr>"
    have srt: "sorted (map frame_ts (frames jb2))" using assms(1) j2 by (simp add: jb_ok_def)
    then have fr: "frames jb3 = queue_insert ?f (frames jb)"
      using queue_put_frames [of jb2 alloc_ok data type ms ts] assms(3) j2 q by auto
    have off: "resync_offset (info jb3) = resync_offset (info jb2)"
      using q by (auto simp: queue_put_def Let_def split: if_splits)
    have head: "hd (frames jb3) = ?f" if h
      using q that by (auto simp: queue_put_def Let_def split: if_splits)
    have "length (frames jb3) = Suc (length (frames jb))" by (simp add: fr)
    moreover have "sorted (map frame_ts (frames jb3))" using fr queue_insert_sorted srt j2(1) by simp
    ultimately have "jb_ok jb3"
      using queue_put_other [of alloc_ok jb2 data type ms ts] q j2 assms(1,3) by (auto simp: jb_ok_def)
    then show ?thesis
      using r fr off head j2 queue_put_other [of alloc_ok jb2 data type ms ts] q by auto
  qed
  from all show "jb_ok jb'" "r = JB_OK \<or> r = JB_DROP \<or> r = JB_SCHED" "frames_out (info jb') = frames_out (info jb)" by blast+
  from all show "r = JB_DROP \<Longrightarrow> frames jb' = frames jb \<and> frames_in (info jb') = frames_in (info jb)"
    and "r = JB_SCHED \<Longrightarrow> frame_data (hd (frames jb')) = data"
    and "r \<noteq> JB_DROP \<Longrightarrow> frames jb' = queue_insert \<lparr>frame_data = data,
           frame_ts = ts - resync_offset (info jb'), frame_ms = ms, frame_type = type\<rparr> (frames jb) \<and>
           frames_in (info jb') = frames_in (info jb) + 1" by blast+
qed

lemma jb_reset_ok: "jb_ok (jb_reset jb)" "frames (jb_reset jb) = []"
  by (simp_all add: jb_reset_def jb_ok_def hist_ok_def info_zero_def)

lemma jb_setconf_ok: "jb_ok (jb_setconf jb c) = jb_ok jb" "frames (jb_setconf jb c) = frames jb"
  by (simp_all add: jb_setconf_def jb_ok_def Let_def)

lemma jb_next_ok: "jb_ok jb \<Longrightarrow> jb_ok (snd (jb_next jb))" "frames (snd (jb_next jb)) = frames jb"
  by (auto simp: jb_next_def Let_def jb_ok_def history_get_ok)

lemma jb_getall_effect:
  assumes "jb_ok jb"
  shows "frames jb = [] \<Longrightarrow> jb_getall jb out = (JB_NOFRAME, out, jb)"
    and "frames jb = x # rest \<Longrightarrow> \<exists>jb'. jb_getall jb out = (JB_OK, x, jb') \<and> frames jb' = rest \<and> jb_ok jb'"
  using assms by (auto simp: jb_getall_def queue_getall_def queue_get_aux_def jb_ok_def)

section \<open>Order statistics\<close>

lemma sort_key_pad:
  assumes "\<forall>x \<in> set xs. f x \<le> f pad"
  shows "sort_key f (xs @ replicate n pad) = sort_key f xs @ replicate n pad"
  using assms
proof (induction xs)
  case Nil
  then show ?case by (simp add: sort_key_id_if_sorted)
next
  case (Cons x xs)
  have "insort_key f x (ys @ replicate n pad) = insort_key f x ys @ replicate n pad" for ys
    using Cons.prems by (induction ys) (auto intro: insort_is_Cons)
  with Cons show ?case by simp
qed

lemma sort_uminus: "sort_key uminus xs = rev (sort (xs :: int list))"
proof (rule sort_key_inj_key_eq)
  show "sorted (map uminus (rev (sort xs)))"
    by (simp add: rev_map [symmetric] sorted_wrt_rev sorted_map) (simp add: sorted_wrt_map)
qed (auto simp: inj_on_def)

lemma length_window: "length (history_window h p) = (if p < 500 then p else 500)"
  by (simp add: history_window_def)

lemma history_get_quantiles:
  fixes jb :: "'d jitterbuf"
  defines "w \<equiv> history_window (history jb) (hist_ptr jb)"
  assumes "hist_ok jb" "hist_ptr jb \<noteq> 0" "\<forall>d \<in> set w. JB_LONGMIN \<le> d \<and> d \<le> JB_LONGMAX"
  shows "min_delay (info (history_get jb)) = sort w ! (length w * 3 div 100)"
    "jitter (info (history_get jb)) = rev (sort w) ! (length w * 3 div 100) - sort w ! (length w * 3 div 100)"
proof -
  define jb1 where "jb1 = (if hist_maxbuf_valid jb then jb else history_calc_maxbuf jb)"
  let ?k = "length w * 3 div 100"
  have e: "cache_exact jb1" using assms(2,3) calc_maxbuf_exact [of jb] by (simp add: jb1_def hist_ok_def)
  have same: "history jb1 = history jb" "hist_ptr jb1 = hist_ptr jb"
    by (simp_all add: jb1_def history_calc_maxbuf_def Let_def)
  have lw: "length w = (if hist_ptr jb < 500 then hist_ptr jb else 500)" by (simp add: w_def length_window)
  then have k: "?k < length w" "?k < 20" "\<not> 19 < ?k" using assms(3) by auto
  have "hist_minbuf jb1 ! ?k = sort w ! ?k"
    using e k same assms(4) by (simp add: cache_exact_def extremes_def w_def [symmetric] sort_key_pad nth_append)
  moreover have "sort_key uminus (w @ replicate 20 JB_LONGMIN) = rev (sort w) @ replicate 20 JB_LONGMIN"
    unfolding sort_uminus [symmetric] by (rule sort_key_pad) (use assms(4) in auto)
  then have "hist_maxbuf jb1 ! ?k = rev (sort w) ! ?k"
    using e k same by (simp add: cache_exact_def extremes_def w_def [symmetric] nth_append)
  ultimately show "min_delay (info (history_get jb)) = sort w ! ?k"
    "jitter (info (history_get jb)) = rev (sort w) ! ?k - sort w ! ?k"
    using k same lw
    by ((cases "hist_ptr jb < 500";
         simp add: history_get_def Let_def jb1_def [symmetric] JB_HISTORY_DROPPCT_def)+)
qed

section \<open>Properties\<close>

text \<open>A new buffer, and one that has accepted two frames.\<close>

definition jb_garbage :: "nat jitterbuf" where
  "jb_garbage = \<lparr>info = info_zero \<lparr>max_jitterbuf = 200, resync_threshold = 1000, max_contig_interp = 10, target_extra = 40\<rparr>,
     history = [], hist_ptr = 0, hist_maxbuf = [], hist_minbuf = [], hist_maxbuf_valid = False,
     dropem = False, frames = [], free_frames = []\<rparr>"

definition jb_two :: "nat jitterbuf" where
  "jb_two = snd (jb_put True (snd (jb_put True (jb_reset jb_garbage) 7 JB_TYPE_VOICE 20 40 50)) 8 JB_TYPE_VOICE 20 20 55)"

lemma jb_two_ok: "jb_ok jb_two" "hist_ptr jb_two = 2" "history_window (history jb_two) 2 = [10, 35]"
proof -
  have "jb_ok (snd (jb_put True jb d ty ms ts now))" if "jb_ok jb" for jb :: "nat jitterbuf" and d ty ms ts now
    using jb_put_effect(1) [OF that, of True d ty ms ts now] by (metis prod.collapse)
  then show "jb_ok jb_two" by (simp add: jb_two_def jb_reset_ok)
  show "hist_ptr jb_two = 2" "history_window (history jb_two) 2 = [10, 35]"
    by code_simp+
qed

text \<open>
  C38: \<open>jb_put\<close> keeps the invariant of the buffer: the queue stays sorted by time stamp, its length is
  counted, the cached extremes of the history are exact. A frame that is not dropped goes behind all frames with
  the same or an earlier time stamp, nothing else moves, and \<open>JB_SCHED\<close> means it is the new head.
\<close>

theorem jb_put_correct:
  assumes "jb_ok jb" "alloc_ok \<or> free_frames jb \<noteq> []"
  shows "case jb_put alloc_ok jb data type ms ts now of (r, jb') \<Rightarrow>
    jb_ok jb' \<and> unaccounted jb' = unaccounted jb \<and>
    (if r = JB_DROP then frames jb' = frames jb
     else frames jb' = queue_insert \<lparr>frame_data = data, frame_ts = ts - resync_offset (info jb'),
            frame_ms = ms, frame_type = type\<rparr> (frames jb)) \<and>
    (r = JB_SCHED \<longrightarrow> frame_data (hd (frames jb')) = data)"
proof -
  obtain r jb' where p: "jb_put alloc_ok jb data type ms ts now = (r, jb')" by fastforce
  note e = jb_put_effect [OF assms(1) p assms(2)]
  have "int (length (frames jb')) = int (length (frames jb)) + (if r = JB_DROP then 0 else 1)"
    using e(2,3) by auto
  then show ?thesis using e p by (auto simp: unaccounted_def)
qed

theorem jb_put_correct_witness:
  "jb_ok (snd (jb_put True jb_two 9 JB_TYPE_VOICE 20 60 71)) \<and>
   unaccounted (snd (jb_put True jb_two 9 JB_TYPE_VOICE 20 60 71)) = unaccounted jb_two"
  using jb_put_correct [OF jb_two_ok(1), where alloc_ok = True and data = 9 and type = JB_TYPE_VOICE and ms = 20 and ts = 60 and now = 71]
  by (auto split: prod.splits)

text \<open>
  C39: every call of \<open>jb_get\<close> either hands out the frame with the lowest time stamp, with \<open>JB_OK\<close> or
  \<open>JB_DROP\<close>, and removes just it, or leaves the queue alone and returns \<open>JB_INTERP\<close> or \<open>JB_NOFRAME\<close>.
  It keeps the invariant, and no frame gets lost between the counters of frames in, out and waiting.
\<close>

theorem jb_get_correct:
  assumes "jb_ok jb"
  shows "case jb_get jb out now interpl of (r, out', jb') \<Rightarrow>
    jb_ok jb' \<and> unaccounted jb' = unaccounted jb \<and>
    ((r = JB_OK \<or> r = JB_DROP) \<and> frames jb = out' # frames jb' \<or>
     (r = JB_INTERP \<or> r = JB_NOFRAME) \<and> frames jb' = frames jb)"
proof -
  obtain r f jb' where g: "jb_get_aux jb now interpl = (r, f, jb')" by (metis prod_cases3)
  show ?thesis using jb_get_aux_effect [OF assms, of now interpl] g
    by (cases f) (auto simp: get_effect_def jb_get_def Let_def unaccounted_def)
qed

theorem jb_get_correct_witness:
  "unaccounted (snd (snd (jb_get jb_two (hd (frames jb_two)) 90 20))) = unaccounted jb_two"
  using jb_get_correct [OF jb_two_ok(1), of "hd (frames jb_two)" 90 20] by (auto split: prod.splits)

text \<open>
  The statistics \<open>history_get\<close> computes from its cache are those of the whole history: with \<open>k\<close> 3 percent
  of the number of delays remembered, at most 500, the minimum is the \<open>k\<close>-th smallest of them and the jitter its
  distance to the \<open>k\<close>-th largest, provided the delays fit into 32 bits.
\<close>

theorem jb_history_statistics:
  assumes "jb_ok jb" "hist_ptr jb \<noteq> 0"
    "\<forall>d \<in> set (history_window (history jb) (hist_ptr jb)). JB_LONGMIN \<le> d \<and> d \<le> JB_LONGMAX"
  shows "let w = history_window (history jb) (hist_ptr jb); k = length w * 3 div 100 in
    min_delay (info (history_get jb)) = sort w ! k \<and>
    jitter (info (history_get jb)) = rev (sort w) ! k - sort w ! k"
  using history_get_quantiles [of jb] assms by (simp add: jb_ok_def Let_def)

theorem jb_history_statistics_witness:
  "min_delay (info (history_get jb_two)) = 10 \<and> jitter (info (history_get jb_two)) = 25"
  using jb_history_statistics [OF jb_two_ok(1)] jb_two_ok(2,3)
  by (simp add: JB_LONGMIN_def JB_LONGMAX_def Let_def)

text \<open>
  \<open>history_put\<close> moves the window of remembered delays by exactly the new one, and the shortcut that
  leaves the cached extremes marked valid never leaves a wrong cache.
\<close>

theorem jb_history_put_window:
  assumes "hist_ok jb" "0 < ts"
  shows "hist_ok (history_put jb ts d) \<and>
    history_window (history (history_put jb ts d)) (hist_ptr (history_put jb ts d)) =
      (if hist_ptr jb < JB_HISTORY_SZ then history_window (history jb) (hist_ptr jb)
       else tl (history_window (history jb) (hist_ptr jb))) @ [d]"
proof -
  have "length (history jb) = 500" using assms(1) by (simp add: hist_ok_def)
  with window_put_short window_put_full(2) assms(2)
  have "history_window (history (history_put jb ts d)) (hist_ptr (history_put jb ts d)) =
      (if hist_ptr jb < JB_HISTORY_SZ then history_window (history jb) (hist_ptr jb)
       else tl (history_window (history jb) (hist_ptr jb))) @ [d]"
    by (simp add: history_put_def Let_def)
  with history_put_ok [OF assms(1)] show ?thesis by blast
qed

theorem jb_history_put_window_witness:
  "history_window (history (history_put jb_two 60 12)) (hist_ptr (history_put jb_two 60 12)) = [10, 35, 12]"
  using jb_history_put_window [of jb_two 60 12] jb_two_ok by (simp add: jb_ok_def)

text \<open>
  When no memory is left for a new node, \<open>jb_put\<close> reports \<open>JB_OK\<close> for an accepted frame although it did
  not queue the frame, so the frame is neither in the buffer nor known to the caller as dropped.
\<close>

theorem jb_put_out_of_memory:
  assumes "free_frames jb = []" "jb_put False jb data type ms ts now = (r, jb')" "r \<noteq> JB_DROP"
  shows "r = JB_OK \<and> frames jb' = frames jb \<and> frames_in (info jb') = frames_in (info jb) + 1"
proof -
  obtain drp d jb1 where c: "check_resync jb ts now type (now - (ts - resync_offset (info jb))) = (drp, d, jb1)"
    by (metis prod_cases3)
  from check_resync_effect [OF c] c assms show ?thesis
    by (auto simp: jb_put_def Let_def queue_put_nomem split: bool.splits)
qed

theorem jb_put_out_of_memory_witness:
  "frames (snd (jb_put False jb_two 9 JB_TYPE_VOICE 20 60 71)) = frames jb_two"
proof -
  have "free_frames jb_two = []" "fst (jb_put False jb_two 9 JB_TYPE_VOICE 20 60 71) = JB_OK" by code_simp+
  with jb_put_out_of_memory [of jb_two 9 JB_TYPE_VOICE 20 60 71 JB_OK "snd (jb_put False jb_two 9 JB_TYPE_VOICE 20 60 71)"]
  show ?thesis by (metis jb_return_code.distinct(7) prod.collapse)
qed

end
