(* ===== verification/Fixed_Jb.thy ===== *)
theory Fixed_Jb
  imports Ast_Prelude
begin

text \<open>
  The fixed jitter buffer of \<open>main/fixedjitterbuf.c\<close>: frames kept in the order of their delivery
  times, a constant delay, and a resynchronisation of the time base when time stamps jump.
\<close>

section \<open>State\<close>

datatype fixed_code = FIXED_JB_OK | FIXED_JB_DROP | FIXED_JB_INTERP | FIXED_JB_NOFRAME

definition FIXED_JB_SIZE_DEFAULT :: int where "FIXED_JB_SIZE_DEFAULT = 200"
definition FIXED_JB_RESYNCH_THRESHOLD_DEFAULT :: int where "FIXED_JB_RESYNCH_THRESHOLD_DEFAULT = 1000"

record fixed_jb_conf =
  jbsize :: int
  fx_resync_threshold :: int

record 'd fixed_jb_frame =
  fx_data :: 'd
  fx_ts :: int
  fx_ms :: int
  fx_delivery :: int

text \<open>The doubly linked list from \<open>frames\<close> to \<open>tail\<close> is a list.\<close>

record 'd fixed_jb =
  fx_frames :: "'d fixed_jb_frame list"
  fx_conf :: fixed_jb_conf
  rxcore :: int
  fx_delay :: int
  next_delivery :: int
  force_resynch :: bool

section \<open>Operations\<close>

text \<open>\<open>get_jb_head\<close>, on a buffer that is not empty.\<close>

definition get_jb_head :: "'d fixed_jb \<Rightarrow> 'd fixed_jb_frame \<times> 'd fixed_jb" where
  "get_jb_head jb =
     (let fr = hd (fx_frames jb)
      in (fr, jb\<lparr>fx_frames := tl (fx_frames jb), next_delivery := fx_delivery fr + fx_ms fr\<rparr>))"

definition fixed_jb_new :: "bool \<Rightarrow> fixed_jb_conf \<Rightarrow> 'd fixed_jb option" where
  "fixed_jb_new alloc_ok c0 =
     (if \<not> alloc_ok then None
      else let c1 = (if jbsize c0 < 1 then c0\<lparr>jbsize := FIXED_JB_SIZE_DEFAULT\<rparr> else c0);
               c = (if fx_resync_threshold c1 < 1
                    then c1\<lparr>fx_resync_threshold := FIXED_JB_RESYNCH_THRESHOLD_DEFAULT\<rparr> else c1)
           in Some \<lparr>fx_frames = [], fx_conf = c, rxcore = 0, fx_delay = jbsize c,
                    next_delivery = 0, force_resynch = False\<rparr>)"

text \<open>\<open>fixed_jb_destroy\<close> aborts when frames are left.\<close>

definition fixed_jb_destroy :: "'d fixed_jb \<Rightarrow> unit option" where
  "fixed_jb_destroy jb = (if fx_frames jb = [] then Some () else None)"

definition fixed_jb_set_force_resynch :: "'d fixed_jb \<Rightarrow> 'd fixed_jb" where
  "fixed_jb_set_force_resynch jb = jb\<lparr>force_resynch := True\<rparr>"

text \<open>
  The walk back from the tail: how many frames are delivered no later than \<open>d\<close>, when all from
  position \<open>k\<close> on are later.
\<close>

fun fixed_pos :: "'d fixed_jb_frame list \<Rightarrow> int \<Rightarrow> nat \<Rightarrow> nat" where
  "fixed_pos fs d 0 = 0"
| "fixed_pos fs d (Suc k) = (if fx_delivery (fs ! k) > d then fixed_pos fs d k else Suc k)"

definition fixed_covered :: "'d fixed_jb_frame list \<Rightarrow> nat \<Rightarrow> int \<Rightarrow> int \<Rightarrow> bool" where
  "fixed_covered fs k d ms \<longleftrightarrow>
     k \<noteq> 0 \<and>
     (fx_delivery (fs ! (k - 1)) = d \<or>
      d < fx_delivery (fs ! (k - 1)) + fx_ms (fs ! (k - 1)) \<or>
      k < length fs \<and> d + ms > fx_delivery (fs ! k))"

text \<open>
  \<open>fixed_jb_put\<close>, \<open>resynch_jb\<close> and \<open>fixed_jb_put_first\<close> call each other: the latter two get the
  \<open>fixed_jb_put\<close> they call as an argument, and the fuel counts nested calls of \<open>fixed_jb_put\<close>.
  \<open>None\<close> stands for a call that does not return: a failed assertion, a \<open>NULL\<close> result of the
  unchecked allocation, or no fuel left.
\<close>

type_synonym 'd fixed_put = "'d fixed_jb \<Rightarrow> 'd \<Rightarrow> int \<Rightarrow> int \<Rightarrow> int \<Rightarrow> (fixed_code \<times> 'd fixed_jb) option"

definition fixed_jb_put_first :: "'d fixed_put \<Rightarrow> 'd fixed_put" where
  "fixed_jb_put_first put jb data ms ts now =
     put (jb\<lparr>rxcore := now - ts, next_delivery := now + fx_delay jb\<rparr>) data ms ts now"

definition resynch_jb :: "'d fixed_put \<Rightarrow> 'd fixed_put" where
  "resynch_jb put jb data ms ts now =
     (if fx_frames jb = [] then fixed_jb_put_first put jb data ms ts now
      else let tail = last (fx_frames jb);
               diff = ts - fx_ts tail;
               off = diff - fx_ms tail
           in if \<not> force_resynch jb \<and> off < fx_resync_threshold (fx_conf jb) \<and> off > - fx_resync_threshold (fx_conf jb)
              then Some (FIXED_JB_DROP, jb)
              else put (jb\<lparr>force_resynch := False, rxcore := rxcore jb - off,
                           fx_frames := map (\<lambda>f. f\<lparr>fx_ts := fx_ts f + off\<rparr>) (fx_frames jb)\<rparr>)
                     data ms ts now)"

primrec fixed_jb_put :: "nat \<Rightarrow> bool \<Rightarrow> 'd fixed_put" where
  "fixed_jb_put 0 alloc_ok = (\<lambda>jb data ms ts now. None)"
| "fixed_jb_put (Suc n) alloc_ok = (\<lambda>jb data ms ts now.
     if \<not> (ms \<ge> 2 \<and> ts \<ge> 0 \<and> now \<ge> 0) then None
     else let delivery = rxcore jb + fx_delay jb + ts in
       if delivery < next_delivery jb then resynch_jb (fixed_jb_put n alloc_ok) jb data ms ts now
       else if delivery > next_delivery jb + fx_delay jb + fx_resync_threshold (fx_conf jb)
       then resynch_jb (fixed_jb_put n alloc_ok) jb data ms ts now
       else let fs = fx_frames jb; k = fixed_pos fs delivery (length fs) in
         if fixed_covered fs k delivery ms then resynch_jb (fixed_jb_put n alloc_ok) jb data ms ts now
         else if \<not> alloc_ok then None
         else let newframe = \<lparr>fx_data = data, fx_ts = ts, fx_ms = ms, fx_delivery = delivery\<rparr>
              in Some (FIXED_JB_OK, jb\<lparr>force_resynch := False, fx_frames := take k fs @ newframe # drop k fs\<rparr>))"

text \<open>\<open>fixed_jb_get\<close>: the code, the frame copied out if one is, the buffer; \<open>None\<close> is a failed assertion.\<close>

definition fixed_jb_get ::
  "'d fixed_jb \<Rightarrow> int \<Rightarrow> int \<Rightarrow> (fixed_code \<times> 'd fixed_jb_frame option \<times> 'd fixed_jb) option" where
  "fixed_jb_get jb now interpl =
     (if \<not> (now \<ge> 0 \<and> interpl \<ge> 2) then None
      else if now < next_delivery jb then Some (FIXED_JB_NOFRAME, None, jb)
      else if fx_frames jb = []
      then Some (FIXED_JB_INTERP, None, jb\<lparr>next_delivery := next_delivery jb + interpl\<rparr>)
      else let f = hd (fx_frames jb) in
        if now > fx_delivery f + fx_ms f
        then (case get_jb_head jb of (fr, jb) \<Rightarrow> Some (FIXED_JB_DROP, Some fr, jb))
        else if now < fx_delivery f
        then Some (FIXED_JB_INTERP, None, jb\<lparr>next_delivery := next_delivery jb + interpl\<rparr>)
        else (case get_jb_head jb of (fr, jb) \<Rightarrow> Some (FIXED_JB_OK, Some fr, jb)))"

definition fixed_jb_next :: "'d fixed_jb \<Rightarrow> int" where
  "fixed_jb_next jb = next_delivery jb"

definition fixed_jb_remove :: "'d fixed_jb \<Rightarrow> fixed_code \<times> 'd fixed_jb_frame option \<times> 'd fixed_jb" where
  "fixed_jb_remove jb =
     (if fx_frames jb = [] then (FIXED_JB_NOFRAME, None, jb)
      else case get_jb_head jb of (fr, jb) \<Rightarrow> (FIXED_JB_OK, Some fr, jb))"

section \<open>The invariant\<close>

text \<open>
  Frames are in strict order of delivery, their delivery times are their time stamps on the
  present time base, and the configuration is the validated one.
\<close>

definition fixed_ok :: "'d fixed_jb \<Rightarrow> bool" where
  "fixed_ok jb \<longleftrightarrow>
     sorted_wrt (\<lambda>f g. fx_delivery f < fx_delivery g) (fx_frames jb) \<and>
     (\<forall>f \<in> set (fx_frames jb). 2 \<le> fx_ms f \<and> fx_delivery f = rxcore jb + fx_delay jb + fx_ts f) \<and>
     1 \<le> fx_delay jb \<and> 1 \<le> fx_resync_threshold (fx_conf jb)"

text \<open>What of a frame a resynchronisation does not touch.\<close>

definition fixed_sched :: "'d fixed_jb_frame \<Rightarrow> 'd \<times> int \<times> int" where
  "fixed_sched f = (fx_data f, fx_delivery f, fx_ms f)"

lemma fixed_pos_le: "fixed_pos fs d k \<le> k"
  by (induction k) auto

lemma fixed_mono:
  assumes "sorted_wrt (\<lambda>f g. fx_delivery f < fx_delivery g) fs" "i \<le> j" "j < length fs"
  shows "fx_delivery (fs ! i) \<le> fx_delivery (fs ! j)"
  using sorted_wrt_nth_less [OF assms(1), of i j] assms(2,3) by (cases "i = j") (simp_all add: order_less_imp_le)

lemma fixed_pos_spec:
  assumes "sorted_wrt (\<lambda>f g. fx_delivery f < fx_delivery g) fs" "k \<le> length fs"
    "\<forall>f \<in> set (drop k fs). d < fx_delivery f"
  shows "(\<forall>f \<in> set (take (fixed_pos fs d k) fs). fx_delivery f \<le> d) \<and>
    (\<forall>f \<in> set (drop (fixed_pos fs d k) fs). d < fx_delivery f)"
  using assms(2,3)
proof (induction k)
  case (Suc k)
  show ?case
  proof (cases "d < fx_delivery (fs ! k)")
    case True
    have dr: "drop k fs = fs ! k # drop (Suc k) fs" using Suc.prems by (simp add: Cons_nth_drop_Suc)
    have "\<forall>f \<in> set (drop k fs). d < fx_delivery f" unfolding dr using True Suc.prems(2) by simp
    from Suc.IH [OF Suc_leD [OF Suc.prems(1)] this] True show ?thesis by simp
  next
    case False
    have "fx_delivery f \<le> d" if f: "f \<in> set (take (Suc k) fs)" for f
    proof -
      from f obtain i where "i < length (take (Suc k) fs)" "f = take (Suc k) fs ! i" by (metis in_set_conv_nth)
      then have "f = fs ! i" "i \<le> k" by simp_all
      with False fixed_mono [OF assms(1), of i k] Suc.prems(1) show ?thesis by simp
    qed
    with False Suc.prems(2) show ?thesis by simp
  qed
qed simp

lemma fixed_insert_sorted:
  fixes d :: int
  assumes "sorted_wrt (\<lambda>f g. fx_delivery f < fx_delivery g) fs"
  defines "k \<equiv> fixed_pos fs d (length fs)"
  assumes "\<not> fixed_covered fs k d ms" "fx_delivery x = d"
  shows "sorted_wrt (\<lambda>f g. fx_delivery f < fx_delivery g) (take k fs @ x # drop k fs)"
proof -
  have kl: "k \<le> length fs" using fixed_pos_le k_def by simp
  have sp: "\<forall>f \<in> set (take k fs). fx_delivery f \<le> d" "\<forall>f \<in> set (drop k fs). d < fx_delivery f"
    using fixed_pos_spec [OF assms(1), of "length fs" d] by (auto simp: k_def)
  have lt: "fx_delivery f < d" if f: "f \<in> set (take k fs)" for f
  proof -
    from f obtain i where i: "f = fs ! i" "i < k" using kl by (auto simp: in_set_conv_nth)
    then have "fx_delivery (fs ! (k - 1)) \<noteq> d" using assms(3) by (auto simp: fixed_covered_def)
    moreover have "fs ! (k - 1) \<in> set (take k fs)" using i kl by (auto simp: in_set_conv_nth intro: exI [of _ "k - 1"])
    ultimately have "fx_delivery (fs ! (k - 1)) < d" using sp(1) by fastforce
    moreover have "fx_delivery f \<le> fx_delivery (fs ! (k - 1))"
      using i kl by (auto intro: fixed_mono [OF assms(1)])
    ultimately show ?thesis by simp
  qed
  have "sorted_wrt (\<lambda>f g. fx_delivery f < fx_delivery g) (take k fs @ drop k fs)" using assms(1) by simp
  with lt sp(2) assms(4) show ?thesis by (auto simp: sorted_wrt_append simp del: append_take_drop_id)
qed

text \<open>The new frame fits: it is in the window of the buffer and its time is not covered.\<close>

definition fixed_fits :: "'d fixed_jb \<Rightarrow> int \<Rightarrow> int \<Rightarrow> bool" where
  "fixed_fits jb ms ts \<longleftrightarrow>
     (let d = rxcore jb + fx_delay jb + ts in
      next_delivery jb \<le> d \<and> d \<le> next_delivery jb + fx_delay jb + fx_resync_threshold (fx_conf jb) \<and>
      \<not> fixed_covered (fx_frames jb) (fixed_pos (fx_frames jb) d (length (fx_frames jb))) d ms)"

definition fixed_inserted :: "'d fixed_jb \<Rightarrow> 'd \<Rightarrow> int \<Rightarrow> int \<Rightarrow> 'd fixed_jb" where
  "fixed_inserted jb data ms ts =
     (let d = rxcore jb + fx_delay jb + ts; k = fixed_pos (fx_frames jb) d (length (fx_frames jb)) in
      jb\<lparr>force_resynch := False, fx_frames := take k (fx_frames jb) @
        \<lparr>fx_data = data, fx_ts = ts, fx_ms = ms, fx_delivery = d\<rparr> # drop k (fx_frames jb)\<rparr>)"

lemma fixed_put_step:
  assumes "2 \<le> ms" "0 \<le> ts" "0 \<le> now"
  shows "fixed_jb_put (Suc n) True jb data ms ts now =
    (if fixed_fits jb ms ts then Some (FIXED_JB_OK, fixed_inserted jb data ms ts)
     else resynch_jb (fixed_jb_put n True) jb data ms ts now)"
  using assms by (simp add: fixed_fits_def fixed_inserted_def Let_def not_less not_le)

declare fixed_jb_put.simps(2) [simp del]

text \<open>The outcome of a put: dropped with the schedule unchanged, or inserted somewhere in time.\<close>

definition fixed_put_outcome :: "'d fixed_jb \<Rightarrow> 'd \<Rightarrow> int \<Rightarrow> fixed_code \<Rightarrow> 'd fixed_jb \<Rightarrow> bool" where
  "fixed_put_outcome jb data ms r jb' \<longleftrightarrow>
     fixed_ok jb' \<and>
     (r = FIXED_JB_DROP \<and> map fixed_sched (fx_frames jb') = map fixed_sched (fx_frames jb) \<or>
      r = FIXED_JB_OK \<and> (\<exists>k d. next_delivery jb' \<le> d \<and>
        map fixed_sched (fx_frames jb') =
          take k (map fixed_sched (fx_frames jb)) @ (data, d, ms) # drop k (map fixed_sched (fx_frames jb))))"

lemma fixed_inserted_outcome:
  assumes "fixed_ok jb" "fixed_fits jb ms ts" "2 \<le> ms"
  shows "fixed_put_outcome jb data ms FIXED_JB_OK (fixed_inserted jb data ms ts)"
proof -
  let ?d = "rxcore jb + fx_delay jb + ts"
  let ?k = "fixed_pos (fx_frames jb) ?d (length (fx_frames jb))"
  let ?f = "\<lparr>fx_data = data, fx_ts = ts, fx_ms = ms, fx_delivery = ?d\<rparr>"
  have "sorted_wrt (\<lambda>f g. fx_delivery f < fx_delivery g) (take ?k (fx_frames jb) @ ?f # drop ?k (fx_frames jb))"
    using fixed_insert_sorted [of "fx_frames jb" ?d ms ?f] assms by (simp add: fixed_ok_def fixed_fits_def Let_def)
  then have "fixed_ok (fixed_inserted jb data ms ts)"
    using assms(1,3) by (auto simp: fixed_ok_def fixed_inserted_def Let_def dest: in_set_takeD in_set_dropD)
  moreover have "next_delivery jb \<le> ?d" using assms(2) by (simp add: fixed_fits_def Let_def)
  ultimately show ?thesis
    by (auto simp: fixed_put_outcome_def fixed_inserted_def Let_def take_map drop_map fixed_sched_def intro!: exI [of _ ?k])
qed

text \<open>The shift of the time base in \<open>resynch_jb\<close>.\<close>

definition fixed_shift :: "int \<Rightarrow> 'd fixed_jb \<Rightarrow> 'd fixed_jb" where
  "fixed_shift off jb = jb\<lparr>force_resynch := False, rxcore := rxcore jb - off,
     fx_frames := map (\<lambda>f. f\<lparr>fx_ts := fx_ts f + off\<rparr>) (fx_frames jb)\<rparr>"

lemma fixed_shift_ok:
  "fixed_ok jb \<Longrightarrow> fixed_ok (fixed_shift off jb)"
  "map fixed_sched (fx_frames (fixed_shift off jb)) = map fixed_sched (fx_frames jb)"
  by (auto simp: fixed_ok_def fixed_shift_def fixed_sched_def sorted_wrt_map)

lemma fixed_outcome_shift:
  "fixed_put_outcome (fixed_shift off jb) data ms r jb' \<Longrightarrow> fixed_put_outcome jb data ms r jb'"
  unfolding fixed_put_outcome_def fixed_shift_ok(2) .

lemma fixed_resynch_step:
  fixes ts :: int
  assumes "fx_frames jb \<noteq> []"
  defines "off \<equiv> ts - fx_ts (last (fx_frames jb)) - fx_ms (last (fx_frames jb))"
  shows "resynch_jb put jb data ms ts now =
    (if \<not> force_resynch jb \<and> \<bar>off\<bar> < fx_resync_threshold (fx_conf jb) then Some (FIXED_JB_DROP, jb)
     else put (fixed_shift off jb) data ms ts now)"
  using assms(1) by (auto simp: resynch_jb_def off_def fixed_shift_def abs_less_iff Let_def)

lemma fixed_put_first_fits:
  assumes "fixed_ok jb" "fx_frames jb = []"
  shows "fixed_fits (jb\<lparr>rxcore := now - ts, next_delivery := now + fx_delay jb\<rparr>) ms ts"
  using assms by (simp add: fixed_fits_def fixed_covered_def fixed_ok_def)

lemma fixed_put_first_outcome:
  assumes "fixed_ok jb" "fx_frames jb = []" "2 \<le> ms" "0 \<le> ts" "0 \<le> now"
  shows "\<exists>jb'. fixed_jb_put_first (fixed_jb_put (Suc n) True) jb data ms ts now = Some (FIXED_JB_OK, jb') \<and>
    fixed_put_outcome jb data ms FIXED_JB_OK jb'"
proof -
  let ?jb = "jb\<lparr>rxcore := now - ts, next_delivery := now + fx_delay jb\<rparr>"
  have "fixed_ok ?jb" using assms(1,2) by (simp add: fixed_ok_def)
  from fixed_inserted_outcome [OF this fixed_put_first_fits [OF assms(1,2)] assms(3), of data]
    fixed_put_step [OF assms(3-5), of n ?jb data] fixed_put_first_fits [OF assms(1,2)] assms(2)
  show ?thesis by (auto simp: fixed_put_outcome_def fixed_jb_put_first_def)
qed

lemma fixed_put_terminates:
  assumes "fixed_ok jb" "2 \<le> ms" "0 \<le> ts" "0 \<le> now" "2 \<le> fuel"
  shows "\<exists>r jb'. fixed_jb_put fuel True jb data ms ts now = Some (r, jb') \<and> fixed_put_outcome jb data ms r jb'"
proof -
  obtain n where n: "fuel = Suc (Suc n)" using assms(5) by (metis add_2_eq_Suc le_Suc_ex)
  note step = fixed_put_step [OF assms(2-4)]
  show ?thesis
  proof (cases "fixed_fits jb ms ts")
    case True
    with step [of "Suc n" jb data] fixed_inserted_outcome [OF assms(1) True assms(2)] n show ?thesis by auto
  next
    case False
    then have put: "fixed_jb_put fuel True jb data ms ts now = resynch_jb (fixed_jb_put (Suc n) True) jb data ms ts now"
      unfolding n using step [of "Suc n" jb data] by simp
    show ?thesis
    proof (cases "fx_frames jb = []")
      case True
      then show ?thesis using fixed_put_first_outcome [OF assms(1) True assms(2-4), of n data] put
        by (auto simp: resynch_jb_def)
    next
      case nonempty: False
      define off where "off = ts - fx_ts (last (fx_frames jb)) - fx_ms (last (fx_frames jb))"
      let ?jb = "fixed_shift off jb"
      have drop: "resynch_jb p ?jb data ms ts now = Some (FIXED_JB_DROP, ?jb)" for p
        using fixed_resynch_step [of ?jb p data ms ts now] nonempty assms(1)
        by (simp add: fixed_shift_def last_map fixed_ok_def off_def)
      have self: "fixed_put_outcome jb data ms FIXED_JB_DROP jb" "fixed_put_outcome jb data ms FIXED_JB_DROP ?jb"
        using assms(1) fixed_shift_ok by (auto simp: fixed_put_outcome_def)
      have "\<exists>r jb'. fixed_jb_put (Suc n) True ?jb data ms ts now = Some (r, jb') \<and> fixed_put_outcome jb data ms r jb'"
        using step [of n ?jb data] drop self
          fixed_outcome_shift [OF fixed_inserted_outcome [OF fixed_shift_ok(1) [OF assms(1)] _ assms(2)]]
        by (cases "fixed_fits ?jb ms ts") (auto)
      then show ?thesis
        using put fixed_resynch_step [OF nonempty, of _ data ms ts now] self(1)
        by (auto simp: off_def [symmetric])
    qed
  qed
qed

lemma fixed_new_ok: "fixed_jb_new a c = Some jb \<Longrightarrow> fixed_ok jb \<and> fx_frames jb = []"
  by (auto simp: fixed_jb_new_def Let_def fixed_ok_def FIXED_JB_SIZE_DEFAULT_def
      FIXED_JB_RESYNCH_THRESHOLD_DEFAULT_def split: if_splits)

lemma fixed_ok_tl:
  "fixed_ok jb \<Longrightarrow> fixed_ok (jb\<lparr>fx_frames := tl (fx_frames jb), next_delivery := n\<rparr>)"
  by (cases "fx_frames jb") (auto simp: fixed_ok_def)

lemma fixed_get_effect:
  assumes "fixed_ok jb" "fixed_jb_get jb now interpl = Some (r, f, jb')"
  shows "fixed_ok jb'"
    and "r = FIXED_JB_OK \<or> r = FIXED_JB_DROP \<Longrightarrow> \<exists>x. f = Some x \<and> fx_frames jb = x # fx_frames jb'"
    and "r = FIXED_JB_INTERP \<Longrightarrow> f = None \<and> fx_frames jb' = fx_frames jb \<and> next_delivery jb' = next_delivery jb + interpl"
    and "r = FIXED_JB_NOFRAME \<Longrightarrow> f = None \<and> jb' = jb \<and> now < next_delivery jb"
  using assms fixed_ok_tl [OF assms(1)]
  by (auto simp: fixed_jb_get_def get_jb_head_def Let_def fixed_ok_def split: if_splits)

lemma fixed_remove_effect:
  assumes "fixed_ok jb"
  shows "fx_frames jb = [] \<Longrightarrow> fixed_jb_remove jb = (FIXED_JB_NOFRAME, None, jb)"
    and "fx_frames jb = x # rest \<Longrightarrow> \<exists>jb'. fixed_jb_remove jb = (FIXED_JB_OK, Some x, jb') \<and> fx_frames jb' = rest \<and> fixed_ok jb'"
  using fixed_ok_tl [OF assms] by (auto simp: fixed_jb_remove_def get_jb_head_def Let_def)

section \<open>Properties\<close>

definition fixed_demo :: "nat fixed_jb" where
  "fixed_demo = the (fixed_jb_new True \<lparr>jbsize = 200, fx_resync_threshold = 1000\<rparr>)"

lemma fixed_demo_ok: "fixed_ok fixed_demo" "fx_frames fixed_demo = []"
  using fixed_new_ok [of True "\<lparr>jbsize = 200, fx_resync_threshold = 1000\<rparr>" fixed_demo]
  by (auto simp: fixed_demo_def fixed_jb_new_def Let_def)

text \<open>
  C40: on any buffer with a validated configuration and a valid frame, \<open>fixed_jb_put\<close> returns, after at most one
  resynchronisation. It either drops the frame and leaves the schedule of the queued frames
  as it was, or inserts the frame at the place of its delivery time, so that delivery times stay strictly
  increasing and no queued frame changes its delivery.
\<close>

theorem fixed_put_correct:
  assumes "fixed_ok jb" "2 \<le> ms" "0 \<le> ts" "0 \<le> now" "2 \<le> fuel"
  shows "\<exists>r jb'. fixed_jb_put fuel True jb data ms ts now = Some (r, jb') \<and> fixed_ok jb' \<and>
     (r = FIXED_JB_DROP \<and> map fixed_sched (fx_frames jb') = map fixed_sched (fx_frames jb) \<or>
      r = FIXED_JB_OK \<and> (\<exists>k d. next_delivery jb' \<le> d \<and>
        map fixed_sched (fx_frames jb') =
          take k (map fixed_sched (fx_frames jb)) @ (data, d, ms) # drop k (map fixed_sched (fx_frames jb))))"
  using fixed_put_terminates [OF assms, of data] unfolding fixed_put_outcome_def .

theorem fixed_put_correct_witness:
  "\<exists>r jb'. fixed_jb_put 2 True fixed_demo 7 20 160 5 = Some (r, jb') \<and> fixed_ok jb'"
  using fixed_put_correct [OF fixed_demo_ok(1), of 20 160 5 2 7] by auto

text \<open>
  \<open>fixed_jb_get\<close> plays the first frame exactly when its time has come and is not over, discards it when
  it is over, interpolates when there is no frame for the present time, and does nothing before
  the next delivery time; only a played or discarded frame leaves the queue.
\<close>

theorem fixed_get_correct:
  assumes "fixed_ok jb" "0 \<le> now" "2 \<le> interpl"
  shows "\<exists>r f jb'. fixed_jb_get jb now interpl = Some (r, f, jb') \<and> fixed_ok jb' \<and>
    (case r of
       FIXED_JB_OK \<Rightarrow> \<exists>x. f = Some x \<and> fx_frames jb = x # fx_frames jb' \<and>
         fx_delivery x \<le> now \<and> now \<le> fx_delivery x + fx_ms x
     | FIXED_JB_DROP \<Rightarrow> \<exists>x. f = Some x \<and> fx_frames jb = x # fx_frames jb' \<and> fx_delivery x + fx_ms x < now
     | FIXED_JB_INTERP \<Rightarrow> f = None \<and> jb' = jb\<lparr>next_delivery := next_delivery jb + interpl\<rparr> \<and>
         (\<forall>x \<in> set (fx_frames jb). now < fx_delivery x)
     | FIXED_JB_NOFRAME \<Rightarrow> f = None \<and> jb' = jb \<and> now < next_delivery jb)"
proof -
  have "now < fx_delivery x" if "x \<in> set (fx_frames jb)" "now < fx_delivery (hd (fx_frames jb))" for x
    using that assms(1) by (cases "fx_frames jb") (auto simp: fixed_ok_def)
  moreover note fixed_ok_tl [OF assms(1)]
  moreover have "fixed_ok (jb\<lparr>next_delivery := n\<rparr>)" for n using assms(1) by (simp add: fixed_ok_def)
  ultimately show ?thesis
    using assms by (cases "fx_frames jb") (auto simp: fixed_jb_get_def get_jb_head_def Let_def)
qed

theorem fixed_get_correct_witness:
  "\<exists>r f jb'. fixed_jb_get fixed_demo 10 20 = Some (r, f, jb') \<and> fixed_ok jb'"
  using fixed_get_correct [OF fixed_demo_ok(1), of 10 20] by auto

text \<open>
  The overlap check of \<open>fixed_jb_put\<close> does not cover an insertion in front of all frames: two frames of 20 ms
  are accepted 10 ms apart when the earlier one comes second.
\<close>

theorem fixed_put_overlap_at_head:
  "case fixed_jb_put 2 True (fixed_demo\<lparr>rxcore := 0, next_delivery := 200\<rparr>) 1 20 100 0 of
     Some (_, jb1) \<Rightarrow>
       (case fixed_jb_put 2 True jb1 2 20 90 0 of
          Some (r, jb2) \<Rightarrow> r = FIXED_JB_OK \<and> map fixed_sched (fx_frames jb2) = [(2, 290, 20), (1, 300, 20)]
        | None \<Rightarrow> False)
   | None \<Rightarrow> False"
  by code_simp

end
