(* ===== verification/C_String.thy ===== *)
theory C_String
  imports Ast_Prelude
begin

text \<open>
  The functions of the C library on characters and strings that the components use. A
  NUL-terminated string is the list of the characters before the terminator.
\<close>

definition c_isspace :: "char \<Rightarrow> bool" where
  "c_isspace c \<longleftrightarrow> of_char c = (32 :: nat) \<or> (9 :: nat) \<le> of_char c \<and> of_char c \<le> (13 :: nat)"

definition c_isdigit :: "char \<Rightarrow> bool" where
  "c_isdigit c \<longleftrightarrow> (48 :: nat) \<le> of_char c \<and> of_char c \<le> (57 :: nat)"

definition digit_val :: "char \<Rightarrow> int" where
  "digit_val c = int (of_char c) - 48"

definition c_tolower :: "char \<Rightarrow> char" where
  "c_tolower c = (if (65 :: nat) \<le> of_char c \<and> of_char c \<le> (90 :: nat) then char_of (of_char c + 32 :: nat) else c)"

text \<open>\<open>char\<close> is signed: the value it has in comparisons, and the value as \<open>unsigned char\<close>.\<close>

definition schar :: "char \<Rightarrow> int" where
  "schar c = (if of_char c < (128 :: nat) then int (of_char c) else int (of_char c) - 256)"

definition uchar :: "char \<Rightarrow> nat" where
  "uchar c = of_char c"

text \<open>\<open>strcasecmp(a, b) == 0\<close> and \<open>strncasecmp(a, b, n) == 0\<close>.\<close>

definition strcase_eq :: "string \<Rightarrow> string \<Rightarrow> bool" where
  "strcase_eq a b \<longleftrightarrow> map c_tolower a = map c_tolower b"

definition strncase_eq :: "string \<Rightarrow> string \<Rightarrow> nat \<Rightarrow> bool" where
  "strncase_eq a b n \<longleftrightarrow> strcase_eq (take n a) (take n b)"

text \<open>\<open>strcmp\<close>, of which only the sign is specified.\<close>

fun c_strcmp :: "string \<Rightarrow> string \<Rightarrow> int" where
  "c_strcmp [] [] = 0"
| "c_strcmp [] (b # bs) = -1"
| "c_strcmp (a # as) [] = 1"
| "c_strcmp (a # as) (b # bs) = (if uchar a < uchar b then -1 else if uchar a > uchar b then 1 else c_strcmp as bs)"

lemma c_strcmp_zero: "c_strcmp a b = 0 \<longleftrightarrow> a = b"
proof (induction a b rule: c_strcmp.induct)
  case (4 a as b bs)
  have "uchar a = uchar b \<longleftrightarrow> a = b" by (simp add: uchar_def)
  with 4 show ?case by auto
qed simp_all

text \<open>\<open>strstr(s, t) != NULL\<close>.\<close>

fun c_strstr :: "string \<Rightarrow> string \<Rightarrow> bool" where
  "c_strstr [] t = (t = [])"
| "c_strstr (c # s) t = (take (length t) (c # s) = t \<or> c_strstr s t)"

text \<open>\<open>S_OR(a, b)\<close>: \<open>a\<close> unless it is \<open>NULL\<close> or empty.\<close>

definition s_or :: "string option \<Rightarrow> string \<Rightarrow> string" where
  "s_or a b = (case a of None \<Rightarrow> b | Some s \<Rightarrow> if s = [] then b else s)"

text \<open>The decimal conversion of \<open>scanf\<close>: the value read and the rest of the input.\<close>

definition digits_val :: "string \<Rightarrow> int" where
  "digits_val ds = foldl (\<lambda>v c. v * 10 + digit_val c) 0 ds"

definition scan_digits :: "string \<Rightarrow> (int \<times> string) option" where
  "scan_digits s =
     (case takeWhile c_isdigit s of
        [] \<Rightarrow> None
      | ds \<Rightarrow> Some (digits_val ds, dropWhile c_isdigit s))"

fun scan_signed :: "string \<Rightarrow> (int \<times> string) option" where
  "scan_signed [] = None"
| "scan_signed (c # s) =
     (if c = CHR ''-'' then map_option (\<lambda>(v, r). (- v, r)) (scan_digits s)
      else if c = CHR ''+'' then scan_digits s
      else scan_digits (c # s))"

definition scan_int :: "string \<Rightarrow> (int \<times> string) option" where
  "scan_int s = scan_signed (dropWhile c_isspace s)"

definition c_atoi :: "string \<Rightarrow> int" where
  "c_atoi s = (case scan_int s of None \<Rightarrow> 0 | Some (v, _) \<Rightarrow> to_int32 v)"

text \<open>The conversion \<open>%<w>d\<close>, which reads at most \<open>w\<close> characters, the sign included.\<close>

definition scan_int_w :: "nat \<Rightarrow> string \<Rightarrow> (int \<times> string) option" where
  "scan_int_w w s =
     (let s1 = dropWhile c_isspace s
      in map_option (\<lambda>(v, r). (v, r @ drop w s1)) (scan_signed (take w s1)))"

text \<open>\<open>strsep\<close>: the token in front of the first delimiter and what follows it, \<open>NULL\<close> without one;
  and all the tokens a loop over \<open>strsep\<close> sees.\<close>

definition strsep :: "string \<Rightarrow> string \<Rightarrow> string \<times> string option" where
  "strsep delims s =
     (takeWhile (\<lambda>c. c \<notin> set delims) s,
      case dropWhile (\<lambda>c. c \<notin> set delims) s of [] \<Rightarrow> None | _ # r \<Rightarrow> Some r)"

lemma strsep_shorter: "strsep delims s = (t, Some r) \<Longrightarrow> length r < length s"
  using length_dropWhile_le [of "\<lambda>c. c \<notin> set delims" s] by (auto simp: strsep_def split: list.splits)

function strsep_all :: "string \<Rightarrow> string \<Rightarrow> string list" where
  "strsep_all delims s =
     (case strsep delims s of (t, None) \<Rightarrow> [t] | (t, Some r) \<Rightarrow> t # strsep_all delims r)"
  by auto
termination
  by (relation "measure (\<lambda>(d, s). length s)") (auto dest: strsep_shorter sym)

declare strsep_all.simps [simp del]

lemma strcase_eq_refl [simp]: "strcase_eq a a"
  by (simp add: strcase_eq_def)

lemma scan_digits_length: "scan_digits s = Some (v, r) \<Longrightarrow> length r < length s"
proof -
  assume a: "scan_digits s = Some (v, r)"
  have "length s = length (takeWhile c_isdigit s) + length (dropWhile c_isdigit s)"
    by (metis length_append takeWhile_dropWhile_id)
  with a show ?thesis by (auto simp: scan_digits_def split: list.splits)
qed

end
