(* ===== verification/Ast_Frame.thy ===== *)
theory Ast_Frame
  imports Ast_Prelude
begin

text \<open>The kinds of frames that channels exchange, \<open>include/asterisk/frame.h\<close>.\<close>

datatype ast_frame_type =
  AST_FRAME_DTMF_END | AST_FRAME_VOICE | AST_FRAME_VIDEO | AST_FRAME_CONTROL | AST_FRAME_NULL | AST_FRAME_IAX
| AST_FRAME_TEXT | AST_FRAME_IMAGE | AST_FRAME_HTML | AST_FRAME_CNG | AST_FRAME_MODEM | AST_FRAME_DTMF_BEGIN | AST_FRAME_INFO

abbreviation AST_FRAME_DTMF :: ast_frame_type where
  "AST_FRAME_DTMF \<equiv> AST_FRAME_DTMF_END"

end
