(* ===== verification/Abstract_Jb.thy ===== *)
theory Abstract_Jb
  imports Adaptive_Jb Fixed_Jb Ast_Time C_String Ast_Frame
begin

text \<open>
  The jitter buffer of a channel, \<open>main/abstract_jb.c\<close>: a table of operations that the fixed and the
  adaptive buffer implement, and the code that puts frames into whichever is in use, delivers
  them when their time has come and frees what is left.
\<close>

section \<open>State\<close>

text \<open>The fields of \<open>struct ast_frame\<close> the jitter buffer looks at, and an identity.\<close>

record ast_frame =
  fr_id :: nat
  frametype :: ast_frame_type
  has_timing_info :: bool
  fr_len :: int
  fr_ts :: int
  fr_codec :: nat

definition AST_FORMAT_ILBC :: nat where "AST_FORMAT_ILBC = 2 ^ 10"

definition ast_codec_interp_len :: "nat \<Rightarrow> int" where
  "ast_codec_interp_len format = (if format = AST_FORMAT_ILBC then 30 else 20)"

datatype impl_code = JB_IMPL_OK | JB_IMPL_DROP | JB_IMPL_INTERP | JB_IMPL_NOFRAME

record ast_jb_conf =
  ast_jb_enabled :: bool
  ast_jb_forced :: bool
  ast_jb_log :: bool
  conf_max_size :: int
  conf_resync_threshold :: int
  conf_impl :: string
  conf_target_extra :: int

text \<open>
  \<open>struct ast_jb_impl\<close>, on buffer objects of type \<open>'jb\<close>. An operation whose result is optional
  has \<open>None\<close> where the code aborts on an assertion or a failed allocation. Operations that free
  frames say which.
\<close>

record 'jb ast_jb_impl =
  impl_name :: string
  impl_create :: "ast_jb_conf \<Rightarrow> int \<Rightarrow> 'jb option"
  impl_destroy :: "'jb \<Rightarrow> unit option"
  impl_put_first :: "'jb \<Rightarrow> ast_frame \<Rightarrow> int \<Rightarrow> (impl_code \<times> 'jb) option"
  impl_put :: "'jb \<Rightarrow> ast_frame \<Rightarrow> int \<Rightarrow> (impl_code \<times> 'jb) option"
  impl_get :: "'jb \<Rightarrow> int \<Rightarrow> int \<Rightarrow> (impl_code \<times> ast_frame option \<times> 'jb) option"
  impl_next :: "'jb \<Rightarrow> int \<times> 'jb"
  impl_remove :: "'jb \<Rightarrow> impl_code \<times> ast_frame option \<times> 'jb"
  impl_force_resync :: "'jb \<Rightarrow> 'jb"
  impl_empty_and_reset :: "'jb \<Rightarrow> ast_frame list \<times> 'jb"

text \<open>
  \<open>struct ast_jb\<close>. The pointer \<open>impl\<close> is an index of \<open>avail_impl\<close>; the operations below that
  call through it get the table of that index as their argument \<open>jbimpl\<close>. The frame log
  is left out.
\<close>

record 'jb ast_jb =
  jbconf :: ast_jb_conf
  impl_index :: nat
  jbobj :: "'jb option"
  timebase :: timeval
  jb_next_time :: int
  last_format :: nat
  jb_use :: bool
  jb_timebase_initialized :: bool
  jb_created :: bool

section \<open>The implementations\<close>

fun fixed_to_abstract_code :: "fixed_code \<Rightarrow> impl_code" where
  "fixed_to_abstract_code FIXED_JB_OK = JB_IMPL_OK"
| "fixed_to_abstract_code FIXED_JB_DROP = JB_IMPL_DROP"
| "fixed_to_abstract_code FIXED_JB_INTERP = JB_IMPL_INTERP"
| "fixed_to_abstract_code FIXED_JB_NOFRAME = JB_IMPL_NOFRAME"

fun adaptive_to_abstract_code :: "jb_return_code \<Rightarrow> impl_code" where
  "adaptive_to_abstract_code JB_OK = JB_IMPL_OK"
| "adaptive_to_abstract_code JB_EMPTY = JB_IMPL_NOFRAME"
| "adaptive_to_abstract_code JB_NOFRAME = JB_IMPL_NOFRAME"
| "adaptive_to_abstract_code JB_INTERP = JB_IMPL_INTERP"
| "adaptive_to_abstract_code JB_DROP = JB_IMPL_DROP"
| "adaptive_to_abstract_code JB_SCHED = JB_IMPL_OK"

subsection \<open>Fixed\<close>

definition jb_create_fixed :: "bool \<Rightarrow> ast_jb_conf \<Rightarrow> int \<Rightarrow> ast_frame fixed_jb option" where
  "jb_create_fixed alloc_ok general_config resynch_threshold =
     fixed_jb_new alloc_ok \<lparr>jbsize = conf_max_size general_config, fx_resync_threshold = resynch_threshold\<rparr>"

text \<open>Two nested calls of \<open>fixed_jb_put\<close> are enough: see \<open>fixed_put_terminates\<close>.\<close>

definition jb_put_fixed :: "bool \<Rightarrow> ast_frame fixed_jb \<Rightarrow> ast_frame \<Rightarrow> int \<Rightarrow> (impl_code \<times> ast_frame fixed_jb) option" where
  "jb_put_fixed alloc_ok jb fin now =
     map_option (map_prod fixed_to_abstract_code (\<lambda>jb. jb)) (fixed_jb_put 2 alloc_ok jb fin (fr_len fin) (fr_ts fin) now)"

definition jb_put_first_fixed :: "bool \<Rightarrow> ast_frame fixed_jb \<Rightarrow> ast_frame \<Rightarrow> int \<Rightarrow> (impl_code \<times> ast_frame fixed_jb) option" where
  "jb_put_first_fixed alloc_ok jb fin now =
     map_option (map_prod fixed_to_abstract_code (\<lambda>jb. jb))
       (fixed_jb_put_first (fixed_jb_put 2 alloc_ok) jb fin (fr_len fin) (fr_ts fin) now)"

definition jb_get_fixed :: "ast_frame fixed_jb \<Rightarrow> int \<Rightarrow> int \<Rightarrow> (impl_code \<times> ast_frame option \<times> ast_frame fixed_jb) option" where
  "jb_get_fixed jb now interpl =
     map_option (\<lambda>(res, f, jb). (fixed_to_abstract_code res, map_option fx_data f, jb)) (fixed_jb_get jb now interpl)"

definition jb_next_fixed :: "ast_frame fixed_jb \<Rightarrow> int \<times> ast_frame fixed_jb" where
  "jb_next_fixed jb = (fixed_jb_next jb, jb)"

definition jb_remove_fixed :: "ast_frame fixed_jb \<Rightarrow> impl_code \<times> ast_frame option \<times> ast_frame fixed_jb" where
  "jb_remove_fixed jb =
     (case fixed_jb_remove jb of (res, f, jb) \<Rightarrow> (fixed_to_abstract_code res, map_option fx_data f, jb))"

lemma fixed_remove_shrinks: "fixed_jb_remove jb = (FIXED_JB_OK, f, jb') \<Longrightarrow> length (fx_frames jb') < length (fx_frames jb)"
  by (auto simp: fixed_jb_remove_def get_jb_head_def Let_def split: if_splits)

function (sequential) jb_empty_and_reset_fixed :: "ast_frame fixed_jb \<Rightarrow> ast_frame list \<times> ast_frame fixed_jb" where
  "jb_empty_and_reset_fixed jb =
     (case fixed_jb_remove jb of
        (FIXED_JB_OK, f, jb') \<Rightarrow>
          (case jb_empty_and_reset_fixed jb' of (freed, jb'') \<Rightarrow> (fx_data (the f) # freed, jb''))
      | (_, _, jb') \<Rightarrow> ([], jb'))"
  by pat_completeness auto
termination
  by (relation "measure (\<lambda>jb. length (fx_frames jb))") (auto intro: fixed_remove_shrinks [OF sym])

definition fixed_impl :: "bool \<Rightarrow> ast_frame fixed_jb ast_jb_impl" where
  "fixed_impl alloc_ok =
     \<lparr>impl_name = ''fixed'', impl_create = jb_create_fixed alloc_ok, impl_destroy = fixed_jb_destroy,
      impl_put_first = jb_put_first_fixed alloc_ok, impl_put = jb_put_fixed alloc_ok,
      impl_get = jb_get_fixed, impl_next = jb_next_fixed, impl_remove = jb_remove_fixed,
      impl_force_resync = fixed_jb_set_force_resynch, impl_empty_and_reset = jb_empty_and_reset_fixed\<rparr>"

subsection \<open>Adaptive\<close>

text \<open>The memory \<open>jb_new\<close> gets is arbitrary.\<close>

definition jb_create_adaptive :: "bool \<Rightarrow> ast_frame jitterbuf \<Rightarrow> ast_jb_conf \<Rightarrow> int \<Rightarrow> ast_frame jitterbuf option" where
  "jb_create_adaptive alloc_ok garbage general_config resynch_threshold =
     map_option (\<lambda>jb. jb_setconf jb
        \<lparr>max_jitterbuf = conf_max_size general_config, resync_threshold = conf_resync_threshold general_config,
         max_contig_interp = 10, target_extra = conf_target_extra general_config\<rparr>)
       (jb_new alloc_ok garbage)"

definition jb_put_adaptive :: "bool \<Rightarrow> ast_frame jitterbuf \<Rightarrow> ast_frame \<Rightarrow> int \<Rightarrow> (impl_code \<times> ast_frame jitterbuf) option" where
  "jb_put_adaptive alloc_ok jb fin now =
     Some (map_prod adaptive_to_abstract_code (\<lambda>jb. jb) (jb_put alloc_ok jb fin JB_TYPE_VOICE (fr_len fin) (fr_ts fin) now))"

definition jb_put_first_adaptive :: "bool \<Rightarrow> ast_frame jitterbuf \<Rightarrow> ast_frame \<Rightarrow> int \<Rightarrow> (impl_code \<times> ast_frame jitterbuf) option" where
  "jb_put_first_adaptive alloc_ok jb fin now =
     jb_put_adaptive alloc_ok (info_update (\<lambda>i. i\<lparr>resync_offset := fr_ts fin\<rparr>) jb) fin now"

text \<open>
  The wrappers pass an uninitialised \<open>jb_frame frame\<close> to \<open>jb_get\<close> and \<open>jb_getall\<close> and hand on its
  data. Callers use it only when a frame was copied out, so here the result is optional, and
  \<open>jb_get\<close> and \<open>jb_getall\<close> are unfolded to \<open>_jb_get\<close> and \<open>queue_getall\<close>.
\<close>

definition jb_get_adaptive :: "ast_frame jitterbuf \<Rightarrow> int \<Rightarrow> int \<Rightarrow> (impl_code \<times> ast_frame option \<times> ast_frame jitterbuf) option" where
  "jb_get_adaptive jb now interpl =
     (case jb_get_aux jb now interpl of (res, f, jb) \<Rightarrow> Some (adaptive_to_abstract_code res, map_option frame_data f, jb))"

definition jb_next_adaptive :: "ast_frame jitterbuf \<Rightarrow> int \<times> ast_frame jitterbuf" where
  "jb_next_adaptive jb = jb_next jb"

definition jb_remove_adaptive :: "ast_frame jitterbuf \<Rightarrow> impl_code \<times> ast_frame option \<times> ast_frame jitterbuf" where
  "jb_remove_adaptive jb =
     (case queue_getall jb of
        (None, jb) \<Rightarrow> (adaptive_to_abstract_code JB_NOFRAME, None, jb)
      | (Some f, jb) \<Rightarrow> (adaptive_to_abstract_code JB_OK, Some (frame_data f), jb))"

definition jb_force_resynch_adaptive :: "ast_frame jitterbuf \<Rightarrow> ast_frame jitterbuf" where
  "jb_force_resynch_adaptive jb = jb"

lemma queue_getall_shrinks: "queue_getall jb = (Some f, jb') \<Longrightarrow> length (frames jb') < length (frames jb)"
  by (auto simp: queue_getall_def queue_get_aux_def split: list.splits)

function (sequential) drain_adaptive :: "ast_frame jitterbuf \<Rightarrow> ast_frame list \<times> ast_frame jitterbuf" where
  "drain_adaptive jb =
     (case queue_getall jb of
        (Some f, jb') \<Rightarrow> (case drain_adaptive jb' of (freed, jb'') \<Rightarrow> (frame_data f # freed, jb''))
      | (None, jb') \<Rightarrow> ([], jb'))"
  by pat_completeness auto
termination
  by (relation "measure (\<lambda>jb. length (frames jb))") (auto intro: queue_getall_shrinks [OF sym])

definition jb_empty_and_reset_adaptive :: "ast_frame jitterbuf \<Rightarrow> ast_frame list \<times> ast_frame jitterbuf" where
  "jb_empty_and_reset_adaptive jb = (case drain_adaptive jb of (freed, jb) \<Rightarrow> (freed, jb_reset jb))"

definition adaptive_impl :: "bool \<Rightarrow> ast_frame jitterbuf \<Rightarrow> ast_frame jitterbuf ast_jb_impl" where
  "adaptive_impl alloc_ok garbage =
     \<lparr>impl_name = ''adaptive'', impl_create = jb_create_adaptive alloc_ok garbage, impl_destroy = (\<lambda>_. Some ()),
      impl_put_first = jb_put_first_adaptive alloc_ok, impl_put = jb_put_adaptive alloc_ok,
      impl_get = jb_get_adaptive, impl_next = jb_next_adaptive, impl_remove = jb_remove_adaptive,
      impl_force_resync = jb_force_resynch_adaptive, impl_empty_and_reset = jb_empty_and_reset_adaptive\<rparr>"

declare jb_empty_and_reset_fixed.simps [simp del] drain_adaptive.simps [simp del]

section \<open>The channel's jitter buffer\<close>

text \<open>\<open>jb_choose_impl\<close>: the index in \<open>avail_impl\<close>, whose names are given.\<close>

definition avail_impl_names :: "string list" where
  "avail_impl_names = [''fixed'', ''adaptive'']"

definition default_impl :: nat where "default_impl = 0"

fun choose_impl_loop :: "string \<Rightarrow> string list \<Rightarrow> nat \<Rightarrow> nat" where
  "choose_impl_loop name [] i = default_impl"
| "choose_impl_loop name (n # ns) i = (if strcase_eq name n then i else choose_impl_loop name ns (Suc i))"

definition jb_choose_impl :: "'jb ast_jb \<Rightarrow> 'jb ast_jb" where
  "jb_choose_impl jb =
     jb\<lparr>impl_index := (if conf_impl (jbconf jb) = [] then default_impl
                       else choose_impl_loop (conf_impl (jbconf jb)) avail_impl_names 0)\<rparr>"

text \<open>The two properties of the channel technology \<open>ast_jb_do_usecheck\<close> reads, and the buffer.\<close>

record 'jb jb_chan =
  wants_jitter :: bool
  creates_jitter :: bool
  chan_jb :: "'jb ast_jb"

text \<open>One half of \<open>ast_jb_do_usecheck\<close>: does audio going to \<open>c0\<close> need a buffer, and its set-up if so.\<close>

definition jb_usecheck_one :: "timeval \<Rightarrow> 'jb jb_chan \<Rightarrow> bool \<Rightarrow> bool \<Rightarrow> timeval \<Rightarrow> bool \<times> 'jb jb_chan" where
  "jb_usecheck_one now c0 c1_creates_jitter c1_timebase_initialized c1_timebase =
     (let jb = chan_jb c0 in
      if ((\<not> wants_jitter c0 \<and> c1_creates_jitter) \<or> (ast_jb_forced (jbconf jb) \<and> c1_creates_jitter)) \<and> ast_jb_enabled (jbconf jb)
      then let jb1 = jb\<lparr>jb_use := True\<rparr>;
               jb2 = (if jb_timebase_initialized jb then jb1
                      else jb1\<lparr>timebase := (if c1_timebase_initialized then c1_timebase else now),
                               jb_timebase_initialized := True\<rparr>);
               jb3 = (if jb_created jb then jb2 else jb_choose_impl jb2)
           in (True, c0\<lparr>chan_jb := jb3\<rparr>)
      else (False, c0))"

text \<open>
  The flags the code looks at are read before either half runs; the time base copied to \<open>c1\<close> is the
  one in \<open>c0\<close> after the first half, which only changes it when it was not yet initialised.
  \<open>now0\<close> and \<open>now1\<close> are the times \<open>gettimeofday\<close> gives in each half.
\<close>

definition ast_jb_do_usecheck :: "timeval \<Rightarrow> timeval \<Rightarrow> 'a jb_chan \<Rightarrow> 'b jb_chan \<Rightarrow> bool \<times> 'a jb_chan \<times> 'b jb_chan" where
  "ast_jb_do_usecheck now0 now1 c0 c1 =
     (let c0_init = jb_timebase_initialized (chan_jb c0);
          (use0, c0') = jb_usecheck_one now0 c0 (creates_jitter c1) (jb_timebase_initialized (chan_jb c1)) (timebase (chan_jb c1));
          (use1, c1') = jb_usecheck_one now1 c1 (creates_jitter c0) c0_init (timebase (chan_jb c0'))
      in (use0 \<or> use1, c0', c1'))"

definition get_now :: "'jb ast_jb \<Rightarrow> timeval \<Rightarrow> int" where
  "get_now jb tv = ast_tvdiff_ms tv (timebase jb)"

definition INT_MAX :: int where "INT_MAX = 2147483647"

text \<open>The differences of two \<open>long\<close>s are stored into \<open>int\<close>s.\<close>

definition jb_wait :: "timeval \<Rightarrow> 'jb ast_jb \<Rightarrow> int \<Rightarrow> int" where
  "jb_wait tv_now jb time_left =
     (if jb_use jb \<and> jb_created jb then to_int32 (jb_next_time jb - get_now jb tv_now) else time_left)"

definition ast_jb_get_when_to_wakeup :: "timeval \<Rightarrow> 'a ast_jb \<Rightarrow> 'b ast_jb \<Rightarrow> int \<Rightarrow> int" where
  "ast_jb_get_when_to_wakeup tv_now jb0 jb1 time_left0 =
     (let time_left = (if time_left0 < 0 then INT_MAX else time_left0);
          wait0 = jb_wait tv_now jb0 time_left;
          wait1 = jb_wait tv_now jb1 time_left;
          w = (if wait0 < wait1 then wait0 else wait1);
          w = (if w < time_left then w else time_left)
      in if w = INT_MAX then -1 else if w < 1 then 1 else w)"

text \<open>
  \<open>create_jb\<close>: the result, the frames it freed, the buffer. \<open>now_tv\<close> is the time of day.
\<close>

definition create_jb :: "'jb ast_jb_impl \<Rightarrow> timeval \<Rightarrow> 'jb ast_jb \<Rightarrow> ast_frame \<Rightarrow> (int \<times> ast_frame list \<times> 'jb ast_jb) option" where
  "create_jb jbimpl now_tv jb frr =
     (case impl_create jbimpl (jbconf jb) (conf_resync_threshold (jbconf jb)) of
        None \<Rightarrow> Some (-1, [], jb\<lparr>jbobj := None\<rparr>)
      | Some obj \<Rightarrow>
          (case impl_put_first jbimpl obj frr (get_now jb now_tv) of
             None \<Rightarrow> None
           | Some (res, obj) \<Rightarrow>
               (case impl_next jbimpl obj of (nxt, obj) \<Rightarrow>
                  Some (0, if res \<noteq> JB_IMPL_OK then [frr] else [],
                        jb\<lparr>jbobj := Some obj, jb_next_time := nxt, last_format := fr_codec frr\<rparr>))))"

text \<open>
  \<open>ast_jb_put\<close>: the result, the copy \<open>ast_frdup\<close> made if it made one, the copies freed, the buffer.
\<close>

definition ast_jb_put ::
  "'jb ast_jb_impl \<Rightarrow> bool \<Rightarrow> timeval \<Rightarrow> 'jb ast_jb \<Rightarrow> ast_frame \<Rightarrow>
   (int \<times> ast_frame list \<times> ast_frame list \<times> 'jb ast_jb) option" where
  "ast_jb_put jbimpl dup_ok now_tv jb f =
     (if \<not> jb_use jb then Some (-1, [], [], jb)
      else if frametype f \<noteq> AST_FRAME_VOICE
      then Some (-1, [], [],
             if frametype f = AST_FRAME_DTMF \<and> jb_created jb
             then jb\<lparr>jbobj := map_option (impl_force_resync jbimpl) (jbobj jb)\<rparr> else jb)
      else if \<not> has_timing_info f \<or> fr_len f < 2 \<or> fr_ts f < 0 then Some (-1, [], [], jb)
      else if \<not> dup_ok then Some (-1, [], [], jb)
      else if \<not> jb_created jb
      then (case create_jb jbimpl now_tv jb f of
              None \<Rightarrow> None
            | Some (r, freed, jb) \<Rightarrow>
                if r \<noteq> 0 then Some (-1, [f], [f], jb\<lparr>jb_use := False\<rparr>)
                else Some (0, [f], freed, jb\<lparr>jb_created := True\<rparr>))
      else (case jbobj jb of
              None \<Rightarrow> None
            | Some obj \<Rightarrow>
                (case impl_put jbimpl obj f (get_now jb now_tv) of
                   None \<Rightarrow> None
                 | Some (res, obj) \<Rightarrow>
                     if res \<noteq> JB_IMPL_OK then Some (0, [f], [f], jb\<lparr>jbobj := Some obj\<rparr>)
                     else (case impl_next jbimpl obj of (nxt, obj) \<Rightarrow>
                             Some (0, [f], [], jb\<lparr>jbobj := Some obj, jb_next_time := nxt\<rparr>)))))"

text \<open>What \<open>jb_get_and_deliver\<close> does with \<open>ast_write\<close> and \<open>ast_frfree\<close>.\<close>

datatype jb_event =
  Delivered ast_frame
| Dropped ast_frame
| Interpolated nat int timeval

fun event_freed :: "jb_event \<Rightarrow> ast_frame list" where
  "event_freed (Delivered f) = [f]"
| "event_freed (Dropped f) = [f]"
| "event_freed (Interpolated _ _ _) = []"

text \<open>
  The loop of \<open>jb_get_and_deliver\<close>, with fuel. The warning for \<open>JB_IMPL_NOFRAME\<close> calls \<open>next\<close> once more.
\<close>

fun deliver_loop :: "'jb ast_jb_impl \<Rightarrow> int \<Rightarrow> nat \<Rightarrow> 'jb ast_jb \<Rightarrow> 'jb \<Rightarrow> (jb_event list \<times> 'jb ast_jb) option" where
  "deliver_loop jbimpl now 0 jb obj = None"
| "deliver_loop jbimpl now (Suc fuel) jb obj =
     (if now < jb_next_time jb then Some ([], jb\<lparr>jbobj := Some obj\<rparr>)
      else let interpolation_len = ast_codec_interp_len (last_format jb) in
        case impl_get jbimpl obj now interpolation_len of
          None \<Rightarrow> None
        | Some (JB_IMPL_NOFRAME, _, obj) \<Rightarrow> Some ([], jb\<lparr>jbobj := Some (snd (impl_next jbimpl obj))\<rparr>)
        | Some (res, f, obj) \<Rightarrow>
            let (ev, jb) =
                  (if res = JB_IMPL_INTERP
                   then (Interpolated (last_format jb) (interpolation_len * 8)
                           (ast_tvadd (timebase jb) (ast_samp2tv (word_of_int (jb_next_time jb)) 1000)), jb)
                   else (if res = JB_IMPL_OK then Delivered (the f) else Dropped (the f),
                         jb\<lparr>last_format := fr_codec (the f)\<rparr>));
                (nxt, obj) = impl_next jbimpl obj
            in map_option (\<lambda>(evs, jb). (ev # evs, jb)) (deliver_loop jbimpl now fuel (jb\<lparr>jb_next_time := nxt\<rparr>) obj))"

definition jb_get_and_deliver :: "'jb ast_jb_impl \<Rightarrow> nat \<Rightarrow> timeval \<Rightarrow> 'jb ast_jb \<Rightarrow> (jb_event list \<times> 'jb ast_jb) option" where
  "jb_get_and_deliver jbimpl fuel now_tv jb =
     (case jbobj jb of
        None \<Rightarrow> None
      | Some obj \<Rightarrow>
          (case impl_next jbimpl obj of (nxt, obj) \<Rightarrow>
             deliver_loop jbimpl (get_now jb now_tv) fuel (jb\<lparr>jb_next_time := nxt\<rparr>) obj))"

text \<open>\<open>ast_jb_get_and_deliver\<close> does this for each of two channels; here for one.\<close>

definition ast_jb_get_and_deliver :: "'jb ast_jb_impl \<Rightarrow> nat \<Rightarrow> timeval \<Rightarrow> 'jb ast_jb \<Rightarrow> (jb_event list \<times> 'jb ast_jb) option" where
  "ast_jb_get_and_deliver jbimpl fuel now_tv jb =
     (if jb_use jb \<and> jb_created jb then jb_get_and_deliver jbimpl fuel now_tv jb else Some ([], jb))"

fun remove_loop :: "'jb ast_jb_impl \<Rightarrow> nat \<Rightarrow> 'jb \<Rightarrow> (ast_frame list \<times> 'jb) option" where
  "remove_loop jbimpl 0 obj = None"
| "remove_loop jbimpl (Suc fuel) obj =
     (case impl_remove jbimpl obj of
        (JB_IMPL_OK, f, obj) \<Rightarrow> map_option (\<lambda>(freed, obj). (the f # freed, obj)) (remove_loop jbimpl fuel obj)
      | (_, _, obj) \<Rightarrow> Some ([], obj))"

definition ast_jb_destroy :: "'jb ast_jb_impl \<Rightarrow> nat \<Rightarrow> 'jb ast_jb \<Rightarrow> (ast_frame list \<times> 'jb ast_jb) option" where
  "ast_jb_destroy jbimpl fuel jb =
     (if jb_created jb
      then case jbobj jb of
             None \<Rightarrow> None
           | Some obj \<Rightarrow>
               (case remove_loop jbimpl fuel obj of
                  None \<Rightarrow> None
                | Some (freed, obj) \<Rightarrow>
                    map_option (\<lambda>_. (freed, jb\<lparr>jbobj := None, jb_created := False\<rparr>)) (impl_destroy jbimpl obj))
      else Some ([], jb))"

text \<open>\<open>ast_jb_empty_and_reset\<close>, for one of its two channels.\<close>

definition ast_jb_empty_and_reset :: "'jb ast_jb_impl \<Rightarrow> 'jb ast_jb \<Rightarrow> ast_frame list \<times> 'jb ast_jb" where
  "ast_jb_empty_and_reset jbimpl jb =
     (case jbobj jb of
        Some obj \<Rightarrow>
          if jb_use jb \<and> jb_created jb
          then case impl_empty_and_reset jbimpl obj of (freed, obj) \<Rightarrow> (freed, jb\<lparr>jbobj := Some obj\<rparr>)
          else ([], jb)
      | None \<Rightarrow> ([], jb))"

text \<open>\<open>ast_true\<close> of \<open>main/utils.c\<close>.\<close>

definition ast_true :: "string \<Rightarrow> bool" where
  "ast_true s \<longleftrightarrow> s \<noteq> [] \<and>
     (strcase_eq s ''yes'' \<or> strcase_eq s ''true'' \<or> strcase_eq s ''y'' \<or> strcase_eq s ''t'' \<or>
      strcase_eq s ''1'' \<or> strcase_eq s ''on'')"

text \<open>\<open>conf->impl\<close> holds 12 characters, one of them the terminator.\<close>

definition ast_jb_read_conf :: "ast_jb_conf \<Rightarrow> string \<Rightarrow> string \<Rightarrow> int \<times> ast_jb_conf" where
  "ast_jb_read_conf c varname val =
     (if \<not> strncase_eq ''jb'' varname 2 then (-1, c)
      else let name = drop 2 varname; tmp = c_atoi val in
        if strcase_eq name ''enable'' then (0, c\<lparr>ast_jb_enabled := ast_true val\<rparr>)
        else if strcase_eq name ''force'' then (0, c\<lparr>ast_jb_forced := ast_true val\<rparr>)
        else if strcase_eq name ''maxsize'' then (0, if tmp > 0 then c\<lparr>conf_max_size := tmp\<rparr> else c)
        else if strcase_eq name ''resyncthreshold'' then (0, if tmp > 0 then c\<lparr>conf_resync_threshold := tmp\<rparr> else c)
        else if strcase_eq name ''impl'' then (0, if val \<noteq> [] then c\<lparr>conf_impl := take 11 val\<rparr> else c)
        else if strcase_eq name ''targetextra''
        then (0, case scan_int val of Some (v, _) \<Rightarrow> c\<lparr>conf_target_extra := to_int32 v\<rparr> | None \<Rightarrow> c)
        else if strcase_eq name ''log'' then (0, c\<lparr>ast_jb_log := ast_true val\<rparr>)
        else (-1, c))"

section \<open>The contract of an implementation\<close>

text \<open>
  What the channel code relies on. \<open>held\<close> are the frames queued, \<open>inv\<close> the implementation's invariant.
  Every operation accounts for the frames it takes and gives. \<open>rank now\<close> measures how much the
  delivery loop still can do at time \<open>now\<close>.
\<close>

definition timed_frame :: "ast_frame \<Rightarrow> bool" where
  "timed_frame f \<longleftrightarrow> 2 \<le> fr_len f \<and> 0 \<le> fr_ts f"

abbreviation rank_less :: "((nat \<times> nat \<times> nat) \<times> (nat \<times> nat \<times> nat)) set" where
  "rank_less \<equiv> less_than <*lex*> (less_than <*lex*> less_than)"

text \<open>The frames a channel's buffer holds, and its invariant: a created buffer has a sound object.\<close>

definition chan_held :: "('jb \<Rightarrow> ast_frame list) \<Rightarrow> 'jb ast_jb \<Rightarrow> ast_frame list" where
  "chan_held held jb = (case jbobj jb of Some obj \<Rightarrow> if jb_created jb then held obj else [] | None \<Rightarrow> [])"

definition chan_ok :: "('jb \<Rightarrow> bool) \<Rightarrow> 'jb ast_jb \<Rightarrow> bool" where
  "chan_ok okay jb \<longleftrightarrow> (jb_created jb \<longrightarrow> (\<exists>obj. jbobj jb = Some obj \<and> okay obj))"

text \<open>
  A life of a channel's buffer: the copies of frames made so far and those freed, in any sequence of
  operations while the clock has not gone behind the time base.
\<close>

inductive jb_life :: "'jb ast_jb_impl \<Rightarrow> 'jb ast_jb \<Rightarrow> ast_frame list \<Rightarrow> ast_frame list \<Rightarrow> bool"
  for jbimpl :: "'jb ast_jb_impl" where
  life_start: "\<not> jb_created jb \<Longrightarrow> jb_life jbimpl jb [] []"
| life_put: "jb_life jbimpl jb dups frees \<Longrightarrow> 0 \<le> get_now jb tv \<Longrightarrow>
    ast_jb_put jbimpl dup_ok tv jb f = Some (r, dup, freed, jb') \<Longrightarrow> jb_life jbimpl jb' (dups @ dup) (frees @ freed)"
| life_deliver: "jb_life jbimpl jb dups frees \<Longrightarrow> 0 \<le> get_now jb tv \<Longrightarrow>
    ast_jb_get_and_deliver jbimpl fuel tv jb = Some (evs, jb') \<Longrightarrow>
    jb_life jbimpl jb' dups (frees @ concat (map event_freed evs))"
| life_empty: "jb_life jbimpl jb dups frees \<Longrightarrow> ast_jb_empty_and_reset jbimpl jb = (freed, jb') \<Longrightarrow>
    jb_life jbimpl jb' dups (frees @ freed)"
| life_destroy: "jb_life jbimpl jb dups frees \<Longrightarrow> ast_jb_destroy jbimpl fuel jb = Some (freed, jb') \<Longrightarrow>
    jb_life jbimpl jb' dups (frees @ freed)"

locale jb_contract =
  fixes jbimpl :: "'jb ast_jb_impl"
    and held :: "'jb \<Rightarrow> ast_frame list"
    and inv :: "'jb \<Rightarrow> bool"
    and rank :: "int \<Rightarrow> 'jb \<Rightarrow> nat \<times> nat \<times> nat"
  assumes create_law: "impl_create jbimpl c t = Some jb \<Longrightarrow> inv jb \<and> held jb = []"
    and put_first_law: "inv jb \<Longrightarrow> held jb = [] \<Longrightarrow> timed_frame f \<Longrightarrow> 0 \<le> now \<Longrightarrow>
      \<exists>c jb'. impl_put_first jbimpl jb f now = Some (c, jb') \<and> inv jb' \<and>
        mset (held jb') = (if c = JB_IMPL_OK then {#f#} else {#})"
    and put_law: "inv jb \<Longrightarrow> timed_frame f \<Longrightarrow> 0 \<le> now \<Longrightarrow>
      \<exists>c jb'. impl_put jbimpl jb f now = Some (c, jb') \<and> inv jb' \<and>
        mset (held jb') = (if c = JB_IMPL_OK then add_mset f (mset (held jb)) else mset (held jb))"
    and get_law: "inv jb \<Longrightarrow> 0 \<le> now \<Longrightarrow> 2 \<le> len \<Longrightarrow>
      \<exists>c f jb'. impl_get jbimpl jb now len = Some (c, f, jb') \<and> inv jb' \<and>
        (if c = JB_IMPL_OK \<or> c = JB_IMPL_DROP then \<exists>x. f = Some x \<and> held jb = x # held jb'
         else f = None \<and> held jb' = held jb) \<and>
        (fst (impl_next jbimpl jb) \<le> now \<and> c \<noteq> JB_IMPL_NOFRAME \<longrightarrow> (rank now jb', rank now jb) \<in> rank_less)"
    and next_law: "inv jb \<Longrightarrow> inv (snd (impl_next jbimpl jb)) \<and> held (snd (impl_next jbimpl jb)) = held jb \<and>
      fst (impl_next jbimpl (snd (impl_next jbimpl jb))) = fst (impl_next jbimpl jb) \<and>
      rank now (snd (impl_next jbimpl jb)) = rank now jb"
    and remove_law: "inv jb \<Longrightarrow>
      (case held jb of
         [] \<Rightarrow> \<exists>c f jb'. impl_remove jbimpl jb = (c, f, jb') \<and> c \<noteq> JB_IMPL_OK \<and> inv jb' \<and> held jb' = []
       | x # xs \<Rightarrow> \<exists>jb'. impl_remove jbimpl jb = (JB_IMPL_OK, Some x, jb') \<and> inv jb' \<and> held jb' = xs)"
    and force_law: "inv jb \<Longrightarrow> inv (impl_force_resync jbimpl jb) \<and> held (impl_force_resync jbimpl jb) = held jb"
    and empty_law: "inv jb \<Longrightarrow> \<exists>jb'. impl_empty_and_reset jbimpl jb = (held jb, jb') \<and> inv jb' \<and> held jb' = []"
    and destroy_law: "inv jb \<Longrightarrow> held jb = [] \<Longrightarrow> impl_destroy jbimpl jb = Some ()"
begin

lemma wf_rank: "wf rank_less"
  by (intro wf_lex_prod wf_less_than)

text \<open>The delivery loop ends, and accounts for every frame: freed ones and the rest are what was held.\<close>

lemma deliver_loop_ends:
  assumes "inv obj" "0 \<le> now" "fst (impl_next jbimpl obj) = jb_next_time jb"
  shows "\<exists>fuel0 evs jb' obj'. (\<forall>fuel \<ge> fuel0. deliver_loop jbimpl now fuel jb obj = Some (evs, jb')) \<and>
    jbobj jb' = Some obj' \<and> inv obj' \<and> held obj = concat (map event_freed evs) @ held obj' \<and>
    jb_use jb' = jb_use jb \<and> jb_created jb' = jb_created jb \<and> timebase jb' = timebase jb"
  using assms
proof (induction "rank now obj" arbitrary: obj jb rule: wf_induct_rule [OF wf_rank])
  case (1 obj)
  show ?case
  proof (cases "now < jb_next_time jb")
    case True
    have "deliver_loop jbimpl now fuel jb obj = Some ([], jb\<lparr>jbobj := Some obj\<rparr>)" if "1 \<le> fuel" for fuel
      using that True by (cases fuel) auto
    with 1(2) show ?thesis by (intro exI [of _ 1] exI [of _ "[]"] exI [of _ "jb\<lparr>jbobj := Some obj\<rparr>"] exI [of _ obj]) auto
  next
    case False
    let ?len = "ast_codec_interp_len (last_format jb)"
    have "2 \<le> ?len" by (simp add: ast_codec_interp_len_def)
    from get_law [OF 1(2,3) this] obtain c f obj1 where g: "impl_get jbimpl obj now ?len = Some (c, f, obj1)" "inv obj1"
      "if c = JB_IMPL_OK \<or> c = JB_IMPL_DROP then \<exists>x. f = Some x \<and> held obj = x # held obj1 else f = None \<and> held obj1 = held obj"
      "c \<noteq> JB_IMPL_NOFRAME \<Longrightarrow> (rank now obj1, rank now obj) \<in> rank_less"
      using False 1(4) by auto
    note nx = next_law [OF g(2)]
    show ?thesis
    proof (cases "c = JB_IMPL_NOFRAME")
      case True
      have "deliver_loop jbimpl now fuel jb obj = Some ([], jb\<lparr>jbobj := Some (snd (impl_next jbimpl obj1))\<rparr>)" if "1 \<le> fuel" for fuel
        using that True False g(1) by (cases fuel) auto
      with nx g(3) True show ?thesis
        by (intro exI [of _ 1] exI [of _ "[]"] exI [of _ "jb\<lparr>jbobj := Some (snd (impl_next jbimpl obj1))\<rparr>"]
            exI [of _ "snd (impl_next jbimpl obj1)"]) auto
    next
      case nf: False
      obtain nxt obj2 where o2: "impl_next jbimpl obj1 = (nxt, obj2)" by fastforce
      define jb1 where "jb1 = (if c = JB_IMPL_INTERP then jb else jb\<lparr>last_format := fr_codec (the f)\<rparr>)\<lparr>jb_next_time := nxt\<rparr>"
      define ev where "ev = (if c = JB_IMPL_INTERP
        then Interpolated (last_format jb) (?len * 8) (ast_tvadd (timebase jb) (ast_samp2tv (word_of_int (jb_next_time jb)) 1000))
        else if c = JB_IMPL_OK then Delivered (the f) else Dropped (the f))"
      have rk: "(rank now obj2, rank now obj) \<in> rank_less" using g(4) [OF nf] nx o2 by auto
      have i2: "inv obj2" "fst (impl_next jbimpl obj2) = jb_next_time jb1" using nx o2 by (auto simp: jb1_def)
      from 1(1) [OF rk i2(1) 1(3) i2(2)] obtain fuel0 evs jb' obj' where ih:
        "\<And>fuel. fuel0 \<le> fuel \<Longrightarrow> deliver_loop jbimpl now fuel jb1 obj2 = Some (evs, jb')" "jbobj jb' = Some obj'" "inv obj'"
        "held obj2 = concat (map event_freed evs) @ held obj'"
        "jb_use jb' = jb_use jb1" "jb_created jb' = jb_created jb1" "timebase jb' = timebase jb1" by blast
      have step: "deliver_loop jbimpl now (Suc fuel) jb obj = map_option (\<lambda>(evs, jb). (ev # evs, jb)) (deliver_loop jbimpl now fuel jb1 obj2)" for fuel
        using False nf g(1) o2 by (cases c) (simp_all add: ev_def jb1_def Let_def)
      have "deliver_loop jbimpl now fuel jb obj = Some (ev # evs, jb')" if "Suc fuel0 \<le> fuel" for fuel
        using that step ih(1) by (cases fuel) auto
      moreover have "held obj = event_freed ev @ held obj2"
        using g(3) nf nx o2 by (cases c) (auto simp: ev_def)
      ultimately show ?thesis using ih(2-7)
        by (intro exI [of _ "Suc fuel0"] exI [of _ "ev # evs"] exI [of _ jb'] exI [of _ obj']) (auto simp: jb1_def)
    qed
  qed
qed

lemma remove_loop_all:
  "inv obj \<Longrightarrow> length (held obj) < fuel \<Longrightarrow>
   \<exists>obj'. remove_loop jbimpl fuel obj = Some (held obj, obj') \<and> inv obj' \<and> held obj' = []"
proof (induction fuel arbitrary: obj)
  case (Suc fuel)
  show ?case
  proof (cases "held obj")
    case Nil
    with remove_law [OF Suc.prems(1)] obtain c f obj' where
      "impl_remove jbimpl obj = (c, f, obj')" "c \<noteq> JB_IMPL_OK" "inv obj'" "held obj' = []" by auto
    with Nil show ?thesis by (cases c) auto
  next
    case (Cons x xs)
    with remove_law [OF Suc.prems(1)] obtain obj1 where
      "impl_remove jbimpl obj = (JB_IMPL_OK, Some x, obj1)" "inv obj1" "held obj1 = xs" by auto
    with Suc.IH [of obj1] Suc.prems(2) Cons show ?thesis by auto
  qed
qed simp

lemma remove_loop_result:
  "inv obj \<Longrightarrow> remove_loop jbimpl fuel obj = Some (freed, obj') \<Longrightarrow> freed = held obj \<and> inv obj' \<and> held obj' = []"
proof (induction fuel arbitrary: obj freed)
  case (Suc fuel)
  show ?case
  proof (cases "held obj")
    case Nil
    with remove_law [OF Suc.prems(1)] obtain c f obj' where
      "impl_remove jbimpl obj = (c, f, obj')" "c \<noteq> JB_IMPL_OK" "inv obj'" "held obj' = []" by auto
    with Nil Suc.prems show ?thesis by (cases c) auto
  next
    case (Cons x xs)
    with remove_law [OF Suc.prems(1)] obtain obj1 where
      "impl_remove jbimpl obj = (JB_IMPL_OK, Some x, obj1)" "inv obj1" "held obj1 = xs" by auto
    with Suc Cons show ?thesis by auto
  qed
qed simp

lemma create_jb_accounts:
  assumes "create_jb jbimpl tv jb f = Some (r, freed, jb')" "timed_frame f" "0 \<le> get_now jb tv"
  shows "(r = 0 \<and> (\<exists>obj. jbobj jb' = Some obj \<and> inv obj \<and> {#f#} = mset freed + mset (held obj))) \<or> r = -1"
proof (cases "impl_create jbimpl (jbconf jb) (conf_resync_threshold (jbconf jb))")
  case None
  then show ?thesis using assms(1) by (simp add: create_jb_def)
next
  case (Some obj)
  from create_law [OF Some] have o: "inv obj" "held obj = []" by auto
  from put_first_law [OF o assms(2,3)] obtain c obj1 where
    p: "impl_put_first jbimpl obj f (get_now jb tv) = Some (c, obj1)" "inv obj1"
    "mset (held obj1) = (if c = JB_IMPL_OK then {#f#} else {#})" by blast
  with Some assms(1) next_law [OF p(2)] show ?thesis
    by (auto simp: create_jb_def split: prod.splits if_splits)
qed

lemma put_accounts:
  assumes "chan_ok inv jb" "0 \<le> get_now jb tv" "ast_jb_put jbimpl dup_ok tv jb f = Some (r, dup, freed, jb')"
  shows "chan_ok inv jb' \<and> mset dup + mset (chan_held held jb) = mset freed + mset (chan_held held jb')"
proof (cases "jb_use jb \<and> frametype f = AST_FRAME_VOICE \<and> has_timing_info f \<and> 2 \<le> fr_len f \<and> 0 \<le> fr_ts f \<and> dup_ok")
  case False
  then have "jb' = jb \<or> jb' = jb\<lparr>jbobj := map_option (impl_force_resync jbimpl) (jbobj jb)\<rparr>" "dup = []" "freed = []"
    using assms(3) by (auto simp: ast_jb_put_def not_less split: if_splits)
  then show ?thesis using assms(1) force_law by (auto simp: chan_ok_def chan_held_def split: option.splits)
next
  case True
  then have tf: "timed_frame f" and g: "\<not> fr_len f < 2" "\<not> fr_ts f < 0" by (auto simp: timed_frame_def)
  show ?thesis
  proof (cases "jb_created jb")
    case created: True
    with assms(1) obtain obj where o: "jbobj jb = Some obj" "inv obj" by (auto simp: chan_ok_def)
    from put_law [OF o(2) tf assms(2)] obtain c obj1 where
      p: "impl_put jbimpl obj f (get_now jb tv) = Some (c, obj1)" "inv obj1"
      "mset (held obj1) = (if c = JB_IMPL_OK then add_mset f (mset (held obj)) else mset (held obj))" by blast
    with True created o g assms(3) next_law [OF p(2)] show ?thesis
      by (auto simp: ast_jb_put_def chan_ok_def chan_held_def split: if_splits prod.splits)
  next
    case fresh: False
    then obtain r1 freed1 jb1 where c: "create_jb jbimpl tv jb f = Some (r1, freed1, jb1)"
      using True g assms(3) by (auto simp: ast_jb_put_def split: option.splits if_splits)
    have cr: "jb_created jb1 = jb_created jb"
      using c by (auto simp: create_jb_def split: option.splits prod.splits)
    from create_jb_accounts [OF c tf assms(2)] True fresh g c cr assms(3) show ?thesis
      by (auto simp: ast_jb_put_def chan_ok_def chan_held_def split: if_splits option.splits)
  qed
qed

lemma deliver_loop_result:
  assumes "inv obj" "0 \<le> now" "fst (impl_next jbimpl obj) = jb_next_time jb" "deliver_loop jbimpl now fuel jb obj = Some (evs, jb')"
  shows "\<exists>obj'. jbobj jb' = Some obj' \<and> inv obj' \<and> held obj = concat (map event_freed evs) @ held obj' \<and>
    jb_use jb' = jb_use jb \<and> jb_created jb' = jb_created jb"
proof -
  have mono: "deliver_loop jbimpl now (Suc n) jb obj = Some r" if "deliver_loop jbimpl now n jb obj = Some r" for n jb obj r
    using that
  proof (induction n arbitrary: jb obj r)
    case (Suc n)
    from Suc.prems show ?case
      by (subst deliver_loop.simps, subst (asm) deliver_loop.simps)
         (auto simp: Let_def split: if_splits option.splits prod.splits impl_code.splits dest: Suc.IH simp del: deliver_loop.simps)
  qed simp
  have "deliver_loop jbimpl now (fuel + k) jb obj = Some (evs, jb')" for k
    by (induction k) (use assms(4) mono in auto)
  moreover from deliver_loop_ends [OF assms(1-3)] obtain fuel0 evs0 jb0 obj0 where
    "\<And>n. fuel0 \<le> n \<Longrightarrow> deliver_loop jbimpl now n jb obj = Some (evs0, jb0)" "jbobj jb0 = Some obj0" "inv obj0"
    "held obj = concat (map event_freed evs0) @ held obj0" "jb_use jb0 = jb_use jb" "jb_created jb0 = jb_created jb" by blast
  ultimately show ?thesis by (metis le_add2 option.inject prod.inject)
qed

lemma get_and_deliver_ends:
  assumes "chan_ok inv jb" "0 \<le> get_now jb tv"
  shows "\<exists>fuel0 evs jb'. (\<forall>fuel \<ge> fuel0. ast_jb_get_and_deliver jbimpl fuel tv jb = Some (evs, jb')) \<and>
    chan_ok inv jb' \<and> chan_held held jb = concat (map event_freed evs) @ chan_held held jb'"
proof (cases "jb_use jb \<and> jb_created jb")
  case False
  then show ?thesis using assms(1)
    by (intro exI [of _ 0] exI [of _ "[]"] exI [of _ jb]) (auto simp: ast_jb_get_and_deliver_def)
next
  case True
  with assms(1) obtain obj where o: "jbobj jb = Some obj" "inv obj" by (auto simp: chan_ok_def)
  obtain nxt obj1 where n: "impl_next jbimpl obj = (nxt, obj1)" by fastforce
  let ?jb = "jb\<lparr>jb_next_time := nxt\<rparr>"
  have i1: "inv obj1" "fst (impl_next jbimpl obj1) = jb_next_time ?jb" "held obj1 = held obj"
    using next_law [OF o(2)] n by auto
  from deliver_loop_ends [OF i1(1) assms(2) i1(2)] obtain fuel0 evs jb' obj' where
    d: "\<And>fuel. fuel0 \<le> fuel \<Longrightarrow> deliver_loop jbimpl (get_now jb tv) fuel ?jb obj1 = Some (evs, jb')"
    "jbobj jb' = Some obj'" "inv obj'" "held obj1 = concat (map event_freed evs) @ held obj'" "jb_created jb' = jb_created jb"
    by auto
  then show ?thesis using True o n i1(3)
    by (intro exI [of _ fuel0] exI [of _ evs] exI [of _ jb'])
       (auto simp: ast_jb_get_and_deliver_def jb_get_and_deliver_def chan_ok_def chan_held_def)
qed

lemma get_and_deliver_accounts:
  assumes "chan_ok inv jb" "0 \<le> get_now jb tv" "ast_jb_get_and_deliver jbimpl fuel tv jb = Some (evs, jb')"
  shows "chan_ok inv jb' \<and> chan_held held jb = concat (map event_freed evs) @ chan_held held jb'"
proof (cases "jb_use jb \<and> jb_created jb")
  case True
  with assms(1) obtain obj where o: "jbobj jb = Some obj" "inv obj" by (auto simp: chan_ok_def)
  obtain nxt obj1 where n: "impl_next jbimpl obj = (nxt, obj1)" by fastforce
  have "inv obj1" "fst (impl_next jbimpl obj1) = jb_next_time (jb\<lparr>jb_next_time := nxt\<rparr>)" "held obj1 = held obj"
    using next_law [OF o(2)] n by auto
  with deliver_loop_result [of obj1 "get_now jb tv" "jb\<lparr>jb_next_time := nxt\<rparr>" fuel evs jb'] assms(2,3) True o n
  show ?thesis by (auto simp: ast_jb_get_and_deliver_def jb_get_and_deliver_def chan_ok_def chan_held_def)
qed (use assms in \<open>auto simp: ast_jb_get_and_deliver_def\<close>)

lemma empty_accounts:
  assumes "chan_ok inv jb" "ast_jb_empty_and_reset jbimpl jb = (freed, jb')"
  shows "chan_ok inv jb' \<and> mset (chan_held held jb) = mset freed + mset (chan_held held jb')"
proof (cases "jb_use jb \<and> jb_created jb")
  case True
  with assms(1) obtain obj where o: "jbobj jb = Some obj" "inv obj" by (auto simp: chan_ok_def)
  with empty_law [OF o(2)] assms(2) True show ?thesis
    by (auto simp: ast_jb_empty_and_reset_def chan_ok_def chan_held_def)
qed (use assms in \<open>auto simp: ast_jb_empty_and_reset_def split: option.splits if_splits\<close>)

lemma destroy_accounts:
  assumes "chan_ok inv jb" "ast_jb_destroy jbimpl fuel jb = Some (freed, jb')"
  shows "\<not> jb_created jb' \<and> freed = chan_held held jb \<and> chan_held held jb' = []"
proof (cases "jb_created jb")
  case True
  with assms(1) obtain obj where "jbobj jb = Some obj" "inv obj" by (auto simp: chan_ok_def)
  with remove_loop_result [of obj fuel] assms(2) True show ?thesis
    by (auto simp: ast_jb_destroy_def chan_held_def split: option.splits)
qed (use assms in \<open>auto simp: ast_jb_destroy_def chan_held_def split: option.splits\<close>)

lemma destroy_ends:
  assumes "chan_ok inv jb" "length (chan_held held jb) < fuel"
  shows "\<exists>jb'. ast_jb_destroy jbimpl fuel jb = Some (chan_held held jb, jb') \<and> \<not> jb_created jb'"
proof (cases "jb_created jb")
  case True
  with assms(1) obtain obj where o: "jbobj jb = Some obj" "inv obj" by (auto simp: chan_ok_def)
  with remove_loop_all [of obj fuel] assms(2) True destroy_law show ?thesis
    by (auto simp: ast_jb_destroy_def chan_held_def)
qed (auto simp: ast_jb_destroy_def chan_held_def split: option.splits)

text \<open>No frame copied for the buffer is leaked or freed twice.\<close>

lemma life_accounts:
  "jb_life jbimpl jb dups frees \<Longrightarrow>
   chan_ok inv jb \<and> mset dups = mset frees + mset (chan_held held jb)"
proof (induction rule: jb_life.induct)
  case (life_start jb)
  then show ?case by (simp add: chan_ok_def chan_held_def split: option.split)
next
  case (life_put jb dups frees tv dup_ok f r dup freed jb')
  with put_accounts [of jb tv dup_ok f r dup freed jb'] show ?case
    by (simp add: union_assoc) (metis add.commute add.left_commute)
next
  case (life_deliver jb dups frees tv fuel evs jb')
  with get_and_deliver_accounts [of jb tv fuel evs jb'] show ?case by (simp add: union_assoc)
next
  case (life_empty jb dups frees freed jb')
  with empty_accounts [of jb freed jb'] show ?case by (simp add: union_assoc)
next
  case (life_destroy jb dups frees fuel freed jb')
  with destroy_accounts [of jb fuel freed jb'] show ?case by (simp add: chan_ok_def)
qed

end

section \<open>The two implementations meet the contract\<close>

definition fixed_held :: "ast_frame fixed_jb \<Rightarrow> ast_frame list" where
  "fixed_held jb = map fx_data (fx_frames jb)"

definition fixed_rank :: "int \<Rightarrow> ast_frame fixed_jb \<Rightarrow> nat \<times> nat \<times> nat" where
  "fixed_rank now jb = (length (fx_frames jb), 0, nat (now + 1 - next_delivery jb))"

lemma fixed_outcome_held:
  assumes "fixed_put_outcome jb f ms r jb'"
  shows "mset (fixed_held jb') = (if r = FIXED_JB_OK then add_mset f (mset (fixed_held jb)) else mset (fixed_held jb))"
proof -
  define xs ys where "xs = map fixed_sched (fx_frames jb)" and "ys = map fixed_sched (fx_frames jb')"
  have h: "mset (fixed_held jb) = image_mset fst (mset xs)" "mset (fixed_held jb') = image_mset fst (mset ys)"
    by (simp_all add: fixed_held_def fixed_sched_def xs_def ys_def image_mset.compositionality comp_def)
  have m: "image_mset fst (mset (take k xs)) + image_mset fst (mset (drop k xs)) = image_mset fst (mset xs)" for k
    by (metis append_take_drop_id image_mset_union mset_append)
  from assms show ?thesis
    unfolding fixed_put_outcome_def h xs_def [symmetric] ys_def [symmetric] by (auto simp: m)
qed

lemma fixed_empty_all:
  "fixed_ok jb \<Longrightarrow> \<exists>jb'. jb_empty_and_reset_fixed jb = (fixed_held jb, jb') \<and> fixed_ok jb' \<and> fixed_held jb' = []"
proof (induction "length (fx_frames jb)" arbitrary: jb)
  case 0
  then show ?case using fixed_remove_effect(1) [of jb]
    by (subst jb_empty_and_reset_fixed.simps) (auto simp: fixed_held_def)
next
  case (Suc n)
  then obtain x rest where "fx_frames jb = x # rest" by (cases "fx_frames jb") auto
  with fixed_remove_effect(2) [OF Suc.prems this] Suc show ?case
    by (subst jb_empty_and_reset_fixed.simps) (fastforce simp: fixed_held_def)
qed

interpretation fx: jb_contract "fixed_impl True" fixed_held fixed_ok fixed_rank
proof (unfold_locales, goal_cases)
  case (1 c t jb)
  then show ?case using fixed_new_ok by (auto simp: fixed_impl_def jb_create_fixed_def fixed_held_def)
next
  case (2 jb f now)
  then have e: "fx_frames jb = []" by (simp add: fixed_held_def)
  from 2 fixed_put_first_outcome [OF 2(1) e, of "fr_len f" "fr_ts f" now 1 f]
  obtain jb' where p: "fixed_jb_put_first (fixed_jb_put 2 True) jb f (fr_len f) (fr_ts f) now = Some (FIXED_JB_OK, jb')"
    "fixed_put_outcome jb f (fr_len f) FIXED_JB_OK jb'"
    by (auto simp: timed_frame_def numeral_2_eq_2)
  then have "fixed_ok jb'" by (simp add: fixed_put_outcome_def)
  with p 2 fixed_outcome_held [OF p(2)] show ?case by (simp add: fixed_impl_def jb_put_first_fixed_def)
next
  case (3 jb f now)
  then obtain r jb' where "fixed_jb_put 2 True jb f (fr_len f) (fr_ts f) now = Some (r, jb')"
    "fixed_put_outcome jb f (fr_len f) r jb'"
    using fixed_put_terminates [OF 3(1), of "fr_len f" "fr_ts f" now 2 f] by (auto simp: timed_frame_def)
  with fixed_outcome_held [of jb f "fr_len f" r jb'] show ?case
    by (cases r) (auto simp: fixed_impl_def jb_put_fixed_def fixed_put_outcome_def)
next
  case (4 jb now len)
  then obtain r f jb' where g: "fixed_jb_get jb now len = Some (r, f, jb')"
    using fixed_get_correct [OF 4] by blast
  from fixed_get_effect [OF 4(1) g] g 4 show ?case
    by (cases r) (auto simp: fixed_impl_def jb_get_fixed_def fixed_held_def fixed_rank_def jb_next_fixed_def fixed_jb_next_def)
next
  case (5 jb now)
  then show ?case by (simp add: fixed_impl_def jb_next_fixed_def)
next
  case (6 jb)
  then show ?case using fixed_remove_effect [OF 6]
    by (cases "fx_frames jb") (fastforce simp: fixed_impl_def jb_remove_fixed_def fixed_held_def)+
next
  case (7 jb)
  then show ?case by (simp add: fixed_impl_def fixed_jb_set_force_resynch_def fixed_ok_def fixed_held_def)
next
  case (8 jb)
  then show ?case using fixed_empty_all by (simp add: fixed_impl_def)
next
  case (9 jb)
  then show ?case by (simp add: fixed_impl_def fixed_jb_destroy_def fixed_held_def)
qed

definition adaptive_held :: "ast_frame jitterbuf \<Rightarrow> ast_frame list" where
  "adaptive_held jb = map frame_data (frames jb)"

definition adaptive_rank :: "int \<Rightarrow> ast_frame jitterbuf \<Rightarrow> nat \<times> nat \<times> nat" where
  "adaptive_rank now jb =
     (length (frames jb), if silence_begin_ts (info jb) = 0 then 1 else 0, nat (now + 1 - next_voice_ts (info jb)))"

lemma queue_get_info:
  "queue_get jb t = (f, jb') \<Longrightarrow> next_voice_ts (info jb') = next_voice_ts (info jb) \<and>
   silence_begin_ts (info jb') = silence_begin_ts (info jb)"
  by (auto simp: queue_get_def queue_get_aux_def split: list.splits if_splits)

lemma timely_interp:
  "jb_get_timely f diff now len i = (JB_INTERP, f', i') \<Longrightarrow> next_voice_ts i' = next_voice_ts i + len"
  by (auto simp: jb_get_timely_def Let_def increment_losspct_def split: if_splits option.splits)

lemma get_interp:
  assumes "jb_get_aux jb now len = (JB_INTERP, f, jb')"
  shows "silence_begin_ts (info jb) = 0 \<and> next_voice_ts (info jb') = next_voice_ts (info jb) + len"
proof -
  let ?t = "jb_get_target jb"
  have talk: "silence_begin_ts (info jb) = 0"
    using assms by (auto simp: jb_get_aux_def Let_def jb_get_silent_def split: prod.splits option.splits if_splits)
  with assms have a: "jb_get_talking ?t (target (info ?t) - current (info jb)) now len = (JB_INTERP, f, jb')"
    by (simp add: jb_get_aux_def Let_def)
  obtain g q where q: "queue_get ?t (next_voice_ts (info jb) - current (info jb)) = (g, q)" by fastforce
  note qi = queue_get_info [OF q]
  show ?thesis using a q qi talk
    by (auto simp: jb_get_talking_def Let_def dest: timely_interp split: if_splits option.splits prod.splits)
qed

lemma adaptive_drain_all:
  "jb_ok jb \<Longrightarrow> \<exists>jb'. drain_adaptive jb = (adaptive_held jb, jb')"
proof (induction "length (frames jb)" arbitrary: jb)
  case 0
  then show ?case by (subst drain_adaptive.simps) (simp add: queue_getall_def queue_get_aux_def adaptive_held_def)
next
  case (Suc n)
  then obtain x rest where fs: "frames jb = x # rest" by (cases "frames jb") auto
  define jb1 where "jb1 = info_update (\<lambda>i. i\<lparr>frames_cur := frames_cur i - 1\<rparr>)
    (jb\<lparr>frames := rest, free_frames := x # free_frames jb\<rparr>)"
  have "jb_ok jb1" "frames jb1 = rest" using Suc.prems fs by (simp_all add: jb1_def jb_ok_def)
  with Suc.hyps(1) [of jb1] Suc.hyps(2) fs obtain jb' where "drain_adaptive jb1 = (adaptive_held jb1, jb')" by auto
  with fs \<open>frames jb1 = rest\<close> show ?case
    by (subst drain_adaptive.simps)
       (simp add: queue_getall_def queue_get_aux_def adaptive_held_def jb1_def [symmetric])
qed

lemma adaptive_put_held:
  assumes "jb_ok jb" "jb_put True jb f JB_TYPE_VOICE (fr_len f) (fr_ts f) now = (r, jb')"
  shows "jb_ok jb' \<and> mset (adaptive_held jb') =
    (if adaptive_to_abstract_code r = JB_IMPL_OK then add_mset f (mset (adaptive_held jb)) else mset (adaptive_held jb))"
proof -
  note e = jb_put_effect [OF assms disjI1 [OF TrueI]]
  have "r = JB_DROP \<or> r = JB_OK \<or> r = JB_SCHED" using e(6) by auto
  with e show ?thesis by (auto simp: adaptive_held_def queue_insert_mset)
qed

interpretation ad: jb_contract "adaptive_impl True garbage" adaptive_held jb_ok adaptive_rank for garbage
proof (unfold_locales, goal_cases)
  case (1 c t jb)
  then show ?case
    by (auto simp: adaptive_impl_def jb_create_adaptive_def jb_new_def adaptive_held_def jb_setconf_ok jb_reset_ok)
next
  case (2 jb f now)
  let ?jb = "info_update (\<lambda>i. i\<lparr>resync_offset := fr_ts f\<rparr>) jb"
  obtain r jb' where p: "jb_put True ?jb f JB_TYPE_VOICE (fr_len f) (fr_ts f) now = (r, jb')" by fastforce
  have "jb_ok ?jb" "adaptive_held ?jb = []" using 2 by (simp_all add: jb_ok_def adaptive_held_def)
  with adaptive_put_held [OF this(1) p] p show ?case
    by (auto simp: adaptive_impl_def jb_put_first_adaptive_def jb_put_adaptive_def)
next
  case (3 jb f now)
  obtain r jb' where p: "jb_put True jb f JB_TYPE_VOICE (fr_len f) (fr_ts f) now = (r, jb')" by fastforce
  with adaptive_put_held [OF 3(1) p] show ?case by (auto simp: adaptive_impl_def jb_put_adaptive_def)
next
  case (4 jb now len)
  obtain r f jb' where g: "jb_get_aux jb now len = (r, f, jb')" by (metis prod_cases3)
  note e = jb_get_aux_effect [OF 4(1), of now len, unfolded g get_effect_def]
  have "(adaptive_rank now jb', adaptive_rank now jb) \<in> rank_less"
    if "r \<noteq> JB_NOFRAME" "fst (jb_next jb) \<le> now"
  proof (cases "r = JB_INTERP")
    case True
    with get_interp [of jb now len f jb'] g e that 4(3) show ?thesis
      by (auto simp: adaptive_rank_def jb_next_def split: option.splits)
  next
    case False
    with e that show ?thesis by (auto simp: adaptive_rank_def split: option.splits)
  qed
  with e g show ?case
    by (cases f) (auto simp: adaptive_impl_def jb_get_adaptive_def adaptive_held_def jb_next_adaptive_def)
next
  case (5 jb now)
  then show ?case
    using jb_next_ok [of jb]
    by (auto simp: adaptive_impl_def jb_next_adaptive_def adaptive_held_def adaptive_rank_def jb_next_def Let_def queue_next_def)
next
  case (6 jb)
  then show ?case
    by (cases "frames jb") (auto simp: adaptive_impl_def jb_remove_adaptive_def adaptive_held_def
        queue_getall_def queue_get_aux_def jb_ok_def)
next
  case (7 jb)
  then show ?case by (simp add: adaptive_impl_def jb_force_resynch_adaptive_def)
next
  case (8 jb)
  then show ?case using adaptive_drain_all [OF 8]
    by (auto simp: adaptive_impl_def jb_empty_and_reset_adaptive_def jb_reset_ok adaptive_held_def)
next
  case (9 jb)
  then show ?case by (simp add: adaptive_impl_def)
qed

section \<open>Properties\<close>

text \<open>A channel whose buffer is in use since 100 s, and a frame for it.\<close>

definition demo_conf :: ast_jb_conf where
  "demo_conf = \<lparr>ast_jb_enabled = True, ast_jb_forced = False, ast_jb_log = False, conf_max_size = 200,
     conf_resync_threshold = 1000, conf_impl = ''fixed'', conf_target_extra = 60\<rparr>"

definition demo_jb :: "'jb ast_jb" where
  "demo_jb = \<lparr>jbconf = demo_conf, impl_index = 0, jbobj = None, timebase = Timeval 100 0, jb_next_time = 0,
     last_format = 4, jb_use = True, jb_timebase_initialized = True, jb_created = False\<rparr>"

definition demo_frame :: ast_frame where
  "demo_frame = \<lparr>fr_id = 1, frametype = AST_FRAME_VOICE, has_timing_info = True, fr_len = 20, fr_ts = 160, fr_codec = 4\<rparr>"

definition demo_garbage :: "ast_frame jitterbuf" where
  "demo_garbage = \<lparr>info = info_zero \<lparr>max_jitterbuf = 0, resync_threshold = 0, max_contig_interp = 0, target_extra = 0\<rparr>,
     history = [], hist_ptr = 0, hist_maxbuf = [], hist_minbuf = [], hist_maxbuf_valid = False,
     dropem = False, frames = [], free_frames = []\<rparr>"

lemma demo_now: "timebase jb = Timeval 100 0 \<Longrightarrow> get_now jb (Timeval 101 0) = 1000"
  by (simp add: get_now_def ast_tvdiff_ms_def Let_def sdiv_nonneg)

lemma demo_fixed_life: "\<exists>jb. jb_life (fixed_impl True) jb [demo_frame] [] \<and> jb_created jb"
proof -
  have "map_option (\<lambda>(r, d, f, jb). (r, d, f, jb_created jb)) (ast_jb_put (fixed_impl True) True (Timeval 101 0) demo_jb demo_frame)
    = Some (0, [demo_frame], [], True)" by code_simp
  then obtain r d f jb where "ast_jb_put (fixed_impl True) True (Timeval 101 0) demo_jb demo_frame = Some (r, d, f, jb)"
    "d = [demo_frame]" "f = []" "jb_created jb" by auto
  then show ?thesis
    using life_put [OF life_start [of demo_jb "fixed_impl True"], of "Timeval 101 0" True demo_frame r d f jb]
    by (auto simp: demo_jb_def demo_now)
qed

lemma demo_adaptive_life: "\<exists>jb. jb_life (adaptive_impl True demo_garbage) jb [demo_frame] [] \<and> jb_created jb"
proof -
  have "map_option (\<lambda>(r, d, f, jb). (r, d, f, jb_created jb))
      (ast_jb_put (adaptive_impl True demo_garbage) True (Timeval 101 0) demo_jb demo_frame)
    = Some (0, [demo_frame], [], True)" by code_simp
  then obtain r d f jb where "ast_jb_put (adaptive_impl True demo_garbage) True (Timeval 101 0) demo_jb demo_frame = Some (r, d, f, jb)"
    "d = [demo_frame]" "f = []" "jb_created jb" by auto
  then show ?thesis
    using life_put [OF life_start [of demo_jb "adaptive_impl True demo_garbage"], of "Timeval 101 0" True demo_frame r d f jb]
    by (auto simp: demo_jb_def demo_now)
qed

text \<open>
  C37: over any sequence of puts, deliveries, resets and destructions of a channel's fixed buffer, the frames
  copied into it are exactly those freed and those still queued, so none leaks and none is freed
  twice; after \<open>ast_jb_destroy\<close> all are freed.
\<close>

theorem jb_fixed_frames_accounted:
  assumes "jb_life (fixed_impl True) jb dups frees"
  shows "mset dups = mset frees + mset (chan_held fixed_held jb) \<and>
    (\<exists>freed jb'. ast_jb_destroy (fixed_impl True) (Suc (length (chan_held fixed_held jb))) jb = Some (freed, jb') \<and>
       mset dups = mset (frees @ freed) \<and> \<not> jb_created jb')"
proof -
  from fx.life_accounts [OF assms] fx.destroy_ends [of jb "Suc (length (chan_held fixed_held jb))"] show ?thesis by auto
qed

theorem jb_fixed_frames_accounted_witness:
  "\<exists>jb. jb_life (fixed_impl True) jb [demo_frame] [] \<and> mset (chan_held fixed_held jb) = {#demo_frame#}"
proof -
  from demo_fixed_life obtain jb where l: "jb_life (fixed_impl True) jb [demo_frame] []" by blast
  from jb_fixed_frames_accounted [OF l] l show ?thesis by auto
qed

text \<open>
  The same accounting holds for the adaptive buffer.
\<close>

theorem jb_adaptive_frames_accounted:
  assumes "jb_life (adaptive_impl True garbage) jb dups frees"
  shows "mset dups = mset frees + mset (chan_held adaptive_held jb) \<and>
    (\<exists>freed jb'. ast_jb_destroy (adaptive_impl True garbage) (Suc (length (chan_held adaptive_held jb))) jb = Some (freed, jb') \<and>
       mset dups = mset (frees @ freed) \<and> \<not> jb_created jb')"
proof -
  from ad.life_accounts [OF assms] ad.destroy_ends [of jb "Suc (length (chan_held adaptive_held jb))" garbage]
  show ?thesis by auto
qed

theorem jb_adaptive_frames_accounted_witness:
  "\<exists>jb. jb_life (adaptive_impl True demo_garbage) jb [demo_frame] [] \<and> mset (chan_held adaptive_held jb) = {#demo_frame#}"
proof -
  from demo_adaptive_life obtain jb where l: "jb_life (adaptive_impl True demo_garbage) jb [demo_frame] []" by blast
  from jb_adaptive_frames_accounted [OF l] l show ?thesis by auto
qed

text \<open>
  The delivery loop of \<open>ast_jb_get_and_deliver\<close> ends on a fixed buffer, whatever its state, and delivers or drops
  frames from the front of the queue only.
\<close>

theorem jb_fixed_delivery_ends:
  assumes "chan_ok fixed_ok jb" "0 \<le> get_now jb tv"
  shows "\<exists>fuel0 evs jb'. (\<forall>fuel. fuel0 \<le> fuel \<longrightarrow> ast_jb_get_and_deliver (fixed_impl True) fuel tv jb = Some (evs, jb')) \<and>
    chan_ok fixed_ok jb' \<and> chan_held fixed_held jb = concat (map event_freed evs) @ chan_held fixed_held jb'"
  using fx.get_and_deliver_ends [OF assms] by blast

theorem jb_fixed_delivery_ends_witness:
  "\<exists>fuel evs jb'. ast_jb_get_and_deliver (fixed_impl True) fuel (Timeval 101 0)
     (demo_jb\<lparr>jb_created := True, jbobj := fixed_jb_new True \<lparr>jbsize = 200, fx_resync_threshold = 1000\<rparr>\<rparr>) = Some (evs, jb')"
proof -
  let ?jb = "(demo_jb :: ast_frame fixed_jb ast_jb)\<lparr>jb_created := True, jbobj := fixed_jb_new True \<lparr>jbsize = 200, fx_resync_threshold = 1000\<rparr>\<rparr>"
  obtain b :: "ast_frame fixed_jb" where b: "fixed_jb_new True \<lparr>jbsize = 200, fx_resync_threshold = 1000\<rparr> = Some b"
    by (simp add: fixed_jb_new_def)
  have "chan_ok fixed_ok ?jb" unfolding chan_ok_def using fixed_new_ok [OF b] b by auto
  moreover have "0 \<le> get_now ?jb (Timeval 101 0)" by (simp add: demo_now demo_jb_def)
  ultimately show ?thesis using jb_fixed_delivery_ends [of ?jb "Timeval 101 0"] by blast
qed

text \<open>
  The delivery loop also ends on an adaptive buffer: every pass takes a frame, falls silent, or moves the
  expected time of the next voice frame forward.
\<close>

theorem jb_adaptive_delivery_ends:
  assumes "chan_ok jb_ok jb" "0 \<le> get_now jb tv"
  shows "\<exists>fuel0 evs jb'. (\<forall>fuel. fuel0 \<le> fuel \<longrightarrow> ast_jb_get_and_deliver (adaptive_impl True garbage) fuel tv jb = Some (evs, jb')) \<and>
    chan_ok jb_ok jb' \<and> chan_held adaptive_held jb = concat (map event_freed evs) @ chan_held adaptive_held jb'"
  using ad.get_and_deliver_ends [OF assms] by blast

theorem jb_adaptive_delivery_ends_witness:
  "\<exists>fuel evs jb'. ast_jb_get_and_deliver (adaptive_impl True demo_garbage) fuel (Timeval 101 0)
     (demo_jb\<lparr>jb_created := True, jbobj := Some (jb_reset demo_garbage)\<rparr>) = Some (evs, jb')"
proof -
  let ?jb = "demo_jb\<lparr>jb_created := True, jbobj := Some (jb_reset demo_garbage)\<rparr>"
  have "chan_ok jb_ok ?jb" by (simp add: chan_ok_def jb_reset_ok)
  moreover have "0 \<le> get_now ?jb (Timeval 101 0)" by (simp add: demo_now demo_jb_def)
  ultimately show ?thesis using jb_adaptive_delivery_ends [of ?jb "Timeval 101 0" demo_garbage] by blast
qed

text \<open>
  For any time limit but 0 ms \<open>ast_jb_get_when_to_wakeup\<close> returns -1, for no limit, or a wait of at least 1 ms, so
  that the bridge never spins, and never more than a given positive limit.
\<close>

theorem jb_wakeup_bounds:
  defines "w \<equiv> ast_jb_get_when_to_wakeup"
  assumes "t \<noteq> 0"
  shows "w tv jb0 jb1 t = -1 \<or> 1 \<le> w tv jb0 jb1 t \<and> (t < 0 \<or> w tv jb0 jb1 t \<le> t)"
  using assms(2) by (auto simp: w_def ast_jb_get_when_to_wakeup_def Let_def)

theorem jb_wakeup_bounds_witness:
  "ast_jb_get_when_to_wakeup (Timeval 101 0) ((demo_jb :: nat ast_jb)\<lparr>jb_created := True, jb_next_time := 1030\<rparr>)
     (demo_jb :: nat ast_jb) 500 \<le> 500"
  using jb_wakeup_bounds [of 500 "Timeval 101 0" "(demo_jb :: nat ast_jb)\<lparr>jb_created := True, jb_next_time := 1030\<rparr>"
      "demo_jb :: nat ast_jb"]
  by auto

text \<open>
  \<open>ast_jb_empty_and_reset\<close> on an adaptive buffer loses the configured \<open>target_extra\<close>: \<open>jb_reset\<close> puts the
  default of 40 ms into the configuration it is meant to save.
\<close>

theorem jb_reset_loses_target_extra:
  assumes "jb_ok jb"
  shows "target_extra (conf (info (snd (jb_empty_and_reset_adaptive jb)))) = JB_TARGET_EXTRA"
  using adaptive_drain_all [OF assms] by (auto simp: jb_empty_and_reset_adaptive_def jb_reset_def info_zero_def)

theorem jb_reset_loses_target_extra_witness:
  "target_extra (conf (info (jb_setconf (jb_reset demo_garbage)
     \<lparr>max_jitterbuf = 200, resync_threshold = 1000, max_contig_interp = 10, target_extra = 60\<rparr>))) = 60 \<and>
   target_extra (conf (info (snd (jb_empty_and_reset_adaptive (jb_setconf (jb_reset demo_garbage)
     \<lparr>max_jitterbuf = 200, resync_threshold = 1000, max_contig_interp = 10, target_extra = 60\<rparr>))))) = 40"
  using jb_reset_loses_target_extra [of "jb_setconf (jb_reset demo_garbage)
     \<lparr>max_jitterbuf = 200, resync_threshold = 1000, max_contig_interp = 10, target_extra = 60\<rparr>"]
  by (simp add: jb_setconf_ok jb_reset_ok JB_TARGET_EXTRA_def) (simp add: jb_setconf_def)

end
