(* ===== verification/Ext_Pattern.thy ===== *)
theory Ext_Pattern
  imports C_String
begin

text \<open>
  Extension patterns, \<open>main/pbx.c\<close>: the comparison that orders extensions in a context and the
  matching of dialled digits against an extension.
\<close>

section \<open>Separators\<close>

text \<open>\<open>while (*s == '-') ++s\<close>.\<close>

definition undash :: "string \<Rightarrow> string" where
  "undash s = dropWhile (\<lambda>c. c = CHR ''-'') s"

lemma undash_length: "length (undash s) \<le> length s"
  by (simp add: undash_def length_dropWhile_le)

lemma undash_Cons: "undash s = c # r \<Longrightarrow> c \<noteq> CHR ''-'' \<and> length r < length s"
  using undash_length [of s] hd_dropWhile [of "\<lambda>c. c = CHR ''-''" s] by (auto simp: undash_def)

section \<open>Extensions that are no patterns\<close>

function ext_cmp_exten_strlen :: "string \<Rightarrow> nat" where
  "ext_cmp_exten_strlen str = (case undash str of [] \<Rightarrow> 0 | _ # s \<Rightarrow> Suc (ext_cmp_exten_strlen s))"
  by auto
termination
  by (relation "measure length") (auto dest: undash_Cons sym)

function ext_cmp_exten_partial :: "string \<Rightarrow> string \<Rightarrow> int" where
  "ext_cmp_exten_partial left right =
     (case undash right of
        [] \<Rightarrow> 0
      | r # rs \<Rightarrow>
          (case undash left of
             [] \<Rightarrow> 0 - schar r
           | l # ls \<Rightarrow> if schar l - schar r \<noteq> 0 then schar l - schar r else ext_cmp_exten_partial ls rs))"
  by auto
termination
  by (relation "measure (\<lambda>(l, r). length l)") (auto dest: undash_Cons sym)

function ext_cmp_exten :: "string \<Rightarrow> string \<Rightarrow> int" where
  "ext_cmp_exten left right =
     (case (undash left, undash right) of
        ([], []) \<Rightarrow> 0
      | ([], r # rs) \<Rightarrow> 0 - schar r
      | (l # ls, []) \<Rightarrow> schar l
      | (l # ls, r # rs) \<Rightarrow> if schar l - schar r \<noteq> 0 then schar l - schar r else ext_cmp_exten ls rs)"
  by auto
termination
  by (relation "measure (\<lambda>(l, r). length l)") (auto dest: undash_Cons sym)

declare ext_cmp_exten_strlen.simps [simp del] ext_cmp_exten_partial.simps [simp del] ext_cmp_exten.simps [simp del]

section \<open>Ordering of patterns\<close>

text \<open>
  The 32 bytes \<open>bitwise\<close> are 256 bits, the most significant bit of each byte first, so that
  \<open>memcmp\<close> is the lexicographic comparison of the bits. Both sides always have 256.
\<close>

definition no_bits :: "bool list" where
  "no_bits = replicate 256 False"

definition bits_of :: "nat list \<Rightarrow> bool list" where
  "bits_of cs = map (\<lambda>i. i \<in> set cs) [0..<256]"

fun bits_cmp :: "bool list \<Rightarrow> bool list \<Rightarrow> int" where
  "bits_cmp (a # as) (b # bs) = (if a = b then bits_cmp as bs else if a then 1 else -1)"
| "bits_cmp [] (b # bs) = -1"
| "bits_cmp (a # as) [] = 1"
| "bits_cmp [] [] = 0"

text \<open>
  \<open>for (; c1 <= c2; ++c1)\<close> on \<open>unsigned char\<close>, which never ends when \<open>c2\<close> is 255: adds the characters of
  a range to the set and counts the new ones.
\<close>

partial_function (option) fill_range :: "nat \<Rightarrow> nat \<Rightarrow> bool list \<Rightarrow> nat \<Rightarrow> (bool list \<times> nat) option" where
  "fill_range c1 c2 bits cnt =
     (if c1 \<le> c2
      then if bits ! c1 then fill_range ((c1 + 1) mod 256) c2 bits cnt
           else fill_range ((c1 + 1) mod 256) c2 (bits[c1 := True]) (cnt + 1)
      else Some (bits, cnt))"

text \<open>The loop over the characters of a set: bits, count, and the smallest first character of a range.\<close>

fun fill_set :: "string \<Rightarrow> bool list \<Rightarrow> nat \<Rightarrow> nat \<Rightarrow> (bool list \<times> nat \<times> nat) option" where
  "fill_set [] bits cnt cmin = Some (bits, cnt, cmin)"
| "fill_set (c1 # d # c2 # r) bits cnt cmin =
     (let cmin' = (if uchar c1 < cmin then uchar c1 else cmin) in
      if d = CHR ''-''
      then (case fill_range (uchar c1) (uchar c2) bits cnt of
              None \<Rightarrow> None
            | Some (bits, cnt) \<Rightarrow> fill_set r bits cnt cmin')
      else (case fill_range (uchar c1) (uchar c1) bits cnt of
              None \<Rightarrow> None
            | Some (bits, cnt) \<Rightarrow> fill_set (d # c2 # r) bits cnt cmin'))"
| "fill_set (c1 # r) bits cnt cmin =
     (let cmin' = (if uchar c1 < cmin then uchar c1 else cmin) in
      case fill_range (uchar c1) (uchar c1) bits cnt of
        None \<Rightarrow> None
      | Some (bits, cnt) \<Rightarrow> fill_set r bits cnt cmin')"

definition set_body :: "string \<Rightarrow> string" where
  "set_body p = takeWhile (\<lambda>c. c \<noteq> CHR '']'') p"

definition after_set :: "string \<Rightarrow> string" where
  "after_set p = tl (dropWhile (\<lambda>c. c \<noteq> CHR '']'') p)"

lemma after_set_length: "length (after_set p) \<le> length p"
  using length_dropWhile_le [of "\<lambda>c. c \<noteq> CHR '']''" p] by (simp add: after_set_def)

lemma undash_tail: "undash s = c # r \<Longrightarrow> length r < length s"
  using undash_Cons by blast

lemma undash_after_set: "undash s = c # r \<Longrightarrow> length (after_set r) < length s"
  using undash_Cons after_set_length le_less_trans by blast

text \<open>
  \<open>ext_cmp_pattern_pos\<close>: the score of the next element, its bits, and the rest of the pattern, which is
  \<open>None\<close> (\<open>NULL\<close>) at the end. No result at all is an endless loop. The count and \<open>cmin\<close> are joined by
  \<open>|\<close> on disjoint bits.
\<close>

function ext_cmp_pattern_pos :: "string \<Rightarrow> (nat \<times> bool list \<times> string option) option" where
  "ext_cmp_pattern_pos p =
     (case undash p of
        [] \<Rightarrow> Some (0x30000, no_bits, None)
      | c # q \<Rightarrow>
          if c = CHR ''n'' \<or> c = CHR ''N'' then Some (0x0800 + 50, bits_of [50..<58], Some q)
          else if c = CHR ''x'' \<or> c = CHR ''X'' then Some (0x0A00 + 48, bits_of [48..<58], Some q)
          else if c = CHR ''z'' \<or> c = CHR ''Z'' then Some (0x0900 + 49, bits_of [49..<58], Some q)
          else if c = CHR ''.'' then Some (0x18000, no_bits, Some q)
          else if c = CHR ''!'' then Some (0x28000, no_bits, Some q)
          else if c = CHR ''['' then
            if CHR '']'' \<notin> set q then Some (0x40000, no_bits, Some q)
            else (case fill_set (set_body q) no_bits 0 255 of
                    None \<Rightarrow> None
                  | Some (bits, cnt, cmin) \<Rightarrow>
                      if cnt = 0 then ext_cmp_pattern_pos (after_set q)
                      else Some (0x100 * cnt + cmin, bits, Some (after_set q)))
          else Some (0x0100 + uchar c, bits_of [uchar c], Some q))"
  by auto
termination
  by (relation "measure length") (auto dest!: undash_Cons intro: le_less_trans [OF after_set_length])

declare ext_cmp_pattern_pos.simps [simp del]

lemma pattern_pos_shorter:
  "ext_cmp_pattern_pos p = Some (n, b, Some q) \<Longrightarrow> length q < length p"
proof (induction p rule: ext_cmp_pattern_pos.induct)
  case (1 p)
  from 1(2) obtain c r where cr: "undash p = c # r"
    by (subst (asm) ext_cmp_pattern_pos.simps) (auto split: list.splits)
  note len = undash_Cons [OF cr] after_set_length [of r]
  show ?case
    using 1(2) cr len 1(1) [OF cr]
    by (subst (asm) ext_cmp_pattern_pos.simps) (fastforce split: if_splits option.splits)
qed

text \<open>\<open>ext_cmp_pattern\<close>; \<open>NULL\<close> is only dereferenced, and so no result given, when just one side ended,
  which its score excludes.\<close>

function ext_cmp_pattern :: "string \<Rightarrow> string \<Rightarrow> int option" where
  "ext_cmp_pattern left right =
     (case (ext_cmp_pattern_pos left, ext_cmp_pattern_pos right) of
        (Some (left_pos, left_bits, left'), Some (right_pos, right_bits, right')) \<Rightarrow>
          (let cmp0 = int left_pos - int right_pos;
               cmp = (if cmp0 = 0 then bits_cmp right_bits left_bits else cmp0)
           in if cmp \<noteq> 0 then Some cmp
              else case (left', right') of
                     (None, _) \<Rightarrow> Some cmp
                   | (Some l, Some r) \<Rightarrow> ext_cmp_pattern l r
                   | (Some l, None) \<Rightarrow> None)
      | _ \<Rightarrow> None)"
  by auto
termination
  by (relation "measure (\<lambda>(l, r). length l)") (auto dest: pattern_pos_shorter [OF sym])

declare ext_cmp_pattern.simps [simp del]

definition is_pattern :: "string \<Rightarrow> bool" where
  "is_pattern s \<longleftrightarrow> (case s of c # _ \<Rightarrow> c = CHR ''_'' | [] \<Rightarrow> False)"

definition ext_cmp :: "string \<Rightarrow> string \<Rightarrow> int option" where
  "ext_cmp left right =
     (if \<not> is_pattern left
      then if is_pattern right then Some (-1) else Some (ext_cmp_exten left right)
      else if \<not> is_pattern right then Some 1
      else ext_cmp_pattern (tl left) (tl right))"

definition ast_extension_cmp :: "string \<Rightarrow> string \<Rightarrow> int option" where
  "ast_extension_cmp a b = map_option (\<lambda>cmp. if cmp < 0 then -1 else if cmp > 0 then 1 else 0) (ext_cmp a b)"

section \<open>Matching\<close>

datatype ext_match_t = E_MATCHMORE | E_CANMATCH | E_MATCH | E_SPAWN | E_FINDLABEL

text \<open>\<open>mode &= E_MATCH_MASK\<close>.\<close>

fun match_mask :: "ext_match_t \<Rightarrow> ext_match_t" where
  "match_mask E_SPAWN = E_MATCH"
| "match_mask E_FINDLABEL = E_MATCH"
| "match_mask m = m"

text \<open>The loop over a set: is the character \<open>d\<close> in it?\<close>

fun set_has :: "string \<Rightarrow> char \<Rightarrow> bool" where
  "set_has [] d = False"
| "set_has (c1 # m # c2 # r) d =
     (if m = CHR ''-'' then (schar d \<ge> schar c1 \<and> schar d \<le> schar c2) \<or> set_has r d
      else d = c1 \<or> set_has (m # c2 # r) d)"
| "set_has (c1 # r) d = (d = c1 \<or> set_has r d)"

text \<open>The end of the matching loop: data or pattern is exhausted.\<close>

definition match_end :: "ext_match_t \<Rightarrow> string \<Rightarrow> string \<Rightarrow> int" where
  "match_end mode p d =
     (if d \<noteq> [] then 0
      else if p = [] \<or> hd p = CHR ''/'' then (if mode = E_MATCHMORE then 0 else 1)
      else if hd p = CHR ''!'' then 2
      else if mode = E_MATCH then 0 else 1)"

definition in_digits :: "char \<Rightarrow> char \<Rightarrow> char \<Rightarrow> bool" where
  "in_digits lo hi d \<longleftrightarrow> \<not> (schar d < schar lo \<or> schar d > schar hi)"

function match_loop :: "ext_match_t \<Rightarrow> string \<Rightarrow> string \<Rightarrow> int" where
  "match_loop mode pat dat =
     (case (undash pat, undash dat) of
        (c # p, d # ds) \<Rightarrow>
          if c = CHR ''/'' then match_end mode (c # p) (d # ds)
          else if c = CHR ''['' then
            if CHR '']'' \<notin> set p then 0
            else if set_body p = [] then match_loop mode (after_set p) (d # ds)
            else if set_has (set_body p) d then match_loop mode (after_set p) ds
            else 0
          else if c = CHR ''n'' \<or> c = CHR ''N'' then
            if in_digits (CHR ''2'') (CHR ''9'') d then match_loop mode p ds else 0
          else if c = CHR ''x'' \<or> c = CHR ''X'' then
            if in_digits (CHR ''0'') (CHR ''9'') d then match_loop mode p ds else 0
          else if c = CHR ''z'' \<or> c = CHR ''Z'' then
            if in_digits (CHR ''1'') (CHR ''9'') d then match_loop mode p ds else 0
          else if c = CHR ''.'' then 1
          else if c = CHR ''!'' then 2
          else if d = c then match_loop mode p ds else 0
      | (p, d) \<Rightarrow> match_end mode p d)"
  by auto
termination
  by (relation "measure (\<lambda>(m, p, d). length p)", simp_all) (metis undash_after_set undash_tail)+

declare match_loop.simps [simp del]

text \<open>The comparison of two patterns may loop for ever, so the result is optional.\<close>

definition extension_match_core_aux :: "string \<Rightarrow> string \<Rightarrow> ext_match_t \<Rightarrow> int option" where
  "extension_match_core_aux pattern data mode0 =
     (let mode = match_mask mode0 in
      if \<not> is_pattern pattern
      then let lp = ext_cmp_exten_strlen pattern; ld = ext_cmp_exten_strlen data in
        Some (if lp < ld then 0
              else if mode = E_MATCH then (if ext_cmp_exten pattern data = 0 then 1 else 0)
              else if ld = 0 \<or> ext_cmp_exten_partial pattern data = 0
              then (if mode = E_MATCHMORE then (if lp > ld then 1 else 0) else 1)
              else 0)
      else if mode = E_MATCH \<and> is_pattern data
      then (case ext_cmp_pattern (tl pattern) (tl data) of
              None \<Rightarrow> None
            | Some cmp \<Rightarrow> if cmp = 0 then Some 1 else Some (match_loop mode (tl pattern) data))
      else Some (match_loop mode (tl pattern) data))"

text \<open>\<open>extension_match_core\<close> only adds profiling; \<open>NULL\<close> and empty strings are the same.\<close>

definition extension_match_core :: "string \<Rightarrow> string \<Rightarrow> ext_match_t \<Rightarrow> int option" where
  "extension_match_core pattern data mode = extension_match_core_aux pattern data mode"

definition ast_extension_match :: "string \<Rightarrow> string \<Rightarrow> int option" where
  "ast_extension_match pattern data = extension_match_core pattern data E_MATCH"

definition ast_extension_close :: "string \<Rightarrow> string \<Rightarrow> ext_match_t \<Rightarrow> int option" where
  "ast_extension_close pattern data needmore = extension_match_core pattern data needmore"

definition matchcid :: "string \<Rightarrow> string \<Rightarrow> int option" where
  "matchcid cidpattern callerid =
     (if callerid = [] then Some (if cidpattern = [] then 1 else 0) else ast_extension_match cidpattern callerid)"

section \<open>Extensions without their separators\<close>

definition strip :: "string \<Rightarrow> string" where
  "strip s = filter (\<lambda>c. c \<noteq> CHR ''-'') s"

lemma strip_undash: "strip (undash s) = strip s"
  by (induction s) (auto simp: strip_def undash_def)

lemma undash_strip_Nil: "undash s = [] \<longleftrightarrow> strip s = []"
  by (auto simp: undash_def strip_def filter_empty_conv dropWhile_eq_Nil_conv)

lemma undash_strip_Cons: "undash s = c # r \<Longrightarrow> strip s = c # strip r"
  using strip_undash [of s] undash_Cons [of s c r] by (simp add: strip_def)

lemma strip_append [simp]: "strip (a @ b) = strip a @ strip b"
  by (simp add: strip_def)

lemma exten_strlen: "ext_cmp_exten_strlen s = length (strip s)"
proof (induction s rule: ext_cmp_exten_strlen.induct)
  case (1 s)
  show ?case
  proof (cases "undash s")
    case Nil
    then show ?thesis using undash_strip_Nil [of s] by (subst ext_cmp_exten_strlen.simps) simp
  next
    case (Cons c r)
    with 1 [OF Cons] undash_strip_Cons [OF Cons] show ?thesis by (subst ext_cmp_exten_strlen.simps) simp
  qed
qed

lemma schar_inj: "schar c = schar d \<longleftrightarrow> c = d"
proof
  have b: "of_char c < (256 :: nat)" "of_char d < (256 :: nat)" by simp_all
  assume "schar c = schar d"
  then have "of_char c = (of_char d :: nat)"
    unfolding schar_def using b by (simp only: split: if_splits)
  then show "c = d" by simp
qed simp

lemma schar_zero: "schar c = 0 \<longleftrightarrow> c = CHR 0x00"
  using schar_inj [of c "CHR 0x00"] by (simp add: schar_def)

definition no_nul :: "string \<Rightarrow> bool" where
  "no_nul s \<longleftrightarrow> CHR 0x00 \<notin> set s"

lemma no_nul_undash: "no_nul s \<Longrightarrow> undash s = c # r \<Longrightarrow> c \<noteq> CHR 0x00 \<and> no_nul r"
  using set_dropWhileD [of _ "\<lambda>c. c = CHR ''-''" s] unfolding no_nul_def undash_def by (metis list.set_intros)

section \<open>Comparison by the first difference\<close>

fun first_diff :: "('a \<Rightarrow> 'a \<Rightarrow> int) \<Rightarrow> 'a list \<Rightarrow> 'a list \<Rightarrow> int" where
  "first_diff c (x # xs) (y # ys) = (if c x y \<noteq> 0 then c x y else first_diff c xs ys)"
| "first_diff c _ _ = 0"

text \<open>A list that ends with an end marker, which occurs nowhere else.\<close>

definition ended :: "'a \<Rightarrow> 'a list \<Rightarrow> bool" where
  "ended e xs \<longleftrightarrow> (\<exists>ys. xs = ys @ [e] \<and> e \<notin> set ys)"

lemma ended_Cons: "ended e (x # xs) \<longleftrightarrow> (if xs = [] then x = e else x \<noteq> e \<and> ended e xs)"
proof (cases "xs = []")
  case True
  then show ?thesis by (auto simp: ended_def)
next
  case False
  have "ended e (x # xs) \<longleftrightarrow> x \<noteq> e \<and> ended e xs"
  proof
    assume "ended e (x # xs)"
    then obtain ys where "x # xs = ys @ [e]" "e \<notin> set ys" by (auto simp: ended_def)
    with False show "x \<noteq> e \<and> ended e xs" by (cases ys) (auto simp: ended_def)
  next
    assume "x \<noteq> e \<and> ended e xs"
    then obtain ys where "xs = ys @ [e]" "e \<notin> set ys" by (auto simp: ended_def)
    with \<open>x \<noteq> e \<and> ended e xs\<close> show "ended e (x # xs)" by (auto simp: ended_def intro: exI [of _ "x # ys"])
  qed
  with False show ?thesis by simp
qed

lemma ended_Nil [simp]: "\<not> ended e []"
  by (simp add: ended_def)

locale comparison =
  fixes c :: "'a \<Rightarrow> 'a \<Rightarrow> int"
  assumes zero: "c x y = 0 \<longleftrightarrow> x = y"
    and swap: "c y x = - c x y"
    and trans: "c x y < 0 \<Longrightarrow> c y z < 0 \<Longrightarrow> c x z < 0"
begin

lemma first_diff_swap: "first_diff c ys xs = - first_diff c xs ys"
proof (induction xs arbitrary: ys)
  case Nil
  then show ?case by simp
next
  case (Cons x xs)
  then show ?case using swap [of _ x] by (cases ys) auto
qed

lemma first_diff_zero: "ended e xs \<Longrightarrow> ended e ys \<Longrightarrow> first_diff c xs ys = 0 \<longleftrightarrow> xs = ys"
proof (induction xs arbitrary: ys)
  case (Cons x xs)
  then show ?case by (cases ys) (auto simp: zero ended_Cons split: if_splits)
qed simp

lemma first_diff_trans:
  "ended e xs \<Longrightarrow> ended e ys \<Longrightarrow> ended e zs \<Longrightarrow> first_diff c xs ys < 0 \<Longrightarrow> first_diff c ys zs < 0 \<Longrightarrow> first_diff c xs zs < 0"
proof (induction xs arbitrary: ys zs)
  case (Cons x xs)
  have "ys \<noteq> []" "zs \<noteq> []" using Cons.prems(2,3) by auto
  then obtain y ys' z zs' where l: "ys = y # ys'" "zs = z # zs'" by (auto simp: neq_Nil_conv)
  show ?case
  proof (cases "c x y = 0 \<and> c y z = 0")
    case True
    with zero have "x = y" "y = z" by auto
    moreover have "c z z = 0" using zero by blast
    moreover from this calculation have "first_diff c xs ys' < 0" "first_diff c ys' zs' < 0" using Cons.prems(4,5) l by auto
    moreover have "xs \<noteq> []" "ys' \<noteq> []" "zs' \<noteq> []" using calculation by auto
    ultimately show ?thesis using Cons.IH [of ys' zs'] Cons.prems(1-3) l by (simp add: ended_Cons)
  next
    case False
    have "c x z < 0"
    proof (cases "c x y = 0 \<or> c y z = 0")
      case True
      then have "x = y \<or> y = z" using zero by blast
      with False Cons.prems(4,5) l zero show ?thesis by (auto split: if_splits)
    qed (use Cons.prems(4,5) l trans [of x y z] in \<open>auto split: if_splits\<close>)
    then show ?thesis using l by simp
  qed
qed simp

lemma first_diff_le_trans:
  assumes "ended e xs" "ended e ys" "ended e zs" "first_diff c xs ys \<le> 0" "first_diff c ys zs \<le> 0"
  shows "first_diff c xs zs \<le> 0"
proof (cases "first_diff c xs ys = 0 \<or> first_diff c ys zs = 0")
  case True
  with first_diff_zero assms show ?thesis by metis
next
  case False
  with first_diff_trans [OF assms(1-3)] assms(4,5) show ?thesis by simp
qed

end

interpretation ic: comparison "\<lambda>x y. x - y :: int"
  by unfold_locales auto

lemma exten_first_diff:
  "ext_cmp_exten l r = first_diff (-) (map schar (strip l) @ [0]) (map schar (strip r) @ [0])"
  if "no_nul l" "no_nul r"
  using that
proof (induction l r rule: ext_cmp_exten.induct)
  case (1 l r)
  note nn = no_nul_undash [OF 1(2)] no_nul_undash [OF 1(3)]
  show ?case
  proof (cases "undash l"; cases "undash r")
    fix x ls y rs assume u: "undash l = x # ls" "undash r = y # rs"
    then show ?thesis
      using 1(1) [OF refl u(1) u(2)] nn undash_strip_Cons [OF u(1)] undash_strip_Cons [OF u(2)]
      by (subst ext_cmp_exten.simps) (auto simp: u)
  qed (use nn undash_strip_Nil undash_strip_Cons schar_zero in \<open>subst ext_cmp_exten.simps, force split: list.splits\<close>)+
qed

section \<open>Patterns as lists of scored elements\<close>

type_synonym token = "nat \<times> bool list"

definition token_cmp :: "token \<Rightarrow> token \<Rightarrow> int" where
  "token_cmp a b = (if fst a \<noteq> fst b then int (fst a) - int (fst b) else bits_cmp (snd b) (snd a))"

definition end_token :: token where
  "end_token = (0x30000, no_bits)"

function tokens :: "string \<Rightarrow> token list option" where
  "tokens p =
     (case ext_cmp_pattern_pos p of
        None \<Rightarrow> None
      | Some (n, b, None) \<Rightarrow> Some [(n, b)]
      | Some (n, b, Some q) \<Rightarrow> map_option ((#) (n, b)) (tokens q))"
  by auto
termination
  by (relation "measure length") (auto dest: pattern_pos_shorter)

declare tokens.simps [simp del]

lemma bits_cmp_swap: "bits_cmp b a = - bits_cmp a b"
  by (induction a b rule: bits_cmp.induct) auto

lemma bits_cmp_zero: "bits_cmp a b = 0 \<longleftrightarrow> a = b"
  by (induction a b rule: bits_cmp.induct) auto

lemma bits_cmp_trans: "bits_cmp a b < 0 \<Longrightarrow> bits_cmp b d < 0 \<Longrightarrow> bits_cmp a d < 0"
proof (induction a b arbitrary: d rule: bits_cmp.induct)
  case (1 x xs y ys)
  then show ?case by (cases d) (auto split: if_splits)
next
  case (2 y ys)
  then show ?case by (cases d) auto
qed auto

interpretation tc: comparison token_cmp
proof
  fix x y z :: token
  show "token_cmp x y = 0 \<longleftrightarrow> x = y" by (auto simp: token_cmp_def bits_cmp_zero prod_eq_iff)
  show "token_cmp y x = - token_cmp x y"
    using bits_cmp_swap [of "snd x" "snd y"] by (simp add: token_cmp_def)
  have "bits_cmp (snd z) (snd x) < 0" if "bits_cmp (snd y) (snd x) < 0" "bits_cmp (snd z) (snd y) < 0"
    using bits_cmp_trans [OF that(2,1)] .
  then show "token_cmp x y < 0 \<Longrightarrow> token_cmp y z < 0 \<Longrightarrow> token_cmp x z < 0"
    by (simp add: token_cmp_def split: if_splits)
qed

text \<open>Setting a bit that was clear.\<close>

definition popcount :: "bool list \<Rightarrow> nat" where
  "popcount b = length (filter (\<lambda>x. x) b)"

lemma popcount_set: "i < length b \<Longrightarrow> \<not> b ! i \<Longrightarrow> popcount (b[i := True]) = Suc (popcount b)"
proof (induction b arbitrary: i)
  case (Cons x b)
  then show ?case by (cases i) (auto simp: popcount_def)
qed simp

lemma popcount_le: "popcount b \<le> length b"
  by (simp add: popcount_def)

lemma fill_range_total:
  assumes "c2 < 255" "c1 \<le> 255" "length bits = 256"
  shows "\<exists>b n. fill_range c1 c2 bits cnt = Some (b, n) \<and> length b = 256 \<and> n + popcount bits = cnt + popcount b"
  using assms
proof (induction "Suc c2 - c1" arbitrary: c1 bits cnt)
  case 0
  then show ?case by (subst fill_range.simps) simp
next
  case (Suc k)
  have m: "(c1 + 1) mod 256 = c1 + 1" "c1 < length bits" "c1 \<le> c2" using Suc by auto
  have ih: "\<exists>b n. fill_range (c1 + 1) c2 bits' cnt' = Some (b, n) \<and> length b = 256 \<and> n + popcount bits' = cnt' + popcount b"
    if "length bits' = 256" for bits' cnt'
    using Suc.hyps(1) [of "c1 + 1" bits' cnt'] Suc.hyps(2) Suc.prems that by auto
  show ?case
  proof (cases "bits ! c1")
    case True
    with ih [OF Suc.prems(3), of cnt] m show ?thesis by (subst fill_range.simps) simp
  next
    case False
    with ih [of "bits[c1 := True]" "cnt + 1"] popcount_set [OF m(2) False] m(1,3) Suc.prems(3)
    show ?thesis by (subst fill_range.simps) auto
  qed
qed

text \<open>A range up to character 255 is filled for ever.\<close>

lemma fill_body_cases:
  fixes fill :: "nat \<Rightarrow> nat \<Rightarrow> bool list \<Rightarrow> nat \<Rightarrow> (bool list \<times> nat) option"
  assumes body: "(if c1 \<le> c2 then if bits ! c1 then fill ((c1 + 1) mod 256) c2 bits cnt
          else fill ((c1 + 1) mod 256) c2 (bits[c1 := True]) (cnt + 1) else Some (bits, cnt)) = Some r"
  shows "\<not> c1 \<le> c2 \<or> (\<exists>b n. fill ((c1 + 1) mod 256) c2 b n = Some r)"
proof (cases "c1 \<le> c2")
  case True
  with body have b: "(if bits ! c1 then fill ((c1 + 1) mod 256) c2 bits cnt
          else fill ((c1 + 1) mod 256) c2 (bits[c1 := True]) (cnt + 1)) = Some r" by (simp only: if_True)
  show ?thesis
  proof (cases "bits ! c1")
    case True
    with b have "fill ((c1 + 1) mod 256) c2 bits cnt = Some r" by (simp only: if_True)
    then show ?thesis by blast
  next
    case False
    with b have "fill ((c1 + 1) mod 256) c2 (bits[c1 := True]) (cnt + 1) = Some r" by (simp only: if_False)
    then show ?thesis by blast
  qed
qed simp

lemma fill_range_partial: "fill_range c1 c2 bits cnt = Some r \<Longrightarrow> 255 \<le> c2 \<longrightarrow> c1 \<le> 255 \<longrightarrow> False"
proof (rule fill_range.raw_induct [of "\<lambda>c1 c2 bits cnt r. 255 \<le> c2 \<longrightarrow> c1 \<le> 255 \<longrightarrow> False"])
  fix fill :: "nat \<Rightarrow> nat \<Rightarrow> bool list \<Rightarrow> nat \<Rightarrow> (bool list \<times> nat) option"
  fix c1 c2 bits cnt r
  assume ih: "\<And>c1 c2 bits cnt r. fill c1 c2 bits cnt = Some r \<Longrightarrow> 255 \<le> c2 \<longrightarrow> c1 \<le> 255 \<longrightarrow> False"
    and body: "(if c1 \<le> c2 then if bits ! c1 then fill ((c1 + 1) mod 256) c2 bits cnt
          else fill ((c1 + 1) mod 256) c2 (bits[c1 := True]) (cnt + 1) else Some (bits, cnt)) = Some r"
  have r: "\<not> c1 \<le> c2 \<or> (\<exists>b n. fill ((c1 + 1) mod 256) c2 b n = Some r)"
    using fill_body_cases [of c1 c2 bits fill cnt r] body by blast
  have m: "(c1 + 1) mod 256 \<le> 255" using mod_less_divisor [of 256 "c1 + 1"] by linarith
  show "255 \<le> c2 \<longrightarrow> c1 \<le> 255 \<longrightarrow> False"
  proof (intro impI)
    assume c: "255 \<le> c2" "c1 \<le> 255"
    with r obtain b n where "fill ((c1 + 1) mod 256) c2 b n = Some r" by auto
    from ih [OF this] c(1) m show False by blast
  qed
qed

definition no_ff :: "string \<Rightarrow> bool" where
  "no_ff s \<longleftrightarrow> CHR 0xFF \<notin> set s"

lemma uchar_bound: "uchar c \<le> 255" "c \<noteq> CHR 0xFF \<Longrightarrow> uchar c < 255"
proof -
  have b: "of_char c < (256 :: nat)" by simp
  then show "uchar c \<le> 255" unfolding uchar_def by linarith
  assume "c \<noteq> CHR 0xFF"
  moreover have "c = char_of (255 :: nat)" if "of_char c = (255 :: nat)" using that by (metis char_of_char)
  ultimately have "of_char c \<noteq> (255 :: nat)" by (auto simp: char_of_def)
  with b show "uchar c < 255" unfolding uchar_def by linarith
qed

lemma fill_range_then:
  assumes "uchar hi < 255" "length bits = 256"
  obtains b n where "fill_range (uchar c1) (uchar hi) bits cnt = Some (b, n)" "length b = 256"
    "n + popcount bits = cnt + popcount b"
  using fill_range_total [OF assms(1) uchar_bound(1) assms(2), of c1 cnt] by blast

lemma no_ff_Cons: "no_ff (c # s) \<longleftrightarrow> c \<noteq> CHR 0xFF \<and> no_ff s"
  by (auto simp: no_ff_def)

lemma fill_set_total:
  assumes "no_ff s" "length bits = 256" "cmin \<le> 255"
  shows "\<exists>b n m. fill_set s bits cnt cmin = Some (b, n, m) \<and> length b = 256 \<and> n + popcount bits = cnt + popcount b \<and> m \<le> 255"
  using assms
proof (induction "length s" arbitrary: s bits cnt cmin rule: less_induct)
  case less
  show ?case
  proof (cases s)
    case Nil
    with less.prems show ?thesis by simp
  next
    case (Cons c1 r)
    define cmin' where "cmin' = (if uchar c1 < cmin then uchar c1 else cmin)"
    have cm: "cmin' \<le> 255" using less.prems(3) by (simp add: cmin'_def)
    have step: "\<exists>b n m. (case fill_range (uchar c1) (uchar hi) bits cnt of None \<Rightarrow> None
        | Some (bits, cnt) \<Rightarrow> fill_set q bits cnt cmin') = Some (b, n, m) \<and> length b = 256 \<and>
        n + popcount bits = cnt + popcount b \<and> m \<le> 255"
      if hi: "hi \<noteq> CHR 0xFF" and q: "no_ff q" "length q < length s" for hi q
    proof -
      obtain b n where f: "fill_range (uchar c1) (uchar hi) bits cnt = Some (b, n)" "length b = 256"
        "n + popcount bits = cnt + popcount b"
        using fill_range_then [OF uchar_bound(2) [OF hi] less.prems(2)] .
      from less.hyps [OF q(2,1) f(2) cm, of n] f show ?thesis by auto
    qed
    have nf: "c1 \<noteq> CHR 0xFF" "no_ff r" using less.prems(1) Cons by (simp_all add: no_ff_Cons)
    have single: "fill_set s bits cnt cmin = (case fill_range (uchar c1) (uchar c1) bits cnt of None \<Rightarrow> None
        | Some (bits, cnt) \<Rightarrow> fill_set r bits cnt cmin')" if "\<And>d c2 q. r = d # c2 # q \<Longrightarrow> d \<noteq> CHR ''-''"
    proof -
      consider (nil) "r = []" | (one) d where "r = [d]" | (two) d c2 q where "r = d # c2 # q"
        by (cases r rule: remdups_adj.cases) auto
      then show ?thesis
        by cases (use Cons that in \<open>simp_all only: fill_set.simps Let_def cmin'_def if_False\<close>)
    qed
    show ?thesis
    proof (cases "\<exists>c2 q. r = CHR ''-'' # c2 # q")
      case True
      then obtain c2 q where r: "r = CHR ''-'' # c2 # q" by blast
      then have "fill_set s bits cnt cmin = (case fill_range (uchar c1) (uchar c2) bits cnt of None \<Rightarrow> None
          | Some (bits, cnt) \<Rightarrow> fill_set q bits cnt cmin')"
        using Cons by (simp only: fill_set.simps Let_def cmin'_def if_True simp_thms)
      with r step [of c2 q] nf Cons show ?thesis by (simp add: no_ff_Cons)
    next
      case False
      then have "fill_set s bits cnt cmin = (case fill_range (uchar c1) (uchar c1) bits cnt of None \<Rightarrow> None
          | Some (bits, cnt) \<Rightarrow> fill_set r bits cnt cmin')" by (intro single) blast
      with step [of c1 r] nf Cons show ?thesis by simp
    qed
  qed
qed

lemma no_ff_undash: "no_ff s \<Longrightarrow> undash s = c # r \<Longrightarrow> c \<noteq> CHR 0xFF \<and> no_ff r"
  using set_dropWhileD [of _ "\<lambda>c. c = CHR ''-''" s] unfolding no_ff_def undash_def by (metis list.set_intros)

lemma no_ff_set: "no_ff s \<Longrightarrow> no_ff (set_body s)" "no_ff s \<Longrightarrow> no_ff (after_set s)"
proof -
  show "no_ff s \<Longrightarrow> no_ff (set_body s)" by (auto simp: no_ff_def set_body_def dest: set_takeWhileD)
  show "no_ff s \<Longrightarrow> no_ff (after_set s)"
    unfolding no_ff_def after_set_def by (metis list.set_sel(2) set_dropWhileD tl_Nil)
qed

lemma pattern_pos_total:
  assumes "no_ff p"
  shows "\<exists>n b q. ext_cmp_pattern_pos p = Some (n, b, q) \<and>
    (case q of None \<Rightarrow> (n, b) = end_token | Some q' \<Rightarrow> n \<noteq> 0x30000 \<and> no_ff q')"
  using assms
proof (induction p rule: ext_cmp_pattern_pos.induct)
  case (1 p)
  show ?case
  proof (cases "undash p")
    case Nil
    then show ?thesis by (subst ext_cmp_pattern_pos.simps) (simp add: end_token_def)
  next
    case (Cons c q)
    note nf = no_ff_undash [OF 1(2) Cons]
    show ?thesis
    proof (cases "c = CHR ''['' \<and> CHR '']'' \<in> set q")
      case False
      have "uchar c < 256" using uchar_bound(1) [of c] by simp
      with False Cons nf show ?thesis by (subst ext_cmp_pattern_pos.simps) auto
    next
      case True
      have len: "length no_bits = 256" "popcount no_bits = 0" by (simp_all add: no_bits_def popcount_def)
      from fill_set_total [OF no_ff_set(1) [OF conjunct2 [OF nf]] len(1), of 255 0] obtain b n m where
        f: "fill_set (set_body q) no_bits 0 255 = Some (b, n, m)" "length b = 256" "n = popcount b" "m \<le> 255"
        using len by auto
      then have "n \<le> 256" using popcount_le [of b] by simp
      then have bound: "0x100 * n + m \<noteq> 0x30000" using f(4) by simp
      show ?thesis
        using True Cons f bound 1(1) [OF Cons _ _ _ _ _ _ _ f(1) refl refl] nf no_ff_set(2)
        by (subst ext_cmp_pattern_pos.simps) auto
    qed
  qed
qed

lemma tokens_total:
  "no_ff p \<Longrightarrow> \<exists>ts. tokens p = Some ts \<and> ended end_token ts"
proof (induction p rule: tokens.induct)
  case (1 p)
  from pattern_pos_total [OF 1(2)] obtain n b q where q: "ext_cmp_pattern_pos p = Some (n, b, q)"
    "case q of None \<Rightarrow> (n, b) = end_token | Some q' \<Rightarrow> n \<noteq> 0x30000 \<and> no_ff q'" by blast
  show ?case
  proof (cases q)
    case None
    with q show ?thesis by (subst tokens.simps) (simp add: ended_Cons)
  next
    case (Some q')
    with 1(1) [OF q(1) refl refl Some] q obtain ts where "tokens q' = Some ts" "ended end_token ts" by auto
    with q Some show ?thesis by (subst tokens.simps) (auto simp: ended_Cons end_token_def)
  qed
qed

lemma pattern_first_diff:
  "no_ff l \<Longrightarrow> no_ff r \<Longrightarrow> ext_cmp_pattern l r = Some (first_diff token_cmp (the (tokens l)) (the (tokens r)))"
proof (induction l r rule: ext_cmp_pattern.induct)
  case (1 l r)
  from pattern_pos_total [OF 1(2)] obtain n b q where q: "ext_cmp_pattern_pos l = Some (n, b, q)"
    "case q of None \<Rightarrow> (n, b) = end_token | Some q' \<Rightarrow> n \<noteq> 0x30000 \<and> no_ff q'" by blast
  from pattern_pos_total [OF 1(3)] obtain n' b' s where s: "ext_cmp_pattern_pos r = Some (n', b', s)"
    "case s of None \<Rightarrow> (n', b') = end_token | Some q' \<Rightarrow> n' \<noteq> 0x30000 \<and> no_ff q'" by blast
  have tl: "the (tokens l) = (n, b) # (case q of None \<Rightarrow> [] | Some q' \<Rightarrow> the (tokens q'))"
    using q tokens_total by (subst tokens.simps) (fastforce split: option.splits)
  have tr: "the (tokens r) = (n', b') # (case s of None \<Rightarrow> [] | Some q' \<Rightarrow> the (tokens q'))"
    using s tokens_total by (subst tokens.simps) (fastforce split: option.splits)
  show ?case
  proof (cases "n = n' \<and> b = b'")
    case False
    then have "token_cmp (n, b) (n', b') \<noteq> 0" using tc.zero by blast
    with tl tr q(1) s(1) show ?thesis by (subst ext_cmp_pattern.simps) (auto simp: token_cmp_def Let_def)
  next
    case True
    then have z: "token_cmp (n, b) (n', b') = 0" "bits_cmp b b = 0" using tc.zero bits_cmp_zero by blast+
    show ?thesis
    proof (cases q)
      case None
      with z q(1) s(1) tl tr True show ?thesis by (subst ext_cmp_pattern.simps) (auto simp: Let_def)
    next
      case (Some l')
      with q(2) s(2) True obtain r' where s': "s = Some r'" by (cases s) (auto simp: end_token_def)
      have "ext_cmp_pattern l' r' = Some (first_diff token_cmp (the (tokens l')) (the (tokens r')))"
        using 1(1) [OF refl q(1) refl refl s(1) refl refl refl refl _ refl Some s'] q(2) s(2) True z Some s'
        by simp
      with z q(1) s(1) tl tr True Some s' show ?thesis by (subst ext_cmp_pattern.simps) (auto simp: Let_def)
    qed
  qed
qed

section \<open>The numbers a pattern describes\<close>

datatype pat_elem = P_class "char \<Rightarrow> bool" | P_empty | P_dot | P_bang | P_bad

text \<open>The ranges of a set of characters, and the characters of a class of digits.\<close>

fun set_items :: "string \<Rightarrow> (char \<times> char) list" where
  "set_items [] = []"
| "set_items (lo # m # hi # r) = (if m = CHR ''-'' then (lo, hi) # set_items r else (lo, lo) # set_items (m # hi # r))"
| "set_items (c # r) = (c, c) # set_items r"

definition in_set :: "string \<Rightarrow> char \<Rightarrow> bool" where
  "in_set s d \<longleftrightarrow> (\<exists>(lo, hi) \<in> set (set_items s). schar lo \<le> schar d \<and> schar d \<le> schar hi)"

definition one_of :: "string \<Rightarrow> char \<Rightarrow> bool" where
  "one_of s d \<longleftrightarrow> d \<in> set s"

lemma schar_between: "schar c \<le> schar d \<and> schar d \<le> schar c \<longleftrightarrow> d = c"
  using schar_inj [of c d] by auto

lemma set_has_items: "set_has s d = in_set s d"
proof (induction s d rule: set_has.induct)
  case (2 c1 m c2 r d)
  then show ?case by (cases "m = CHR ''-''") (auto simp: in_set_def schar_between)
qed (auto simp: in_set_def schar_between)

lemma in_digits_iff:
  "in_digits (CHR ''2'') (CHR ''9'') d \<longleftrightarrow> one_of ''23456789'' d"
  "in_digits (CHR ''0'') (CHR ''9'') d \<longleftrightarrow> one_of ''0123456789'' d"
  "in_digits (CHR ''1'') (CHR ''9'') d \<longleftrightarrow> one_of ''123456789'' d"
proof -
  have d: "schar d = 48 \<longleftrightarrow> d = CHR ''0''" "schar d = 49 \<longleftrightarrow> d = CHR ''1''" "schar d = 50 \<longleftrightarrow> d = CHR ''2''"
    "schar d = 51 \<longleftrightarrow> d = CHR ''3''" "schar d = 52 \<longleftrightarrow> d = CHR ''4''" "schar d = 53 \<longleftrightarrow> d = CHR ''5''"
    "schar d = 54 \<longleftrightarrow> d = CHR ''6''" "schar d = 55 \<longleftrightarrow> d = CHR ''7''" "schar d = 56 \<longleftrightarrow> d = CHR ''8''"
    "schar d = 57 \<longleftrightarrow> d = CHR ''9''"
    using schar_inj [of d] by (simp_all add: schar_inj [symmetric] schar_def del: of_char_eq_iff)
  have v: "schar (CHR ''0'') = 48" "schar (CHR ''1'') = 49" "schar (CHR ''2'') = 50" "schar (CHR ''9'') = 57"
    by (simp_all add: schar_def)
  show "in_digits (CHR ''2'') (CHR ''9'') d \<longleftrightarrow> one_of ''23456789'' d"
    unfolding one_of_def in_digits_def v list.set insert_iff empty_iff d [symmetric] by presburger
  show "in_digits (CHR ''0'') (CHR ''9'') d \<longleftrightarrow> one_of ''0123456789'' d"
    unfolding one_of_def in_digits_def v list.set insert_iff empty_iff d [symmetric] by presburger
  show "in_digits (CHR ''1'') (CHR ''9'') d \<longleftrightarrow> one_of ''123456789'' d"
    unfolding one_of_def in_digits_def v list.set insert_iff empty_iff d [symmetric] by presburger
qed

text \<open>The elements of a pattern; nothing after a wildcard, the separator \<open>/\<close> or an open set is ever read.\<close>

function pat_elems :: "string \<Rightarrow> pat_elem list" where
  "pat_elems p =
     (case undash p of
        [] \<Rightarrow> []
      | c # q \<Rightarrow>
          if c = CHR ''/'' then []
          else if c = CHR ''['' then
            if CHR '']'' \<notin> set q then [P_bad]
            else if set_body q = [] then P_empty # pat_elems (after_set q)
            else P_class (in_set (set_body q)) # pat_elems (after_set q)
          else if c = CHR ''n'' \<or> c = CHR ''N'' then P_class (one_of ''23456789'') # pat_elems q
          else if c = CHR ''x'' \<or> c = CHR ''X'' then P_class (one_of ''0123456789'') # pat_elems q
          else if c = CHR ''z'' \<or> c = CHR ''Z'' then P_class (one_of ''123456789'') # pat_elems q
          else if c = CHR ''.'' then [P_dot]
          else if c = CHR ''!'' then [P_bang]
          else P_class (\<lambda>d. d = c) # pat_elems q)"
  by auto
termination
  by (relation "measure length") (auto dest: undash_tail undash_after_set)

declare pat_elems.simps [simp del]

text \<open>The language of a list of elements. An empty set stands for nothing, as the comments in the code say.\<close>

inductive pat_lang :: "pat_elem list \<Rightarrow> string \<Rightarrow> bool" where
  lang_end: "pat_lang [] []"
| lang_class: "f d \<Longrightarrow> pat_lang es ds \<Longrightarrow> pat_lang (P_class f # es) (d # ds)"
| lang_empty: "pat_lang es ds \<Longrightarrow> pat_lang (P_empty # es) ds"
| lang_dot: "pat_lang (P_dot # es) (d # ds)"
| lang_bang: "pat_lang (P_bang # es) ds"

inductive_simps lang_simps [simp]:
  "pat_lang [] ds" "pat_lang (P_class f # es) ds" "pat_lang (P_empty # es) ds" "pat_lang (P_dot # es) ds"
  "pat_lang (P_bang # es) ds" "pat_lang (P_bad # es) ds"

text \<open>An empty set behind which no digit is needed. The code does not ignore it when the number ends there.\<close>

fun final_empty :: "pat_elem list \<Rightarrow> bool" where
  "final_empty [] = False"
| "final_empty (P_empty # es) = (pat_lang es [] \<or> final_empty es)"
| "final_empty (e # es) = final_empty es"

definition exten_final_empty :: "string \<Rightarrow> bool" where
  "exten_final_empty p \<longleftrightarrow> is_pattern p \<and> final_empty (pat_elems (tl p))"

definition exten_lang :: "string \<Rightarrow> string \<Rightarrow> bool" where
  "exten_lang p d \<longleftrightarrow> (if is_pattern p then pat_lang (pat_elems (tl p)) d else d = strip p)"

text \<open>The matching loop over the elements.\<close>

fun pmatch :: "ext_match_t \<Rightarrow> pat_elem list \<Rightarrow> string \<Rightarrow> int" where
  "pmatch m [] ds = (if ds \<noteq> [] \<or> m = E_MATCHMORE then 0 else 1)"
| "pmatch m (P_bang # es) ds = 2"
| "pmatch m (e # es) [] = (if m = E_MATCH then 0 else 1)"
| "pmatch m (P_class f # es) (d # ds) = (if f d then pmatch m es ds else 0)"
| "pmatch m (P_empty # es) (d # ds) = pmatch m es (d # ds)"
| "pmatch m (P_dot # es) (d # ds) = 1"
| "pmatch m (P_bad # es) (d # ds) = 0"

lemma match_loop_elems: "match_loop m p d = pmatch m (pat_elems p) (strip d)"
proof (induction m p d rule: match_loop.induct)
  case (1 m p d)
  show ?case
  proof (cases "undash p")
    case Nil
    then show ?thesis
      using undash_strip_Nil [of d] by (cases "undash d"; subst match_loop.simps; subst pat_elems.simps) (auto simp: match_end_def)
  next
    case p: (Cons c q)
    show ?thesis
    proof (cases "undash d")
      case Nil
      then have "strip d = []" using undash_strip_Nil by simp
      with Nil p show ?thesis
        by (subst match_loop.simps, subst pat_elems.simps) (simp add: match_end_def)
    next
      case d: (Cons x ds)
      have sx: "strip (x # ds) = x # strip ds" using undash_Cons [OF d] by (simp add: strip_def)
      note ih = 1 [OF refl p d] and u = undash_strip_Cons [OF d] p d
      show ?thesis
      proof (cases "c = CHR ''[''")
        case True
        with ih(1,2) u sx show ?thesis by (subst match_loop.simps, subst pat_elems.simps) (simp add: set_has_items)
      next
        case False
        have elem: "match_loop m p d = pmatch m (pat_elems p) (strip d)"
          if "match_loop m p d = (if f x then match_loop m q ds else 0)" "pat_elems p = P_class f # pat_elems q"
            "f x \<Longrightarrow> match_loop m q ds = pmatch m (pat_elems q) (strip ds)" for f
          using that u(1) by simp
        consider (n) "c = CHR ''n'' \<or> c = CHR ''N''" | (any) "c = CHR ''x'' \<or> c = CHR ''X''"
          | (z) "c = CHR ''z'' \<or> c = CHR ''Z''" | (wild) "c = CHR ''/'' \<or> c = CHR ''.'' \<or> c = CHR ''!''"
          | (other) "c \<notin> {CHR ''/'', CHR ''['', CHR ''n'', CHR ''N'', CHR ''x'', CHR ''X'', CHR ''z'', CHR ''Z'', CHR ''.'', CHR ''!''}"
          using False by blast
        then show ?thesis
        proof cases
          case n
          with p d ih(3) show ?thesis
            by (intro elem [of "one_of ''23456789''"]) (auto simp: match_loop.simps [of m p d] pat_elems.simps [of p] in_digits_iff)
        next
          case any
          with p d ih(4) show ?thesis
            by (intro elem [of "one_of ''0123456789''"]) (auto simp: match_loop.simps [of m p d] pat_elems.simps [of p] in_digits_iff)
        next
          case z
          with p d ih(5) show ?thesis
            by (intro elem [of "one_of ''123456789''"]) (auto simp: match_loop.simps [of m p d] pat_elems.simps [of p] in_digits_iff)
        next
          case wild
          with u show ?thesis by (subst match_loop.simps, subst pat_elems.simps) (elim disjE; simp add: match_end_def)
        next
          case other
          with p d ih(6) show ?thesis
            by (intro elem [of "\<lambda>d. d = c"]) (auto simp: match_loop.simps [of m p d] pat_elems.simps [of p] in_digits_iff)
        qed
      qed
    qed
  qed
qed

text \<open>What the three modes decide.\<close>

lemma pmatch_match: "pmatch E_MATCH es ds \<noteq> 0 \<Longrightarrow> pat_lang es ds" "\<not> final_empty es \<Longrightarrow> pat_lang es ds \<Longrightarrow> pmatch E_MATCH es ds \<noteq> 0"
  by (induction E_MATCH es ds rule: pmatch.induct) (auto split: if_splits)

lemma pmatch_can: "\<exists>e. pat_lang es e \<Longrightarrow> pmatch E_CANMATCH es ds \<noteq> 0 \<longleftrightarrow> (\<exists>e. pat_lang es (ds @ e))"
  by (induction E_CANMATCH es ds rule: pmatch.induct) (auto, blast+)

lemma pmatch_more:
  "\<not> final_empty es \<Longrightarrow> \<exists>e. pat_lang es e \<Longrightarrow> pmatch E_MATCHMORE es ds \<noteq> 0 \<longleftrightarrow> (\<exists>x e. pat_lang es (ds @ x # e))"
  by (induction E_MATCHMORE es ds rule: pmatch.induct) (auto, metis neq_Nil_conv, blast+)

lemma pmatch_early: "pmatch m es ds \<in> {0, 1, 2}"
  by (induction m es ds rule: pmatch.induct) auto

lemma exten_partial_prefix:
  "no_nul l \<Longrightarrow> no_nul r \<Longrightarrow> ext_cmp_exten_partial l r = 0 \<longleftrightarrow> (\<exists>e. strip l = strip r @ e)"
proof (induction l r rule: ext_cmp_exten_partial.induct)
  case (1 l r)
  note nn = no_nul_undash [OF 1(2)] no_nul_undash [OF 1(3)]
  show ?case
  proof (cases "undash r")
    case Nil
    then show ?thesis using undash_strip_Nil [of r] by (simp add: ext_cmp_exten_partial.simps [of l r])
  next
    case r: (Cons y rs)
    show ?thesis
    proof (cases "undash l")
      case Nil
      with r nn undash_strip_Nil [of l] undash_strip_Cons [OF r] schar_zero [of y] show ?thesis
        by (simp add: ext_cmp_exten_partial.simps [of l r])
    next
      case l: (Cons x ls)
      show ?thesis
        using 1(1) [OF r l] nn r l undash_strip_Cons [OF r] undash_strip_Cons [OF l] schar_inj [of x y]
        by (auto simp: ext_cmp_exten_partial.simps [of l r])
    qed
  qed
qed

definition exten_key :: "string \<Rightarrow> int list" where
  "exten_key s = map schar (strip s) @ [0]"

lemma exten_key_ended: "no_nul s \<Longrightarrow> ended 0 (exten_key s)"
proof -
  assume s: "no_nul s"
  have "schar c \<noteq> 0" if "c \<in> set (strip s)" for c
    using that s schar_zero [of c] by (auto simp: no_nul_def strip_def)
  then have "0 \<notin> set (map schar (strip s))" by (metis imageE list.set_map)
  then show "ended 0 (exten_key s)" by (auto simp: ended_def exten_key_def)
qed

lemma exten_key_inj: "exten_key a = exten_key b \<longleftrightarrow> strip a = strip b"
proof -
  have "inj schar" using schar_inj by (blast intro: injI)
  from inj_map_eq_map [OF this] show ?thesis by (simp only: exten_key_def append_same_eq)
qed

lemma exten_equal: "no_nul l \<Longrightarrow> no_nul r \<Longrightarrow> ext_cmp_exten l r = 0 \<longleftrightarrow> strip l = strip r"
  using ic.first_diff_zero exten_key_ended exten_first_diff [of l r] exten_key_inj unfolding exten_key_def by metis

text \<open>The order of two extensions by their keys.\<close>

definition pattern_key :: "string \<Rightarrow> token list" where
  "pattern_key s = the (tokens (tl s))"

definition key_cmp :: "string \<Rightarrow> string \<Rightarrow> int" where
  "key_cmp a b =
     (if \<not> is_pattern a then if is_pattern b then -1 else first_diff (-) (exten_key a) (exten_key b)
      else if \<not> is_pattern b then 1 else first_diff token_cmp (pattern_key a) (pattern_key b))"

definition ext_valid :: "string \<Rightarrow> bool" where
  "ext_valid s \<longleftrightarrow> no_nul s \<and> no_ff s"

lemma ext_valid_keys:
  assumes "ext_valid s"
  shows "ended 0 (exten_key s)" "tokens (tl s) = Some (pattern_key s)" "ended end_token (pattern_key s)"
proof -
  have "no_ff (tl s)" using assms by (cases s) (auto simp: ext_valid_def no_ff_def)
  from tokens_total [OF this] show "tokens (tl s) = Some (pattern_key s)" "ended end_token (pattern_key s)"
    by (auto simp: pattern_key_def)
  show "ended 0 (exten_key s)" using assms exten_key_ended by (simp add: ext_valid_def)
qed

lemma ext_cmp_key:
  assumes "ext_valid a" "ext_valid b"
  shows "ext_cmp a b = Some (key_cmp a b)"
proof -
  have "no_ff (tl a)" "no_ff (tl b)"
    using assms by (cases a; cases b; auto simp: ext_valid_def no_ff_def)+
  then show ?thesis
    using exten_first_diff [of a b] pattern_first_diff [of "tl a" "tl b"] assms
    by (simp add: ext_cmp_def key_cmp_def pattern_key_def exten_key_def ext_valid_def)
qed

lemma key_cmp_swap: "key_cmp b a = - key_cmp a b"
  unfolding key_cmp_def
  using ic.first_diff_swap [of "exten_key b" "exten_key a"] tc.first_diff_swap [of "pattern_key b" "pattern_key a"] by simp

lemma key_cmp_trans:
  assumes "ext_valid a" "ext_valid b" "ext_valid c" "key_cmp a b \<le> 0" "key_cmp b c \<le> 0"
  shows "key_cmp a c \<le> 0"
  using assms(4,5) ic.first_diff_le_trans [OF assms(1-3) [THEN ext_valid_keys(1)]]
    tc.first_diff_le_trans [OF assms(1-3) [THEN ext_valid_keys(3)]]
  by (auto simp: key_cmp_def split: if_splits)

section \<open>Matching decides the language\<close>

definition same_exten :: "string \<Rightarrow> string \<Rightarrow> bool" where
  "same_exten a b \<longleftrightarrow> is_pattern a = is_pattern b \<and> (if is_pattern a then tokens (tl a) = tokens (tl b) else strip a = strip b)"

lemma longer_prefix: "(\<exists>x e. a @ x # e = b) \<longleftrightarrow> (\<exists>e. a @ e = b) \<and> length a < length b"
proof
  assume "(\<exists>e. a @ e = b) \<and> length a < length b"
  then obtain e where "a @ e = b" "e \<noteq> []" by auto
  then show "\<exists>x e. a @ x # e = b" by (cases e) auto
qed auto

lemma key_cmp_zero:
  assumes "ext_valid a" "ext_valid b"
  shows "key_cmp a b = 0 \<longleftrightarrow> same_exten a b"
  using ic.first_diff_zero [OF assms [THEN ext_valid_keys(1)]] tc.first_diff_zero [OF assms [THEN ext_valid_keys(3)]]
    exten_key_inj [of a b] assms [THEN ext_valid_keys(2)]
  by (auto simp: key_cmp_def same_exten_def)

lemma core_loop:
  "is_pattern p \<Longrightarrow> \<not> (match_mask m = E_MATCH \<and> is_pattern d) \<Longrightarrow>
    extension_match_core_aux p d m = Some (pmatch (match_mask m) (pat_elems (tl p)) (strip d))"
  by (auto simp: extension_match_core_aux_def Let_def match_loop_elems)

lemmas match_defs = ast_extension_match_def ast_extension_close_def extension_match_core_def

text \<open>C6: on a number that is not itself a pattern, matching always answers 0, 1 or 2. A positive answer is given only for
  numbers the extension describes: a literal extension only itself, separators aside, a pattern the strings of
  its language, in which empty sets stand for nothing as the comments say. Conversely every such number is
  matched, unless the pattern has an empty set behind which no digit is needed; there the code departs from the
  comments and can refuse the number.\<close>

theorem extension_match_language:
  assumes "no_nul p" "no_nul d" "\<not> is_pattern d"
  shows "\<exists>r \<in> {0, 1, 2}. ast_extension_match p d = Some r \<and> (r \<noteq> 0 \<longrightarrow> exten_lang p (strip d)) \<and>
    (\<not> exten_final_empty p \<longrightarrow> exten_lang p (strip d) \<longrightarrow> r \<noteq> 0)"
proof (cases "is_pattern p")
  case True
  then show ?thesis
    using core_loop [of p E_MATCH d] assms(3) pmatch_early [of E_MATCH "pat_elems (tl p)" "strip d"]
      pmatch_match [of "pat_elems (tl p)" "strip d"]
    by (auto simp: match_defs exten_lang_def exten_final_empty_def)
next
  case False
  with exten_equal [OF assms(1,2)] show ?thesis
    by (auto simp: match_defs extension_match_core_aux_def exten_lang_def exten_strlen Let_def)
qed

theorem extension_match_language_witness:
  "\<exists>r. ast_extension_match ''_9NX[0-35].'' ''9-23577'' = Some r \<and> r \<noteq> 0"
proof -
  have "\<not> exten_final_empty ''_9NX[0-35].''"
    by (simp add: exten_final_empty_def is_pattern_def pat_elems.simps undash_def set_body_def after_set_def)
  moreover have "exten_lang ''_9NX[0-35].'' ''923577''"
    by (simp add: exten_lang_def is_pattern_def pat_elems.simps undash_def set_body_def after_set_def one_of_def in_set_def schar_def)
  ultimately show ?thesis using extension_match_language [of "''_9NX[0-35].''" "''9-23577''"]
    by (auto simp: no_nul_def is_pattern_def strip_def)
qed

text \<open>The departure: the pattern \<open>_1[]\<close> describes the number \<open>1\<close> and does not match it.\<close>

lemma final_empty_set_refused: "exten_lang ''_1[]'' ''1'' \<and> ast_extension_match ''_1[]'' ''1'' = Some 0"
proof -
  have e: "pat_elems ''1[]'' = [P_class (\<lambda>d. d = CHR ''1''), P_empty]"
    by (simp add: pat_elems.simps undash_def set_body_def after_set_def)
  then have "exten_lang ''_1[]'' ''1''" by (simp add: exten_lang_def is_pattern_def)
  moreover have "ast_extension_match ''_1[]'' ''1'' = Some 0"
    using core_loop [of "''_1[]''" E_MATCH "''1''"] e by (simp add: match_defs is_pattern_def strip_def)
  ultimately show ?thesis ..
qed

text \<open>While digits are collected, \<open>E_CANMATCH\<close> says whether the number can still become, and
  \<open>E_MATCHMORE\<close> whether it can become by at least one more digit, a number of the extension, if the
  extension describes a number at all and has no empty set at its end.\<close>

theorem extension_close_language:
  assumes "no_nul p" "no_nul d" "\<exists>n. exten_lang p n" "\<not> exten_final_empty p"
  shows "(\<exists>r. ast_extension_close p d E_CANMATCH = Some r \<and> (r \<noteq> 0 \<longleftrightarrow> (\<exists>e. exten_lang p (strip d @ e)))) \<and>
    (\<exists>r. ast_extension_close p d E_MATCHMORE = Some r \<and> (r \<noteq> 0 \<longleftrightarrow> (\<exists>x e. exten_lang p (strip d @ x # e))))"
proof (rule conjI)
  have part: "(length (strip p) \<ge> length (strip d) \<and> (strip d = [] \<or> ext_cmp_exten_partial p d = 0)) \<longleftrightarrow> (\<exists>e. strip d @ e = strip p)"
    using exten_partial_prefix [OF assms(1,2)] by (auto dest: sym)
  note more = longer_prefix [of "strip d" "strip p"]
  show "\<exists>r. ast_extension_close p d E_CANMATCH = Some r \<and> (r \<noteq> 0 \<longleftrightarrow> (\<exists>e. exten_lang p (strip d @ e)))"
  proof (cases "is_pattern p")
    case True
    then show ?thesis using core_loop [of p E_CANMATCH d] assms(3) pmatch_can by (simp add: match_defs exten_lang_def)
  next
    case False
    with part show ?thesis
      by (auto simp: match_defs extension_match_core_aux_def exten_lang_def exten_strlen Let_def)
  qed
  show "\<exists>r. ast_extension_close p d E_MATCHMORE = Some r \<and> (r \<noteq> 0 \<longleftrightarrow> (\<exists>x e. exten_lang p (strip d @ x # e)))"
  proof (cases "is_pattern p")
    case True
    then show ?thesis using core_loop [of p E_MATCHMORE d] assms(3,4) pmatch_more by (simp add: match_defs exten_lang_def exten_final_empty_def)
  next
    case False
    with part more show ?thesis
      by (auto simp: match_defs extension_match_core_aux_def exten_lang_def exten_strlen Let_def)
  qed
qed

theorem extension_close_language_witness:
  "(\<exists>r. ast_extension_close ''_9NX'' ''92'' E_CANMATCH = Some r \<and> (r \<noteq> 0 \<longleftrightarrow> (\<exists>e. exten_lang ''_9NX'' (''92'' @ e)))) \<and>
   (\<exists>r. ast_extension_close ''_9NX'' ''92'' E_MATCHMORE = Some r \<and> (r \<noteq> 0 \<longleftrightarrow> (\<exists>x e. exten_lang ''_9NX'' (''92'' @ x # e))))"
proof -
  have "exten_lang ''_9NX'' ''925''"
    by (simp add: exten_lang_def is_pattern_def pat_elems.simps undash_def one_of_def)
  then have "\<exists>n. exten_lang ''_9NX'' n" ..
  moreover have "\<not> exten_final_empty ''_9NX''" by (simp add: exten_final_empty_def is_pattern_def pat_elems.simps undash_def)
  ultimately show ?thesis using extension_close_language [of "''_9NX''" "''92''"] by (simp add: no_nul_def strip_def)
qed

text \<open>C7: on extensions without the character 255, with which it may never end, and without NUL, which ends a string, the
  comparison that orders the extensions of a context answers \<open>-1\<close>, \<open>0\<close> or \<open>1\<close> and is a total preorder: exchanging the arguments changes the sign, \<open>0\<close> means that both are the same
  extension up to separators (literals) or the same list of character sets (patterns), and it is
  transitive.\<close>

theorem extension_cmp_total_preorder:
  assumes "ext_valid a" "ext_valid b" "ext_valid c"
  shows "\<exists>x y z. ast_extension_cmp a b = Some x \<and> ast_extension_cmp b c = Some y \<and> ast_extension_cmp a c = Some z \<and>
    x \<in> {-1, 0, 1} \<and> ast_extension_cmp b a = Some (- x) \<and> (x = 0 \<longleftrightarrow> same_exten a b) \<and> (x \<le> 0 \<and> y \<le> 0 \<longrightarrow> z \<le> 0)"
  using ext_cmp_key assms key_cmp_swap [of b a] key_cmp_zero [OF assms(1,2)] key_cmp_trans [OF assms]
  by (auto simp: ast_extension_cmp_def sgn_if)

theorem extension_cmp_total_preorder_witness:
  "\<exists>x y z. ast_extension_cmp ''100'' ''_1XX'' = Some x \<and> ast_extension_cmp ''_1XX'' ''_[1-3].'' = Some y \<and>
    ast_extension_cmp ''100'' ''_[1-3].'' = Some z \<and> x \<in> {-1, 0, 1} \<and> (x \<le> 0 \<and> y \<le> 0 \<longrightarrow> z \<le> 0)"
  using extension_cmp_total_preorder [of "''100''" "''_1XX''" "''_[1-3].''"]
  by (auto simp: ext_valid_def no_nul_def no_ff_def)

text \<open>A pattern matches itself, so that looking up an extension by its own pattern finds it.\<close>

theorem pattern_matches_itself:
  assumes "is_pattern p" "ext_valid p"
  shows "ast_extension_match p p = Some 1"
proof -
  from assms have p: "ext_cmp_pattern (tl p) (tl p) = ext_cmp p p" by (simp add: ext_cmp_def)
  have "ext_cmp p p = Some 0" using ext_cmp_key [OF assms(2,2)] key_cmp_swap [of p p] by simp
  with p assms(1) show ?thesis by (simp add: match_defs extension_match_core_aux_def Let_def)
qed

theorem pattern_matches_itself_witness: "ast_extension_match ''_X.'' ''_X.'' = Some 1"
  using pattern_matches_itself [of "''_X.''"] by (simp add: is_pattern_def ext_valid_def no_nul_def no_ff_def)

lemma fill_range_endless: "255 \<le> c2 \<Longrightarrow> c1 \<le> 255 \<Longrightarrow> fill_range c1 c2 bits cnt = None"
  using fill_range_partial [of c1 c2 bits cnt] by (cases "fill_range c1 c2 bits cnt") auto

lemma fill_set_endless: "fill_set (s @ [CHR 0xFF]) bits cnt cmin = None"
proof (induction s bits cnt cmin rule: fill_set.induct)
  case (2 c1 d c2 r bits cnt cmin)
  then show ?case by (auto simp: Let_def split: option.splits)
qed (use fill_range_endless uchar_bound(1) in \<open>auto simp: Let_def uchar_def split: option.splits\<close>)

text \<open>Two patterns are never compared to the end when the first begins with a set whose last
  character is 255: the counter of the loop that fills the set is an \<open>unsigned char\<close> and wraps.\<close>

theorem extension_cmp_endless:
  assumes "CHR '']'' \<notin> set s" "is_pattern b"
  shows "ast_extension_cmp (''_['' @ s @ CHR 0xFF # CHR '']'' # r) b = None"
proof -
  have "set_body (s @ CHR 0xFF # CHR '']'' # r) = s @ [CHR 0xFF]"
    using assms(1) by (auto simp: set_body_def takeWhile_append)
  then have "ext_cmp_pattern_pos (CHR ''['' # s @ CHR 0xFF # CHR '']'' # r) = None"
    using fill_set_endless [of s] by (subst ext_cmp_pattern_pos.simps) (simp add: undash_def)
  then show ?thesis
    using assms(2) by (simp add: ast_extension_cmp_def ext_cmp_def is_pattern_def ext_cmp_pattern.simps)
qed

theorem extension_cmp_endless_witness: "ast_extension_cmp (''_[a-'' @ [CHR 0xFF, CHR '']'']) ''_X'' = None"
  using extension_cmp_endless [of "''a-''" "''_X''" "[]"] by (simp add: is_pattern_def)

end
