(* ===== verification/Pbx_Timing.thy ===== *)
theory Pbx_Timing
  imports C_String "HOL-Library.While_Combinator"
begin

unbundle bit_operations_syntax

text \<open>
  Time-of-day conditions of the dialplan, \<open>main/pbx.c\<close>: the specification
  \<open>times,weekdays,days,months,timezone\<close> of an include or a \<open>GotoIfTime\<close> is compiled into bit masks,
  which are tested against a broken-down time. The conversion \<open>ast_localtime\<close> of the time zone
  library is a parameter.
\<close>

section \<open>Data\<close>

record ast_timing =
  hastime :: int
  monthmask :: "32 word"
  daymask :: "32 word"
  dowmask :: "32 word"
  minmask :: "32 word list"
  timezone :: "string option"

record ast_tm =
  tm_mon :: int
  tm_mday :: int
  tm_wday :: int
  tm_hour :: int
  tm_min :: int

definition days :: "string list" where
  "days = [''sun'', ''mon'', ''tue'', ''wed'', ''thu'', ''fri'', ''sat'']"

definition months :: "string list" where
  "months = [''jan'', ''feb'', ''mar'', ''apr'', ''may'', ''jun'', ''jul'', ''aug'', ''sep'', ''oct'', ''nov'', ''dec'']"

section \<open>Ranges of days and months\<close>

fun name_index :: "string \<Rightarrow> string list \<Rightarrow> int \<Rightarrow> int option" where
  "name_index s [] i = None"
| "name_index s (n # ns) i = (if strcase_eq s n then Some i else name_index s ns (i + 1))"

definition lookup_name :: "string \<Rightarrow> string list option \<Rightarrow> int \<Rightarrow> int" where
  "lookup_name s names mx =
     (case (case names of
              Some ns \<Rightarrow> if s \<noteq> [] \<and> schar (hd s) > schar (CHR ''9'') then name_index s ns 0 else None
            | None \<Rightarrow> None) of
        Some i \<Rightarrow> i
      | None \<Rightarrow> (case scan_int_w 2 s of
                   Some (i, _) \<Rightarrow> if 1 \<le> i \<and> i \<le> mx then i - 1 else -1
                 | None \<Rightarrow> -1))"

text \<open>\<open>mask |= (1 << n)\<close>.\<close>

definition mask_add :: "nat \<Rightarrow> 32 word \<Rightarrow> 32 word" where
  "mask_add n msk = msk OR push_bit n 1"

text \<open>The loop that fills a cyclic range. No result is a loop that never ends.\<close>

definition fill_mask :: "nat \<Rightarrow> nat \<Rightarrow> nat \<Rightarrow> 32 word \<Rightarrow> 32 word option" where
  "fill_mask mx start end msk =
     map_option snd
       (while_option (\<lambda>(s, m). s \<noteq> end) (\<lambda>(s, m). (if s + 1 \<ge> mx then 0 else s + 1, mask_add s m))
          (start, mask_add end msk))"

text \<open>\<open>strchr(part, '-')\<close> and the cut there.\<close>

definition cut_dash :: "string \<Rightarrow> string \<times> string option" where
  "cut_dash part = strsep ''-'' part"

fun get_range_parts :: "nat \<Rightarrow> string list option \<Rightarrow> string list \<Rightarrow> 32 word \<Rightarrow> 32 word option" where
  "get_range_parts mx names [] msk = Some msk"
| "get_range_parts mx names (p # ps) msk =
     (case cut_dash p of (part, endpart) \<Rightarrow>
        let start = lookup_name part names (int mx);
            end = (case endpart of Some e \<Rightarrow> lookup_name e names (int mx) | None \<Rightarrow> start)
        in if start < 0 \<or> end < 0 then get_range_parts mx names ps msk
           else (case fill_mask mx (nat start) (nat end) msk of
                   None \<Rightarrow> None
                 | Some msk \<Rightarrow> get_range_parts mx names ps msk))"

definition get_range :: "string \<Rightarrow> nat \<Rightarrow> string list option \<Rightarrow> 32 word option" where
  "get_range src mx names =
     (if src = [] \<or> src = ''*'' then Some (push_bit mx 1 - 1)
      else get_range_parts mx names (strsep_all ''&'' src) 0)"

section \<open>Ranges of minutes\<close>

text \<open>\<open>sscanf(s, "%2d:%2d", &h, &m) == 2\<close> with both in range: the minute of the day.\<close>

definition scan_time :: "string \<Rightarrow> nat option" where
  "scan_time s =
     (case scan_int_w 2 s of
        Some (h, c # r) \<Rightarrow>
          if c \<noteq> CHR '':'' then None
          else (case scan_int_w 2 r of
                  Some (m, _) \<Rightarrow> if h < 0 \<or> h > 23 \<or> m < 0 \<or> m > 59 then None else Some (nat (h * 60 + m))
                | None \<Rightarrow> None)
      | _ \<Rightarrow> None)"

definition minute_add :: "nat \<Rightarrow> 32 word list \<Rightarrow> 32 word list" where
  "minute_add x mm = mm[x div 30 := mask_add (x mod 30) (mm ! (x div 30))]"

definition fill_minutes :: "nat \<Rightarrow> nat \<Rightarrow> 32 word list \<Rightarrow> 32 word list option" where
  "fill_minutes start end mm =
     map_option (\<lambda>(x, m). minute_add x m)
       (while_option (\<lambda>(x, m). x \<noteq> end) (\<lambda>(x, m). ((x + 1) mod (24 * 60), minute_add x m)) (start, mm))"

text \<open>A single time is stored as the bit \<open>st_m % 30\<close> of the word \<open>st_h * 2 + (st_m >= 30)\<close>, which is
  the bit of its minute.\<close>

definition single_minute :: "nat \<Rightarrow> 32 word list \<Rightarrow> 32 word list" where
  "single_minute x mm =
     (let h = x div 60; m = x mod 60; k = h * 2 + (if m \<ge> 30 then 1 else 0)
      in mm[k := mask_add (m mod 30) (mm ! k)])"

fun timerange_parts :: "string list \<Rightarrow> 32 word list \<Rightarrow> 32 word list option" where
  "timerange_parts [] mm = Some mm"
| "timerange_parts (p # ps) mm =
     (case cut_dash p of
        (part, None) \<Rightarrow>
          (case scan_time part of
             None \<Rightarrow> timerange_parts ps mm
           | Some x \<Rightarrow> timerange_parts ps (single_minute x mm))
      | (part, Some e) \<Rightarrow>
          let endpart = dropWhile (\<lambda>c. \<not> c_isdigit c) e in
          if endpart = [] then timerange_parts ps mm
          else (case (scan_time part, scan_time endpart) of
                  (Some st, Some en) \<Rightarrow>
                    (case fill_minutes st en mm of
                       None \<Rightarrow> None
                     | Some mm \<Rightarrow> timerange_parts ps mm)
                | _ \<Rightarrow> timerange_parts ps mm))"

definition get_timerange :: "string \<Rightarrow> 32 word list option" where
  "get_timerange s =
     (if s = [] \<or> s = ''*'' then Some (replicate 48 0x3fffffff)
      else timerange_parts (strsep_all ''&'' s) (replicate 48 0))"

section \<open>Building and testing\<close>

text \<open>The number of fields is counted by commas only, although a field also ends at \<open>|\<close>.\<close>

definition timing_zone :: "string \<Rightarrow> string option" where
  "timing_zone info =
     (if length (filter (\<lambda>c. c = CHR '','') info) = 4
      then Some (rev (takeWhile (\<lambda>c. c \<noteq> CHR '','') (rev info))) else None)"

text \<open>The next field, if there is one, and the rest after it.\<close>

definition next_range :: "string option \<Rightarrow> nat \<Rightarrow> string list option \<Rightarrow> 32 word \<Rightarrow> (32 word \<times> string option) option" where
  "next_range info mx names dflt =
     (case info of
        None \<Rightarrow> Some (dflt, None)
      | Some s \<Rightarrow> (case strsep ''|,'' s of (f, r) \<Rightarrow> map_option (\<lambda>m. (m, r)) (get_range f mx names)))"

definition ast_build_timing :: "ast_timing \<Rightarrow> string \<Rightarrow> (int \<times> ast_timing) option" where
  "ast_build_timing i info =
     (if info = [] then Some (0, i)
      else (case strsep ''|,'' info of (f, r) \<Rightarrow>
        (case get_timerange f of None \<Rightarrow> None | Some mm \<Rightarrow>
        (case next_range r 7 (Some days) 0x7f of None \<Rightarrow> None | Some (dow, r) \<Rightarrow>
        (case next_range r 31 None 0x7fffffff of None \<Rightarrow> None | Some (day, r) \<Rightarrow>
        (case next_range r 12 (Some months) 0xfff of None \<Rightarrow> None | Some (mon, r) \<Rightarrow>
           Some (1, i\<lparr>monthmask := mon, daymask := day, dowmask := dow, minmask := mm,
                       timezone := timing_zone info\<rparr>)))))))"

definition ast_check_timing2 :: "('tv \<Rightarrow> string option \<Rightarrow> ast_tm) \<Rightarrow> ast_timing \<Rightarrow> 'tv \<Rightarrow> int" where
  "ast_check_timing2 ast_localtime i tv =
     (let tm = ast_localtime tv (timezone i) in
      if \<not> bit (monthmask i) (nat (tm_mon tm)) then 0
      else if \<not> bit (daymask i) (nat (tm_mday tm - 1)) then 0
      else if \<not> bit (dowmask i) (nat (tm_wday tm)) then 0
      else if tm_hour tm < 0 \<or> tm_hour tm > 23 then 0
      else if \<not> bit (minmask i ! nat (tm_hour tm * 2 + (if tm_min tm \<ge> 30 then 1 else 0)))
                   (nat (if tm_min tm \<ge> 30 then tm_min tm - 30 else tm_min tm)) then 0
      else 1)"

definition ast_check_timing :: "('tv \<Rightarrow> string option \<Rightarrow> ast_tm) \<Rightarrow> 'tv \<Rightarrow> ast_timing \<Rightarrow> int" where
  "ast_check_timing ast_localtime now i = ast_check_timing2 ast_localtime i now"

definition ast_destroy_timing :: "ast_timing \<Rightarrow> int \<times> ast_timing" where
  "ast_destroy_timing i = (0, i\<lparr>timezone := None\<rparr>)"

section \<open>Cyclic ranges\<close>

definition cyclic :: "nat \<Rightarrow> nat \<Rightarrow> nat \<Rightarrow> nat set" where
  "cyclic n a b = (if a \<le> b then {a..b} else {a..<n} \<union> {..b})"

definition cyclic_steps :: "nat \<Rightarrow> nat \<Rightarrow> nat \<Rightarrow> nat list" where
  "cyclic_steps n a b = (if a \<le> b then [a..<b] else [a..<n] @ [0..<b])"

text \<open>A loop that walks cyclically from \<open>a\<close> to \<open>b\<close> ends there and has applied its body along the range.\<close>

lemma cyclic_while:
  assumes nxt: "\<And>s. s < n \<Longrightarrow> nxt s = (if s + 1 < n then s + 1 else 0)" and b: "b < n"
  shows "a < n \<Longrightarrow> while_option (\<lambda>(s, m). s \<noteq> b) (\<lambda>(s, m). (nxt s, f s m)) (a, m) = Some (b, fold f (cyclic_steps n a b) m)"
proof (induction "if a \<le> b then b - a else b + n - a" arbitrary: a m)
  case 0
  with b have "a = b" by (auto split: if_splits)
  then show ?case by (subst while_option_unfold) (simp add: cyclic_steps_def)
next
  case (Suc k)
  then have ab: "a \<noteq> b" by (auto split: if_splits)
  let ?a = "nxt a"
  have a': "?a < n" "k = (if ?a \<le> b then b - ?a else b + n - ?a)"
    using Suc.hyps(2) Suc.prems b ab nxt [of a] by (auto split: if_splits)
  have steps: "cyclic_steps n a b = a # cyclic_steps n ?a b"
    using ab b Suc.prems nxt [of a] by (auto simp: cyclic_steps_def upt_rec [of a])
  show ?case
    using Suc.hyps(1) [OF a'(2,1), of "f a m"] ab steps by (subst while_option_unfold) simp
qed

lemma set_cyclic_steps: "b < n \<Longrightarrow> insert b (set (cyclic_steps n a b)) = cyclic n a b"
  by (auto simp: cyclic_steps_def cyclic_def)

lemma bit_mask_add: "bit (mask_add n m) k \<longleftrightarrow> bit m k \<or> k = n \<and> k < 32"
  by (auto simp: mask_add_def bit_or_iff push_bit_eq_mult bit_exp_iff)

lemma bit_fold_mask_add: "bit (fold mask_add xs m) k \<longleftrightarrow> bit m k \<or> k \<in> set xs \<and> k < 32"
  by (induction xs arbitrary: m) (auto simp: bit_mask_add)

lemma fill_mask_bits:
  assumes "s < mx" "e < mx"
  shows "\<exists>m'. fill_mask mx s e m = Some m' \<and> (\<forall>k. bit m' k \<longleftrightarrow> bit m k \<or> k \<in> cyclic mx s e \<and> k < 32)"
proof -
  have "while_option (\<lambda>(s, m). s \<noteq> e) (\<lambda>(s, m). (if s + 1 \<ge> mx then 0 else s + 1, mask_add s m)) (s, mask_add e m) =
      Some (e, fold mask_add (cyclic_steps mx s e) (mask_add e m))"
    by (rule cyclic_while) (use assms in auto)
  with set_cyclic_steps [OF assms(2), of s] show ?thesis
    by (auto simp: fill_mask_def bit_fold_mask_add bit_mask_add)
qed

text \<open>The minutes a list of 48 words stands for.\<close>

definition minute_on :: "32 word list \<Rightarrow> nat \<Rightarrow> bool" where
  "minute_on mm x \<longleftrightarrow> x < 1440 \<and> bit (mm ! (x div 30)) (x mod 30)"

lemma minute_add_on:
  assumes "length mm = 48" "x < 1440"
  shows "length (minute_add x mm) = 48" "minute_on (minute_add x mm) y \<longleftrightarrow> minute_on mm y \<or> y = x"
proof -
  show "length (minute_add x mm) = 48" using assms by (simp add: minute_add_def)
  have "y mod 30 < 32" using mod_less_divisor [of 30 y] by linarith
  moreover have "y = x \<longleftrightarrow> y div 30 = x div 30 \<and> y mod 30 = x mod 30"
    by (metis div_mult_mod_eq)
  moreover have "x div 30 < 48" using assms(2) by auto
  ultimately show "minute_on (minute_add x mm) y \<longleftrightarrow> minute_on mm y \<or> y = x"
    using assms by (cases "y div 30 = x div 30") (auto simp: minute_on_def minute_add_def bit_mask_add)
qed

lemma fold_minute_add:
  "length mm = 48 \<Longrightarrow> (\<And>x. x \<in> set xs \<Longrightarrow> x < 1440) \<Longrightarrow>
   length (fold minute_add xs mm) = 48 \<and> (minute_on (fold minute_add xs mm) y \<longleftrightarrow> minute_on mm y \<or> y \<in> set xs)"
proof (induction xs arbitrary: mm)
  case (Cons x xs)
  then have "x < 1440" by simp
  note add = minute_add_on [OF Cons.prems(1) this]
  from Cons.IH [OF add(1)] Cons.prems(2) add(2) show ?case by auto
qed simp

lemma fill_minutes_on:
  assumes "length mm = 48" "s < 1440" "e < 1440"
  shows "\<exists>m'. fill_minutes s e mm = Some m' \<and> length m' = 48 \<and> (\<forall>y. minute_on m' y \<longleftrightarrow> minute_on mm y \<or> y \<in> cyclic 1440 s e)"
proof -
  have w: "while_option (\<lambda>(x, m). x \<noteq> e) (\<lambda>(x, m). ((x + 1) mod (24 * 60), minute_add x m)) (s, mm) =
      Some (e, fold minute_add (cyclic_steps 1440 s e) mm)"
  proof (rule cyclic_while)
    show "(x + 1) mod (24 * 60) = (if x + 1 < 1440 then x + 1 else 0)" if "x < 1440" for x :: nat
      using that by (cases "x = 1439") auto
  qed (use assms in auto)
  have "x < 1440" if "x \<in> set (cyclic_steps 1440 s e)" for x
    using that assms by (auto simp: cyclic_steps_def split: if_splits)
  note f = fold_minute_add [OF assms(1), of "cyclic_steps 1440 s e", OF this]
  with minute_add_on [OF _ assms(3)] set_cyclic_steps [OF assms(3), of s] w show ?thesis
    by (auto simp: fill_minutes_def)
qed

lemma single_minute_add: "single_minute x mm = minute_add x mm"
proof -
  define h m where "h = x div 60" and "m = x mod 60"
  then have x: "x = 30 * (2 * h) + m" "m < 60" by simp_all
  have "m div 30 = (if m \<ge> 30 then 1 else 0)" using x(2) by auto
  moreover have "x div 30 = 2 * h + m div 30" unfolding x(1) by (rule div_mult_self4) simp
  moreover have "m mod 30 = x mod 30" unfolding m_def by (rule mod_mod_cancel) simp
  ultimately show ?thesis by (simp add: single_minute_def minute_add_def Let_def h_def m_def mult.commute)
qed

section \<open>What a specification allows\<close>

text \<open>The cyclic range one part of a list names, if it is valid.\<close>

definition range_part :: "nat \<Rightarrow> string list option \<Rightarrow> string \<Rightarrow> (nat \<times> nat) option" where
  "range_part mx names p =
     (case cut_dash p of (part, endpart) \<Rightarrow>
        let a = lookup_name part names (int mx);
            b = (case endpart of Some e \<Rightarrow> lookup_name e names (int mx) | None \<Rightarrow> a)
        in if a < 0 \<or> b < 0 then None else Some (nat a, nat b))"

definition range_allows :: "nat \<Rightarrow> string list option \<Rightarrow> string \<Rightarrow> nat \<Rightarrow> bool" where
  "range_allows mx names src k \<longleftrightarrow>
     k < mx \<and> (src = [] \<or> src = ''*'' \<or>
       (\<exists>p \<in> set (strsep_all ''&'' src). \<exists>a b. range_part mx names p = Some (a, b) \<and> k \<in> cyclic mx a b))"

definition time_part :: "string \<Rightarrow> (nat \<times> nat) option" where
  "time_part p =
     (case cut_dash p of
        (part, None) \<Rightarrow> map_option (\<lambda>x. (x, x)) (scan_time part)
      | (part, Some e) \<Rightarrow>
          (case (scan_time part, scan_time (dropWhile (\<lambda>c. \<not> c_isdigit c) e)) of
             (Some a, Some b) \<Rightarrow> Some (a, b)
           | _ \<Rightarrow> None))"

definition times_allow :: "string \<Rightarrow> nat \<Rightarrow> bool" where
  "times_allow src x \<longleftrightarrow>
     x < 1440 \<and> (src = [] \<or> src = ''*'' \<or>
       (\<exists>p \<in> set (strsep_all ''&'' src). \<exists>a b. time_part p = Some (a, b) \<and> x \<in> cyclic 1440 a b))"

definition timing_allows :: "string \<Rightarrow> ast_tm \<Rightarrow> bool" where
  "timing_allows info tm \<longleftrightarrow>
     (let fs = strsep_all ''|,'' info in
      times_allow (fs ! 0) (nat (tm_hour tm * 60 + tm_min tm)) \<and>
      (length fs > 1 \<longrightarrow> range_allows 7 (Some days) (fs ! 1) (nat (tm_wday tm))) \<and>
      (length fs > 2 \<longrightarrow> range_allows 31 None (fs ! 2) (nat (tm_mday tm - 1))) \<and>
      (length fs > 3 \<longrightarrow> range_allows 12 (Some months) (fs ! 3) (nat (tm_mon tm))))"

definition tm_valid :: "ast_tm \<Rightarrow> bool" where
  "tm_valid tm \<longleftrightarrow> 0 \<le> tm_mon tm \<and> tm_mon tm < 12 \<and> 1 \<le> tm_mday tm \<and> tm_mday tm \<le> 31 \<and>
     0 \<le> tm_wday tm \<and> tm_wday tm < 7 \<and> 0 \<le> tm_hour tm \<and> tm_hour tm < 24 \<and> 0 \<le> tm_min tm \<and> tm_min tm < 60"

text \<open>The masks are exactly that.\<close>

lemma name_index_bound: "name_index s ns i = Some j \<Longrightarrow> i \<le> j \<and> j < i + int (length ns)"
  by (induction s ns i rule: name_index.induct) (force split: if_splits)+

definition names_fit :: "nat \<Rightarrow> string list option \<Rightarrow> bool" where
  "names_fit mx names \<longleftrightarrow> (case names of None \<Rightarrow> True | Some ns \<Rightarrow> length ns \<le> mx)"

lemma lookup_name_bound:
  assumes "names_fit mx names"
  shows "lookup_name s names (int mx) < 0 \<or> nat (lookup_name s names (int mx)) < mx"
proof (cases "case names of Some ns \<Rightarrow> if s \<noteq> [] \<and> schar (hd s) > schar (CHR ''9'') then name_index s ns 0 else None | None \<Rightarrow> None")
  case None
  then show ?thesis by (auto simp: lookup_name_def split: option.splits)
next
  case (Some i)
  then obtain ns where ns: "names = Some ns" "name_index s ns 0 = Some i" by (auto split: option.splits if_splits)
  from name_index_bound [OF ns(2)] ns(1) assms have "nat i < mx" by (auto simp: names_fit_def)
  moreover have "lookup_name s names (int mx) = i" using Some by (simp add: lookup_name_def)
  ultimately show ?thesis by simp
qed

lemma range_part_bound: "names_fit mx names \<Longrightarrow> range_part mx names p = Some (a, b) \<Longrightarrow> a < mx \<and> b < mx"
  using lookup_name_bound [of mx names] by (fastforce simp: range_part_def Let_def split: prod.splits option.splits if_splits)

lemma get_range_parts_step:
  "get_range_parts mx names (p # ps) m =
     (case range_part mx names p of
        None \<Rightarrow> get_range_parts mx names ps m
      | Some (a, b) \<Rightarrow> (case fill_mask mx a b m of None \<Rightarrow> None | Some m \<Rightarrow> get_range_parts mx names ps m))"
  by (simp add: range_part_def Let_def split: prod.splits)

lemma get_range_parts_bits:
  assumes "names_fit mx names" "mx \<le> 32"
  shows "\<exists>m'. get_range_parts mx names ps m = Some m' \<and>
    (\<forall>k. bit m' k \<longleftrightarrow> bit m k \<or> (\<exists>p \<in> set ps. \<exists>a b. range_part mx names p = Some (a, b) \<and> k \<in> cyclic mx a b))"
proof (induction ps arbitrary: m)
  case (Cons p ps)
  show ?case
  proof (cases "range_part mx names p")
    case None
    with Cons [of m] show ?thesis by (auto simp only: get_range_parts_step) auto
  next
    case (Some r)
    obtain a b where ab: "range_part mx names p = Some (a, b)" using Some by (cases r) simp
    note bnd = range_part_bound [OF assms(1) ab]
    from fill_mask_bits [of a mx b m] bnd obtain m1 where m1: "fill_mask mx a b m = Some m1"
      "\<forall>k. bit m1 k \<longleftrightarrow> bit m k \<or> k \<in> cyclic mx a b \<and> k < 32" by blast
    have "k < 32" if "k \<in> cyclic mx a b" for k
      using that bnd assms(2) by (auto simp: cyclic_def split: if_splits)
    with m1 ab Cons [of m1] show ?thesis by (simp only: get_range_parts_step) auto
  qed
qed simp

lemma cyclic_below: "a < n \<Longrightarrow> b < n \<Longrightarrow> k \<in> cyclic n a b \<Longrightarrow> k < n"
  by (auto simp: cyclic_def split: if_splits)

lemma get_range_bits:
  assumes "names_fit mx names" "mx < 32"
  shows "\<exists>m. get_range src mx names = Some m \<and> (\<forall>k. bit m k \<longleftrightarrow> range_allows mx names src k)"
proof (cases "src = [] \<or> src = ''*''")
  case True
  have "push_bit mx 1 - 1 = (mask mx :: 32 word)" by (simp add: mask_eq_exp_minus_1)
  with True assms(2) show ?thesis by (auto simp: get_range_def range_allows_def bit_mask_iff)
next
  case False
  from get_range_parts_bits [of mx names "strsep_all ''&'' src" 0] assms
  obtain m where m: "get_range_parts mx names (strsep_all ''&'' src) 0 = Some m"
    "\<forall>k. bit m k \<longleftrightarrow> (\<exists>p \<in> set (strsep_all ''&'' src). \<exists>a b. range_part mx names p = Some (a, b) \<and> k \<in> cyclic mx a b)"
    by auto
  have "range_allows mx names src k \<longleftrightarrow> bit m k" for k
    using False m(2) range_part_bound [OF assms(1)] cyclic_below unfolding range_allows_def by blast
  with False m(1) show ?thesis by (simp add: get_range_def)
qed

lemma scan_time_bound: "scan_time s = Some x \<Longrightarrow> x < 1440"
  by (auto simp: nat_less_iff simp: scan_time_def split: option.splits list.splits if_splits)

lemma scan_time_Nil: "scan_time [] = None"
  by (simp add: scan_time_def scan_int_w_def)

lemma time_part_bound: "time_part p = Some (a, b) \<Longrightarrow> a < 1440 \<and> b < 1440"
  by (auto simp: time_part_def dest: scan_time_bound split: prod.splits option.splits)

lemma cyclic_one: "cyclic n x x = {x}"
  by (auto simp: cyclic_def)

text \<open>One part sets exactly the minutes of its range.\<close>

lemma timerange_step:
  assumes "length mm = 48"
  shows "\<exists>m1. length m1 = 48 \<and> timerange_parts (p # ps) mm = timerange_parts ps m1 \<and>
    (\<forall>y. minute_on m1 y \<longleftrightarrow> minute_on mm y \<or> (\<exists>a b. time_part p = Some (a, b) \<and> y \<in> cyclic 1440 a b))"
proof (cases "time_part p")
  case None
  then have "timerange_parts (p # ps) mm = timerange_parts ps mm"
    by (auto simp: time_part_def Let_def split: prod.splits option.splits)
  with None assms show ?thesis by auto
next
  case (Some r)
  obtain a b where ab: "time_part p = Some (a, b)" using Some by (cases r) simp
  note bnd = time_part_bound [OF ab]
  obtain part endpart where p: "cut_dash p = (part, endpart)" by (cases "cut_dash p")
  show ?thesis
  proof (cases endpart)
    case None
    with p ab have x: "scan_time part = Some a" "b = a" by (auto simp: time_part_def)
    with None p have "timerange_parts (p # ps) mm = timerange_parts ps (minute_add a mm)" by (simp add: single_minute_add)
    with minute_add_on [OF assms conjunct1 [OF bnd]] ab x(2) show ?thesis by (auto simp: cyclic_one)
  next
    case (Some e)
    with p ab have x: "scan_time part = Some a" "scan_time (dropWhile (\<lambda>c. \<not> c_isdigit c) e) = Some b"
      by (auto simp: time_part_def split: option.splits)
    then have ne: "dropWhile (\<lambda>c. \<not> c_isdigit c) e \<noteq> []" using scan_time_Nil by (metis option.distinct(1))
    from fill_minutes_on [OF assms] bnd obtain m1 where m1: "fill_minutes a b mm = Some m1" "length m1 = 48"
      "\<forall>y. minute_on m1 y \<longleftrightarrow> minute_on mm y \<or> y \<in> cyclic 1440 a b" by blast
    have "timerange_parts (p # ps) mm = timerange_parts ps m1"
      using p Some x ne m1(1) by (auto simp: Let_def)
    with m1 ab show ?thesis by auto
  qed
qed

lemma timerange_parts_on:
  "length mm = 48 \<Longrightarrow> \<exists>m'. timerange_parts ps mm = Some m' \<and> length m' = 48 \<and>
    (\<forall>y. minute_on m' y \<longleftrightarrow> minute_on mm y \<or> (\<exists>p \<in> set ps. \<exists>a b. time_part p = Some (a, b) \<and> y \<in> cyclic 1440 a b))"
proof (induction ps arbitrary: mm)
  case (Cons p ps)
  from timerange_step [OF Cons.prems, of p ps] obtain m1 where m1: "length m1 = 48"
    "timerange_parts (p # ps) mm = timerange_parts ps m1"
    "\<forall>y. minute_on m1 y \<longleftrightarrow> minute_on mm y \<or> (\<exists>a b. time_part p = Some (a, b) \<and> y \<in> cyclic 1440 a b)" by blast
  from Cons.IH [OF m1(1)] m1(2,3) show ?case by auto
qed simp

lemma get_timerange_on:
  "\<exists>mm. get_timerange src = Some mm \<and> length mm = 48 \<and> (\<forall>x. minute_on mm x \<longleftrightarrow> times_allow src x)"
proof (cases "src = [] \<or> src = ''*''")
  case True
  have "bit (0x3fffffff :: 32 word) (x mod 30)" for x :: nat
  proof -
    have m: "(0x3fffffff :: 32 word) = mask 30" by (simp add: mask_eq_exp_minus_1)
    have "x mod 30 < 30" by simp
    then show ?thesis unfolding m bit_mask_iff by simp
  qed
  then have "minute_on (replicate 48 0x3fffffff) x \<longleftrightarrow> x < 1440" for x
    by (auto simp: minute_on_def less_mult_imp_div_less)
  with True show ?thesis by (auto simp: get_timerange_def times_allow_def)
next
  case False
  have off: "\<not> minute_on (replicate 48 0) x" for x
    by (auto simp: minute_on_def less_mult_imp_div_less)
  from timerange_parts_on [of "replicate 48 0" "strsep_all ''&'' src"] obtain mm where mm:
    "timerange_parts (strsep_all ''&'' src) (replicate 48 0) = Some mm" "length mm = 48"
    "\<forall>y. minute_on mm y \<longleftrightarrow> minute_on (replicate 48 0) y \<or> (\<exists>p \<in> set (strsep_all ''&'' src). \<exists>a b. time_part p = Some (a, b) \<and> y \<in> cyclic 1440 a b)"
    by auto
  have "times_allow src x \<longleftrightarrow> minute_on mm x" for x
    using False off mm(3) time_part_bound cyclic_below [of _ 1440] unfolding times_allow_def by blast
  with False mm(1,2) show ?thesis by (simp add: get_timerange_def)
qed

section \<open>Compilation is faithful\<close>

text \<open>The field the next step reads; without one everything is allowed.\<close>

lemma next_range_bits:
  assumes "names_fit mx names" "mx < 32" "dflt = mask mx"
  shows "\<exists>m. next_range info mx names dflt = Some (m, Option.bind info (\<lambda>s. snd (strsep ''|,'' s))) \<and>
    (\<forall>k < mx. bit m k \<longleftrightarrow> (\<forall>s. info = Some s \<longrightarrow> range_allows mx names (fst (strsep ''|,'' s)) k))"
proof (cases info)
  case None
  with assms show ?thesis by (auto simp: next_range_def bit_mask_iff)
next
  case (Some s)
  with get_range_bits [OF assms(1,2), of "fst (strsep ''|,'' s)"] show ?thesis
    by (auto simp: next_range_def split: prod.splits)
qed

text \<open>The successive results of \<open>strsep\<close> are the fields.\<close>

abbreviation after_field :: "string option \<Rightarrow> string option" where
  "after_field r \<equiv> Option.bind r (\<lambda>s. snd (strsep ''|,'' s))"

lemma fields_step:
  "strsep_all ''|,'' s = fst (strsep ''|,'' s) # (case snd (strsep ''|,'' s) of None \<Rightarrow> [] | Some r \<Rightarrow> strsep_all ''|,'' r)"
  by (subst strsep_all.simps) (simp split: prod.splits option.splits)

lemma fields_nth:
  "(\<forall>s. after_field (Some i) = Some s \<longrightarrow> P (fst (strsep ''|,'' s))) \<longleftrightarrow>
     (length (strsep_all ''|,'' i) > 1 \<longrightarrow> P (strsep_all ''|,'' i ! 1))"
  "(\<forall>s. after_field (after_field (Some i)) = Some s \<longrightarrow> P (fst (strsep ''|,'' s))) \<longleftrightarrow>
     (length (strsep_all ''|,'' i) > 2 \<longrightarrow> P (strsep_all ''|,'' i ! 2))"
  "(\<forall>s. after_field (after_field (after_field (Some i))) = Some s \<longrightarrow> P (fst (strsep ''|,'' s))) \<longleftrightarrow>
     (length (strsep_all ''|,'' i) > 3 \<longrightarrow> P (strsep_all ''|,'' i ! 3))"
proof -
  let ?n = "\<lambda>s. snd (strsep ''|,'' s)"
  consider "?n i = None" | s where "?n i = Some s" "?n s = None"
    | s t where "?n i = Some s" "?n s = Some t" "?n t = None"
    | s t u where "?n i = Some s" "?n s = Some t" "?n t = Some u"
    by (meson option.exhaust)
  note cases4 = this
  show "(\<forall>s. after_field (Some i) = Some s \<longrightarrow> P (fst (strsep ''|,'' s))) \<longleftrightarrow>
     (length (strsep_all ''|,'' i) > 1 \<longrightarrow> P (strsep_all ''|,'' i ! 1))"
    by (rule cases4) (simp_all add: fields_step [of i] fields_step)
  show "(\<forall>s. after_field (after_field (Some i)) = Some s \<longrightarrow> P (fst (strsep ''|,'' s))) \<longleftrightarrow>
     (length (strsep_all ''|,'' i) > 2 \<longrightarrow> P (strsep_all ''|,'' i ! 2))"
    by (rule cases4) (simp_all add: fields_step)
  show "(\<forall>s. after_field (after_field (after_field (Some i))) = Some s \<longrightarrow> P (fst (strsep ''|,'' s))) \<longleftrightarrow>
     (length (strsep_all ''|,'' i) > 3 \<longrightarrow> P (strsep_all ''|,'' i ! 3))"
    by (rule cases4) (simp_all add: fields_step)
qed

lemma minute_index:
  assumes "0 \<le> h" "h < 24" "0 \<le> m" "m < (60 :: int)"
  shows "bit (mm ! nat (h * 2 + (if m \<ge> 30 then 1 else 0))) (nat (if m \<ge> 30 then m - 30 else m)) \<longleftrightarrow>
    minute_on mm (nat (h * 60 + m))"
proof -
  have x: "nat (h * 60 + m) = 30 * (2 * nat h) + nat m" using assms by simp
  have d: "nat (h * 60 + m) div 30 = 2 * nat h + nat m div 30" unfolding x by (rule div_mult_self4) simp
  have r: "nat (h * 60 + m) mod 30 = nat m mod 30" unfolding x by (rule mod_mult_self4)
  have "nat m div 30 = (if m \<ge> 30 then 1 else 0)" "nat m mod 30 = nat (if m \<ge> 30 then m - 30 else m)"
    using assms by (auto simp: mod_if nat_diff_distrib)
  moreover have "nat (h * 2 + (if m \<ge> 30 then 1 else 0)) = 2 * nat h + (if m \<ge> 30 then 1 else 0)"
    using assms(1) by (simp add: nat_add_distrib nat_mult_distrib)
  moreover have "nat (h * 60 + m) < 1440" using assms by linarith
  ultimately have "nat (h * 60 + m) div 30 = nat (h * 2 + (if m \<ge> 30 then 1 else 0))"
    "nat (h * 60 + m) mod 30 = nat (if m \<ge> 30 then m - 30 else m)" "nat (h * 60 + m) < 1440" using d r by simp_all
  then show ?thesis by (simp add: minute_on_def)
qed

lemma build_timing_masks:
  assumes "info \<noteq> []"
  shows "\<exists>mm dw dm mo. ast_build_timing i info = Some (1, i\<lparr>monthmask := mo, daymask := dm, dowmask := dw, minmask := mm,
      timezone := timing_zone info\<rparr>) \<and> (\<forall>x. minute_on mm x \<longleftrightarrow> times_allow (strsep_all ''|,'' info ! 0) x) \<and>
    (\<forall>k < 7. bit dw k \<longleftrightarrow> (length (strsep_all ''|,'' info) > 1 \<longrightarrow> range_allows 7 (Some days) (strsep_all ''|,'' info ! 1) k)) \<and>
    (\<forall>k < 31. bit dm k \<longleftrightarrow> (length (strsep_all ''|,'' info) > 2 \<longrightarrow> range_allows 31 None (strsep_all ''|,'' info ! 2) k)) \<and>
    (\<forall>k < 12. bit mo k \<longleftrightarrow> (length (strsep_all ''|,'' info) > 3 \<longrightarrow> range_allows 12 (Some months) (strsep_all ''|,'' info ! 3) k))"
proof -
  let ?r = "after_field (Some info)"
  obtain mm where mm: "get_timerange (fst (strsep ''|,'' info)) = Some mm"
    "\<forall>x. minute_on mm x \<longleftrightarrow> times_allow (fst (strsep ''|,'' info)) x" using get_timerange_on by blast
  have f: "names_fit 7 (Some days)" "names_fit 31 None" "names_fit 12 (Some months)"
    by (simp_all add: names_fit_def days_def months_def)
  have m: "(0x7f :: 32 word) = mask 7" "(0x7fffffff :: 32 word) = mask 31" "(0xfff :: 32 word) = mask 12"
    by (simp_all add: mask_eq_exp_minus_1)
  obtain dw where dw: "next_range ?r 7 (Some days) 0x7f = Some (dw, after_field ?r)"
    "\<forall>k < 7. bit dw k \<longleftrightarrow> (\<forall>s. ?r = Some s \<longrightarrow> range_allows 7 (Some days) (fst (strsep ''|,'' s)) k)"
    using next_range_bits [OF f(1) _ m(1), of ?r] by auto
  obtain dm where dm: "next_range (after_field ?r) 31 None 0x7fffffff = Some (dm, after_field (after_field ?r))"
    "\<forall>k < 31. bit dm k \<longleftrightarrow> (\<forall>s. after_field ?r = Some s \<longrightarrow> range_allows 31 None (fst (strsep ''|,'' s)) k)"
    using next_range_bits [OF f(2) _ m(2), of "after_field ?r"] by auto
  obtain mo where mo: "next_range (after_field (after_field ?r)) 12 (Some months) 0xfff = Some (mo, after_field (after_field (after_field ?r)))"
    "\<forall>k < 12. bit mo k \<longleftrightarrow> (\<forall>s. after_field (after_field ?r) = Some s \<longrightarrow> range_allows 12 (Some months) (fst (strsep ''|,'' s)) k)"
    using next_range_bits [OF f(3) _ m(3), of "after_field (after_field ?r)"] by auto
  have b: "ast_build_timing i info = Some (1, i\<lparr>monthmask := mo, daymask := dm, dowmask := dw, minmask := mm, timezone := timing_zone info\<rparr>)"
    using assms mm(1) dw(1) dm(1) mo(1) by (simp add: ast_build_timing_def case_prod_beta)
  have h: "strsep_all ''|,'' info ! 0 = fst (strsep ''|,'' info)" by (subst fields_step) simp
  have w: "bit dw k \<longleftrightarrow> (length (strsep_all ''|,'' info) > 1 \<longrightarrow> range_allows 7 (Some days) (strsep_all ''|,'' info ! 1) k)" if "k < 7" for k
    by (rule trans [OF dw(2) [THEN spec, THEN mp, OF that] fields_nth(1) [of info "\<lambda>f. range_allows 7 (Some days) f k"]])
  have d: "bit dm k \<longleftrightarrow> (length (strsep_all ''|,'' info) > 2 \<longrightarrow> range_allows 31 None (strsep_all ''|,'' info ! 2) k)" if "k < 31" for k
    by (rule trans [OF dm(2) [THEN spec, THEN mp, OF that] fields_nth(2) [of info "\<lambda>f. range_allows 31 None f k"]])
  have m: "bit mo k \<longleftrightarrow> (length (strsep_all ''|,'' info) > 3 \<longrightarrow> range_allows 12 (Some months) (strsep_all ''|,'' info ! 3) k)" if "k < 12" for k
    by (rule trans [OF mo(2) [THEN spec, THEN mp, OF that] fields_nth(3) [of info "\<lambda>f. range_allows 12 (Some months) f k"]])
  show ?thesis
    using b mm(2) w d m unfolding h by blast
qed

text \<open>
  C11: compiling a time specification always ends, and the compiled masks accept a time exactly when the
  specification allows it: its minute, weekday, day of the month and month lie in one of the cyclic
  ranges of the respective field, where an empty field, \<open>*\<close> or a missing field allows everything and an
  invalid range nothing.
\<close>

theorem timing_refines_specification:
  assumes "info \<noteq> []" "\<And>zone. tm_valid (ast_localtime tv zone)"
  shows "\<exists>i'. ast_build_timing i info = Some (1, i') \<and> timezone i' = timing_zone info \<and>
    ast_check_timing2 ast_localtime i' tv = (if timing_allows info (ast_localtime tv (timing_zone info)) then 1 else 0)"
proof -
  from build_timing_masks [OF assms(1), of i] obtain mm dw dm mo where b:
    "ast_build_timing i info = Some (1, i\<lparr>monthmask := mo, daymask := dm, dowmask := dw, minmask := mm, timezone := timing_zone info\<rparr>)"
    "\<forall>x. minute_on mm x \<longleftrightarrow> times_allow (strsep_all ''|,'' info ! 0) x"
    "\<forall>k < 7. bit dw k \<longleftrightarrow> (length (strsep_all ''|,'' info) > 1 \<longrightarrow> range_allows 7 (Some days) (strsep_all ''|,'' info ! 1) k)"
    "\<forall>k < 31. bit dm k \<longleftrightarrow> (length (strsep_all ''|,'' info) > 2 \<longrightarrow> range_allows 31 None (strsep_all ''|,'' info ! 2) k)"
    "\<forall>k < 12. bit mo k \<longleftrightarrow> (length (strsep_all ''|,'' info) > 3 \<longrightarrow> range_allows 12 (Some months) (strsep_all ''|,'' info ! 3) k)"
    by blast
  define tm where "tm = ast_localtime tv (timing_zone info)"
  have v: "tm_valid tm" unfolding tm_def by (rule assms(2))
  note mi = minute_index [of "tm_hour tm" "tm_min tm" mm]
  have k: "nat (tm_wday tm) < 7" "nat (tm_mday tm - 1) < 31" "nat (tm_mon tm) < 12" using v by (auto simp: tm_valid_def)
  have "ast_check_timing2 ast_localtime (i\<lparr>monthmask := mo, daymask := dm, dowmask := dw, minmask := mm, timezone := timing_zone info\<rparr>) tv =
      (if timing_allows info tm then 1 else 0)"
    using b(2) b(3) [rule_format, OF k(1)] b(4) [rule_format, OF k(2)] b(5) [rule_format, OF k(3)] mi v
    by (simp add: ast_check_timing2_def timing_allows_def Let_def tm_def [symmetric] tm_valid_def)
  with b(1) show ?thesis by (auto simp: tm_def)
qed

definition noon_tuesday :: ast_tm where
  "noon_tuesday = \<lparr>tm_mon = 4, tm_mday = 31, tm_wday = 2, tm_hour = 12, tm_min = 0\<rparr>"

definition timing_blank :: ast_timing where
  "timing_blank = \<lparr>hastime = 0, monthmask = 0, daymask = 0, dowmask = 0, minmask = [], timezone = None\<rparr>"

theorem timing_refines_specification_witness:
  "\<exists>i'. ast_build_timing timing_blank ''9:00-17:30,mon-fri,*,nov-jun'' = Some (1, i') \<and> timezone i' = timing_zone ''9:00-17:30,mon-fri,*,nov-jun'' \<and>
    ast_check_timing2 (\<lambda>tv zone. noon_tuesday) i' () = (if timing_allows ''9:00-17:30,mon-fri,*,nov-jun'' noon_tuesday then 1 else 0)"
  using timing_refines_specification [of "''9:00-17:30,mon-fri,*,nov-jun''" "\<lambda>tv zone. noon_tuesday" "()" timing_blank]
  by (simp add: tm_valid_def noon_tuesday_def)

end
