(* ===== verification/Pbx_Context.thy ===== *)
theory Pbx_Context
  imports Ast_Hashtab Ext_Pattern Pbx_Timing
begin

text \<open>
  The contexts of the dialplan, \<open>main/pbx.c\<close>: extensions in the order of matching preference, each
  with its chain of priorities, the hash tables that index them, includes, switches and ignore
  patterns. The model is of the default matching algorithm; the trie of the alternative algorithm
  (\<open>extenpatternmatchnew\<close>) has no influence on its results and appears only as the flag that it exists.
  Every allocation made by the table operations succeeds.
\<close>

section \<open>Data\<close>

text \<open>
  \<open>struct ast_exten\<close> without its links: the peer list and the list of extensions are lists. \<open>e_addr\<close> is
  the address of the structure.
\<close>

record ast_exten =
  e_addr :: nat
  e_exten :: string
  e_matchcid :: bool
  e_cidmatch :: string
  e_priority :: int
  e_label :: "string option"
  e_app :: string
  e_data :: nat
  e_registrar :: string

text \<open>The peers of an extension, by priority, and the two tables kept at the head of the peer list.\<close>

record exten_chain =
  peers :: "ast_exten list"
  peer_table :: "ast_exten ast_hashtab"
  peer_label_table :: "ast_exten ast_hashtab"

record ast_include =
  inc_name :: string
  inc_rname :: string
  inc_registrar :: string
  inc_hastime :: int
  inc_timing :: ast_timing

record ast_sw =
  sw_name :: string
  sw_registrar :: string
  sw_data :: string
  sw_eval :: bool

text \<open>The registrar of an ignore pattern is compared by address.\<close>

record ast_ignorepat =
  ip_registrar :: nat
  ip_pattern :: string

record ast_context =
  con_name :: string
  root :: "exten_chain list"
  root_table :: "ast_exten ast_hashtab option"
  pattern_tree :: bool
  con_includes :: "ast_include list"
  ignorepats :: "ast_ignorepat list"
  alts :: "ast_sw list"
  con_registrar :: string
  con_refcount :: int

definition PRIORITY_HINT :: int where
  "PRIORITY_HINT = -1"

section \<open>Keys of the tables\<close>

definition hashtab_compare_extens :: "ast_exten \<Rightarrow> ast_exten \<Rightarrow> int" where
  "hashtab_compare_extens ac bc =
     (let x = c_strcmp (e_exten ac) (e_exten bc) in
      if x \<noteq> 0 then x
      else if e_matchcid ac \<and> e_matchcid bc then c_strcmp (e_cidmatch ac) (e_cidmatch bc)
      else if \<not> e_matchcid ac \<and> \<not> e_matchcid bc then 0
      else 1)"

definition hashtab_compare_exten_numbers :: "ast_exten \<Rightarrow> ast_exten \<Rightarrow> int" where
  "hashtab_compare_exten_numbers ac bc = (if e_priority ac \<noteq> e_priority bc then 1 else 0)"

definition hashtab_compare_exten_labels :: "ast_exten \<Rightarrow> ast_exten \<Rightarrow> int" where
  "hashtab_compare_exten_labels ac bc = c_strcmp (s_or (e_label ac) []) (s_or (e_label bc) [])"

definition hashtab_hash_extens :: "ast_exten \<Rightarrow> 32 word" where
  "hashtab_hash_extens ac =
     ast_hashtab_hash_string (e_exten ac) + (if e_matchcid ac then ast_hashtab_hash_string (e_cidmatch ac) else 0)"

definition hashtab_hash_priority :: "ast_exten \<Rightarrow> 32 word" where
  "hashtab_hash_priority ac = ast_hashtab_hash_int (e_priority ac)"

definition hashtab_hash_labels :: "ast_exten \<Rightarrow> 32 word" where
  "hashtab_hash_labels ac = ast_hashtab_hash_string (s_or (e_label ac) [])"

interpretation nk: hash_key hashtab_compare_exten_numbers hashtab_hash_priority
  by unfold_locales (auto simp: hashtab_compare_exten_numbers_def hashtab_hash_priority_def split: if_splits)

interpretation lk: hash_key hashtab_compare_exten_labels hashtab_hash_labels
  by unfold_locales (auto simp: hashtab_compare_exten_labels_def hashtab_hash_labels_def c_strcmp_zero)

interpretation ek: hash_key hashtab_compare_extens hashtab_hash_extens
  by unfold_locales
    (auto simp: hashtab_compare_extens_def hashtab_hash_extens_def c_strcmp_zero Let_def split: if_splits)

definition new_peer_table :: "ast_exten ast_hashtab" where
  "new_peer_table = the (ast_hashtab_create True 13 hashtab_compare_exten_numbers (Some ast_hashtab_resize_java)
     (Some ast_hashtab_newsize_java) hashtab_hash_priority)"

definition new_label_table :: "ast_exten ast_hashtab" where
  "new_label_table = the (ast_hashtab_create True 7 hashtab_compare_exten_labels (Some ast_hashtab_resize_java)
     (Some ast_hashtab_newsize_java) hashtab_hash_labels)"

definition new_root_table :: "ast_exten ast_hashtab" where
  "new_root_table = the (ast_hashtab_create True 27 hashtab_compare_extens (Some ast_hashtab_resize_java)
     (Some ast_hashtab_newsize_java) hashtab_hash_extens)"

text \<open>The two table operations the dialplan uses on an entry, and their use for an optional label.\<close>

definition tab_insert :: "'a ast_hashtab \<Rightarrow> 'a \<Rightarrow> 'a ast_hashtab" where
  "tab_insert t x = snd (ast_hashtab_insert_safe True True t x)"

definition tab_remove :: "'a ast_hashtab \<Rightarrow> 'a \<Rightarrow> 'a ast_hashtab" where
  "tab_remove t x = snd (ast_hashtab_remove_object_via_lookup t x)"

definition label_insert :: "ast_exten ast_hashtab \<Rightarrow> ast_exten \<Rightarrow> ast_exten ast_hashtab" where
  "label_insert t e = (if e_label e \<noteq> None then tab_insert t e else t)"

definition label_remove :: "ast_exten ast_hashtab \<Rightarrow> ast_exten \<Rightarrow> ast_exten ast_hashtab" where
  "label_remove t e = (if e_label e \<noteq> None then tab_remove t e else t)"

section \<open>Adding an extension\<close>

text \<open>\<open>ext_strncpy\<close>: a copy without the blanks outside of sets.\<close>

fun strncpy_loop :: "string \<Rightarrow> nat \<Rightarrow> bool \<Rightarrow> string" where
  "strncpy_loop [] n insquares = []"
| "strncpy_loop (c # src) n insquares =
     (if n = 0 then []
      else if c = CHR ''['' then c # strncpy_loop src (n - 1) True
      else if c = CHR '']'' then c # strncpy_loop src (n - 1) False
      else if c = CHR '' '' \<and> \<not> insquares then strncpy_loop src n insquares
      else c # strncpy_loop src (n - 1) insquares)"

definition ext_strncpy :: "string \<Rightarrow> nat \<Rightarrow> string" where
  "ext_strncpy src len = strncpy_loop src (len - 1) False"

text \<open>Calls out of the context: the registration of hints and the release of an entry.\<close>

datatype dp_event = Add_hint ast_exten | Change_hint ast_exten ast_exten | Free_exten ast_exten

text \<open>The scan of \<open>add_priority\<close>: the peers in front, the rest from the first priority that is not
  lower, and whether the label was seen at another priority on the way.\<close>

fun scan_peers :: "ast_exten \<Rightarrow> ast_exten list \<Rightarrow> ast_exten list \<times> ast_exten list \<times> bool" where
  "scan_peers tmp [] = ([], [], False)"
| "scan_peers tmp (e # es) =
     (let rep = (e_label e \<noteq> None \<and> e_priority e \<noteq> e_priority tmp \<and> e_label e = e_label tmp)
      in if e_priority e \<ge> e_priority tmp then ([], e # es, rep)
         else (case scan_peers tmp es of (pre, rest, rep') \<Rightarrow> (e # pre, rest, rep \<or> rep')))"

definition add_priority ::
  "ast_exten ast_hashtab option \<Rightarrow> ast_exten \<Rightarrow> exten_chain \<Rightarrow> bool \<Rightarrow>
   int \<times> ast_exten ast_hashtab option \<times> exten_chain \<times> dp_event list" where
  "add_priority rt tmp0 ch replace =
     (case scan_peers tmp0 (peers ch) of (pre, rest, repeated_label) \<Rightarrow>
        let tmp = (if repeated_label then tmp0\<lparr>e_label := None\<rparr> else tmp0) in
        case rest of
          [] \<Rightarrow>
            (0, rt, ch\<lparr>peers := pre @ [tmp], peer_table := tab_insert (peer_table ch) tmp,
                       peer_label_table := label_insert (peer_label_table ch) tmp\<rparr>, [])
        | e # es \<Rightarrow>
            if e_priority e = e_priority tmp then
              if \<not> replace then (-1, rt, ch, [Free_exten tmp])
              else (0, if pre = [] then map_option (\<lambda>t. tab_insert (tab_remove t e) tmp) rt else rt,
                    ch\<lparr>peers := pre @ tmp # es, peer_table := tab_insert (tab_remove (peer_table ch) e) tmp,
                       peer_label_table := label_insert (label_remove (peer_label_table ch) e) tmp\<rparr>,
                    (if e_priority tmp = PRIORITY_HINT then [Change_hint e tmp] else []) @ [Free_exten e])
            else (0, if pre = [] then map_option (\<lambda>t. tab_insert (tab_remove t e) tmp) rt else rt,
                  ch\<lparr>peers := pre @ tmp # e # es, peer_table := tab_insert (peer_table ch) tmp,
                     peer_label_table := label_insert (peer_label_table ch) tmp\<rparr>,
                  if e_priority tmp = PRIORITY_HINT then [Add_hint tmp] else []))"

text \<open>The comparison of the list scan: \<open>res\<close> for the entries \<open>e\<close> and \<open>tmp\<close>.\<close>

definition exten_res :: "ast_exten \<Rightarrow> ast_exten \<Rightarrow> int option" where
  "exten_res e tmp =
     (case ext_cmp (e_exten e) (e_exten tmp) of
        None \<Rightarrow> None
      | Some res \<Rightarrow>
          if res \<noteq> 0 then Some res
          else if \<not> e_matchcid e \<and> \<not> e_matchcid tmp then Some 0
          else if e_matchcid tmp \<and> \<not> e_matchcid e then Some 1
          else if e_matchcid e \<and> \<not> e_matchcid tmp then Some (-1)
          else ext_cmp (e_cidmatch e) (e_cidmatch tmp))"

text \<open>The extensions in front of the first with \<open>res >= 0\<close>, the rest, and that \<open>res\<close>.\<close>

fun scan_chains :: "ast_exten \<Rightarrow> exten_chain list \<Rightarrow> (exten_chain list \<times> exten_chain list \<times> int) option" where
  "scan_chains tmp [] = Some ([], [], 0)"
| "scan_chains tmp (ch # chs) =
     (case exten_res (hd (peers ch)) tmp of
        None \<Rightarrow> None
      | Some res \<Rightarrow>
          if res \<ge> 0 then Some ([], ch # chs, res)
          else map_option (\<lambda>(pre, rest, r). (ch # pre, rest, r)) (scan_chains tmp chs))"

text \<open>The new structure. \<open>addr\<close> is its address; \<open>subst\<close> is the substitution of variables.\<close>

definition new_exten :: "(string \<Rightarrow> string) \<Rightarrow> nat \<Rightarrow> string \<Rightarrow> int \<Rightarrow> string option \<Rightarrow> string option \<Rightarrow> string \<Rightarrow> nat \<Rightarrow> string \<Rightarrow> ast_exten" where
  "new_exten subst addr extension prio lab callerid application data registrar =
     (let application = (if prio = PRIORITY_HINT \<and> c_strstr application ''${'' \<and> \<not> is_pattern extension
                         then subst application else application) in
      \<lparr>e_addr = addr, e_exten = ext_strncpy extension (length extension + 1), e_matchcid = (callerid \<noteq> None),
       e_cidmatch = (case callerid of Some c \<Rightarrow> ext_strncpy c (length c + 1) | None \<Rightarrow> []), e_priority = prio,
       e_label = (if lab = Some [] then None else lab), e_app = application, e_data = data, e_registrar = registrar\<rparr>)"

text \<open>The entry for the raw name, of which \<open>dummy_name\<close> holds 1023 characters, in the table of roots.\<close>

definition root_probe :: "string \<Rightarrow> bool \<Rightarrow> string \<Rightarrow> ast_exten" where
  "root_probe extension mcid cid =
     \<lparr>e_addr = 0, e_exten = take 1023 extension, e_matchcid = mcid, e_cidmatch = cid, e_priority = 0, e_label = None,
      e_app = [], e_data = 0, e_registrar = []\<rparr>"

definition insert_exten :: "ast_context \<Rightarrow> ast_exten \<Rightarrow> bool \<Rightarrow> (int \<times> ast_context \<times> dp_event list) option" where
  "insert_exten con tmp replace =
     (case scan_chains tmp (root con) of
        None \<Rightarrow> None
      | Some (pre, rest, res) \<Rightarrow>
          if rest \<noteq> [] \<and> res = 0
          then (case add_priority (root_table con) tmp (hd rest) replace of (r, rt, ch, evs) \<Rightarrow>
                  Some (0, con\<lparr>root := pre @ ch # tl rest, root_table := rt\<rparr>, evs))
          else let ch = \<lparr>peers = [tmp], peer_table = tab_insert new_peer_table tmp,
                         peer_label_table = label_insert new_label_table tmp\<rparr>;
                   rt = (case root_table con of
                           Some t \<Rightarrow> Some t
                         | None \<Rightarrow> if pre = [] then Some new_root_table else None)
               in Some (0, con\<lparr>root := pre @ ch # rest, root_table := map_option (\<lambda>t. tab_insert t tmp) rt\<rparr>,
                        if e_priority tmp = PRIORITY_HINT then [Add_hint tmp] else []))"

definition ast_add_extension2_lockopt ::
  "(string \<Rightarrow> string) \<Rightarrow> bool \<Rightarrow> nat \<Rightarrow> ast_context \<Rightarrow> bool \<Rightarrow> string \<Rightarrow> int \<Rightarrow> string option \<Rightarrow> string option \<Rightarrow>
   string \<Rightarrow> nat \<Rightarrow> string \<Rightarrow> (int \<times> ast_context \<times> dp_event list) option" where
  "ast_add_extension2_lockopt subst alloc_ok addr con replace extension prio lab callerid application data registrar =
     (if extension = [] then Some (-1, con, [])
      else if \<not> alloc_ok then Some (-1, con, [])
      else let tmp = new_exten subst addr extension prio lab callerid application data registrar;
               con1 = (if pattern_tree con
                       then con\<lparr>root_table := map_option (\<lambda>t. if ast_hashtab_lookup t (root_probe extension False []) = None
                                                               then tab_insert t tmp else t) (root_table con)\<rparr>
                       else con)
           in insert_exten con1 tmp replace)"

definition ast_add_extension2 ::
  "(string \<Rightarrow> string) \<Rightarrow> bool \<Rightarrow> nat \<Rightarrow> ast_context \<Rightarrow> bool \<Rightarrow> string \<Rightarrow> int \<Rightarrow> string option \<Rightarrow> string option \<Rightarrow>
   string \<Rightarrow> nat \<Rightarrow> string \<Rightarrow> (int \<times> ast_context \<times> dp_event list) option" where
  "ast_add_extension2 = ast_add_extension2_lockopt"

section \<open>Includes, switches and ignore patterns\<close>

text \<open>An include of a value with a comma carries a time specification after it. Compiling it always
  ends, so the result is not optional.\<close>

definition blank_timing :: ast_timing where
  "blank_timing = \<lparr>hastime = 0, monthmask = 0, daymask = 0, dowmask = 0, minmask = replicate 48 0, timezone = None\<rparr>"

definition new_include :: "string \<Rightarrow> string \<Rightarrow> ast_include" where
  "new_include value registrar =
     (case strsep '','' value of
        (rname, None) \<Rightarrow> \<lparr>inc_name = value, inc_rname = rname, inc_registrar = registrar, inc_hastime = 0, inc_timing = blank_timing\<rparr>
      | (rname, Some c) \<Rightarrow>
          (case the (ast_build_timing blank_timing c) of (has, tim) \<Rightarrow>
             \<lparr>inc_name = value, inc_rname = rname, inc_registrar = registrar, inc_hastime = has, inc_timing = tim\<rparr>))"

definition ast_context_add_include2 :: "bool \<Rightarrow> ast_context \<Rightarrow> string \<Rightarrow> string \<Rightarrow> int \<times> ast_context" where
  "ast_context_add_include2 alloc_ok con value registrar =
     (if \<not> alloc_ok then (-1, con)
      else let inc = new_include value registrar in
        if \<exists>i \<in> set (con_includes con). strcase_eq (inc_name i) (inc_name inc) then (-1, con)
        else (0, con\<lparr>con_includes := con_includes con @ [inc]\<rparr>))"

text \<open>\<open>!registrar || !strcmp(a, registrar)\<close>.\<close>

definition registrar_ok :: "string \<Rightarrow> string option \<Rightarrow> bool" where
  "registrar_ok a registrar \<longleftrightarrow> (case registrar of None \<Rightarrow> True | Some r \<Rightarrow> a = r)"

text \<open>The removal of the first entry of a list that satisfies a condition.\<close>

fun unlink_first :: "('a \<Rightarrow> bool) \<Rightarrow> 'a list \<Rightarrow> 'a list option" where
  "unlink_first P [] = None"
| "unlink_first P (x # xs) = (if P x then Some xs else map_option ((#) x) (unlink_first P xs))"

definition ast_context_remove_include2 :: "ast_context \<Rightarrow> string \<Rightarrow> string option \<Rightarrow> int \<times> ast_context" where
  "ast_context_remove_include2 con incl registrar =
     (case unlink_first (\<lambda>i. inc_name i = incl \<and> registrar_ok (inc_registrar i) registrar) (con_includes con) of
        Some is \<Rightarrow> (0, con\<lparr>con_includes := is\<rparr>)
      | None \<Rightarrow> (-1, con))"

definition ast_context_add_switch2 :: "bool \<Rightarrow> ast_context \<Rightarrow> string \<Rightarrow> string option \<Rightarrow> bool \<Rightarrow> string \<Rightarrow> int \<times> ast_context" where
  "ast_context_add_switch2 alloc_ok con value data eval registrar =
     (if \<not> alloc_ok then (-1, con)
      else let sw = \<lparr>sw_name = value, sw_registrar = registrar, sw_data = (case data of Some d \<Rightarrow> d | None \<Rightarrow> []), sw_eval = eval\<rparr> in
        if \<exists>i \<in> set (alts con). strcase_eq (sw_name i) (sw_name sw) \<and> strcase_eq (sw_data i) (sw_data sw) then (-1, con)
        else (0, con\<lparr>alts := alts con @ [sw]\<rparr>))"

definition ast_context_remove_switch2 :: "ast_context \<Rightarrow> string \<Rightarrow> string \<Rightarrow> string option \<Rightarrow> int \<times> ast_context" where
  "ast_context_remove_switch2 con sw data registrar =
     (case unlink_first (\<lambda>i. sw_name i = sw \<and> sw_data i = data \<and> registrar_ok (sw_registrar i) registrar) (alts con) of
        Some is \<Rightarrow> (0, con\<lparr>alts := is\<rparr>)
      | None \<Rightarrow> (-1, con))"

definition ast_context_add_ignorepat2 :: "bool \<Rightarrow> ast_context \<Rightarrow> string \<Rightarrow> nat \<Rightarrow> int \<times> ast_context" where
  "ast_context_add_ignorepat2 alloc_ok con value registrar =
     (if \<not> alloc_ok then (-1, con)
      else if \<exists>i \<in> set (ignorepats con). strcase_eq (ip_pattern i) value then (-1, con)
      else (0, con\<lparr>ignorepats := ignorepats con @ [\<lparr>ip_registrar = registrar, ip_pattern = value\<rparr>]\<rparr>))"

text \<open>Here the registrar, 0 for \<open>NULL\<close>, is compared as a pointer.\<close>

definition ast_context_remove_ignorepat2 :: "ast_context \<Rightarrow> string \<Rightarrow> nat \<Rightarrow> int \<times> ast_context" where
  "ast_context_remove_ignorepat2 con ignorepat registrar =
     (case unlink_first (\<lambda>i. ip_pattern i = ignorepat \<and> (registrar = 0 \<or> registrar = ip_registrar i)) (ignorepats con) of
        Some is \<Rightarrow> (0, con\<lparr>ignorepats := is\<rparr>)
      | None \<Rightarrow> (-1, con))"

section \<open>The contexts\<close>

text \<open>
  The list of contexts, newest first. The table of contexts holds the first context registered with a
  name, names compared exactly; lookups see 255 characters of a name.
\<close>

type_synonym dialplan = "ast_context list"

definition find_context :: "dialplan \<Rightarrow> string \<Rightarrow> ast_context option" where
  "find_context dp context = find (\<lambda>c. con_name c = take 255 context) (rev dp)"

definition ast_context_find :: "dialplan \<Rightarrow> string \<Rightarrow> ast_context option" where
  "ast_context_find dp name = find_context dp name"

fun replace_first :: "('a \<Rightarrow> bool) \<Rightarrow> 'a \<Rightarrow> 'a list \<Rightarrow> 'a list" where
  "replace_first P y [] = []"
| "replace_first P y (x # xs) = (if P x then y # xs else x # replace_first P y xs)"

text \<open>The context found under a name is changed in place.\<close>

definition store_context :: "dialplan \<Rightarrow> string \<Rightarrow> ast_context \<Rightarrow> dialplan" where
  "store_context dp context c = rev (replace_first (\<lambda>c. con_name c = take 255 context) c (rev dp))"

definition ast_context_find_or_create :: "bool \<Rightarrow> dialplan \<Rightarrow> string \<Rightarrow> string \<Rightarrow> ast_context option \<times> dialplan" where
  "ast_context_find_or_create alloc_ok dp name registrar =
     (case find_context dp name of
        Some c \<Rightarrow> (let c' = c\<lparr>con_refcount := con_refcount c + 1\<rparr> in (Some c', store_context dp name c'))
      | None \<Rightarrow>
          if \<not> alloc_ok then (None, dp)
          else let c = \<lparr>con_name = name, root = [], root_table = None, pattern_tree = False, con_includes = [],
                        ignorepats = [], alts = [], con_registrar = registrar, con_refcount = 1\<rparr>
               in (Some c, c # dp))"

text \<open>The operations that name their context: -1 when there is none.\<close>

definition in_context :: "dialplan \<Rightarrow> string \<Rightarrow> (ast_context \<Rightarrow> int \<times> ast_context) \<Rightarrow> int \<times> dialplan" where
  "in_context dp context f =
     (case find_context dp context of
        None \<Rightarrow> (-1, dp)
      | Some c \<Rightarrow> (case f c of (ret, c') \<Rightarrow> (ret, store_context dp context c')))"

definition ast_context_add_include :: "bool \<Rightarrow> dialplan \<Rightarrow> string \<Rightarrow> string \<Rightarrow> string \<Rightarrow> int \<times> dialplan" where
  "ast_context_add_include alloc_ok dp context incl registrar =
     in_context dp context (\<lambda>c. ast_context_add_include2 alloc_ok c incl registrar)"

definition ast_context_remove_include :: "dialplan \<Rightarrow> string \<Rightarrow> string \<Rightarrow> string option \<Rightarrow> int \<times> dialplan" where
  "ast_context_remove_include dp context incl registrar =
     in_context dp context (\<lambda>c. ast_context_remove_include2 c incl registrar)"

definition ast_context_add_switch :: "bool \<Rightarrow> dialplan \<Rightarrow> string \<Rightarrow> string \<Rightarrow> string option \<Rightarrow> bool \<Rightarrow> string \<Rightarrow> int \<times> dialplan" where
  "ast_context_add_switch alloc_ok dp context sw data eval registrar =
     in_context dp context (\<lambda>c. ast_context_add_switch2 alloc_ok c sw data eval registrar)"

definition ast_context_remove_switch :: "dialplan \<Rightarrow> string \<Rightarrow> string \<Rightarrow> string \<Rightarrow> string option \<Rightarrow> int \<times> dialplan" where
  "ast_context_remove_switch dp context sw data registrar =
     in_context dp context (\<lambda>c. ast_context_remove_switch2 c sw data registrar)"

definition ast_context_add_ignorepat :: "bool \<Rightarrow> dialplan \<Rightarrow> string \<Rightarrow> string \<Rightarrow> nat \<Rightarrow> int \<times> dialplan" where
  "ast_context_add_ignorepat alloc_ok dp context value registrar =
     in_context dp context (\<lambda>c. ast_context_add_ignorepat2 alloc_ok c value registrar)"

definition ast_context_remove_ignorepat :: "dialplan \<Rightarrow> string \<Rightarrow> string \<Rightarrow> nat \<Rightarrow> int \<times> dialplan" where
  "ast_context_remove_ignorepat dp context ignorepat registrar =
     in_context dp context (\<lambda>c. ast_context_remove_ignorepat2 c ignorepat registrar)"

definition ast_add_extension ::
  "(string \<Rightarrow> string) \<Rightarrow> bool \<Rightarrow> nat \<Rightarrow> dialplan \<Rightarrow> string \<Rightarrow> bool \<Rightarrow> string \<Rightarrow> int \<Rightarrow> string option \<Rightarrow> string option \<Rightarrow>
   string \<Rightarrow> nat \<Rightarrow> string \<Rightarrow> (int \<times> dialplan \<times> dp_event list) option" where
  "ast_add_extension subst alloc_ok addr dp context replace extension prio lab callerid application data registrar =
     (case find_context dp context of
        None \<Rightarrow> Some (-1, dp, [])
      | Some c \<Rightarrow>
          map_option (\<lambda>(ret, c', evs). (ret, store_context dp context c', evs))
            (ast_add_extension2 subst alloc_ok addr c replace extension prio lab callerid application data registrar))"

fun ignore_loop :: "ast_ignorepat list \<Rightarrow> string \<Rightarrow> int option" where
  "ignore_loop [] pattern = Some 0"
| "ignore_loop (pat # pats) pattern =
     (case ast_extension_match (ip_pattern pat) pattern of
        None \<Rightarrow> None
      | Some r \<Rightarrow> if r \<noteq> 0 then Some 1 else ignore_loop pats pattern)"

definition ast_ignore_pattern :: "dialplan \<Rightarrow> string \<Rightarrow> string \<Rightarrow> int option" where
  "ast_ignore_pattern dp context pattern =
     (case ast_context_find dp context of
        None \<Rightarrow> Some 0
      | Some con \<Rightarrow> ignore_loop (ignorepats con) pattern)"

definition ast_context_verify_includes :: "dialplan \<Rightarrow> ast_context \<Rightarrow> int" where
  "ast_context_verify_includes dp con =
     (if \<forall>i \<in> set (con_includes con). ast_context_find dp (inc_rname i) \<noteq> None then 0 else -1)"

section \<open>The order of extensions\<close>

text \<open>A comparison that is a total preorder on a set of values.\<close>

locale cmp_preorder =
  fixes c :: "'a \<Rightarrow> 'a \<Rightarrow> int"
    and valid :: "'a \<Rightarrow> bool"
  assumes swap: "c y x = - c x y"
    and le_trans: "valid x \<Longrightarrow> valid y \<Longrightarrow> valid z \<Longrightarrow> c x y \<le> 0 \<Longrightarrow> c y z \<le> 0 \<Longrightarrow> c x z \<le> 0"
begin

lemma self: "c x x = 0"
  using swap [of x x] by simp

lemma lt_le_trans: "valid x \<Longrightarrow> valid y \<Longrightarrow> valid z \<Longrightarrow> c x y < 0 \<Longrightarrow> c y z \<le> 0 \<Longrightarrow> c x z < 0"
  using le_trans [of x y z] le_trans [of y z x] swap [of x y] swap [of x z] by linarith

lemma le_lt_trans: "valid x \<Longrightarrow> valid y \<Longrightarrow> valid z \<Longrightarrow> c x y \<le> 0 \<Longrightarrow> c y z < 0 \<Longrightarrow> c x z < 0"
  using le_trans [of x y z] le_trans [of z x y] swap [of y z] swap [of x z] by linarith

lemma eq_trans: "valid x \<Longrightarrow> valid y \<Longrightarrow> valid z \<Longrightarrow> c x y = 0 \<Longrightarrow> c y z = 0 \<Longrightarrow> c x z = 0"
  using le_trans [of x y z] le_trans [of z y x] swap [of x y] swap [of y z] swap [of x z] by linarith

text \<open>A value equivalent to another is in the same place.\<close>

lemma eq_cong:
  assumes "valid x" "valid y" "valid z" "c x y = 0"
  shows "c x z < 0 \<longleftrightarrow> c y z < 0" "c z x < 0 \<longleftrightarrow> c z y < 0" "c x z = 0 \<longleftrightarrow> c y z = 0"
proof -
  have s: "c y x = 0" using swap [of x y] assms(4) by simp
  show "c x z < 0 \<longleftrightarrow> c y z < 0"
    using le_lt_trans [OF assms(2,1,3)] le_lt_trans [OF assms(1,2,3)] s assms(4) by fastforce
  show "c z x < 0 \<longleftrightarrow> c z y < 0"
    using lt_le_trans [OF assms(3,1,2)] lt_le_trans [OF assms(3,2,1)] s assms(4) by fastforce
  show "c x z = 0 \<longleftrightarrow> c y z = 0"
    using eq_trans [OF assms(2,1,3)] eq_trans [OF assms(1,2,3)] s assms(4) by fastforce
qed

end

interpretation xk: cmp_preorder key_cmp ext_valid
  by unfold_locales (rule key_cmp_swap, rule key_cmp_trans)

definition cid_cmp :: "ast_exten \<Rightarrow> ast_exten \<Rightarrow> int" where
  "cid_cmp e t =
     (if \<not> e_matchcid e \<and> \<not> e_matchcid t then 0
      else if e_matchcid t \<and> \<not> e_matchcid e then 1
      else if e_matchcid e \<and> \<not> e_matchcid t then -1
      else key_cmp (e_cidmatch e) (e_cidmatch t))"

definition exten_cmp :: "ast_exten \<Rightarrow> ast_exten \<Rightarrow> int" where
  "exten_cmp e t = (if key_cmp (e_exten e) (e_exten t) \<noteq> 0 then key_cmp (e_exten e) (e_exten t) else cid_cmp e t)"

definition exten_valid :: "ast_exten \<Rightarrow> bool" where
  "exten_valid e \<longleftrightarrow> ext_valid (e_exten e) \<and> ext_valid (e_cidmatch e)"

lemma cid_cmp_trans:
  "exten_valid x \<Longrightarrow> exten_valid y \<Longrightarrow> exten_valid z \<Longrightarrow> cid_cmp x y \<le> 0 \<Longrightarrow> cid_cmp y z \<le> 0 \<Longrightarrow> cid_cmp x z \<le> 0"
  using xk.le_trans [of "e_cidmatch x" "e_cidmatch y" "e_cidmatch z"]
  by (cases "e_matchcid x"; cases "e_matchcid y"; cases "e_matchcid z") (simp_all add: cid_cmp_def exten_valid_def)

interpretation ec: cmp_preorder exten_cmp exten_valid
proof
  fix x y z :: ast_exten
  show "exten_cmp y x = - exten_cmp x y"
    using xk.swap [of "e_exten y" "e_exten x"] xk.swap [of "e_cidmatch y" "e_cidmatch x"]
    by (auto simp: exten_cmp_def cid_cmp_def)
  assume v: "exten_valid x" "exten_valid y" "exten_valid z" and le: "exten_cmp x y \<le> 0" "exten_cmp y z \<le> 0"
  let ?k = "\<lambda>a b. key_cmp (e_exten a) (e_exten b)"
  have vk: "ext_valid (e_exten x)" "ext_valid (e_exten y)" "ext_valid (e_exten z)" using v by (simp_all add: exten_valid_def)
  have k: "?k x y \<le> 0" "?k y z \<le> 0" using le by (auto simp: exten_cmp_def split: if_splits)
  show "exten_cmp x z \<le> 0"
  proof (cases "?k x y < 0 \<or> ?k y z < 0")
    case True
    then have "?k x z < 0" using xk.lt_le_trans [OF vk] xk.le_lt_trans [OF vk] k by blast
    then show ?thesis by (simp add: exten_cmp_def)
  next
    case False
    with k have "?k x y = 0" "?k y z = 0" by auto
    with xk.eq_trans [OF vk] cid_cmp_trans [OF v] le show ?thesis by (simp add: exten_cmp_def)
  qed
qed

lemma exten_res_cmp:
  assumes "exten_valid e" "exten_valid t"
  shows "exten_res e t = Some (exten_cmp e t)"
proof -
  have "ext_cmp (e_exten e) (e_exten t) = Some (key_cmp (e_exten e) (e_exten t))"
    "ext_cmp (e_cidmatch e) (e_cidmatch t) = Some (key_cmp (e_cidmatch e) (e_cidmatch t))"
    using ext_cmp_key assms by (simp_all add: exten_valid_def)
  then show ?thesis by (simp add: exten_res_def exten_cmp_def cid_cmp_def)
qed

section \<open>The invariant of a context\<close>

definition chain_ok :: "exten_chain \<Rightarrow> bool" where
  "chain_ok ch \<longleftrightarrow>
     peers ch \<noteq> [] \<and> sorted_wrt (\<lambda>a b. e_priority a < e_priority b) (peers ch) \<and>
     (\<forall>p \<in> set (peers ch). exten_valid p \<and> exten_cmp (hd (peers ch)) p = 0) \<and>
     ht_ok hashtab_compare_exten_numbers hashtab_hash_priority (peer_table ch) \<and> ht_objs (peer_table ch) = set (peers ch) \<and>
     ht_ok hashtab_compare_exten_labels hashtab_hash_labels (peer_label_table ch) \<and>
     ht_objs (peer_label_table ch) \<subseteq> {p \<in> set (peers ch). e_label p \<noteq> None}"

abbreviation chain_head :: "exten_chain \<Rightarrow> ast_exten" where
  "chain_head ch \<equiv> hd (peers ch)"

definition context_ok :: "ast_context \<Rightarrow> bool" where
  "context_ok con \<longleftrightarrow>
     (\<forall>ch \<in> set (root con). chain_ok ch) \<and>
     sorted_wrt (\<lambda>a b. exten_cmp (chain_head a) (chain_head b) < 0) (root con)"

definition context_entries :: "ast_context \<Rightarrow> ast_exten set" where
  "context_entries con = (\<Union>ch \<in> set (root con). set (peers ch))"

lemma chain_head_valid: "chain_ok ch \<Longrightarrow> exten_valid (chain_head ch) \<and> chain_head ch \<in> set (peers ch)"
  by (auto simp: chain_ok_def)

lemma scan_chains_split:
  assumes "\<forall>ch \<in> set chs. chain_ok ch" "exten_valid tmp"
  shows "\<exists>pre rest r. scan_chains tmp chs = Some (pre, rest, r) \<and> chs = pre @ rest \<and>
    (\<forall>ch \<in> set pre. exten_cmp (chain_head ch) tmp < 0) \<and>
    (rest \<noteq> [] \<longrightarrow> r = exten_cmp (chain_head (hd rest)) tmp \<and> r \<ge> 0)"
  using assms
proof (induction chs)
  case (Cons ch chs)
  have res: "exten_res (chain_head ch) tmp = Some (exten_cmp (chain_head ch) tmp)"
    using exten_res_cmp chain_head_valid Cons.prems by simp
  show ?case
  proof (cases "exten_cmp (chain_head ch) tmp \<ge> 0")
    case True
    with res show ?thesis by (intro exI [of _ "[]"] exI [of _ "ch # chs"]) simp
  next
    case False
    from Cons obtain pre rest r where "scan_chains tmp chs = Some (pre, rest, r)" "chs = pre @ rest"
      "\<forall>ch \<in> set pre. exten_cmp (chain_head ch) tmp < 0"
      "rest \<noteq> [] \<longrightarrow> r = exten_cmp (chain_head (hd rest)) tmp \<and> r \<ge> 0" by auto
    with False res show ?thesis by (intro exI [of _ "ch # pre"] exI [of _ rest] exI [of _ r]) auto
  qed
qed simp

section \<open>Adding a priority\<close>

abbreviation number_table :: "ast_exten ast_hashtab \<Rightarrow> bool" where
  "number_table \<equiv> ht_ok hashtab_compare_exten_numbers hashtab_hash_priority"

abbreviation label_table :: "ast_exten ast_hashtab \<Rightarrow> bool" where
  "label_table \<equiv> ht_ok hashtab_compare_exten_labels hashtab_hash_labels"

lemma numbers_zero: "hashtab_compare_exten_numbers x y = 0 \<longleftrightarrow> e_priority x = e_priority y"
  by (simp add: hashtab_compare_exten_numbers_def)

lemma number_insert:
  assumes "number_table t"
  shows "number_table (tab_insert t x)"
    "ht_objs (tab_insert t x) = (if \<exists>y \<in> ht_objs t. e_priority x = e_priority y then ht_objs t else insert x (ht_objs t))"
  using nk.table_insert_objs [OF assms, of x] by (simp_all add: tab_insert_def numbers_zero)

lemma number_remove:
  assumes "number_table t"
  shows "number_table (tab_remove t x)" "ht_objs (tab_remove t x) = {y \<in> ht_objs t. e_priority x \<noteq> e_priority y}"
  using nk.table_remove_key [OF assms, of x] by (simp_all add: tab_remove_def numbers_zero)

lemma label_insert_objs:
  assumes "label_table t"
  shows "label_table (label_insert t x)" "ht_objs (label_insert t x) \<subseteq> ht_objs t \<union> (if e_label x = None then {} else {x})"
  using lk.table_insert_objs [OF assms, of x] assms by (auto simp: label_insert_def tab_insert_def)

lemma label_remove_objs:
  assumes "label_table t" "\<forall>p \<in> ht_objs t. e_label p \<noteq> None"
  shows "label_table (label_remove t x)" "ht_objs (label_remove t x) \<subseteq> ht_objs t - {x}"
proof -
  have "hashtab_compare_exten_labels x x = 0" by (rule lk.compare_refl)
  then show "label_table (label_remove t x)" "ht_objs (label_remove t x) \<subseteq> ht_objs t - {x}"
    using lk.table_remove_key [OF assms(1), of x] assms by (auto simp: label_remove_def tab_remove_def)
qed

lemma scan_peers_split:
  "scan_peers tmp ps = (pre, rest, rep) \<Longrightarrow> ps = pre @ rest \<and> (\<forall>p \<in> set pre. e_priority p < e_priority tmp) \<and>
    (\<forall>e es. rest = e # es \<longrightarrow> e_priority tmp \<le> e_priority e)"
proof (induction tmp ps arbitrary: pre rest rep rule: scan_peers.induct)
  case (2 tmp e es)
  show ?case
  proof (cases "e_priority tmp \<le> e_priority e")
    case True
    with 2(2) show ?thesis by (auto simp: Let_def)
  next
    case False
    obtain pre' rest' rep' where r: "scan_peers tmp es = (pre', rest', rep')" by (cases "scan_peers tmp es")
    with False 2(2) have "pre = e # pre'" "rest = rest'" by (auto simp: Let_def)
    with 2(1) [OF refl False r] False show ?thesis by auto
  qed
qed simp

lemma relabel [simp]:
  "exten_cmp x (tmp\<lparr>e_label := l\<rparr>) = exten_cmp x tmp" "exten_cmp (tmp\<lparr>e_label := l\<rparr>) x = exten_cmp tmp x"
  "exten_valid (tmp\<lparr>e_label := l\<rparr>) = exten_valid tmp"
  by (simp_all add: exten_cmp_def cid_cmp_def exten_valid_def)

text \<open>A chain whose peers changed around one position.\<close>

lemma chain_ok_intro:
  assumes "chain_ok ch" "exten_valid tmp" "exten_cmp (chain_head ch) tmp = 0"
    and s: "sorted_wrt (\<lambda>a b. e_priority a < e_priority b) ps" "ps \<noteq> []" "set ps \<subseteq> insert tmp (set (peers ch))"
    and t: "number_table pt" "ht_objs pt = set ps" "label_table lt" "ht_objs lt \<subseteq> {p \<in> set ps. e_label p \<noteq> None}"
  shows "chain_ok (ch\<lparr>peers := ps, peer_table := pt, peer_label_table := lt\<rparr>)" "exten_cmp (hd ps) tmp = 0"
proof -
  have v: "exten_valid (chain_head ch)" using chain_head_valid [OF assms(1)] by simp
  have m: "exten_valid p \<and> exten_cmp (chain_head ch) p = 0" if "p \<in> set ps" for p
    using that s(3) assms(1-3) by (auto simp: chain_ok_def)
  have h: "exten_valid (hd ps)" "exten_cmp (chain_head ch) (hd ps) = 0" using m s(2) by auto
  have "exten_cmp (hd ps) p = 0" if "p \<in> set ps" for p
    using ec.eq_cong(3) [OF v h(1) _ h(2)] m [OF that] by blast
  moreover have "exten_cmp (hd ps) tmp = 0" using ec.eq_cong(3) [OF v h(1) assms(2) h(2)] assms(3) by blast
  ultimately show "chain_ok (ch\<lparr>peers := ps, peer_table := pt, peer_label_table := lt\<rparr>)" "exten_cmp (hd ps) tmp = 0"
    using m s t by (auto simp: chain_ok_def)
qed

text \<open>A new peer at its place between others of the chain.\<close>

lemma chain_put:
  assumes ch: "chain_ok ch" "exten_valid x" "exten_cmp (chain_head ch) x = 0"
    and s: "sorted_wrt (\<lambda>a b. e_priority a < e_priority b) (pre @ x # rest)" "set (pre @ rest) \<subseteq> set (peers ch)"
    and t: "number_table t" "ht_objs t = set (pre @ rest)" "label_table l" "ht_objs l \<subseteq> {p \<in> set (pre @ rest). e_label p \<noteq> None}"
  shows "chain_ok (ch\<lparr>peers := pre @ x # rest, peer_table := tab_insert t x, peer_label_table := label_insert l x\<rparr>)"
    "exten_cmp (hd (pre @ x # rest)) x = 0"
proof -
  have "\<not> (\<exists>y \<in> set (pre @ rest). e_priority x = e_priority y)" using s(1) by (auto simp: sorted_wrt_append)
  with t(2) number_insert(2) [OF t(1), of x] have pt: "ht_objs (tab_insert t x) = set (pre @ x # rest)" by simp
  have lt: "ht_objs (label_insert l x) \<subseteq> {p \<in> set (pre @ x # rest). e_label p \<noteq> None}"
    using label_insert_objs(2) [OF t(3), of x] t(4) by (auto split: if_splits)
  have sub: "set (pre @ x # rest) \<subseteq> insert x (set (peers ch))" "pre @ x # rest \<noteq> []" using s(2) by auto
  from chain_ok_intro [OF ch s(1) sub(2,1) number_insert(1) [OF t(1)] pt label_insert_objs(1) [OF t(3)] lt]
  show "chain_ok (ch\<lparr>peers := pre @ x # rest, peer_table := tab_insert t x, peer_label_table := label_insert l x\<rparr>)"
    "exten_cmp (hd (pre @ x # rest)) x = 0" .
qed

text \<open>The three outcomes of \<open>add_priority\<close>: refused, in place of the entry with its priority, or between
  the neighbouring priorities. The label is dropped when it was seen before.\<close>

definition added_peer :: "ast_exten \<Rightarrow> exten_chain \<Rightarrow> ast_exten" where
  "added_peer tmp ch = (if snd (snd (scan_peers tmp (peers ch))) then tmp\<lparr>e_label := None\<rparr> else tmp)"

lemma added_peer_fields [simp]:
  "e_priority (added_peer tmp ch) = e_priority tmp" "exten_cmp x (added_peer tmp ch) = exten_cmp x tmp"
  "exten_valid (added_peer tmp ch) = exten_valid tmp"
  by (simp_all add: added_peer_def)

lemma sorted_insert_between:
  assumes "sorted_wrt (\<lambda>a b. f a < (f b :: int)) (pre @ rest)" "\<forall>p \<in> set pre. f p < f x" "\<forall>e \<in> set rest. f x < f e"
  shows "sorted_wrt (\<lambda>a b. f a < f b) (pre @ x # rest)"
  using assms by (auto simp: sorted_wrt_append)

definition peers_after :: "ast_exten \<Rightarrow> exten_chain \<Rightarrow> bool \<Rightarrow> ast_exten set" where
  "peers_after tmp ch replace =
     (if \<exists>e \<in> set (peers ch). e_priority e = e_priority tmp
      then if replace then insert (added_peer tmp ch) {e \<in> set (peers ch). e_priority e \<noteq> e_priority tmp} else set (peers ch)
      else insert (added_peer tmp ch) (set (peers ch)))"

lemma add_priority_cases:
  assumes sc: "scan_peers tmp (peers ch) = (pre, rest, rep)" and x: "x = added_peer tmp ch"
    and add: "add_priority rt tmp ch replace = (r, rt', ch', evs)"
  shows "rest = [] \<or> e_priority (hd rest) \<noteq> e_priority tmp \<Longrightarrow>
      ch' = ch\<lparr>peers := pre @ x # rest, peer_table := tab_insert (peer_table ch) x,
               peer_label_table := label_insert (peer_label_table ch) x\<rparr>"
    "rest = e # es \<Longrightarrow> e_priority e = e_priority tmp \<Longrightarrow> \<not> replace \<Longrightarrow> ch' = ch"
    "rest = e # es \<Longrightarrow> e_priority e = e_priority tmp \<Longrightarrow> replace \<Longrightarrow>
      ch' = ch\<lparr>peers := pre @ x # es, peer_table := tab_insert (tab_remove (peer_table ch) e) x,
               peer_label_table := label_insert (label_remove (peer_label_table ch) e) x\<rparr>"
proof -
  have "x = (if rep then tmp\<lparr>e_label := None\<rparr> else tmp)" using x sc by (simp add: added_peer_def)
  note defs = add_priority_def Let_def sc this
  show "rest = [] \<or> e_priority (hd rest) \<noteq> e_priority tmp \<Longrightarrow>
      ch' = ch\<lparr>peers := pre @ x # rest, peer_table := tab_insert (peer_table ch) x,
               peer_label_table := label_insert (peer_label_table ch) x\<rparr>"
    using add by (cases rep; cases rest) (auto simp: defs)
  show "rest = e # es \<Longrightarrow> e_priority e = e_priority tmp \<Longrightarrow> \<not> replace \<Longrightarrow> ch' = ch"
    using add by (cases rep) (auto simp: defs)
  show "rest = e # es \<Longrightarrow> e_priority e = e_priority tmp \<Longrightarrow> replace \<Longrightarrow>
      ch' = ch\<lparr>peers := pre @ x # es, peer_table := tab_insert (tab_remove (peer_table ch) e) x,
               peer_label_table := label_insert (label_remove (peer_label_table ch) e) x\<rparr>"
    using add by (cases rep) (auto simp: defs)
qed

lemma add_priority_effect:
  assumes ch: "chain_ok ch" and v: "exten_valid tmp" "exten_cmp (chain_head ch) tmp = 0"
    and add: "add_priority rt tmp ch replace = (r, rt', ch', evs)"
  shows "chain_ok ch' \<and> exten_cmp (chain_head ch') tmp = 0 \<and> set (peers ch') = peers_after tmp ch replace"
proof -
  obtain pre rest rep where sc: "scan_peers tmp (peers ch) = (pre, rest, rep)" by (cases "scan_peers tmp (peers ch)")
  note sp = scan_peers_split [OF sc]
  define x where "x = added_peer tmp ch"
  note ac = add_priority_cases [OF sc x_def add]
  have xv: "exten_valid x" "exten_cmp (chain_head ch) x = 0" and xp: "e_priority x = e_priority tmp"
    and ne: "exten_cmp y tmp = exten_cmp y x" for y using v by (simp_all add: x_def)
  have srt: "sorted_wrt (\<lambda>a b. e_priority a < e_priority b) (pre @ rest)" using ch sp by (simp add: chain_ok_def)
  have tabs: "number_table (peer_table ch)" "ht_objs (peer_table ch) = set (pre @ rest)" "label_table (peer_label_table ch)"
    "ht_objs (peer_label_table ch) \<subseteq> {p \<in> set (pre @ rest). e_label p \<noteq> None}"
    using ch sp unfolding chain_ok_def by simp_all
  show ?thesis
  proof (cases "rest = [] \<or> e_priority (hd rest) \<noteq> e_priority tmp")
    case True
    have gt: "\<forall>y \<in> set rest. e_priority x < e_priority y"
      using True sp srt xp by (cases rest) (auto simp: sorted_wrt_append)
    then have new: "\<not> (\<exists>e \<in> set (peers ch). e_priority e = e_priority tmp)" using sp xp by auto
    have s: "sorted_wrt (\<lambda>a b. e_priority a < e_priority b) (pre @ x # rest)"
      using sorted_insert_between [OF srt] sp gt xp by simp
    have sub: "set (pre @ rest) \<subseteq> set (peers ch)" using sp by simp
    have "set (peers ch') = insert x (set (peers ch))" using ac(1) [OF True] sp by simp
    moreover have "chain_ok ch' \<and> exten_cmp (chain_head ch') x = 0"
      using chain_put [OF ch xv s sub tabs] ac(1) [OF True] by simp
    ultimately show ?thesis using new unfolding peers_after_def x_def [symmetric] ne by simp
  next
    case False
    then obtain e es where rest: "rest = e # es" and same: "e_priority e = e_priority tmp" by (cases rest) auto
    then have ex: "\<exists>e \<in> set (peers ch). e_priority e = e_priority tmp" using sp by auto
    have later: "\<forall>y \<in> set es. e_priority x < e_priority y" using srt rest same xp by (simp add: sorted_wrt_append)
    show ?thesis
    proof (cases replace)
      case False
      with ac(2) [OF rest same] ex ch v show ?thesis by (simp add: peers_after_def)
    next
      case True
      have s: "sorted_wrt (\<lambda>a b. e_priority a < e_priority b) (pre @ x # es)"
        by (rule sorted_insert_between) (use srt sp later xp rest in \<open>auto simp: sorted_wrt_append\<close>)
      have others: "{y \<in> set (pre @ rest). e_priority y \<noteq> e_priority tmp} = set (pre @ es)"
        using sp later same rest xp by auto
      then have pt: "ht_objs (tab_remove (peer_table ch) e) = set (pre @ es)"
        using number_remove(2) [OF tabs(1), of e] tabs(2) same by (simp add: eq_commute [of "e_priority tmp"])
      have l: "label_table (label_remove (peer_label_table ch) e)"
        "ht_objs (label_remove (peer_label_table ch) e) \<subseteq> {p \<in> set (pre @ es). e_label p \<noteq> None}"
        using label_remove_objs [OF tabs(3), of e] tabs(4) rest by (simp, blast)+
      have sub: "set (pre @ es) \<subseteq> set (peers ch)" using sp rest by auto
      have "chain_ok ch' \<and> exten_cmp (chain_head ch') x = 0"
        using chain_put [OF ch xv s sub number_remove(1) [OF tabs(1)] pt l] ac(3) [OF rest same True] by simp
      moreover have "set (peers ch') = insert x {e \<in> set (peers ch). e_priority e \<noteq> e_priority tmp}"
        using ac(3) [OF rest same True] others sp by simp
      ultimately show ?thesis using ex True unfolding peers_after_def x_def [symmetric] ne by simp
    qed
  qed
qed

section \<open>Adding an extension to a context\<close>

lemma chain_member:
  assumes "chain_ok ch" "p \<in> set (peers ch)" "exten_valid t"
  shows "exten_cmp p t = 0 \<longleftrightarrow> exten_cmp (chain_head ch) t = 0"
proof -
  have "exten_valid (chain_head ch)" "exten_valid p" "exten_cmp (chain_head ch) p = 0"
    using assms(1,2) by (auto simp: chain_ok_def)
  from ec.eq_cong(3) [OF this(1,2) assms(3) this(3)] show ?thesis by simp
qed

lemma new_tables:
  "number_table new_peer_table" "ht_objs new_peer_table = {}" "label_table new_label_table" "ht_objs new_label_table = {}"
proof -
  have n: "number_table new_peer_table \<and> ht_objs new_peer_table = {}" unfolding new_peer_table_def
    by (rule nk.create_ok [where n = 13 and newsize = ast_hashtab_newsize_java and resize = ast_hashtab_resize_java])
       (simp_all add: ast_hashtab_create_def Let_def newsize_java_pos)
  have l: "label_table new_label_table \<and> ht_objs new_label_table = {}" unfolding new_label_table_def
    by (rule lk.create_ok [where n = 7 and newsize = ast_hashtab_newsize_java and resize = ast_hashtab_resize_java])
       (simp_all add: ast_hashtab_create_def Let_def newsize_java_pos)
  show "number_table new_peer_table" "ht_objs new_peer_table = {}" "label_table new_label_table" "ht_objs new_label_table = {}"
    using n l by auto
qed

definition first_chain :: "ast_exten \<Rightarrow> exten_chain" where
  "first_chain tmp = \<lparr>peers = [tmp], peer_table = tab_insert new_peer_table tmp,
     peer_label_table = label_insert new_label_table tmp\<rparr>"

lemma first_chain_ok: "exten_valid tmp \<Longrightarrow> chain_ok (first_chain tmp)"
  using number_insert [OF new_tables(1), of tmp] label_insert_objs [OF new_tables(3), of tmp] new_tables(2,4)
  by (auto simp: first_chain_def chain_ok_def ec.self split: if_splits)

text \<open>Where the scan of the list stops, relative to the new entry.\<close>

lemma scan_position:
  assumes con: "context_ok con" "exten_valid tmp"
  obtains pre rest r where "scan_chains tmp (root con) = Some (pre, rest, r)" "root con = pre @ rest"
    "\<forall>ch \<in> set pre. exten_cmp (chain_head ch) tmp < 0"
    "rest \<noteq> [] \<Longrightarrow> r = 0 \<Longrightarrow> exten_cmp (chain_head (hd rest)) tmp = 0 \<and> (\<forall>ch \<in> set (tl rest). exten_cmp tmp (chain_head ch) < 0)"
    "r \<noteq> 0 \<or> rest = [] \<Longrightarrow> \<forall>ch \<in> set rest. exten_cmp tmp (chain_head ch) < 0"
proof -
  have ok: "\<forall>ch \<in> set (root con). chain_ok ch" using con by (simp add: context_ok_def)
  from scan_chains_split [OF ok con(2)] obtain pre rest r where s: "scan_chains tmp (root con) = Some (pre, rest, r)"
    "root con = pre @ rest" "\<forall>ch \<in> set pre. exten_cmp (chain_head ch) tmp < 0"
    "rest \<noteq> [] \<longrightarrow> r = exten_cmp (chain_head (hd rest)) tmp \<and> r \<ge> 0" by blast
  have later: "exten_cmp tmp (chain_head ch) < 0" if "rest = c # cs" "ch \<in> set cs" for c cs ch
  proof -
    have "exten_cmp (chain_head c) (chain_head ch) < 0"
      using con(1) s(2) that by (simp add: context_ok_def sorted_wrt_append)
    moreover have "exten_cmp tmp (chain_head c) \<le> 0" using s(4) that(1) ec.swap [of tmp "chain_head c"] by simp
    moreover have "exten_valid (chain_head c)" "exten_valid (chain_head ch)" using ok s(2) that chain_head_valid by auto
    ultimately show ?thesis using ec.le_lt_trans [OF con(2)] by blast
  qed
  show ?thesis
  proof (rule that [OF s(1-3)])
    show "exten_cmp (chain_head (hd rest)) tmp = 0 \<and> (\<forall>ch \<in> set (tl rest). exten_cmp tmp (chain_head ch) < 0)"
      if "rest \<noteq> []" "r = 0"
      using that s(4) later by (cases rest) auto
    show "\<forall>ch \<in> set rest. exten_cmp tmp (chain_head ch) < 0" if "r \<noteq> 0 \<or> rest = []"
    proof (cases rest)
      case (Cons c cs)
      with that s(4) have "exten_cmp tmp (chain_head c) < 0" using ec.swap [of tmp "chain_head c"] by simp
      with Cons later show ?thesis by auto
    qed simp
  qed
qed

definition same_slot :: "ast_exten \<Rightarrow> ast_exten \<Rightarrow> bool" where
  "same_slot tmp e \<longleftrightarrow> exten_cmp e tmp = 0 \<and> e_priority e = e_priority tmp"

definition entries_after :: "ast_context \<Rightarrow> ast_exten \<Rightarrow> bool \<Rightarrow> ast_exten \<Rightarrow> ast_exten set" where
  "entries_after con tmp replace x =
     (if \<exists>e \<in> context_entries con. same_slot tmp e
      then if replace then insert x {e \<in> context_entries con. \<not> same_slot tmp e} else context_entries con
      else insert x (context_entries con))"

lemma entries_replace_chain:
  assumes root: "root con = pre @ ch # post" and ok: "\<forall>c \<in> set (root con). chain_ok c" and v: "exten_valid tmp"
    and others: "\<forall>c \<in> set (pre @ post). exten_cmp (chain_head c) tmp \<noteq> 0" and eq: "exten_cmp (chain_head ch) tmp = 0"
    and ch': "set (peers ch') = peers_after tmp ch replace"
  shows "(\<Union>c \<in> set (pre @ ch' # post). set (peers c)) = entries_after con tmp replace (added_peer tmp ch)"
proof -
  define O' where "O' = (\<Union>c \<in> set (pre @ post). set (peers c))"
  have all: "context_entries con = set (peers ch) \<union> O'" "(\<Union>c \<in> set (pre @ ch' # post). set (peers c)) = set (peers ch') \<union> O'"
    by (auto simp: context_entries_def root O'_def)
  have no: "\<not> same_slot tmp e" if e: "e \<in> O'" for e
  proof -
    from e obtain c where "c \<in> set (pre @ post)" "e \<in> set (peers c)" by (auto simp: O'_def)
    with chain_member [of c e tmp] ok root v others show ?thesis by (auto simp: same_slot_def)
  qed
  have own: "same_slot tmp e \<longleftrightarrow> e_priority e = e_priority tmp" if "e \<in> set (peers ch)" for e
    using chain_member [of ch e tmp] that ok root v eq by (auto simp: same_slot_def)
  have ex: "(\<exists>e \<in> context_entries con. same_slot tmp e) \<longleftrightarrow> (\<exists>e \<in> set (peers ch). e_priority e = e_priority tmp)"
    using no own all(1) by auto
  have keep: "{e \<in> context_entries con. \<not> same_slot tmp e} = {e \<in> set (peers ch). e_priority e \<noteq> e_priority tmp} \<union> O'"
    using no own all(1) by auto
  show ?thesis unfolding all(2) ch' entries_after_def ex keep peers_after_def unfolding all(1) by auto
qed

lemma insert_exten_effect:
  assumes con: "context_ok con" "exten_valid tmp"
  shows "\<exists>con' evs. insert_exten con tmp replace = Some (0, con', evs) \<and> context_ok con' \<and>
    (\<exists>x \<in> {tmp, tmp\<lparr>e_label := None\<rparr>}. context_entries con' = entries_after con tmp replace x)"
proof -
  obtain pre rest r where s: "scan_chains tmp (root con) = Some (pre, rest, r)" "root con = pre @ rest"
    "\<forall>ch \<in> set pre. exten_cmp (chain_head ch) tmp < 0"
    "rest \<noteq> [] \<Longrightarrow> r = 0 \<Longrightarrow> exten_cmp (chain_head (hd rest)) tmp = 0 \<and> (\<forall>ch \<in> set (tl rest). exten_cmp tmp (chain_head ch) < 0)"
    "r \<noteq> 0 \<or> rest = [] \<Longrightarrow> \<forall>ch \<in> set rest. exten_cmp tmp (chain_head ch) < 0"
    using scan_position [OF con] by metis
  have ok: "\<forall>ch \<in> set (root con). chain_ok ch" and srt: "sorted_wrt (\<lambda>a b. exten_cmp (chain_head a) (chain_head b) < 0) (pre @ rest)"
    using con s(2) by (simp_all add: context_ok_def)
  have no: "\<not> same_slot tmp e" if "ch \<in> set (root con)" "e \<in> set (peers ch)" "exten_cmp (chain_head ch) tmp \<noteq> 0" for ch e
    using that chain_member [of ch e tmp] ok con(2) by (auto simp: same_slot_def)
  show ?thesis
  proof (cases "rest \<noteq> [] \<and> r = 0")
    case False
    have gt: "\<forall>ch \<in> set rest. exten_cmp tmp (chain_head ch) < 0" using s(5) False by blast
    then have ne: "\<forall>ch \<in> set rest. exten_cmp (chain_head ch) tmp \<noteq> 0" using ec.swap by (metis less_irrefl neg_equal_0_iff_equal)
    have "\<not> (\<exists>e \<in> context_entries con. same_slot tmp e)" using no s(2,3) ne by (fastforce simp: context_entries_def)
    moreover have "sorted_wrt (\<lambda>a b. exten_cmp (chain_head a) (chain_head b) < 0) (pre @ first_chain tmp # rest)"
      using srt s(3) gt by (auto simp: sorted_wrt_append first_chain_def)
    ultimately show ?thesis
      using False s(1,2) ok first_chain_ok [OF con(2)]
      by (auto simp: insert_exten_def Let_def context_ok_def context_entries_def entries_after_def first_chain_def)
  next
    case True
    then obtain ch post where rest: "rest = ch # post" by (cases rest) auto
    have eq: "exten_cmp (chain_head ch) tmp = 0" and gt: "\<forall>c \<in> set post. exten_cmp tmp (chain_head c) < 0"
      using s(4) True rest by auto
    obtain r' rt' ch' evs where add: "add_priority (root_table con) tmp ch replace = (r', rt', ch', evs)"
      by (cases "add_priority (root_table con) tmp ch replace") auto
    have chok: "chain_ok ch" using ok s(2) rest by simp
    from add_priority_effect [OF chok con(2) eq add] have e: "chain_ok ch'" "exten_cmp (chain_head ch') tmp = 0"
      "set (peers ch') = peers_after tmp ch replace" by auto
    have valid: "exten_valid (chain_head ch')" "\<forall>c \<in> set (pre @ post). exten_valid (chain_head c)"
      using chain_head_valid [OF e(1)] chain_head_valid ok s(2) rest by auto
    have lo: "exten_cmp (chain_head c) (chain_head ch') < 0" if "c \<in> set pre" for c
      using ec.eq_cong(2) [OF valid(1) con(2) _ e(2)] s(3) valid(2) that by auto
    have hi: "exten_cmp (chain_head ch') (chain_head c) < 0" if "c \<in> set post" for c
      using ec.eq_cong(1) [OF valid(1) con(2) _ e(2)] gt valid(2) that by auto
    have "context_ok (con\<lparr>root := pre @ ch' # post, root_table := rt'\<rparr>)"
      using srt rest lo hi e(1) ok s(2) by (auto simp: context_ok_def sorted_wrt_append)
    moreover have "context_entries (con\<lparr>root := pre @ ch' # post, root_table := rt'\<rparr>) = entries_after con tmp replace (added_peer tmp ch)"
    proof -
      have "\<forall>c \<in> set (pre @ post). exten_cmp (chain_head c) tmp \<noteq> 0"
        using s(3) gt ec.swap by (metis Un_iff less_irrefl neg_equal_0_iff_equal set_append)
      from entries_replace_chain [OF _ ok con(2) this eq e(3)] s(2) rest show ?thesis by (simp add: context_entries_def)
    qed
    ultimately show ?thesis
      using True s(1) rest add by (auto simp: insert_exten_def added_peer_def)
  qed
qed

lemma strncpy_loop_set: "set (strncpy_loop s n q) \<subseteq> set s"
  by (induction s n q rule: strncpy_loop.induct) auto

lemma new_exten_valid:
  assumes "ext_valid extension" "\<forall>c. callerid = Some c \<longrightarrow> ext_valid c"
  shows "exten_valid (new_exten subst addr extension prio lab callerid application data registrar)"
proof -
  have "ext_valid (ext_strncpy s n)" if "ext_valid s" for s n
    using that strncpy_loop_set [of s "n - 1" False] by (auto simp: ext_valid_def no_nul_def no_ff_def ext_strncpy_def)
  then show ?thesis
    using assms by (auto simp: exten_valid_def new_exten_def Let_def ext_valid_def no_nul_def no_ff_def split: option.splits)
qed

text \<open>
  C10: adding an extension keeps a context in order: extensions strictly sorted by matching preference
  (literals before patterns, more specific before less specific, with caller ID before without), peers
  strictly sorted by priority, the number table exactly the peers. It adds the new entry, or replaces
  the entry with the same extension, caller ID and priority if replacement was asked for, and changes
  nothing else; without that permission an existing entry stays, and the answer is 0 all the same.
\<close>

theorem add_extension_correct:
  assumes "context_ok con" "extension \<noteq> []" "ext_valid extension" "\<forall>c. callerid = Some c \<longrightarrow> ext_valid c"
    and "tmp = new_exten subst addr extension prio lab callerid application data registrar"
  shows "\<exists>con' evs. ast_add_extension2_lockopt subst True addr con replace extension prio lab callerid application data registrar =
      Some (0, con', evs) \<and> context_ok con' \<and>
    (\<exists>x \<in> {tmp, tmp\<lparr>e_label := None\<rparr>}. context_entries con' = entries_after con tmp replace x)"
proof -
  have v: "exten_valid tmp" unfolding assms(5) by (rule new_exten_valid [OF assms(3,4)])
  have same: "context_ok (con\<lparr>root_table := t\<rparr>) = context_ok con" "entries_after (con\<lparr>root_table := t\<rparr>) tmp replace x = entries_after con tmp replace x" for t x
    by (simp_all add: context_ok_def entries_after_def context_entries_def)
  define con1 where "con1 = (if pattern_tree con
    then con\<lparr>root_table := map_option (\<lambda>t. if ast_hashtab_lookup t (root_probe extension False []) = None
                                            then tab_insert t tmp else t) (root_table con)\<rparr>
    else con)"
  have c1: "context_ok con1" "entries_after con1 tmp replace x = entries_after con tmp replace x" for x
    using same assms(1) by (simp_all add: con1_def)
  have "ast_add_extension2_lockopt subst True addr con replace extension prio lab callerid application data registrar =
      insert_exten con1 tmp replace"
    by (simp add: ast_add_extension2_lockopt_def Let_def assms(2) assms(5) [symmetric] con1_def)
  with insert_exten_effect [OF c1(1) v, of replace] show ?thesis unfolding c1(2) by simp
qed

definition demo_context :: "string \<Rightarrow> ast_context" where
  "demo_context name = \<lparr>con_name = name, root = [], root_table = None, pattern_tree = False, con_includes = [],
     ignorepats = [], alts = [], con_registrar = ''demo'', con_refcount = 1\<rparr>"

lemma demo_context_ok: "context_ok (demo_context name)"
  by (simp add: context_ok_def demo_context_def)

theorem add_extension_correct_witness:
  "\<exists>con' evs. ast_add_extension2_lockopt id True 1 (demo_context ''in'') False ''_1XX'' 1 None None ''Dial'' 0 ''demo'' =
    Some (0, con', evs) \<and> context_ok con'"
  using add_extension_correct [of "demo_context ''in''" "''_1XX''" None _ id 1 1 None "''Dial''" 0 "''demo''" False, OF demo_context_ok _ _ _ refl]
  by (auto simp: ext_valid_def no_nul_def no_ff_def)

end
