(* ===== verification/Pbx_Find.thy ===== *)
theory Pbx_Find
  imports Pbx_Context
begin

text \<open>
  The search for an extension, \<open>pbx_find_extension\<close> in \<open>main/pbx.c\<close>: the extensions of a context in the
  order of preference, then its switches, then the contexts it includes, depth first. The stack of
  contexts searched is never popped, so it is the set of contexts visited by the whole search, at most
  128 of them. The search follows the default algorithm (\<open>extenpatternmatchnew\<close> is off). Switches are
  modules: their functions, the substitution of variables and the local time are parameters.
\<close>

section \<open>Data\<close>

type_synonym 'c switch_f = "'c option \<Rightarrow> string \<Rightarrow> string \<Rightarrow> int \<Rightarrow> string option \<Rightarrow> string option \<Rightarrow> int"

text \<open>\<open>struct ast_switch\<close>; \<open>exec\<close> runs on a channel and changes it.\<close>

record 'c ast_switch =
  asw_name :: string
  asw_exists :: "'c switch_f option"
  asw_canmatch :: "'c switch_f option"
  asw_exec :: "('c \<Rightarrow> string \<Rightarrow> string \<Rightarrow> int \<Rightarrow> string option \<Rightarrow> string option \<Rightarrow> int \<times> 'c) option"
  asw_matchmore :: "'c switch_f option"

text \<open>
  What the search reads: the contexts, the registered switches, the global \<open>overrideswitch\<close>, the
  substitution of variables, whether the thread's buffer for substituted data can be had, and the local
  time in a zone.
\<close>

record 'c find_env =
  env_dialplan :: dialplan
  env_switches :: "'c ast_switch list"
  overrideswitch :: string
  substitute :: "'c option \<Rightarrow> string \<Rightarrow> string"
  buffer_ok :: bool
  local_time :: "string option \<Rightarrow> ast_tm"

text \<open>The arguments that the recursion passes on unchanged.\<close>

record 'c find_args =
  fa_chan :: "'c option"
  fa_bypass :: "ast_context option"
  fa_exten :: string
  fa_priority :: int
  fa_label :: "string option"
  fa_callerid :: "string option"
  fa_action :: ext_match_t

text \<open>
  \<open>struct pbx_find_info\<close>; \<open>stacklen\<close> is the length of the stack. \<open>tries\<close> holds the names of the
  contexts for which the search builds the trie of the alternative algorithm.
\<close>

record 'c pbx_find_info =
  incstack :: "string list"
  q_status :: int
  swo :: "'c ast_switch option"
  q_data :: "string option"
  foundcontext :: "string option"
  tries :: "string list"

definition STATUS_NO_CONTEXT :: int where "STATUS_NO_CONTEXT = 1"
definition STATUS_NO_EXTENSION :: int where "STATUS_NO_EXTENSION = 2"
definition STATUS_NO_PRIORITY :: int where "STATUS_NO_PRIORITY = 3"
definition STATUS_NO_LABEL :: int where "STATUS_NO_LABEL = 4"
definition STATUS_SUCCESS :: int where "STATUS_SUCCESS = 5"
definition AST_PBX_MAX_STACK :: nat where "AST_PBX_MAX_STACK = 128"

section \<open>The search\<close>

definition pbx_findswitch :: "'c find_env \<Rightarrow> string \<Rightarrow> 'c ast_switch option" where
  "pbx_findswitch env sw = find (\<lambda>asw. strcase_eq (asw_name asw) sw) (env_switches env)"

definition include_valid :: "'c find_env \<Rightarrow> ast_include \<Rightarrow> int" where
  "include_valid env i =
     (if inc_hastime i = 0 then 1 else ast_check_timing (\<lambda>_. local_time env) () (inc_timing i))"

text \<open>The function of a switch for the action, and its answer; without a function it is 0.\<close>

definition ask_switch :: "'c find_args \<Rightarrow> string \<Rightarrow> 'c ast_switch \<Rightarrow> string option \<Rightarrow> int" where
  "ask_switch a context asw datap =
     (case (case fa_action a of E_CANMATCH \<Rightarrow> asw_canmatch asw | E_MATCHMORE \<Rightarrow> asw_matchmore asw | _ \<Rightarrow> asw_exists asw) of
        None \<Rightarrow> 0
      | Some aswf \<Rightarrow> aswf (fa_chan a) context (fa_exten a) (fa_priority a) (fa_callerid a) datap)"

text \<open>The switch and the data of \<open>overrideswitch\<close>, if it answers for the extension.\<close>

definition override_match :: "'c find_env \<Rightarrow> 'c find_args \<Rightarrow> string \<Rightarrow> ('c ast_switch \<times> string option) option" where
  "override_match env a context =
     (if overrideswitch env = [] then None
      else case strsep ''/'' (overrideswitch env) of (name, osw) \<Rightarrow>
        (case pbx_findswitch env name of
           None \<Rightarrow> None
         | Some asw \<Rightarrow>
             let eval = (case osw of None \<Rightarrow> False | Some s \<Rightarrow> CHR ''$'' \<in> set s) in
             if eval \<and> \<not> buffer_ok env then None
             else let datap = (if eval then map_option (substitute env (fa_chan a)) osw else osw) in
               if ask_switch a context asw datap \<noteq> 0 then Some (asw, datap) else None))"

definition raise_status :: "int \<Rightarrow> 'c pbx_find_info \<Rightarrow> 'c pbx_find_info" where
  "raise_status s q = (if q_status q < s then q\<lparr>q_status := s\<rparr> else q)"

text \<open>The entry for the priority, or for the label when one is asked for, in the tables of an extension.\<close>

definition by_label :: "'c find_args \<Rightarrow> bool" where
  "by_label a \<longleftrightarrow> fa_action a = E_FINDLABEL \<and> fa_label a \<noteq> None"

definition find_pattern :: "'c find_args \<Rightarrow> ast_exten" where
  "find_pattern a = \<lparr>e_addr = 0, e_exten = [], e_matchcid = False, e_cidmatch = [], e_priority = fa_priority a,
     e_label = fa_label a, e_app = [], e_data = 0, e_registrar = []\<rparr>"

definition find_peer :: "'c find_args \<Rightarrow> exten_chain \<Rightarrow> ast_exten option" where
  "find_peer a ch =
     (if by_label a then ast_hashtab_lookup (peer_label_table ch) (find_pattern a)
      else ast_hashtab_lookup (peer_table ch) (find_pattern a))"

text \<open>Does the caller ID suit the extension? Without a test of the caller ID it does.\<close>

definition cid_match :: "'c find_args \<Rightarrow> ast_exten \<Rightarrow> int option" where
  "cid_match a eroot = (if e_matchcid eroot then matchcid (e_cidmatch eroot) (s_or (fa_callerid a) []) else Some 1)"

datatype scan_result = Scan_found ast_exten | Scan_final | Scan_none

text \<open>The scan of the extensions: an entry, the final decision that there is none, or neither.\<close>

fun find_scan :: "'c find_args \<Rightarrow> string \<Rightarrow> exten_chain list \<Rightarrow> 'c pbx_find_info \<Rightarrow> (scan_result \<times> 'c pbx_find_info) option" where
  "find_scan a context [] q = Some (Scan_none, q)"
| "find_scan a context (ch # chs) q =
     (case extension_match_core (e_exten (chain_head ch)) (fa_exten a) (fa_action a) of
        None \<Rightarrow> None
      | Some m \<Rightarrow>
          if m = 0 then find_scan a context chs q
          else case cid_match a (chain_head ch) of
            None \<Rightarrow> None
          | Some c \<Rightarrow>
              if c = 0 then find_scan a context chs q
              else if m = 2 \<and> fa_action a = E_MATCHMORE then Some (Scan_final, q)
              else let q1 = raise_status STATUS_NO_PRIORITY q;
                       q2 = (if by_label a then raise_status STATUS_NO_LABEL q1 else q1) in
                case find_peer a ch of
                  Some e \<Rightarrow> Some (Scan_found e, q2\<lparr>q_status := STATUS_SUCCESS, foundcontext := Some context\<rparr>)
                | None \<Rightarrow> find_scan a context chs q2)"

text \<open>The data for a switch of the context; \<open>None\<close> when it cannot be evaluated.\<close>

definition switch_data :: "'c find_env \<Rightarrow> 'c find_args \<Rightarrow> ast_sw \<Rightarrow> string option" where
  "switch_data env a sw =
     (if sw_eval sw then if buffer_ok env then Some (substitute env (fa_chan a) (sw_data sw)) else None
      else Some (sw_data sw))"

fun try_switches :: "'c find_env \<Rightarrow> 'c find_args \<Rightarrow> string \<Rightarrow> ast_sw list \<Rightarrow> ('c ast_switch \<times> string option) option" where
  "try_switches env a context [] = None"
| "try_switches env a context (sw # sws) =
     (case pbx_findswitch env (sw_name sw) of
        None \<Rightarrow> try_switches env a context sws
      | Some asw \<Rightarrow>
          (case switch_data env a sw of
             None \<Rightarrow> try_switches env a context sws
           | Some datap \<Rightarrow>
               if ask_switch a context asw (Some datap) \<noteq> 0 then Some (asw, Some datap)
               else try_switches env a context sws))"

definition take_switch :: "string \<Rightarrow> 'c ast_switch \<times> string option \<Rightarrow> 'c pbx_find_info \<Rightarrow> 'c pbx_find_info" where
  "take_switch context s q = q\<lparr>swo := Some (fst s), q_data := snd s, foundcontext := Some context\<rparr>"

text \<open>The loop over the includes; \<open>rec\<close> is the recursive call.\<close>

fun try_includes ::
  "(string \<Rightarrow> 'c pbx_find_info \<Rightarrow> (ast_exten option \<times> 'c pbx_find_info) option) \<Rightarrow> (ast_include \<Rightarrow> int) \<Rightarrow> ast_include list \<Rightarrow>
   'c pbx_find_info \<Rightarrow> (ast_exten option \<times> 'c pbx_find_info) option" where
  "try_includes rec valid [] q = Some (None, q)"
| "try_includes rec valid (i # is) q =
     (if valid i = 0 then try_includes rec valid is q
      else case rec (inc_rname i) q of
        None \<Rightarrow> None
      | Some (Some e, q') \<Rightarrow> Some (Some e, q')
      | Some (None, q') \<Rightarrow>
          if \<not> Option.is_none (swo q') then Some (None, q')
          else try_includes rec valid is q')"

text \<open>The status on entry to a context, and the trie built for a context that has none.\<close>

definition enter_context :: "ast_context \<Rightarrow> 'c pbx_find_info \<Rightarrow> 'c pbx_find_info" where
  "enter_context tmp q =
     (let q1 = raise_status STATUS_NO_EXTENSION q
      in if \<not> pattern_tree tmp \<and> con_name tmp \<notin> set (tries q1) \<and> \<not> Option.is_none (root_table tmp)
         then q1\<lparr>tries := tries q1 @ [con_name tmp]\<rparr> else q1)"

text \<open>The search in one context, once it is known: the body of \<open>pbx_find_extension\<close> after its checks.\<close>

definition search_context ::
  "(string \<Rightarrow> 'c pbx_find_info \<Rightarrow> (ast_exten option \<times> 'c pbx_find_info) option) \<Rightarrow> 'c find_env \<Rightarrow> 'c find_args \<Rightarrow>
   string \<Rightarrow> ast_context \<Rightarrow> 'c pbx_find_info \<Rightarrow> (ast_exten option \<times> 'c pbx_find_info) option" where
  "search_context rec env a context tmp q =
     (case override_match env a context of
        Some s \<Rightarrow> Some (None, take_switch context s (enter_context tmp q))
      | None \<Rightarrow>
          (case find_scan a context (root tmp) (enter_context tmp q) of
             None \<Rightarrow> None
           | Some (Scan_found e, q1) \<Rightarrow> Some (Some e, q1)
           | Some (Scan_final, q1) \<Rightarrow> Some (None, q1)
           | Some (Scan_none, q1) \<Rightarrow>
               (case try_switches env a context (alts tmp) of
                  Some s \<Rightarrow> Some (None, take_switch context s q1)
                | None \<Rightarrow> try_includes rec (include_valid env) (con_includes tmp)
                            (q1\<lparr>incstack := incstack q1 @ [con_name tmp]\<rparr>))))"

text \<open>The initial values, and the context to search: the given one, or the one with the name.\<close>

definition start_search :: "'c pbx_find_info \<Rightarrow> 'c pbx_find_info" where
  "start_search q =
     (if incstack q = [] then q\<lparr>q_status := STATUS_NO_CONTEXT, swo := None, q_data := None, foundcontext := None\<rparr> else q)"

definition context_to_search :: "'c find_env \<Rightarrow> 'c find_args \<Rightarrow> string \<Rightarrow> ast_context option" where
  "context_to_search env a context =
     (case fa_bypass a of Some c \<Rightarrow> Some c | None \<Rightarrow> find_context (env_dialplan env) context)"

text \<open>
  The first argument bounds the depth of the recursion; \<open>None\<close> means that it was used up or that the
  comparison of two patterns never ends.
\<close>

primrec pbx_find_extension ::
  "nat \<Rightarrow> 'c find_env \<Rightarrow> 'c find_args \<Rightarrow> string \<Rightarrow> 'c pbx_find_info \<Rightarrow> (ast_exten option \<times> 'c pbx_find_info) option" where
  "pbx_find_extension 0 env a context q = None"
| "pbx_find_extension (Suc n) env a context q =
     (if length (incstack q) \<ge> AST_PBX_MAX_STACK then Some (None, start_search q)
      else if \<exists>x \<in> set (incstack q). strcase_eq x context then Some (None, start_search q)
      else case context_to_search env a context of
             None \<Rightarrow> Some (None, start_search q)
           | Some tmp \<Rightarrow> search_context (pbx_find_extension n env a) env a context tmp (start_search q))"

text \<open>A search that starts from an empty stack.\<close>

definition no_find_info :: "'c pbx_find_info" where
  "no_find_info = \<lparr>incstack = [], q_status = 0, swo = None, q_data = None, foundcontext = None, tries = []\<rparr>"

definition find_extension :: "'c find_env \<Rightarrow> 'c find_args \<Rightarrow> string \<Rightarrow> (ast_exten option \<times> 'c pbx_find_info) option" where
  "find_extension env a context = pbx_find_extension (Suc AST_PBX_MAX_STACK) env a context no_find_info"

section \<open>The search always ends\<close>

definition args_valid :: "'c find_args \<Rightarrow> bool" where
  "args_valid a \<longleftrightarrow> ext_valid (fa_exten a) \<and> ext_valid (s_or (fa_callerid a) [])"

lemma match_core_total:
  assumes "ext_valid p" "ext_valid d"
  shows "\<exists>m. extension_match_core p d mode = Some m"
proof (cases "is_pattern p \<and> is_pattern d")
  case True
  then have "ext_cmp p d = ext_cmp_pattern (tl p) (tl d)" by (simp add: ext_cmp_def)
  with ext_cmp_key [OF assms] show ?thesis by (simp add: extension_match_core_def extension_match_core_aux_def Let_def)
next
  case False
  then show ?thesis by (auto simp: extension_match_core_def extension_match_core_aux_def Let_def)
qed

lemma cid_match_total: "args_valid a \<Longrightarrow> exten_valid e \<Longrightarrow> \<exists>c. cid_match a e = Some c"
  using match_core_total [of "e_cidmatch e" "s_or (fa_callerid a) []" E_MATCH]
  by (auto simp: cid_match_def matchcid_def ast_extension_match_def args_valid_def exten_valid_def)

text \<open>What the scan of the extensions looks for: an extension that matches and has the entry.\<close>

definition chain_matches :: "'c find_args \<Rightarrow> exten_chain \<Rightarrow> bool" where
  "chain_matches a ch \<longleftrightarrow>
     extension_match_core (e_exten (chain_head ch)) (fa_exten a) (fa_action a) \<notin> {None, Some 0} \<and>
     cid_match a (chain_head ch) \<notin> {None, Some 0}"

definition chain_entry :: "'c find_args \<Rightarrow> exten_chain \<Rightarrow> ast_exten \<Rightarrow> bool" where
  "chain_entry a ch e \<longleftrightarrow>
     (if by_label a then e \<in> ht_objs (peer_label_table ch) \<and> e_label e = fa_label a
      else e \<in> set (peers ch) \<and> e_priority e = fa_priority a)"

definition offers :: "'c find_args \<Rightarrow> exten_chain \<Rightarrow> ast_exten \<Rightarrow> bool" where
  "offers a ch e \<longleftrightarrow> chain_matches a ch \<and> chain_entry a ch e"

text \<open>The entry of the first extension, in the order of preference, that offers one.\<close>

definition first_offer :: "'c find_args \<Rightarrow> exten_chain list \<Rightarrow> ast_exten \<Rightarrow> bool" where
  "first_offer a chs e \<longleftrightarrow>
     (\<exists>pre ch post. chs = pre @ ch # post \<and> offers a ch e \<and> (\<forall>d \<in> set pre. \<forall>e'. \<not> offers a d e'))"

lemma find_peer_iff:
  assumes "chain_ok ch"
  shows "find_peer a ch = Some e \<longleftrightarrow> chain_entry a ch e"
proof (cases "by_label a")
  case True
  then obtain l where l: "fa_label a = Some l" by (auto simp: by_label_def)
  have "hashtab_compare_exten_labels (find_pattern a) e = 0 \<longleftrightarrow> e_label e = Some l" if "e \<in> ht_objs (peer_label_table ch)"
    using that assms by (auto simp: chain_ok_def hashtab_compare_exten_labels_def c_strcmp_zero find_pattern_def l s_or_def
        split: option.splits if_splits)
  with True assms show ?thesis by (auto simp: find_peer_def chain_entry_def lk.lookup_iff chain_ok_def l)
next
  case False
  with assms show ?thesis
    by (auto simp: find_peer_def chain_entry_def nk.lookup_iff chain_ok_def numbers_zero find_pattern_def)
qed

lemma stack_fields [simp]:
  "incstack (raise_status s q) = incstack q" "swo (raise_status s q) = swo q"
  "incstack (enter_context c q) = incstack q" "swo (enter_context c q) = swo q"
  "incstack (start_search q) = incstack q" "incstack (take_switch n sw q) = incstack q"
  by (simp_all add: raise_status_def enter_context_def start_search_def take_switch_def Let_def)

text \<open>The outcome of the scan.\<close>

definition scan_outcome :: "'c find_args \<Rightarrow> string \<Rightarrow> exten_chain list \<Rightarrow> 'c pbx_find_info \<Rightarrow> scan_result \<Rightarrow> 'c pbx_find_info \<Rightarrow> bool" where
  "scan_outcome a n chs q r q' \<longleftrightarrow>
     incstack q' = incstack q \<and> swo q' = swo q \<and>
     (case r of
        Scan_found e \<Rightarrow> first_offer a chs e \<and> q_status q' = STATUS_SUCCESS \<and> foundcontext q' = Some n
      | Scan_final \<Rightarrow> fa_action a = E_MATCHMORE
      | Scan_none \<Rightarrow> \<forall>ch \<in> set chs. \<forall>e. \<not> offers a ch e)"

lemma scan_outcome_skip:
  assumes "scan_outcome a n chs q1 r q'" "\<forall>e. \<not> offers a ch e" "incstack q1 = incstack q" "swo q1 = swo q"
  shows "scan_outcome a n (ch # chs) q r q'"
proof -
  have "first_offer a (ch # chs) e" if f: "first_offer a chs e" for e
  proof -
    from f obtain pre c post where "chs = pre @ c # post" "offers a c e" "\<forall>d \<in> set pre. \<forall>e'. \<not> offers a d e'"
      by (auto simp: first_offer_def)
    with assms(2) show ?thesis
      unfolding first_offer_def by (intro exI [of _ "ch # pre"] exI [of _ c] exI [of _ post]) simp
  qed
  with assms show ?thesis by (auto simp: scan_outcome_def split: scan_result.splits)
qed

lemma find_scan_outcome:
  assumes "args_valid a" "\<forall>ch \<in> set chs. chain_ok ch"
  shows "\<exists>r q'. find_scan a n chs q = Some (r, q') \<and> scan_outcome a n chs q r q'"
  using assms(2)
proof (induction chs arbitrary: q)
  case Nil
  then show ?case by (simp add: scan_outcome_def)
next
  case (Cons ch chs)
  have ok: "chain_ok ch" "exten_valid (chain_head ch)" using Cons.prems chain_head_valid by auto
  obtain m where m: "extension_match_core (e_exten (chain_head ch)) (fa_exten a) (fa_action a) = Some m"
    using match_core_total ok(2) assms(1) by (force simp: args_valid_def exten_valid_def)
  obtain c where c: "cid_match a (chain_head ch) = Some c" using cid_match_total [OF assms(1) ok(2)] by auto
  have step: "\<exists>r q'. find_scan a n chs q1 = Some (r, q') \<and> scan_outcome a n (ch # chs) q r q'"
    if "\<forall>e. \<not> offers a ch e" "incstack q1 = incstack q" "swo q1 = swo q" for q1
    using Cons.IH [of q1] Cons.prems scan_outcome_skip [OF _ that] by fastforce
  show ?case
  proof (cases "m = 0 \<or> c = 0")
    case True
    then have "\<forall>e. \<not> offers a ch e" using m c by (auto simp: offers_def chain_matches_def)
    with True m c step [of q] show ?thesis by auto
  next
    case match: False
    show ?thesis
    proof (cases "m = 2 \<and> fa_action a = E_MATCHMORE")
      case True
      with match m c show ?thesis by (simp add: scan_outcome_def)
    next
      case False
      define q2 where "q2 = (if by_label a then raise_status STATUS_NO_LABEL (raise_status STATUS_NO_PRIORITY q) else raise_status STATUS_NO_PRIORITY q)"
      have q2: "incstack q2 = incstack q" "swo q2 = swo q" by (simp_all add: q2_def)
      show ?thesis
      proof (cases "find_peer a ch")
        case None
        then have "\<forall>e. \<not> offers a ch e" using find_peer_iff [OF ok(1), of a] by (simp add: offers_def)
        with step [OF _ q2] None False match m c show ?thesis by (auto simp: Let_def q2_def [symmetric])
      next
        case (Some e)
        then have "first_offer a (ch # chs) e"
          using find_peer_iff [OF ok(1), of a e] match m c unfolding first_offer_def
          by (intro exI [of _ "[]"]) (simp add: offers_def chain_matches_def)
        with Some False match m c q2 show ?thesis by (simp add: Let_def q2_def [symmetric] scan_outcome_def)
      qed
    qed
  qed
qed

text \<open>
  A search that ends with a stack no shorter than before. Every context that the search may enter has to
  be in order, so that the comparison of patterns ends.
\<close>

definition grows :: "(string \<Rightarrow> 'c pbx_find_info \<Rightarrow> (ast_exten option \<times> 'c pbx_find_info) option) \<Rightarrow> nat \<Rightarrow> bool" where
  "grows rec k \<longleftrightarrow> (\<forall>n q. k \<le> length (incstack q) \<longrightarrow>
     (\<exists>r q'. rec n q = Some (r, q') \<and> length (incstack q) \<le> length (incstack q')))"

definition contexts_ok :: "'c find_env \<Rightarrow> 'c find_args \<Rightarrow> bool" where
  "contexts_ok env a \<longleftrightarrow> (\<forall>c \<in> set (env_dialplan env). context_ok c) \<and> (\<forall>c. fa_bypass a = Some c \<longrightarrow> context_ok c)"

lemma try_includes_grows:
  "grows rec k \<Longrightarrow> k \<le> length (incstack q) \<Longrightarrow>
    \<exists>r q'. try_includes rec valid is q = Some (r, q') \<and> length (incstack q) \<le> length (incstack q')"
proof (induction "is" arbitrary: q)
  case (Cons i "is")
  show ?case
  proof (cases "valid i = 0")
    case True
    with Cons show ?thesis by simp
  next
    case False
    from Cons.prems obtain r q1 where r: "rec (inc_rname i) q = Some (r, q1)" "length (incstack q) \<le> length (incstack q1)"
      unfolding grows_def by blast
    from Cons.IH [of q1] Cons.prems r(2) obtain r' q' where
      "try_includes rec valid is q1 = Some (r', q')" "length (incstack q1) \<le> length (incstack q')" by auto
    with False r show ?thesis by (auto split: option.splits)
  qed
qed simp

lemma search_context_grows:
  assumes "args_valid a" "context_ok c" "grows rec (Suc (length (incstack q)))"
  shows "\<exists>r q'. search_context rec env a n c q = Some (r, q') \<and> length (incstack q) \<le> length (incstack q')"
proof -
  from find_scan_outcome [OF assms(1), of "root c" n "enter_context c q"] assms(2) obtain r q3 where
    scan: "find_scan a n (root c) (enter_context c q) = Some (r, q3)" "incstack q3 = incstack q"
    by (auto simp: context_ok_def scan_outcome_def)
  from try_includes_grows [OF assms(3), of "q3\<lparr>incstack := incstack q3 @ [con_name c]\<rparr>" "include_valid env" "con_includes c"]
  obtain r' q4 where "try_includes rec (include_valid env) (con_includes c) (q3\<lparr>incstack := incstack q3 @ [con_name c]\<rparr>) = Some (r', q4)"
    "length (incstack q) \<le> length (incstack q4)" using scan(2) by auto
  with scan show ?thesis by (auto simp: search_context_def split: option.splits scan_result.splits)
qed

lemma find_context_in: "find_context dp n = Some c \<Longrightarrow> c \<in> set dp \<and> con_name c = take 255 n"
  unfolding find_context_def find_Some_iff by (metis nth_mem set_rev)

lemma find_extension_grows:
  assumes "args_valid a" "contexts_ok env a"
  shows "grows (pbx_find_extension (Suc k) env a) (AST_PBX_MAX_STACK - k)"
proof (induction k)
  case 0
  show ?case by (auto simp: grows_def)
next
  case (Suc k)
  show ?case unfolding grows_def
  proof (intro allI impI)
    fix n and q :: "'a pbx_find_info"
    assume len: "AST_PBX_MAX_STACK - Suc k \<le> length (incstack q)"
    have ok: "context_ok c" if "context_to_search env a n = Some c" for c
      using that assms(2) find_context_in by (auto simp: context_to_search_def contexts_ok_def split: option.splits)
    have "AST_PBX_MAX_STACK - k \<le> Suc (length (incstack (start_search q)))" using len by simp
    with Suc.IH have g: "grows (pbx_find_extension (Suc k) env a) (Suc (length (incstack (start_search q))))"
      unfolding grows_def by (meson le_trans)
    show "\<exists>r q'. pbx_find_extension (Suc (Suc k)) env a n q = Some (r, q') \<and> length (incstack q) \<le> length (incstack q')"
    proof (cases "context_to_search env a n")
      case None
      then show ?thesis by (simp add: pbx_find_extension.simps(2) [of "Suc k"] del: pbx_find_extension.simps)
    next
      case (Some c)
      with search_context_grows [OF assms(1) ok [OF Some] g, of env n] show ?thesis
        by (simp add: pbx_find_extension.simps(2) [of "Suc k"] del: pbx_find_extension.simps)
    qed
  qed
qed

lemma find_extension_answers:
  assumes "args_valid a" "contexts_ok env a"
  shows "\<exists>r q. find_extension env a context = Some (r, q)"
proof -
  from find_extension_grows [OF assms, of AST_PBX_MAX_STACK]
  have "\<exists>r q'. pbx_find_extension (Suc AST_PBX_MAX_STACK) env a context no_find_info = Some (r, q') \<and>
      length (incstack (no_find_info :: 'a pbx_find_info)) \<le> length (incstack q')"
    unfolding grows_def by (metis diff_self_eq_0 le0)
  then show ?thesis unfolding find_extension_def by blast
qed

text \<open>
  C12: the search for an extension ends with an answer whatever the graph of includes is, cycles
  included: no more than 129 nested calls are made, and every one of them returns. The contexts have to
  be in order, as every operation of the dialplan keeps them, and the extension and caller ID may not
  contain the character 255.
\<close>

theorem find_extension_terminates:
  assumes "args_valid a" "contexts_ok env a"
  shows "\<exists>r q. find_extension env a context = Some (r, q)"
  using assms by (rule find_extension_answers)

section \<open>The search is exact\<close>

text \<open>The names reached from a context through includes that are valid now.\<close>

inductive reach :: "'c find_env \<Rightarrow> string \<Rightarrow> string \<Rightarrow> bool" for env where
  reach_self: "reach env n n"
| reach_step: "find_context (env_dialplan env) n = Some c \<Longrightarrow> i \<in> set (con_includes c) \<Longrightarrow> include_valid env i \<noteq> 0 \<Longrightarrow>
    reach env (inc_rname i) m \<Longrightarrow> reach env n m"

text \<open>A switch of the context, or the override switch, that answers for the extension.\<close>

definition sw_accepts :: "'c find_env \<Rightarrow> 'c find_args \<Rightarrow> string \<Rightarrow> ast_sw \<Rightarrow> 'c ast_switch \<times> string option \<Rightarrow> bool" where
  "sw_accepts env a n sw s \<longleftrightarrow>
     (\<exists>asw d. pbx_findswitch env (sw_name sw) = Some asw \<and> switch_data env a sw = Some d \<and>
        ask_switch a n asw (Some d) \<noteq> 0 \<and> s = (asw, Some d))"

definition accepts :: "'c find_env \<Rightarrow> 'c find_args \<Rightarrow> string \<Rightarrow> ast_context \<Rightarrow> 'c ast_switch \<times> string option \<Rightarrow> bool" where
  "accepts env a n c s \<longleftrightarrow> override_match env a n = Some s \<or> (\<exists>sw \<in> set (alts c). sw_accepts env a n sw s)"

lemma try_switches_Some: "try_switches env a n sws = Some s \<Longrightarrow> \<exists>sw \<in> set sws. sw_accepts env a n sw s"
  by (induction sws) (auto simp: sw_accepts_def split: option.splits if_splits)

lemma try_switches_None: "try_switches env a n sws = None \<Longrightarrow> sw \<in> set sws \<Longrightarrow> \<not> sw_accepts env a n sw s"
  by (induction sws) (auto simp: sw_accepts_def split: option.splits if_splits)

text \<open>The dialplans for which the search is exact: fewer contexts than the stack holds, no two names that
  differ only in case, and no included name longer than a lookup sees.\<close>

definition dialplan_ok :: "'c find_env \<Rightarrow> bool" where
  "dialplan_ok env \<longleftrightarrow>
     (\<forall>c \<in> set (env_dialplan env). context_ok c \<and> (\<forall>i \<in> set (con_includes c). length (inc_rname i) \<le> 255)) \<and>
     (\<forall>c \<in> set (env_dialplan env). \<forall>d \<in> set (env_dialplan env). strcase_eq (con_name c) (con_name d) \<longrightarrow> con_name c = con_name d) \<and>
     length (env_dialplan env) < AST_PBX_MAX_STACK"

text \<open>Nothing in a context, under the name it is searched by, answers for the extension.\<close>

definition nothing_here :: "'c find_env \<Rightarrow> 'c find_args \<Rightarrow> string \<Rightarrow> ast_context \<Rightarrow> bool" where
  "nothing_here env a n c \<longleftrightarrow> (\<forall>ch \<in> set (root c). \<forall>e. \<not> offers a ch e) \<and> (\<forall>s. \<not> accepts env a n c s)"

definition found_at :: "'c find_env \<Rightarrow> 'c find_args \<Rightarrow> string \<Rightarrow> ast_exten option \<Rightarrow> 'c pbx_find_info \<Rightarrow> bool" where
  "found_at env a m r q \<longleftrightarrow>
     foundcontext q = Some m \<and>
     (\<exists>c. find_context (env_dialplan env) m = Some c \<and>
        (case r of
           Some e \<Rightarrow> first_offer a (root c) e \<and> q_status q = STATUS_SUCCESS
         | None \<Rightarrow> (\<exists>asw. swo q = Some asw \<and> accepts env a m c (asw, q_data q))))"

text \<open>
  The invariant of the depth-first search: a name that is in the visited set, a set that contains all
  valid includes of a context, and contexts visited between two states in which nothing was found.
\<close>

definition seen :: "'c find_env \<Rightarrow> string set \<Rightarrow> string \<Rightarrow> bool" where
  "seen env V n \<longleftrightarrow> (\<forall>c. find_context (env_dialplan env) n = Some c \<longrightarrow> con_name c \<in> V)"

definition done_with :: "'c find_env \<Rightarrow> 'c find_args \<Rightarrow> string set \<Rightarrow> string \<Rightarrow> bool" where
  "done_with env a V n \<longleftrightarrow>
     (\<forall>c. find_context (env_dialplan env) n = Some c \<longrightarrow>
        nothing_here env a n c \<and> (\<forall>i \<in> set (con_includes c). include_valid env i \<noteq> 0 \<longrightarrow> seen env V (inc_rname i)))"

definition stack_ok :: "'c find_env \<Rightarrow> 'c pbx_find_info \<Rightarrow> bool" where
  "stack_ok env q \<longleftrightarrow> distinct (incstack q) \<and> set (incstack q) \<subseteq> con_name ` set (env_dialplan env)"

definition visited :: "'c find_env \<Rightarrow> 'c find_args \<Rightarrow> 'c pbx_find_info \<Rightarrow> 'c pbx_find_info \<Rightarrow> bool" where
  "visited env a q q' \<longleftrightarrow>
     stack_ok env q' \<and> set (incstack q) \<subseteq> set (incstack q') \<and>
     (\<forall>n \<in> set (incstack q') - set (incstack q). done_with env a (set (incstack q')) n)"

text \<open>The outcome of searching a list of names.\<close>

definition outcome :: "'c find_env \<Rightarrow> 'c find_args \<Rightarrow> string set \<Rightarrow> 'c pbx_find_info \<Rightarrow> ast_exten option \<Rightarrow> 'c pbx_find_info \<Rightarrow> bool" where
  "outcome env a N q r q' \<longleftrightarrow>
     (if r = None \<and> swo q' = None
      then visited env a q q' \<and> (\<forall>n \<in> N. seen env (set (incstack q')) n)
      else \<exists>n \<in> N. \<exists>m. reach env n m \<and> found_at env a m r q')"

lemma seen_mono: "V \<subseteq> V' \<Longrightarrow> seen env V n \<Longrightarrow> seen env V' n"
  by (auto simp: seen_def)

lemma done_with_mono: "V \<subseteq> V' \<Longrightarrow> done_with env a V n \<Longrightarrow> done_with env a V' n"
  using seen_mono [of V V' env] by (auto simp: done_with_def)

lemma visited_trans: "visited env a q q1 \<Longrightarrow> visited env a q1 q' \<Longrightarrow> visited env a q q'"
  using done_with_mono [of "set (incstack q1)" "set (incstack q')" env a] by (auto simp: visited_def)

definition searches :: "'c find_env \<Rightarrow> 'c find_args \<Rightarrow> (string \<Rightarrow> 'c pbx_find_info \<Rightarrow> (ast_exten option \<times> 'c pbx_find_info) option) \<Rightarrow> bool" where
  "searches env a rec \<longleftrightarrow>
     (\<forall>n q r q'. rec n q = Some (r, q') \<longrightarrow> length n \<le> 255 \<longrightarrow> stack_ok env q \<longrightarrow> swo q = None \<longrightarrow> incstack q \<noteq> [] \<longrightarrow> outcome env a {n} q r q')"

lemma try_includes_outcome:
  assumes "searches env a rec" "\<forall>i \<in> set is. length (inc_rname i) \<le> 255"
  shows "try_includes rec valid is q = Some (r, q') \<Longrightarrow> stack_ok env q \<Longrightarrow> swo q = None \<Longrightarrow> incstack q \<noteq> [] \<Longrightarrow>
    outcome env a {inc_rname i |i. i \<in> set is \<and> valid i \<noteq> 0} q r q'"
  using assms(2)
proof (induction "is" arbitrary: q)
  case Nil
  then show ?case by (simp add: outcome_def visited_def)
next
  case (Cons i "is")
  let ?N = "\<lambda>is. {inc_rname i |i. i \<in> set is \<and> valid i \<noteq> 0}"
  show ?case
  proof (cases "valid i = 0")
    case True
    then have "?N (i # is) = ?N is" by auto
    with Cons.IH [of q] Cons.prems True show ?thesis by simp
  next
    case valid: False
    then have N: "?N (i # is) = insert (inc_rname i) (?N is)" by auto
    from Cons.prems(1) valid obtain r1 q1 where r1: "rec (inc_rname i) q = Some (r1, q1)" by (auto split: option.splits)
    with assms(1) Cons.prems have o: "outcome env a {inc_rname i} q r1 q1" by (auto simp: searches_def)
    show ?thesis
    proof (cases "r1 = None \<and> swo q1 = None")
      case False
      with Cons.prems(1) valid r1 have "r = r1" "q' = q1" by (auto split: option.splits if_splits)
      with False o show ?thesis unfolding N outcome_def by auto
    next
      case True
      with o have v: "visited env a q q1" "seen env (set (incstack q1)) (inc_rname i)" by (auto simp: outcome_def)
      have t: "try_includes rec valid is q1 = Some (r, q')" using Cons.prems(1) valid r1 True by simp
      have "incstack q1 \<noteq> []" using v(1) Cons.prems(4) by (cases "incstack q1") (auto simp: visited_def)
      then have "outcome env a (?N is) q1 r q'"
        using Cons.IH [OF t] v(1) True Cons.prems by (auto simp: visited_def)
      with v visited_trans [OF v(1)] seen_mono [of "set (incstack q1)" "set (incstack q')" env "inc_rname i"]
      show ?thesis unfolding N outcome_def by (auto simp: visited_def split: if_splits)
    qed
  qed
qed

lemma stack_bounded:
  assumes "stack_ok env q" "dialplan_ok env"
  shows "length (incstack q) < AST_PBX_MAX_STACK"
proof -
  have "length (incstack q) = card (set (incstack q))" using assms(1) distinct_card by (metis stack_ok_def)
  also have "\<dots> \<le> card (con_name ` set (env_dialplan env))" using assms(1) by (intro card_mono) (auto simp: stack_ok_def)
  also have "\<dots> \<le> length (env_dialplan env)" by (metis card_image_le card_length finite_set le_trans)
  finally show ?thesis using assms(2) by (simp add: dialplan_ok_def)
qed

lemma search_context_outcome:
  assumes env: "dialplan_ok env" "args_valid a" "fa_action a \<noteq> E_MATCHMORE" and rec: "searches env a rec"
    and c: "find_context (env_dialplan env) n = Some c" "con_name c = n" "n \<notin> set (incstack q)"
    and q: "stack_ok env q" "swo q = None" and res: "search_context rec env a n c q = Some (r, q')"
  shows "outcome env a {n} q r q'"
proof -
  have cok: "c \<in> set (env_dialplan env)" "context_ok c" "\<forall>i \<in> set (con_includes c). length (inc_rname i) \<le> 255"
    using find_context_in [OF c(1)] env(1) by (auto simp: dialplan_ok_def)
  have here: "outcome env a {n} q r q'" if "found_at env a n r q'" "r = None \<longrightarrow> swo q' \<noteq> None"
    using that reach_self [of env n] by (auto simp: outcome_def)
  have switch: "outcome env a {n} q r q'" if "r = None" "q' = take_switch n s q0" "accepts env a n c s" for s q0
    using that c(1) by (intro here) (auto simp: found_at_def take_switch_def)
  show ?thesis
  proof (cases "override_match env a n")
    case (Some s)
    with res switch [of s "enter_context c q"] show ?thesis by (simp add: search_context_def accepts_def)
  next
    case no_override: None
    obtain sr q1 where scan: "find_scan a n (root c) (enter_context c q) = Some (sr, q1)"
      "scan_outcome a n (root c) (enter_context c q) sr q1"
      using find_scan_outcome [OF env(2), of "root c" n "enter_context c q"] cok(2) by (auto simp: context_ok_def)
    then have q1: "incstack q1 = incstack q" "swo q1 = None" using q(2) by (auto simp: scan_outcome_def)
    show ?thesis
    proof (cases sr)
      case (Scan_found e)
      with res no_override scan c(1) show ?thesis
        by (intro here) (auto simp: search_context_def found_at_def scan_outcome_def)
    next
      case Scan_final
      with scan(2) env(3) show ?thesis by (simp add: scan_outcome_def)
    next
      case Scan_none
      show ?thesis
      proof (cases "try_switches env a n (alts c)")
        case (Some s)
        then have "accepts env a n c s" using try_switches_Some [OF Some] by (simp add: accepts_def)
        with Some res no_override scan(1) Scan_none switch [of s q1] show ?thesis by (simp add: search_context_def)
      next
        case None
        then have empty: "nothing_here env a n c"
          using no_override try_switches_None [OF None] scan(2) Scan_none
          by (auto simp: nothing_here_def accepts_def scan_outcome_def)
        let ?q2 = "q1\<lparr>incstack := incstack q1 @ [n]\<rparr>"
        let ?N = "{inc_rname i |i. i \<in> set (con_includes c) \<and> include_valid env i \<noteq> 0}"
        have t: "try_includes rec (include_valid env) (con_includes c) ?q2 = Some (r, q')"
          using None res no_override scan(1) Scan_none c(2) by (simp add: search_context_def)
        have "stack_ok env ?q2" using q(1) q1 c cok(1) by (auto simp: stack_ok_def)
        from try_includes_outcome [OF rec cok(3) t this] q1 have o: "outcome env a ?N ?q2 r q'" by simp
        show ?thesis
        proof (cases "r = None \<and> swo q' = None")
          case True
          with o have v: "visited env a ?q2 q'" and s: "\<forall>n \<in> ?N. seen env (set (incstack q')) n" by (simp_all add: outcome_def)
          have "done_with env a (set (incstack q')) n" unfolding done_with_def c(1) option.inject using empty s by blast
          with v q1(1) have "visited env a q q'" "n \<in> set (incstack q')" by (auto simp: visited_def)
          with True c show ?thesis by (auto simp: outcome_def seen_def)
        next
          case False
          with o obtain i m where "i \<in> set (con_includes c)" "include_valid env i \<noteq> 0" "reach env (inc_rname i) m" "found_at env a m r q'"
            by (auto simp: outcome_def)
          with reach_step [OF c(1)] False show ?thesis by (auto simp: outcome_def)
        qed
      qed
    qed
  qed
qed

lemma find_extension_outcome:
  assumes env: "dialplan_ok env" "args_valid a" "fa_action a \<noteq> E_MATCHMORE" "fa_bypass a = None"
  shows "pbx_find_extension k env a n q = Some (r, q') \<Longrightarrow> length n \<le> 255 \<Longrightarrow> stack_ok env q \<Longrightarrow>
    swo (start_search q) = None \<Longrightarrow> outcome env a {n} q r q'"
proof (induction k arbitrary: n q r q')
  case (Suc k)
  have rec: "searches env a (pbx_find_extension k env a)"
    using Suc.IH by (auto simp: searches_def start_search_def)
  have ok: "stack_ok env (start_search q)" using Suc.prems(3) by (simp add: stack_ok_def)
  have same: "outcome env a {n} (start_search q) r q' = outcome env a {n} q r q'" by (simp add: outcome_def visited_def)
  have stop: "outcome env a {n} q None (start_search q)" if "seen env (set (incstack q)) n"
    using that ok Suc.prems(4) by (simp add: outcome_def visited_def)
  have name: "con_name c = n" if "context_to_search env a n = Some c" for c
    using that env(4) find_context_in Suc.prems(2) by (fastforce simp: context_to_search_def)
  show ?case
  proof (cases "\<exists>x \<in> set (incstack q). strcase_eq x n")
    case True
    then obtain x where x: "x \<in> set (incstack q)" "strcase_eq x n" by auto
    have "seen env (set (incstack q)) n" unfolding seen_def
    proof (intro allI impI)
      fix c assume c: "find_context (env_dialplan env) n = Some c"
      with name env(4) have n: "con_name c = n" by (simp add: context_to_search_def)
      have "x \<in> con_name ` set (env_dialplan env)" using x(1) Suc.prems(3) by (auto simp: stack_ok_def)
      with n x(2) find_context_in [OF c] env(1) have "x = n" unfolding dialplan_ok_def by blast
      with x(1) n show "con_name c \<in> set (incstack q)" by simp
    qed
    from stop [OF this] True Suc.prems(1) show ?thesis by (auto split: if_splits)
  next
    case False
    have len: "\<not> AST_PBX_MAX_STACK \<le> length (incstack q)" using stack_bounded [OF Suc.prems(3) env(1)] by simp
    show ?thesis
    proof (cases "context_to_search env a n")
      case None
      with env(4) have "seen env (set (incstack q)) n" by (simp add: seen_def context_to_search_def)
      from stop [OF this] False len None Suc.prems(1) show ?thesis by simp
    next
      case (Some c)
      have "n \<notin> set (incstack (start_search q))" using False by auto
      moreover have "search_context (pbx_find_extension k env a) env a n c (start_search q) = Some (r, q')"
        using Suc.prems(1) False len Some by simp
      ultimately show ?thesis
        using search_context_outcome [OF env(1-3) rec _ name [OF Some] _ ok Suc.prems(4), of r q'] Some env(4) same
        by (simp add: context_to_search_def)
    qed
  qed
qed simp

lemma closed_reach:
  assumes "reach env n m" "seen env V n" "\<forall>x \<in> V. done_with env a V x"
    and "\<forall>c \<in> set (env_dialplan env). \<forall>i \<in> set (con_includes c). length (inc_rname i) \<le> 255" "length n \<le> 255"
    and "find_context (env_dialplan env) m = Some c"
  shows "nothing_here env a m c"
  using assms
proof (induction rule: reach.induct)
  case (reach_self n)
  then show ?case using find_context_in by (fastforce simp: seen_def done_with_def)
next
  case (reach_step n d i m)
  then have "con_name d = n" "d \<in> set (env_dialplan env)" using find_context_in by fastforce+
  with reach_step show ?case by (auto simp: seen_def done_with_def)
qed

text \<open>
  C9: the search is exact. In a dialplan of fewer than 128 contexts whose names differ not only in case,
  a search for an extension by priority or label (any mode but "could a longer number match?") returns,
  and finds an entry exactly when one can be reached through the includes that are valid now. The entry
  found belongs to the first extension, in the order of matching preference, of a reachable context that
  matches the number and the caller ID and has the priority or label; a switch found accepts the number
  for a reachable context; and when neither is found no reachable context has such an entry and no switch
  of one accepts the number.
\<close>

theorem find_extension_exact:
  assumes "dialplan_ok env" "args_valid a" "fa_action a \<noteq> E_MATCHMORE" "fa_bypass a = None" "length n \<le> 255"
  shows "\<exists>r q. find_extension env a n = Some (r, q) \<and>
    (if r = None \<and> swo q = None
     then \<forall>m c. reach env n m \<longrightarrow> find_context (env_dialplan env) m = Some c \<longrightarrow> nothing_here env a m c
     else \<exists>m. reach env n m \<and> found_at env a m r q)"
proof -
  have "contexts_ok env a" using assms(1,4) by (simp add: contexts_ok_def dialplan_ok_def)
  from find_extension_answers [OF assms(2) this] obtain r q where rq: "find_extension env a n = Some (r, q)" by blast
  have s: "stack_ok env no_find_info" "swo (start_search no_find_info) = None"
    by (simp_all add: stack_ok_def no_find_info_def start_search_def)
  from find_extension_outcome [OF assms(1-4) rq [unfolded find_extension_def] assms(5) s]
  have o: "outcome env a {n} no_find_info r q" .
  have "nothing_here env a m c"
    if "r = None" "swo q = None" "reach env n m" "find_context (env_dialplan env) m = Some c" for m c
  proof (rule closed_reach [OF that(3)])
    show "seen env (set (incstack q)) n" "\<forall>x \<in> set (incstack q). done_with env a (set (incstack q)) x"
      using o that(1,2) by (simp_all add: outcome_def visited_def no_find_info_def)
  qed (use assms(1,5) that(4) in \<open>auto simp: dialplan_ok_def\<close>)
  with o rq show ?thesis by (auto simp: outcome_def)
qed

section \<open>The context's own extensions come first\<close>

lemma chain_entry_unique:
  assumes "chain_ok ch" "\<not> by_label a" "chain_entry a ch e" "chain_entry a ch e'"
  shows "e = e'"
proof -
  have "sorted_wrt (<) (map e_priority (peers ch))" using assms(1) by (simp add: chain_ok_def sorted_wrt_map)
  then have "inj_on e_priority (set (peers ch))" using strict_sorted_iff distinct_map by blast
  with assms(2-4) show ?thesis by (simp add: chain_entry_def inj_on_def)
qed

lemma first_offer_unique:
  assumes "\<forall>ch \<in> set chs. chain_ok ch" "\<not> by_label a" "first_offer a chs e" "first_offer a chs e'"
  shows "e = e'"
proof -
  from assms(3) obtain pre ch post where 1: "chs = pre @ ch # post" "offers a ch e" "\<forall>d \<in> set pre. \<forall>e'. \<not> offers a d e'"
    by (auto simp: first_offer_def)
  from assms(4) obtain pre' ch' post' where 2: "chs = pre' @ ch' # post'" "offers a ch' e'" "\<forall>d \<in> set pre'. \<forall>e'. \<not> offers a d e'"
    by (auto simp: first_offer_def)
  have "\<not> length pre < length pre'"
  proof
    assume "length pre < length pre'"
    then have "ch \<in> set pre'" using 1(1) 2(1) by (metis nth_append nth_append_length nth_mem)
    with 1(2) 2(3) show False by blast
  qed
  moreover have "\<not> length pre' < length pre"
  proof
    assume "length pre' < length pre"
    then have "ch' \<in> set pre" using 1(1) 2(1) by (metis nth_append nth_append_length nth_mem)
    with 2(2) 1(3) show False by blast
  qed
  ultimately have "ch = ch'" using 1(1) 2(1) by auto
  with chain_entry_unique assms(1,2) 1 2 show ?thesis by (auto simp: offers_def)
qed

lemma no_find_info_stack [simp]: "incstack no_find_info = []"
  by (simp add: no_find_info_def)

lemma find_extension_first:
  assumes "context_to_search env a n = Some c"
  shows "find_extension env a n = search_context (pbx_find_extension AST_PBX_MAX_STACK env a) env a n c (start_search no_find_info)"
proof -
  have "0 < AST_PBX_MAX_STACK" by (simp add: AST_PBX_MAX_STACK_def)
  then show ?thesis unfolding find_extension_def using assms by simp
qed

lemma own_extension_found:
  assumes "context_to_search env a n = Some c" "context_ok c" "args_valid a" "overrideswitch env = []"
    and "\<not> by_label a" "fa_action a \<noteq> E_MATCHMORE" "first_offer a (root c) e"
  shows "\<exists>q. find_extension env a n = Some (Some e, q)"
proof -
  have ok: "\<forall>ch \<in> set (root c). chain_ok ch" using assms(2) by (simp add: context_ok_def)
  obtain r q' where scan: "find_scan a n (root c) (enter_context c (start_search no_find_info)) = Some (r, q')"
    "scan_outcome a n (root c) (enter_context c (start_search no_find_info)) r q'"
    using find_scan_outcome [OF assms(3) ok] by blast
  have "r = Scan_found e"
  proof (cases r)
    case (Scan_found e')
    with scan(2) have "first_offer a (root c) e'" by (simp add: scan_outcome_def)
    with Scan_found first_offer_unique [OF ok assms(5,7)] show ?thesis by blast
  next
    case Scan_final
    with scan(2) assms(6) show ?thesis by (simp add: scan_outcome_def)
  next
    case Scan_none
    with scan(2) assms(7) show ?thesis by (auto simp: scan_outcome_def first_offer_def)
  qed
  with scan(1) show ?thesis
    by (simp add: find_extension_first [OF assms(1)] search_context_def override_match_def assms(4))
qed

lemma own_extension_missing:
  assumes "context_to_search env a n = Some c" "context_ok c" "args_valid a" "overrideswitch env = []"
    and "fa_action a \<noteq> E_MATCHMORE" "\<forall>ch \<in> set (root c). \<forall>e. \<not> offers a ch e" "alts c = []" "con_includes c = []"
  shows "\<exists>q. find_extension env a n = Some (None, q) \<and> swo q = None"
proof -
  have ok: "\<forall>ch \<in> set (root c). chain_ok ch" using assms(2) by (simp add: context_ok_def)
  obtain r q' where scan: "find_scan a n (root c) (enter_context c (start_search no_find_info)) = Some (r, q')"
    "scan_outcome a n (root c) (enter_context c (start_search no_find_info)) r q'"
    using find_scan_outcome [OF assms(3) ok] by blast
  have "r = Scan_none"
    using scan(2) assms(5,6) by (cases r) (auto simp: scan_outcome_def first_offer_def)
  with scan assms(7,8) show ?thesis
    by (simp add: find_extension_first [OF assms(1)] search_context_def override_match_def assms(4) scan_outcome_def
        start_search_def no_find_info_def)
qed

section \<open>Examples and limits\<close>

text \<open>Two contexts that include each other, the second with the extension \<open>_1XX\<close>.\<close>

definition demo_exten :: ast_exten where
  "demo_exten = \<lparr>e_addr = 1, e_exten = ''_1XX'', e_matchcid = False, e_cidmatch = [], e_priority = 1, e_label = None,
     e_app = ''Dial'', e_data = 0, e_registrar = ''demo''\<rparr>"

definition demo_env :: "nat find_env" where
  "demo_env = \<lparr>env_dialplan =
       [(demo_context ''in'')\<lparr>con_includes := [new_include ''out'' ''demo'']\<rparr>,
        (demo_context ''out'')\<lparr>con_includes := [new_include ''in'' ''demo''], root := [first_chain demo_exten]\<rparr>],
     env_switches = [], overrideswitch = [], substitute = (\<lambda>_ s. s), buffer_ok = True, local_time = (\<lambda>_. noon_tuesday)\<rparr>"

definition demo_args :: "ext_match_t \<Rightarrow> string \<Rightarrow> nat find_args" where
  "demo_args action number = \<lparr>fa_chan = None, fa_bypass = None, fa_exten = number, fa_priority = 1, fa_label = None,
     fa_callerid = None, fa_action = action\<rparr>"

lemma demo_env_ok: "dialplan_ok demo_env"
proof -
  have "exten_valid demo_exten" by (simp add: exten_valid_def demo_exten_def ext_valid_def no_nul_def no_ff_def)
  from first_chain_ok [OF this] show ?thesis
    by (simp add: dialplan_ok_def demo_env_def demo_context_def context_ok_def AST_PBX_MAX_STACK_def strcase_eq_def new_include_def strsep_def)
qed

lemma demo_args_ok: "args_valid (demo_args action ''123'')" "fa_bypass (demo_args action number) = None" "fa_action (demo_args action number) = action"
  by (simp_all add: args_valid_def demo_args_def ext_valid_def no_nul_def no_ff_def s_or_def)

lemma demo_reach: "reach demo_env ''in'' ''out''"
proof (rule reach_step)
  show "find_context (env_dialplan demo_env) ''in'' = Some ((demo_context ''in'')\<lparr>con_includes := [new_include ''out'' ''demo'']\<rparr>)"
    by (simp add: demo_env_def find_context_def demo_context_def)
  show "reach demo_env (inc_rname (new_include ''out'' ''demo'')) ''out''"
    using reach_self [of demo_env "''out''"] by (simp add: new_include_def strsep_def)
qed (simp_all add: include_valid_def new_include_def strsep_def)

lemma demo_offer: "offers (demo_args E_MATCH ''123'') (first_chain demo_exten) demo_exten"
proof -
  have "extension_match_core ''_1XX'' ''123'' E_MATCH = Some 1" by code_simp
  then show ?thesis
    by (simp add: offers_def chain_matches_def chain_entry_def by_label_def first_chain_def demo_args_def demo_exten_def cid_match_def)
qed

theorem find_extension_exact_witness:
  "\<exists>r q. find_extension demo_env (demo_args E_MATCH ''123'') ''in'' = Some (r, q) \<and> (r \<noteq> None \<or> swo q \<noteq> None)"
proof -
  have c: "find_context (env_dialplan demo_env) ''out'' =
      Some ((demo_context ''out'')\<lparr>con_includes := [new_include ''in'' ''demo''], root := [first_chain demo_exten]\<rparr>)"
    by (simp add: demo_env_def find_context_def demo_context_def)
  from demo_offer have "\<not> nothing_here demo_env (demo_args E_MATCH ''123'') ''out''
      ((demo_context ''out'')\<lparr>con_includes := [new_include ''in'' ''demo''], root := [first_chain demo_exten]\<rparr>)"
    by (auto simp: nothing_here_def)
  with c demo_reach have no: "\<not> (\<forall>m c. reach demo_env ''in'' m \<longrightarrow> find_context (env_dialplan demo_env) m = Some c \<longrightarrow>
      nothing_here demo_env (demo_args E_MATCH ''123'') m c)" by blast
  have "\<exists>r q. find_extension demo_env (demo_args E_MATCH ''123'') ''in'' = Some (r, q) \<and>
    (if r = None \<and> swo q = None
     then \<forall>m c. reach demo_env ''in'' m \<longrightarrow> find_context (env_dialplan demo_env) m = Some c \<longrightarrow> nothing_here demo_env (demo_args E_MATCH ''123'') m c
     else \<exists>m. reach demo_env ''in'' m \<and> found_at demo_env (demo_args E_MATCH ''123'') m r q)"
    by (rule find_extension_exact) (simp_all add: demo_env_ok demo_args_ok)
  then obtain r q where rq: "find_extension demo_env (demo_args E_MATCH ''123'') ''in'' = Some (r, q)"
    and o: "if r = None \<and> swo q = None
     then \<forall>m c. reach demo_env ''in'' m \<longrightarrow> find_context (env_dialplan demo_env) m = Some c \<longrightarrow> nothing_here demo_env (demo_args E_MATCH ''123'') m c
     else \<exists>m. reach demo_env ''in'' m \<and> found_at demo_env (demo_args E_MATCH ''123'') m r q" by blast
  have "\<not> (r = None \<and> swo q = None)" using o no by (intro notI) (simp only: simp_thms if_True)
  with rq show ?thesis by blast
qed

theorem find_extension_terminates_witness: "\<exists>r q. find_extension demo_env (demo_args E_MATCHMORE ''123'') ''in'' = Some (r, q)"
  by (rule find_extension_terminates) (use demo_env_ok in \<open>simp_all add: demo_args_ok contexts_ok_def dialplan_ok_def\<close>)

definition plain_context :: "string \<Rightarrow> string list \<Rightarrow> string list \<Rightarrow> ast_context" where
  "plain_context name incl extens = (demo_context name)\<lparr>con_includes := map (\<lambda>i. new_include i ''demo'') incl,
     root := map (\<lambda>x. first_chain (demo_exten\<lparr>e_exten := x\<rparr>)) extens\<rparr>"

text \<open>
  The search skips a context whose name differs only in case from one already searched, although
  they are two contexts: from a context \<open>A\<close> that includes \<open>a\<close> an extension of \<open>a\<close> is not found, while
  it is found from any context with another name.
\<close>

theorem find_extension_skips_case_variant:
  "map_option (\<lambda>(e, q). map_option e_exten e)
     (find_extension (demo_env\<lparr>env_dialplan := [plain_context ''A'' [''a''] [], plain_context ''a'' [] [''_1XX'']]\<rparr>)
        (demo_args E_MATCH ''123'') ''A'') = Some None \<and>
   map_option (\<lambda>(e, q). map_option e_exten e)
     (find_extension (demo_env\<lparr>env_dialplan := [plain_context ''B'' [''a''] [], plain_context ''a'' [] [''_1XX'']]\<rparr>)
        (demo_args E_MATCH ''123'') ''B'') = Some (Some ''_1XX'')"
  by (intro conjI; code_simp)

text \<open>
  In the mode that asks whether a longer number could match, an extension that ends in \<open>!\<close> is said to
  make the decision final. It does within one context, but not when the extension is in an included
  context: the search goes on with the next include and may find an entry.
\<close>

theorem find_extension_bang_not_final:
  "map_option (\<lambda>(e, q). map_option e_exten e)
     (find_extension (demo_env\<lparr>env_dialplan := [plain_context ''in'' [] [''_1!'', ''_123X'']]\<rparr>) (demo_args E_MATCHMORE ''12'') ''in'') = Some None \<and>
   map_option (\<lambda>(e, q). map_option e_exten e)
     (find_extension (demo_env\<lparr>env_dialplan := [plain_context ''in'' [''x'', ''y''] [], plain_context ''x'' [] [''_1!''], plain_context ''y'' [] [''_123X'']]\<rparr>)
        (demo_args E_MATCHMORE ''12'') ''in'') = Some (Some ''_123X'')"
  by (intro conjI; code_simp)

end
