(* ===== verification/Ast_Channel.thy ===== *)
theory Ast_Channel
  imports Ast_Time C_String Ast_Frame "HOL-Library.Sublist"
begin

text \<open>
  The parts of a channel that the dialplan works with, \<open>main/channel.c\<close> and the variables of
  \<open>main/pbx.c\<close> and \<open>main/chanvars.c\<close>: the queue of frames to be read, the soft hangup flags and the
  channel variables. The rest of a channel, driver and hardware included, is the field \<open>ch_world\<close>.
\<close>

section \<open>Data\<close>

text \<open>A frame: its kind, its subclass and its data, of which only the identity matters.\<close>

record queued_frame =
  frametype :: ast_frame_type
  fr_subclass :: int
  frame_data :: nat

definition AST_CONTROL_HANGUP :: int where "AST_CONTROL_HANGUP = 1"
definition AST_CONTROL_END_OF_Q :: int where "AST_CONTROL_END_OF_Q = 29"

record ast_pbx =
  dtimeoutms :: int
  rtimeoutms :: int

record pbx_exception =
  x_context :: string
  x_exten :: string
  x_reason :: string
  x_priority :: int

text \<open>
  \<open>ch_number\<close> is the caller's number if it is valid. \<open>alertpipe\<close> counts the alerts in the pipe, if the
  channel has one.
\<close>

record 'w ast_channel =
  ch_context :: string
  ch_exten :: string
  ch_priority :: int
  ch_number :: "string option"
  softhangup :: "32 word"
  whentohangup :: timeval
  in_autoloop :: bool
  bridge_hangup_run :: bool
  ch_pbx :: "ast_pbx option"
  ch_appl :: "string option"
  ch_data :: "string option"
  readq :: "queued_frame list"
  alertpipe :: "nat option"
  varshead :: "(string \<times> string) list"
  ch_exception :: "pbx_exception option"
  ch_world :: 'w

section \<open>The queue of frames\<close>

definition is_control :: "int \<Rightarrow> queued_frame \<Rightarrow> bool" where
  "is_control c f \<longleftrightarrow> frametype f = AST_FRAME_CONTROL \<and> fr_subclass f = c"

text \<open>The frames that may be dropped, and the loop that drops up to 64 of them, never the last frame.\<close>

definition is_media :: "queued_frame \<Rightarrow> bool" where
  "is_media f \<longleftrightarrow> frametype f \<in> {AST_FRAME_VOICE, AST_FRAME_VIDEO, AST_FRAME_NULL}"

fun drop_media :: "nat \<Rightarrow> queued_frame list \<Rightarrow> queued_frame list" where
  "drop_media n [] = []"
| "drop_media n [f] = [f]"
| "drop_media n (f # g # fs) =
     (if is_media f then (if n + 1 > 64 then f # g # fs else drop_media (n + 1) (g # fs))
      else f # drop_media n (g # fs))"

definition voice_count :: "queued_frame list \<Rightarrow> nat" where
  "voice_count fs = length (filter (\<lambda>f. frametype f = AST_FRAME_VOICE) fs)"

text \<open>
  \<open>__ast_queue_frame\<close> without a frame to insert after: the frames \<open>fin\<close> go to the head or the tail of the
  queue. \<open>dup_ok\<close>: every frame could be copied.
\<close>

definition queue_frames :: "bool \<Rightarrow> 'w ast_channel \<Rightarrow> queued_frame list \<Rightarrow> bool \<Rightarrow> int \<times> 'w ast_channel" where
  "queue_frames dup_ok chan fin head =
     (let at_end = (readq chan \<noteq> [] \<and> \<not> head);
          eoq = (at_end \<and> is_control AST_CONTROL_END_OF_Q (last (readq chan)));
          hung = (at_end \<and> is_control AST_CONTROL_HANGUP (last (readq chan)));
          replace = (eoq \<and> is_control AST_CONTROL_HANGUP (hd fin))
      in if hung \<or> eoq \<and> \<not> replace then (0, chan)
         else let old = (if replace then butlast (readq chan) else readq chan) in
           if \<not> dup_ok then (-1, chan\<lparr>readq := old\<rparr>)
           else let kept = (if length old + length fin > 128 \<or> voice_count old + voice_count fin > 96
                            then drop_media 0 old else old)
                in (0, chan\<lparr>readq := (if head then fin @ kept else kept @ fin),
                            alertpipe := map_option (\<lambda>n. n + length fin) (alertpipe chan)\<rparr>))"

definition ast_queue_frame :: "bool \<Rightarrow> 'w ast_channel \<Rightarrow> queued_frame list \<Rightarrow> int \<times> 'w ast_channel" where
  "ast_queue_frame dup_ok chan fin = queue_frames dup_ok chan fin False"

definition ast_queue_frame_head :: "bool \<Rightarrow> 'w ast_channel \<Rightarrow> queued_frame list \<Rightarrow> int \<times> 'w ast_channel" where
  "ast_queue_frame_head dup_ok chan fin = queue_frames dup_ok chan fin True"

definition control_frame :: "int \<Rightarrow> nat \<Rightarrow> queued_frame" where
  "control_frame c d = \<lparr>frametype = AST_FRAME_CONTROL, fr_subclass = c, frame_data = d\<rparr>"

definition ast_queue_control :: "bool \<Rightarrow> 'w ast_channel \<Rightarrow> int \<Rightarrow> int \<times> 'w ast_channel" where
  "ast_queue_control dup_ok chan control = ast_queue_frame dup_ok chan [control_frame control 0]"

definition ast_queue_control_data :: "bool \<Rightarrow> 'w ast_channel \<Rightarrow> int \<Rightarrow> nat \<Rightarrow> int \<times> 'w ast_channel" where
  "ast_queue_control_data dup_ok chan control d = ast_queue_frame dup_ok chan [control_frame control d]"

section \<open>Soft hangup\<close>

definition AST_SOFTHANGUP_DEV :: "32 word" where "AST_SOFTHANGUP_DEV = 1"
definition AST_SOFTHANGUP_ASYNCGOTO :: "32 word" where "AST_SOFTHANGUP_ASYNCGOTO = 2"
definition AST_SOFTHANGUP_TIMEOUT :: "32 word" where "AST_SOFTHANGUP_TIMEOUT = 8"
definition AST_SOFTHANGUP_APPUNLOAD :: "32 word" where "AST_SOFTHANGUP_APPUNLOAD = 16"

unbundle bit_operations_syntax

definition has_flag :: "'w ast_channel \<Rightarrow> 32 word \<Rightarrow> bool" where
  "has_flag chan flag \<longleftrightarrow> softhangup chan AND flag \<noteq> 0"

text \<open>\<open>locked\<close>: the channel lock could be taken, otherwise the flag is not set.\<close>

definition ast_queue_hangup :: "bool \<Rightarrow> bool \<Rightarrow> 'w ast_channel \<Rightarrow> int \<times> 'w ast_channel" where
  "ast_queue_hangup locked dup_ok chan =
     ast_queue_frame dup_ok (if locked then chan\<lparr>softhangup := softhangup chan OR AST_SOFTHANGUP_DEV\<rparr> else chan)
       [control_frame AST_CONTROL_HANGUP 0]"

definition ast_check_hangup :: "timeval \<Rightarrow> 'w ast_channel \<Rightarrow> int \<times> 'w ast_channel" where
  "ast_check_hangup now chan =
     (if softhangup chan \<noteq> 0 then (1, chan)
      else if ast_tvzero (whentohangup chan) then (0, chan)
      else if ast_tvdiff_ms (whentohangup chan) now > 0 then (0, chan)
      else (1, chan\<lparr>softhangup := softhangup chan OR AST_SOFTHANGUP_TIMEOUT\<rparr>))"

definition ast_channel_clear_softhangup :: "'w ast_channel \<Rightarrow> 32 word \<Rightarrow> 'w ast_channel" where
  "ast_channel_clear_softhangup chan flag =
     (let c1 = chan\<lparr>softhangup := softhangup chan AND NOT flag\<rparr> in
      if softhangup c1 = 0 \<and> readq c1 \<noteq> [] \<and> is_control AST_CONTROL_END_OF_Q (last (readq c1))
      then c1\<lparr>readq := butlast (readq c1)\<rparr> else c1)"

definition ast_null_frame :: queued_frame where
  "ast_null_frame = \<lparr>frametype = AST_FRAME_NULL, fr_subclass = 0, frame_data = 0\<rparr>"

definition ast_softhangup :: "bool \<Rightarrow> 'w ast_channel \<Rightarrow> 32 word \<Rightarrow> int \<times> 'w ast_channel" where
  "ast_softhangup dup_ok chan cause =
     (0, snd (ast_queue_frame dup_ok (chan\<lparr>softhangup := softhangup chan OR cause\<rparr>) [ast_null_frame]))"

section \<open>Variables\<close>

text \<open>A variable is stored with its name in full; up to two leading underscores do not count.\<close>

definition ast_var_name :: "string \<Rightarrow> string" where
  "ast_var_name name =
     (if take 1 name = ''_'' then if take 1 (drop 1 name) = ''_'' then drop 2 name else drop 1 name else name)"

fun remove_var :: "string \<Rightarrow> (string \<times> string) list \<Rightarrow> (string \<times> string) list" where
  "remove_var name [] = []"
| "remove_var name ((n, v) # vs) = (if ast_var_name n = name then vs else (n, v) # remove_var name vs)"

text \<open>
  The list of the channel, or of the globals when there is no channel. A name that ends in a closing
  parenthesis is a dialplan function; \<open>func_write\<close> is \<open>ast_func_write\<close>.
\<close>

definition setvar_list :: "(string \<times> string) list \<Rightarrow> string \<Rightarrow> string option \<Rightarrow> (string \<times> string) list" where
  "setvar_list vs name value =
     (let vs1 = remove_var (ast_var_name name) vs in case value of None \<Rightarrow> vs1 | Some v \<Rightarrow> (name, v) # vs1)"

definition pbx_builtin_setvar_helper ::
  "('w ast_channel \<Rightarrow> string \<Rightarrow> string option \<Rightarrow> int \<times> 'w ast_channel) \<Rightarrow> 'w ast_channel \<Rightarrow> string \<Rightarrow> string option \<Rightarrow> int \<times> 'w ast_channel" where
  "pbx_builtin_setvar_helper func_write chan name value =
     (if last name = CHR '')'' then func_write chan name value
      else (0, chan\<lparr>varshead := setvar_list (varshead chan) name value\<rparr>))"

definition pbx_builtin_pushvar_helper ::
  "('w ast_channel \<Rightarrow> string \<Rightarrow> string option \<Rightarrow> int \<times> 'w ast_channel) \<Rightarrow> 'w ast_channel \<Rightarrow> string \<Rightarrow> string option \<Rightarrow> 'w ast_channel" where
  "pbx_builtin_pushvar_helper func_write chan name value =
     (if last name = CHR '')'' then snd (func_write chan name value)
      else case value of None \<Rightarrow> chan | Some v \<Rightarrow> chan\<lparr>varshead := (name, v) # varshead chan\<rparr>)"

fun find_var :: "(string \<times> string) list \<Rightarrow> string \<Rightarrow> string option" where
  "find_var [] name = None"
| "find_var ((n, v) # vs) name = (if name = ast_var_name n then Some v else find_var vs name)"

definition pbx_builtin_getvar_helper :: "(string \<times> string) list \<Rightarrow> 'w ast_channel \<Rightarrow> string \<Rightarrow> string option" where
  "pbx_builtin_getvar_helper globals chan name =
     (case find_var (varshead chan) name of Some v \<Rightarrow> Some v | None \<Rightarrow> find_var globals name)"

section \<open>What the queue keeps\<close>

lemma drop_media_last: "fs \<noteq> [] \<Longrightarrow> drop_media n fs \<noteq> [] \<and> last (drop_media n fs) = last fs"
  by (induction n fs rule: drop_media.induct) auto

lemma drop_media_signalling: "filter (\<lambda>f. \<not> is_media f) (drop_media n fs) = filter (\<lambda>f. \<not> is_media f) fs"
  by (induction n fs rule: drop_media.induct) auto

lemma drop_media_subseq: "subseq (drop_media n fs) fs"
proof (induction n fs rule: drop_media.induct)
  case (3 n f g fs)
  then show ?case by (cases "is_media f"; cases "n + 1 > 64") auto
qed simp_all

lemma drop_media_count: "n \<le> 64 \<Longrightarrow> length fs \<le> length (drop_media n fs) + (64 - n)"
proof (induction n fs rule: drop_media.induct)
  case (3 n f g fs)
  then show ?case by (cases "is_media f"; cases "n = 64") auto
qed simp_all

text \<open>The frames that end a queue: nothing is queued behind them.\<close>

definition ends_queue :: "queued_frame \<Rightarrow> bool" where
  "ends_queue f \<longleftrightarrow> is_control AST_CONTROL_HANGUP f \<or> is_control AST_CONTROL_END_OF_Q f"

definition queue_ok :: "queued_frame list \<Rightarrow> bool" where
  "queue_ok fs \<longleftrightarrow> (\<forall>f \<in> set (butlast fs). \<not> ends_queue f)"

text \<open>The queue that new frames are added to: a marker of the end of the queue gives way to a hangup.\<close>

definition open_queue :: "queued_frame list \<Rightarrow> queued_frame list \<Rightarrow> queued_frame list option" where
  "open_queue fs fin =
     (if fs = [] \<or> \<not> ends_queue (last fs) then Some fs
      else if is_control AST_CONTROL_END_OF_Q (last fs) \<and> is_control AST_CONTROL_HANGUP (hd fin) then Some (butlast fs)
      else None)"

lemma control_kinds: "\<not> (is_control AST_CONTROL_HANGUP f \<and> is_control AST_CONTROL_END_OF_Q f)"
  by (simp add: is_control_def AST_CONTROL_HANGUP_def AST_CONTROL_END_OF_Q_def)

lemma queue_tail:
  "ast_queue_frame True chan fin =
     (case open_queue (readq chan) fin of
        None \<Rightarrow> (0, chan)
      | Some old \<Rightarrow>
          (0, chan\<lparr>readq := (if length old + length fin > 128 \<or> voice_count old + voice_count fin > 96 then drop_media 0 old else old) @ fin,
                   alertpipe := map_option (\<lambda>n. n + length fin) (alertpipe chan)\<rparr>))"
  using control_kinds [of "last (readq chan)"]
  by (auto simp: ast_queue_frame_def queue_frames_def open_queue_def ends_queue_def Let_def)

lemma open_queue_ok:
  assumes "queue_ok fs" "open_queue fs fin = Some old"
  shows "\<forall>f \<in> set old. \<not> ends_queue f"
  using assms by (cases fs rule: rev_cases) (auto simp: queue_ok_def open_queue_def split: if_splits)

text \<open>
  C15: queueing frames at the tail of a channel's queue never loses or reorders signalling. The frames
  already there stay, in order, except that when the queue is too long at most 64 voice, video and null
  frames are dropped, never the last frame; the new frames follow them. Behind a hangup nothing is
  queued; behind the marker of the end of the queue only a hangup, which takes its place. So no frame
  ever follows a hangup or an end marker.
\<close>

theorem queue_frame_keeps_signalling:
  assumes "queue_ok (readq chan)" "queue_ok fin"
  shows "\<exists>chan'. ast_queue_frame True chan fin = (0, chan') \<and> queue_ok (readq chan') \<and>
    (case open_queue (readq chan) fin of
       None \<Rightarrow> chan' = chan
     | Some old \<Rightarrow> \<exists>kept. readq chan' = kept @ fin \<and> subseq kept old \<and>
         filter (\<lambda>f. \<not> is_media f) kept = filter (\<lambda>f. \<not> is_media f) old \<and> length old \<le> length kept + 64 \<and>
         (old \<noteq> [] \<longrightarrow> kept \<noteq> [] \<and> last kept = last old) \<and>
         (length old + length fin \<le> 128 \<and> voice_count old + voice_count fin \<le> 96 \<longrightarrow> kept = old))"
proof (cases "open_queue (readq chan) fin")
  case None
  with assms(1) show ?thesis by (simp add: queue_tail)
next
  case (Some old)
  define kept where "kept = (if length old + length fin > 128 \<or> voice_count old + voice_count fin > 96 then drop_media 0 old else old)"
  have k: "subseq kept old" "filter (\<lambda>f. \<not> is_media f) kept = filter (\<lambda>f. \<not> is_media f) old" "length old \<le> length kept + 64"
    "old \<noteq> [] \<longrightarrow> kept \<noteq> [] \<and> last kept = last old"
    using drop_media_subseq [of 0 old] drop_media_signalling [of 0 old] drop_media_count [of 0 old] drop_media_last [of old 0]
    by (auto simp: kept_def)
  have "\<forall>f \<in> set kept. \<not> ends_queue f"
    using open_queue_ok [OF assms(1) Some] k(1) list_emb_set by fastforce
  then have "queue_ok (kept @ fin)"
    using assms(2) by (cases fin rule: rev_cases) (auto simp: queue_ok_def butlast_append dest: in_set_butlastD)
  with Some k show ?thesis by (auto simp: queue_tail kept_def [symmetric]) (simp add: kept_def)
qed

section \<open>What a variable holds\<close>

definition vars_ok :: "(string \<times> string) list \<Rightarrow> bool" where
  "vars_ok vs \<longleftrightarrow> distinct (map (\<lambda>(n, v). ast_var_name n) vs)"

lemma find_var_map: "find_var vs name = map_of (map (\<lambda>(n, v). (ast_var_name n, v)) vs) name"
  by (induction vs name rule: find_var.induct) auto

lemma find_remove_other: "n \<noteq> name \<Longrightarrow> find_var (remove_var name vs) n = find_var vs n"
  by (induction name vs rule: remove_var.induct) auto

lemma remove_var_names:
  "vars_ok vs \<Longrightarrow> map (\<lambda>(n, v). ast_var_name n) (remove_var name vs) = remove1 name (map (\<lambda>(n, v). ast_var_name n) vs)"
  by (induction name vs rule: remove_var.induct) (auto simp: vars_ok_def)

lemma find_remove_same: "vars_ok vs \<Longrightarrow> find_var (remove_var name vs) name = None"
  by (induction name vs rule: remove_var.induct) (force simp: vars_ok_def find_var_map map_of_eq_None_iff)+

text \<open>
  A variable set on a channel reads back under its name without the one or two underscores that only
  mark it for inheritance; setting it again, with or without underscores, replaces it, setting it to
  \<open>NULL\<close> removes it, and no other variable changes. A channel holds each name once.
\<close>

theorem variables_roundtrip:
  assumes "vars_ok (varshead chan)" "last name \<noteq> CHR '')''" "pbx_builtin_setvar_helper fw chan name value = (r, chan')"
  shows "r = 0 \<and> vars_ok (varshead chan') \<and>
    find_var (varshead chan') n = (if n = ast_var_name name then value else find_var (varshead chan) n)"
proof -
  let ?vs = "varshead chan"
  have c: "r = 0" "varshead chan' = setvar_list ?vs name value"
    using assms(2,3) by (auto simp: pbx_builtin_setvar_helper_def)
  have d: "distinct (map (\<lambda>(n, v). ast_var_name n) (remove_var (ast_var_name name) ?vs))"
    "ast_var_name name \<notin> set (map (\<lambda>(n, v). ast_var_name n) (remove_var (ast_var_name name) ?vs))"
    using assms(1) unfolding remove_var_names [OF assms(1)] vars_ok_def by simp_all
  have "vars_ok (setvar_list ?vs name value)"
    using d by (auto simp: setvar_list_def Let_def vars_ok_def split: option.splits)
  moreover have "find_var (setvar_list ?vs name value) n = (if n = ast_var_name name then value else find_var ?vs n)"
    using find_remove_same [OF assms(1)] find_remove_other [of n "ast_var_name name" ?vs]
    by (auto simp: setvar_list_def Let_def split: option.splits)
  ultimately show ?thesis using c by simp
qed

definition demo_channel :: "nat ast_channel" where
  "demo_channel = \<lparr>ch_context = ''in'', ch_exten = ''123'', ch_priority = 1, ch_number = None, softhangup = 0,
     whentohangup = Timeval 0 0, in_autoloop = False, bridge_hangup_run = False, ch_pbx = None, ch_appl = None,
     ch_data = None, readq = [], alertpipe = None, varshead = [], ch_exception = None, ch_world = 0\<rparr>"

theorem variables_roundtrip_witness:
  "find_var (varshead (snd (pbx_builtin_setvar_helper (\<lambda>c _ _. (0, c)) demo_channel ''__X'' (Some ''5'')))) ''X'' = Some ''5''"
proof -
  obtain r c where rc: "pbx_builtin_setvar_helper (\<lambda>c _ _. (0, c)) demo_channel ''__X'' (Some ''5'') = (r, c)" by fastforce
  have "vars_ok (varshead demo_channel)" by (simp add: demo_channel_def vars_ok_def)
  from variables_roundtrip [OF this _ rc, of "''X''"] rc show ?thesis by (simp add: ast_var_name_def)
qed

theorem queue_frame_keeps_signalling_witness:
  "\<exists>chan'. ast_queue_frame True demo_channel [control_frame AST_CONTROL_HANGUP 0] = (0, chan') \<and> queue_ok (readq chan')"
proof -
  have "queue_ok (readq demo_channel)" "queue_ok [control_frame AST_CONTROL_HANGUP 0]"
    by (simp_all add: demo_channel_def queue_ok_def)
  from queue_frame_keeps_signalling [OF this] show ?thesis by blast
qed

end
