(* ===== verification/Pbx_Run.thy ===== *)
theory Pbx_Run
  imports Pbx_Find Ast_Channel "HOL-Library.Monad_Syntax"
begin

text \<open>
  How a channel runs through the dialplan, \<open>main/pbx.c\<close>: the helper that looks an extension up and runs
  its application, the collection of digits, the loop of \<open>__ast_pbx_run\<close> and the count of active calls.
  Applications, the wait for a digit, the clock and the substitution of variables are parameters; they
  act on the channel and on the world outside it. Call detail records are not modelled. A function whose
  result is optional has none when the code would not return: a comparison of patterns that never ends,
  a loop that never ends, or a call through a \<open>NULL\<close> pointer.
\<close>

section \<open>Data\<close>

record 'w ast_app =
  app_name :: string
  app_execute :: "'w ast_channel \<Rightarrow> string \<Rightarrow> int \<times> 'w ast_channel"

text \<open>
  \<open>plan\<close> is the dialplan of the moment, \<open>app_args\<close> the arguments of an application with variables
  substituted, \<open>exception_ok\<close> and \<open>frames_ok\<close> whether memory for an exception and for a frame is there.
\<close>

record 'w run_env =
  plan :: "'w \<Rightarrow> ('w ast_channel) find_env"
  applications :: "'w ast_app list"
  app_args :: "'w ast_channel \<Rightarrow> ast_exten \<Rightarrow> string"
  func_write :: "'w ast_channel \<Rightarrow> string \<Rightarrow> string option \<Rightarrow> int \<times> 'w ast_channel"
  waitfordigit :: "'w ast_channel \<Rightarrow> int \<Rightarrow> int \<times> 'w ast_channel"
  clock :: "'w \<Rightarrow> timeval"
  global_vars :: "'w \<Rightarrow> (string \<times> string) list"
  builtin_congestion :: "'w ast_channel \<Rightarrow> string \<Rightarrow> int \<times> 'w ast_channel"
  builtin_busy :: "'w ast_channel \<Rightarrow> string \<Rightarrow> int \<times> 'w ast_channel"
  exception_ok :: bool
  frames_ok :: bool
  autofallthrough :: bool

definition AST_MAX_EXTENSION :: nat where "AST_MAX_EXTENSION = 80"
definition AST_MAX_CONTEXT :: nat where "AST_MAX_CONTEXT = 80"
definition AST_PBX_ERROR :: int where "AST_PBX_ERROR = 1"
definition AST_PBX_INCOMPLETE :: int where "AST_PBX_INCOMPLETE = 12"

text \<open>\<open>ast_copy_string\<close> into an array of a given size, and the string a buffer holds.\<close>

definition copy_string :: "nat \<Rightarrow> string \<Rightarrow> string" where
  "copy_string n s = take (n - 1) s"

definition c_string :: "string \<Rightarrow> string" where
  "c_string buf = takeWhile (\<lambda>c. c \<noteq> CHR 0x00) buf"

section \<open>Looking up and running an extension\<close>

definition pbx_findapp :: "'w run_env \<Rightarrow> string \<Rightarrow> 'w ast_app option" where
  "pbx_findapp env app = find (\<lambda>a. strcase_eq (app_name a) app) (applications env)"

definition pbx_exec :: "'w ast_channel \<Rightarrow> 'w ast_app \<Rightarrow> string \<Rightarrow> int \<times> 'w ast_channel" where
  "pbx_exec c app d =
     (case app_execute app (c\<lparr>ch_appl := Some (app_name app), ch_data := Some d\<rparr>) d of
        (res, c') \<Rightarrow> (res, c'\<lparr>ch_appl := ch_appl c, ch_data := ch_data c\<rparr>))"

definition matching_action :: "ext_match_t \<Rightarrow> bool" where
  "matching_action action \<longleftrightarrow> action \<in> {E_MATCH, E_CANMATCH, E_MATCHMORE}"

text \<open>The answer, whether anything was found, and the channel afterwards.\<close>

definition pbx_extension_helper ::
  "'w run_env \<Rightarrow> 'w ast_channel \<Rightarrow> ast_context option \<Rightarrow> string \<Rightarrow> string \<Rightarrow> int \<Rightarrow> string option \<Rightarrow> string option \<Rightarrow> ext_match_t \<Rightarrow>
   (int \<times> bool \<times> 'w ast_channel) option" where
  "pbx_extension_helper env c con context exten prio lab callerid action =
     (case find_extension (plan env (ch_world c))
             \<lparr>fa_chan = Some c, fa_bypass = con, fa_exten = exten, fa_priority = prio, fa_label = lab, fa_callerid = callerid,
              fa_action = action\<rparr> context of
        None \<Rightarrow> None
      | Some (Some e, q) \<Rightarrow>
          if matching_action action then Some (-1, True, c)
          else if action = E_FINDLABEL then Some (e_priority e, True, c)
          else (case pbx_findapp env (e_app e) of
                  None \<Rightarrow> Some (-1, True, c)
                | Some app \<Rightarrow>
                    let c1 = c\<lparr>ch_context := copy_string AST_MAX_CONTEXT context,
                               ch_exten := copy_string AST_MAX_EXTENSION exten, ch_priority := prio\<rparr>
                    in case pbx_exec c1 app (app_args env c1 e) of (res, c2) \<Rightarrow> Some (res, True, c2))
      | Some (None, q) \<Rightarrow>
          (case swo q of
             Some asw \<Rightarrow>
               if matching_action action then Some (-1, True, c)
               else (case asw_exec asw of
                       None \<Rightarrow> None
                     | Some f \<Rightarrow>
                         (case f c (case foundcontext q of Some n \<Rightarrow> n | None \<Rightarrow> context) exten prio callerid (q_data q) of
                            (res, c') \<Rightarrow> Some (res, True, c')))
           | None \<Rightarrow> Some (if matching_action action then 0 else -1, False, c)))"

definition ast_exists_extension :: "'w run_env \<Rightarrow> 'w ast_channel \<Rightarrow> string \<Rightarrow> string \<Rightarrow> int \<Rightarrow> string option \<Rightarrow> int option" where
  "ast_exists_extension env c context exten prio callerid =
     map_option fst (pbx_extension_helper env c None context exten prio None callerid E_MATCH)"

definition ast_findlabel_extension :: "'w run_env \<Rightarrow> 'w ast_channel \<Rightarrow> string \<Rightarrow> string \<Rightarrow> string \<Rightarrow> string option \<Rightarrow> int option" where
  "ast_findlabel_extension env c context exten lab callerid =
     map_option fst (pbx_extension_helper env c None context exten 0 (Some lab) callerid E_FINDLABEL)"

text \<open>The second variant passes no context name, only the context; here the name is empty.\<close>

definition ast_findlabel_extension2 :: "'w run_env \<Rightarrow> 'w ast_channel \<Rightarrow> ast_context \<Rightarrow> string \<Rightarrow> string \<Rightarrow> string option \<Rightarrow> int option" where
  "ast_findlabel_extension2 env c con exten lab callerid =
     map_option fst (pbx_extension_helper env c (Some con) [] exten 0 (Some lab) callerid E_FINDLABEL)"

definition ast_canmatch_extension :: "'w run_env \<Rightarrow> 'w ast_channel \<Rightarrow> string \<Rightarrow> string \<Rightarrow> int \<Rightarrow> string option \<Rightarrow> int option" where
  "ast_canmatch_extension env c context exten prio callerid =
     map_option fst (pbx_extension_helper env c None context exten prio None callerid E_CANMATCH)"

definition ast_matchmore_extension :: "'w run_env \<Rightarrow> 'w ast_channel \<Rightarrow> string \<Rightarrow> string \<Rightarrow> int \<Rightarrow> string option \<Rightarrow> int option" where
  "ast_matchmore_extension env c context exten prio callerid =
     map_option fst (pbx_extension_helper env c None context exten prio None callerid E_MATCHMORE)"

definition ast_spawn_extension ::
  "'w run_env \<Rightarrow> 'w ast_channel \<Rightarrow> string \<Rightarrow> string \<Rightarrow> int \<Rightarrow> string option \<Rightarrow> (int \<times> bool \<times> 'w ast_channel) option" where
  "ast_spawn_extension env c context exten prio callerid =
     pbx_extension_helper env c None context exten prio None callerid E_SPAWN"

text \<open>\<open>ast_exists_extension\<close> in the channel's context and for its caller, at priority 1 unless given.\<close>

definition exists_at :: "'w run_env \<Rightarrow> 'w ast_channel \<Rightarrow> string \<Rightarrow> int \<Rightarrow> bool option" where
  "exists_at env c exten prio = map_option (\<lambda>r. r \<noteq> 0) (ast_exists_extension env c (ch_context c) exten prio (ch_number c))"

definition set_ext_pri :: "'w ast_channel \<Rightarrow> string \<Rightarrow> int \<Rightarrow> 'w ast_channel" where
  "set_ext_pri c exten pri = c\<lparr>ch_exten := copy_string AST_MAX_EXTENSION exten, ch_priority := pri\<rparr>"

definition raise_exception :: "'w run_env \<Rightarrow> 'w ast_channel \<Rightarrow> string \<Rightarrow> int \<Rightarrow> int \<times> 'w ast_channel" where
  "raise_exception env c reason pri =
     (if ch_exception c = None \<and> \<not> exception_ok env then (-1, c)
      else (0, set_ext_pri (c\<lparr>ch_exception := Some \<lparr>x_context = ch_context c, x_exten = ch_exten c, x_reason = reason,
                                                     x_priority = ch_priority c\<rparr>\<rparr>) ''e'' pri))"

definition pbx_builtin_raise_exception :: "'w run_env \<Rightarrow> 'w ast_channel \<Rightarrow> string \<Rightarrow> int \<times> 'w ast_channel" where
  "pbx_builtin_raise_exception env c reason = raise_exception env c reason 0"

section \<open>Collecting digits\<close>

text \<open>The buffer of \<open>buflen\<close> characters holds \<open>buf\<close>; the result is 0 or -1, the buffer and the channel.\<close>

partial_function (option) collect_digits ::
  "'w run_env \<Rightarrow> nat \<Rightarrow> 'w ast_channel \<Rightarrow> int \<Rightarrow> string \<Rightarrow> (int \<times> string \<times> 'w ast_channel) option" where
  "collect_digits env buflen c waittime buf =
     do {
       m \<leftarrow> ast_matchmore_extension env c (ch_context c) (c_string buf) 1 (ch_number c);
       if m = 0 then Some (0, buf, c)
       else case waitfordigit env c waittime of (digit, c1) \<Rightarrow>
         if has_flag c1 AST_SOFTHANGUP_ASYNCGOTO
         then collect_digits env buflen (ast_channel_clear_softhangup c1 AST_SOFTHANGUP_ASYNCGOTO) waittime buf
         else if digit = 0 then Some (0, buf, c1)
         else if digit < 0 then Some (-1, buf, c1)
         else do {
           p \<leftarrow> ch_pbx c1;
           collect_digits env buflen c1 (dtimeoutms p)
             (if length buf < buflen - 1 then buf @ [char_of (nat digit)] else buf)
         }
     }"

section \<open>The loop\<close>

text \<open>One turn of the loop: it goes on with the channel and the error flag, or ends, with \<open>found\<close> and \<open>error\<close>.\<close>

datatype 'w turn = Again "'w ast_channel" bool | Stop "'w ast_channel" bool bool

text \<open>The absolute timeout: to the extension \<open>T\<close>, or as an exception to \<open>e\<close>.\<close>

definition timeout_over :: "'w ast_channel \<Rightarrow> 'w ast_channel" where
  "timeout_over c = ast_channel_clear_softhangup (c\<lparr>whentohangup := Timeval 0 0\<rparr>) AST_SOFTHANGUP_TIMEOUT"

definition absolute_timeout :: "'w run_env \<Rightarrow> 'w ast_channel \<Rightarrow> 'w ast_channel option option" where
  "absolute_timeout env c =
     do {
       t \<leftarrow> exists_at env c ''T'' 1;
       if t then Some (Some (timeout_over (set_ext_pri c ''T'' 1)))
       else do {
         e \<leftarrow> exists_at env c ''e'' 1;
         Some (if e then Some (timeout_over (snd (raise_exception env c ''ABSOLUTETIMEOUT'' 1))) else None)
       }
     }"

text \<open>After an application that returned 0.\<close>

definition after_success :: "'w run_env \<Rightarrow> 'w ast_channel \<Rightarrow> bool \<Rightarrow> bool \<Rightarrow> 'w turn option" where
  "after_success env c found error =
     (case ast_check_hangup (clock env (ch_world c)) c of (h, c1) \<Rightarrow>
        if h = 0 then Some (Again (c1\<lparr>ch_priority := ch_priority c1 + 1\<rparr>) error)
        else if has_flag c1 AST_SOFTHANGUP_ASYNCGOTO
        then Some (Again (ast_channel_clear_softhangup c1 AST_SOFTHANGUP_ASYNCGOTO) error)
        else if has_flag c1 AST_SOFTHANGUP_TIMEOUT
        then do {
          j \<leftarrow> absolute_timeout env c1;
          Some (case j of Some c2 \<Rightarrow> Again c2 error | None \<Rightarrow> Stop c1 found True)
        }
        else Some (Stop c1 found True))"

text \<open>After an application that returned neither 0, a key, nor "incomplete".\<close>

definition after_failure :: "'w run_env \<Rightarrow> 'w ast_channel \<Rightarrow> int \<Rightarrow> bool \<Rightarrow> 'w turn option" where
  "after_failure env c res error =
     do {
       e \<leftarrow> (if res = AST_PBX_ERROR then exists_at env c ''e'' 1 else Some False);
       if e \<and> ch_exten c \<noteq> ''e'' then Some (Again (snd (raise_exception env c ''ERROR'' 1)) error)
       else if has_flag c AST_SOFTHANGUP_ASYNCGOTO
       then Some (Again (ast_channel_clear_softhangup c AST_SOFTHANGUP_ASYNCGOTO) (error \<or> e))
       else do {
         j \<leftarrow> (if has_flag c AST_SOFTHANGUP_TIMEOUT then absolute_timeout env c else Some None);
         Some (case j of Some c2 \<Rightarrow> Again c2 (error \<or> e) | None \<Rightarrow> Stop c True True)
       }
     }"

text \<open>To the extension \<open>i\<close>, or as an exception to \<open>e\<close>; likewise to \<open>t\<close> when no digit came.\<close>

definition invalid_extension :: "'w run_env \<Rightarrow> 'w ast_channel \<Rightarrow> string \<Rightarrow> 'w ast_channel option option" where
  "invalid_extension env c value =
     do {
       i \<leftarrow> exists_at env c ''i'' 1;
       if i then Some (Some (set_ext_pri (snd (pbx_builtin_setvar_helper (func_write env) c ''INVALID_EXTEN'' (Some value))) ''i'' 1))
       else do {
         e \<leftarrow> exists_at env c ''e'' 1;
         Some (if e then Some (snd (raise_exception env c ''INVALID'' 1)) else None)
       }
     }"

definition response_timeout :: "'w run_env \<Rightarrow> 'w ast_channel \<Rightarrow> 'w ast_channel option option" where
  "response_timeout env c =
     do {
       t \<leftarrow> exists_at env c ''t'' 1;
       if t then Some (Some (set_ext_pri c ''t'' 1))
       else do {
         e \<leftarrow> exists_at env c ''e'' 1;
         Some (if e then Some (snd (raise_exception env c ''RESPONSETIMEOUT'' 1)) else None)
       }
     }"

text \<open>The end of the call without digits to wait for.\<close>

definition auto_fallthrough :: "'w run_env \<Rightarrow> 'w ast_channel \<Rightarrow> 'w ast_channel" where
  "auto_fallthrough env c =
     (let status = (case pbx_builtin_getvar_helper (global_vars env (ch_world c)) c ''DIALSTATUS'' of Some s \<Rightarrow> s | None \<Rightarrow> ''UNKNOWN'')
      in if strcase_eq status ''CONGESTION'' \<or> strcase_eq status ''CHANUNAVAIL'' then snd (builtin_congestion env c ''10'')
         else if strcase_eq status ''BUSY'' then snd (builtin_busy env c ''10'')
         else c)"

text \<open>The digits are in: the next extension.\<close>

definition dialled :: "'w run_env \<Rightarrow> 'w ast_channel \<Rightarrow> string \<Rightarrow> bool \<Rightarrow> bool \<Rightarrow> 'w turn option" where
  "dialled env c number timeout error =
     do {
       ok \<leftarrow> (if timeout then Some False else exists_at env c number 1);
       if ok then Some (Again (set_ext_pri c number 1) error)
       else do {
         j \<leftarrow> (if \<not> timeout \<and> number \<noteq> [] then invalid_extension env c number else response_timeout env c);
         Some (case j of Some c2 \<Rightarrow> Again c2 error | None \<Rightarrow> Stop c True error)
       }
     }"

text \<open>
  Nothing more to run at the present position: \<open>dst\<close> holds the digits pressed so far, \<open>digit\<close> tells that
  there was one, \<open>invalid\<close> that the extension is given up.
\<close>

definition next_extension :: "'w run_env \<Rightarrow> 'w ast_channel \<Rightarrow> int \<Rightarrow> bool \<Rightarrow> bool \<Rightarrow> string \<Rightarrow> bool \<Rightarrow> bool \<Rightarrow> 'w turn option" where
  "next_extension env c res found error dst digit invalid =
     do {
       here \<leftarrow> (if invalid then Some False else if c_string dst \<noteq> [] then Some True else exists_at env c (ch_exten c) 1);
       if \<not> here then do {
         j \<leftarrow> invalid_extension env c (ch_exten c);
         Some (case j of Some c2 \<Rightarrow> Again c2 error | None \<Rightarrow> Stop c found True)
       }
       else if has_flag c AST_SOFTHANGUP_TIMEOUT
       then Some (Again (ast_channel_clear_softhangup c AST_SOFTHANGUP_TIMEOUT) error)
       else do {
         p \<leftarrow> ch_pbx c;
         let waittime = (if digit then dtimeoutms p else if \<not> autofallthrough env then rtimeoutms p else 0);
         if waittime = 0 then Some (Stop (auto_fallthrough env c) found True)
         else do {
           (r, buf, c1) \<leftarrow> collect_digits env 256 c waittime dst;
           if r \<noteq> 0 then Some (Stop c1 found error)
           else dialled env c1 (c_string buf) (res = AST_PBX_INCOMPLETE \<and> c_string (drop (length dst) buf) = []) error
         }
       }
     }"

text \<open>\<open>strchr\<close> finds the terminating zero as well, so a result divisible by 256 counts as a key.\<close>

definition is_key :: "int \<Rightarrow> bool" where
  "is_key res \<longleftrightarrow> char_of (nat (res mod 256)) \<in> set (CHR 0x00 # ''0123456789ABCDEF*#'')"

definition pbx_turn :: "'w run_env \<Rightarrow> 'w ast_channel \<Rightarrow> bool \<Rightarrow> 'w turn option" where
  "pbx_turn env c error =
     do {
       (res, found, c1) \<leftarrow> ast_spawn_extension env c (ch_context c) (ch_exten c) (ch_priority c) (ch_number c);
       if res = 0 then after_success env c1 found error
       else if \<not> found then if error then Some (Stop c1 found error) else next_extension env c1 res found error [] False False
       else if is_key res then
         if error then Some (Stop c1 found error)
         else next_extension env c1 res found error [char_of (nat (res mod 256))] True False
       else if res = AST_PBX_INCOMPLETE then do {
         m \<leftarrow> ast_matchmore_extension env c1 (ch_context c1) (ch_exten c1) 1 (ch_number c1);
         if error then Some (Stop c1 found error)
         else if m = 0 then next_extension env c1 res found error [] False True
         else next_extension env c1 res found error (copy_string 256 (ch_exten c1)) True False
       }
       else after_failure env c1 res error
     }"

partial_function (option) pbx_loop :: "'w run_env \<Rightarrow> 'w ast_channel \<Rightarrow> bool \<Rightarrow> ('w ast_channel \<times> bool \<times> bool) option" where
  "pbx_loop env c error =
     do {
       t \<leftarrow> pbx_turn env c error;
       case t of Again c1 error1 \<Rightarrow> pbx_loop env c1 error1 | Stop c1 found error1 \<Rightarrow> Some (c1, found, error1)
     }"

text \<open>The loop over the priorities of the extension \<open>h\<close>.\<close>

partial_function (option) hangup_loop :: "'w run_env \<Rightarrow> 'w ast_channel \<Rightarrow> 'w ast_channel option" where
  "hangup_loop env c =
     do {
       (res, found, c1) \<leftarrow> ast_spawn_extension env c (ch_context c) (ch_exten c) (ch_priority c) (ch_number c);
       if res = 0 then hangup_loop env (c1\<lparr>ch_priority := ch_priority c1 + 1\<rparr>) else Some c1
     }"

text \<open>Where a channel starts: its own position, or \<open>s\<close>, or \<open>s\<close> in the context \<open>default\<close>.\<close>

definition start_position :: "'w run_env \<Rightarrow> 'w ast_channel \<Rightarrow> 'w ast_channel option" where
  "start_position env c =
     do {
       ok \<leftarrow> exists_at env c (ch_exten c) (ch_priority c);
       if ok then Some c
       else do {
         let c1 = set_ext_pri c ''s'' 1;
         ok1 \<leftarrow> exists_at env c1 (ch_exten c1) (ch_priority c1);
         Some (if ok1 then c1 else c1\<lparr>ch_context := ''default''\<rparr>)
       }
     }"

definition finish_call :: "'w run_env \<Rightarrow> bool \<Rightarrow> 'w ast_channel \<Rightarrow> 'w ast_channel option" where
  "finish_call env no_hangup_chan c =
     do {
       let c1 = (if no_hangup_chan then c else snd (ast_softhangup (frames_ok env) c AST_SOFTHANGUP_APPUNLOAD));
       h \<leftarrow> (if \<not> no_hangup_chan \<and> \<not> bridge_hangup_run c1 then exists_at env c1 ''h'' 1 else Some False);
       if h then hangup_loop env (set_ext_pri c1 ''h'' 1) else Some c1
     }"

text \<open>The result, the channel, and whether it is handed to \<open>ast_hangup\<close>.\<close>

definition ast_pbx_run_chan :: "'w run_env \<Rightarrow> bool \<Rightarrow> bool \<Rightarrow> 'w ast_channel \<Rightarrow> (int \<times> 'w ast_channel \<times> bool) option" where
  "ast_pbx_run_chan env alloc_ok no_hangup_chan c =
     (if \<not> alloc_ok then Some (-1, c\<lparr>ch_pbx := None\<rparr>, False)
      else do {
        c1 \<leftarrow> start_position env (c\<lparr>ch_pbx := Some \<lparr>dtimeoutms = 5000, rtimeoutms = 10000\<rparr>, in_autoloop := True\<rparr>);
        (c2, found, error) \<leftarrow> pbx_loop env c1 False;
        c3 \<leftarrow> finish_call env no_hangup_chan c2;
        Some (0, c3\<lparr>in_autoloop := in_autoloop c, bridge_hangup_run := False, ch_pbx := None\<rparr>, \<not> no_hangup_chan)
      })"

section \<open>The count of calls\<close>

record call_counts =
  countcalls :: int
  totalcalls :: int

text \<open>\<open>maxcalls\<close> is 0 for no limit; \<open>overload\<close>: the limit of the load or of free memory is reached.\<close>

definition increase_call_count :: "int \<Rightarrow> bool \<Rightarrow> call_counts \<Rightarrow> int \<times> call_counts" where
  "increase_call_count maxcalls overload k =
     (if maxcalls \<noteq> 0 \<and> countcalls k \<ge> maxcalls \<or> overload then (-1, k)
      else (0, k\<lparr>countcalls := countcalls k + 1, totalcalls := totalcalls k + 1\<rparr>))"

definition decrease_call_count :: "call_counts \<Rightarrow> call_counts" where
  "decrease_call_count k = (if countcalls k > 0 then k\<lparr>countcalls := countcalls k - 1\<rparr> else k)"

datatype ast_pbx_result = AST_PBX_SUCCESS | AST_PBX_FAILED | AST_PBX_CALL_LIMIT

text \<open>
  Starting a thread for a channel, and what that thread does at the end. Between the two every other
  channel may start and end.
\<close>

definition ast_pbx_start :: "bool \<Rightarrow> int \<Rightarrow> bool \<Rightarrow> bool \<Rightarrow> call_counts \<Rightarrow> ast_pbx_result \<times> call_counts" where
  "ast_pbx_start booted maxcalls overload thread_ok k =
     (if \<not> booted then (AST_PBX_FAILED, k)
      else case increase_call_count maxcalls overload k of (failed, k1) \<Rightarrow>
        if failed \<noteq> 0 then (AST_PBX_CALL_LIMIT, k1)
        else if \<not> thread_ok then (AST_PBX_FAILED, decrease_call_count k1)
        else (AST_PBX_SUCCESS, k1))"

definition ast_active_calls :: "call_counts \<Rightarrow> int" where
  "ast_active_calls k = countcalls k"

definition ast_processed_calls :: "call_counts \<Rightarrow> int" where
  "ast_processed_calls k = totalcalls k"

section \<open>Where the loop goes on\<close>

lemma copy_string_short [simp]: "length s < n \<Longrightarrow> copy_string n s = s"
  by (simp add: copy_string_def)

text \<open>
  A position at priority 1 of an extension \<open>x\<close> that was found to exist in the channel's context. The
  channel stores at most 79 characters of it, so it stands at \<open>x\<close> itself if \<open>x\<close> is not longer than that.
\<close>

definition jump_target :: "'w run_env \<Rightarrow> 'w ast_channel \<Rightarrow> bool" where
  "jump_target env c \<longleftrightarrow>
     (\<exists>d x. exists_at env d x 1 = Some True \<and> ch_context d = ch_context c \<and> ch_number d = ch_number c \<and>
        ch_world d = ch_world c \<and> ch_exten c = copy_string AST_MAX_EXTENSION x \<and>
        (length x < AST_MAX_EXTENSION \<longrightarrow> ch_exten c = x) \<and> ch_priority c = 1)"

lemma jump_targetI:
  assumes "exists_at env d x 1 = Some True" "ch_context c = ch_context d" "ch_number c = ch_number d" "ch_world c = ch_world d"
    "ch_exten c = copy_string AST_MAX_EXTENSION x" "ch_priority c = 1"
  shows "jump_target env c"
  unfolding jump_target_def by (rule exI [of _ d], rule exI [of _ x]) (simp add: assms)

lemma set_ext_pri_fields [simp, run_simps]:
  "ch_context (set_ext_pri c x p) = ch_context c" "ch_number (set_ext_pri c x p) = ch_number c"
  "ch_world (set_ext_pri c x p) = ch_world c" "ch_exten (set_ext_pri c x p) = copy_string AST_MAX_EXTENSION x"
  "ch_priority (set_ext_pri c x p) = p"
  by (simp_all add: set_ext_pri_def)

lemma clear_softhangup_fields [simp, run_simps]:
  "ch_context (ast_channel_clear_softhangup c f) = ch_context c" "ch_number (ast_channel_clear_softhangup c f) = ch_number c"
  "ch_world (ast_channel_clear_softhangup c f) = ch_world c" "ch_exten (ast_channel_clear_softhangup c f) = ch_exten c"
  "ch_priority (ast_channel_clear_softhangup c f) = ch_priority c" "ch_pbx (ast_channel_clear_softhangup c f) = ch_pbx c"
  by (simp_all add: ast_channel_clear_softhangup_def Let_def)

lemma timeout_over_fields [simp, run_simps]:
  "ch_context (timeout_over c) = ch_context c" "ch_number (timeout_over c) = ch_number c" "ch_world (timeout_over c) = ch_world c"
  "ch_exten (timeout_over c) = ch_exten c" "ch_priority (timeout_over c) = ch_priority c"
  by (simp_all add: timeout_over_def)

lemma raise_exception_fields [simp, run_simps]:
  "ch_context (snd (raise_exception env c r p)) = ch_context c" "ch_number (snd (raise_exception env c r p)) = ch_number c"
  "ch_world (snd (raise_exception env c r p)) = ch_world c"
  by (simp_all add: raise_exception_def)

lemma raise_exception_position:
  "exception_ok env \<Longrightarrow> ch_exten (snd (raise_exception env c r p)) = copy_string AST_MAX_EXTENSION ''e''"
  "exception_ok env \<Longrightarrow> ch_priority (snd (raise_exception env c r p)) = p"
  by (simp_all add: raise_exception_def)

lemma exception_target:
  assumes "exception_ok env" "exists_at env c ''e'' 1 = Some True"
  shows "jump_target env (snd (raise_exception env c r 1))"
  using assms by (intro jump_targetI [OF assms(2)]) (simp_all add: raise_exception_position)

lemma timeout_target: "jump_target env c \<Longrightarrow> jump_target env (timeout_over c)"
  by (simp add: jump_target_def)

lemma absolute_timeout_target:
  assumes "exception_ok env" "absolute_timeout env c = Some (Some c')"
  shows "jump_target env c'"
proof (cases "exists_at env c ''T'' 1")
  case None
  with assms(2) show ?thesis by (simp add: absolute_timeout_def)
next
  case (Some t)
  show ?thesis
  proof (cases t)
    case True
    with Some have "jump_target env (set_ext_pri c ''T'' 1)" by (intro jump_targetI [of env c "''T''"]) simp_all
    with True Some assms(2) timeout_target show ?thesis by (auto simp: absolute_timeout_def)
  next
    case False
    with Some assms exception_target [OF assms(1), of c] timeout_target show ?thesis
      by (auto simp: absolute_timeout_def bind_eq_Some_conv split: if_splits)
  qed
qed

lemma setvar_fields [run_simps]:
  assumes "last name \<noteq> CHR '')''"
  shows "ch_context (snd (pbx_builtin_setvar_helper fw c name v)) = ch_context c"
    "ch_number (snd (pbx_builtin_setvar_helper fw c name v)) = ch_number c"
    "ch_world (snd (pbx_builtin_setvar_helper fw c name v)) = ch_world c"
  using assms by (simp_all add: pbx_builtin_setvar_helper_def)

lemma invalid_extension_target:
  assumes "exception_ok env" "invalid_extension env c value = Some (Some c')"
  shows "jump_target env c'"
proof -
  have i: "jump_target env (set_ext_pri (snd (pbx_builtin_setvar_helper fw c ''INVALID_EXTEN'' v)) ''i'' 1)"
    if "exists_at env c ''i'' 1 = Some True" for fw v
    using that by (intro jump_targetI [OF that]) (simp_all add: setvar_fields)
  from assms i exception_target [OF assms(1), of c] show ?thesis
    by (auto simp: invalid_extension_def bind_eq_Some_conv split: if_splits)
qed

lemma response_timeout_target:
  assumes "exception_ok env" "response_timeout env c = Some (Some c')"
  shows "jump_target env c'"
proof -
  have "jump_target env (set_ext_pri c ''t'' 1)" if "exists_at env c ''t'' 1 = Some True"
    using that by (intro jump_targetI [OF that]) simp_all
  with assms exception_target [OF assms(1), of c] show ?thesis
    by (auto simp: response_timeout_def bind_eq_Some_conv split: if_splits)
qed

lemmas handler_targets = absolute_timeout_target invalid_extension_target response_timeout_target exception_target

lemma dialled_target:
  assumes "exception_ok env" "dialled env c number timeout error = Some (Again c' error')"
  shows "jump_target env c'"
proof -
  have "jump_target env (set_ext_pri c number 1)" if "exists_at env c number 1 = Some True"
    using that by (intro jump_targetI [OF that]) simp_all
  with assms handler_targets [OF assms(1)] show ?thesis
    by (auto simp: dialled_def bind_eq_Some_conv split: if_splits option.splits)
qed

lemma next_extension_target:
  assumes "exception_ok env" "next_extension env c res found error dst digit invalid = Some (Again c' error')"
  shows "jump_target env c' \<or> has_flag c AST_SOFTHANGUP_TIMEOUT \<and> c' = ast_channel_clear_softhangup c AST_SOFTHANGUP_TIMEOUT"
  using assms dialled_target [OF assms(1)] handler_targets [OF assms(1)]
  by (auto simp: next_extension_def bind_eq_Some_conv Let_def split: if_splits option.splits)

lemma after_failure_target:
  assumes "exception_ok env" "after_failure env c res error = Some (Again c' error')"
  shows "jump_target env c' \<or> has_flag c AST_SOFTHANGUP_ASYNCGOTO \<and> c' = ast_channel_clear_softhangup c AST_SOFTHANGUP_ASYNCGOTO"
  using assms handler_targets [OF assms(1)]
  by (auto simp: after_failure_def bind_eq_Some_conv split: if_splits option.splits)

text \<open>The channel as \<open>ast_check_hangup\<close> leaves it.\<close>

definition checked :: "'w run_env \<Rightarrow> 'w ast_channel \<Rightarrow> 'w ast_channel" where
  "checked env c = snd (ast_check_hangup (clock env (ch_world c)) c)"

definition must_hang_up :: "'w run_env \<Rightarrow> 'w ast_channel \<Rightarrow> bool" where
  "must_hang_up env c \<longleftrightarrow> fst (ast_check_hangup (clock env (ch_world c)) c) \<noteq> 0"

lemma after_success_target:
  assumes "exception_ok env" "after_success env c found error = Some (Again c' error')"
  shows "\<not> must_hang_up env c \<and> c' = c\<lparr>ch_priority := ch_priority c + 1\<rparr> \<or>
    has_flag (checked env c) AST_SOFTHANGUP_ASYNCGOTO \<and> c' = ast_channel_clear_softhangup (checked env c) AST_SOFTHANGUP_ASYNCGOTO \<or>
    jump_target env c'"
proof -
  obtain h c1 where h: "ast_check_hangup (clock env (ch_world c)) c = (h, c1)" by fastforce
  then have "h = 0 \<Longrightarrow> c1 = c" by (auto simp: ast_check_hangup_def split: if_splits)
  with assms h handler_targets [OF assms(1)] show ?thesis
    by (auto simp: after_success_def must_hang_up_def checked_def bind_eq_Some_conv split: if_splits option.splits)
qed

text \<open>
  C13: provided that an exception can be raised (the memory for it is there), there are only four ways
  in which a call goes on. After an application that succeeded the next priority is tried, unless the
  channel is to be hung up; a goto requested from outside is followed; a timeout flag left over from
  before is cleared; and in every other case the call continues at priority 1 of an extension that was
  just found to exist in the context of the call, as far as the channel can store it: an extension of at
  most 79 characters is stored as it is, so the loop jumps to \<open>i\<close>, \<open>t\<close>, \<open>T\<close>, \<open>e\<close> or such a dialled number
  only when it is there. A dialled number of 80 digits or more is looked up in full and stored cut off
  after 79; where the call then goes on need not exist.
\<close>

theorem call_continues_only_where_it_can:
  assumes "exception_ok env" "pbx_turn env c error = Some (Again c' error')"
  shows "\<exists>res found c1. ast_spawn_extension env c (ch_context c) (ch_exten c) (ch_priority c) (ch_number c) = Some (res, found, c1) \<and>
    (res = 0 \<and> \<not> must_hang_up env c1 \<and> c' = c1\<lparr>ch_priority := ch_priority c1 + 1\<rparr> \<or>
     has_flag (checked env c1) AST_SOFTHANGUP_ASYNCGOTO \<and> c' \<in> {ast_channel_clear_softhangup c1 AST_SOFTHANGUP_ASYNCGOTO, ast_channel_clear_softhangup (checked env c1) AST_SOFTHANGUP_ASYNCGOTO} \<or>
     res \<noteq> 0 \<and> has_flag c1 AST_SOFTHANGUP_TIMEOUT \<and> c' = ast_channel_clear_softhangup c1 AST_SOFTHANGUP_TIMEOUT \<or>
     jump_target env c')"
proof -
  from assms(2) obtain res found c1 where
    s: "ast_spawn_extension env c (ch_context c) (ch_exten c) (ch_priority c) (ch_number c) = Some (res, found, c1)"
    by (auto simp: pbx_turn_def bind_eq_Some_conv)
  have flag: "has_flag (checked env c1) AST_SOFTHANGUP_ASYNCGOTO" if "has_flag c1 AST_SOFTHANGUP_ASYNCGOTO"
    using that by (auto simp: checked_def ast_check_hangup_def has_flag_def)
  show ?thesis
  proof (cases "res = 0")
    case True
    with assms(2) s have "after_success env c1 found error = Some (Again c' error')" by (simp add: pbx_turn_def)
    from after_success_target [OF assms(1) this] s True show ?thesis by blast
  next
    case False
    with assms(2) s consider dst digit invalid where "next_extension env c1 res found error dst digit invalid = Some (Again c' error')"
      | "after_failure env c1 res error = Some (Again c' error')"
      by (auto simp: pbx_turn_def bind_eq_Some_conv split: if_splits)
    then show ?thesis
    proof cases
      case (1 dst digit invalid)
      from next_extension_target [OF assms(1) 1] s False show ?thesis by blast
    next
      case 2
      from after_failure_target [OF assms(1) 2] s flag show ?thesis by blast
    qed
  qed
qed

section \<open>Active calls\<close>

text \<open>
  The threads that run channels, in any order: a channel is started or refused, and a channel that is
  running ends. The state is the counters and the set of running channels.
\<close>

inductive call_step :: "int \<Rightarrow> call_counts \<times> nat set \<Rightarrow> call_counts \<times> nat set \<Rightarrow> bool" for maxcalls where
  call_start: "ast_pbx_start booted maxcalls overload thread_ok k = (AST_PBX_SUCCESS, k') \<Longrightarrow> ch \<notin> A \<Longrightarrow>
    call_step maxcalls (k, A) (k', insert ch A)"
| call_refused: "ast_pbx_start booted maxcalls overload thread_ok k = (r, k') \<Longrightarrow> r \<noteq> AST_PBX_SUCCESS \<Longrightarrow>
    call_step maxcalls (k, A) (k', A)"
| call_end: "ch \<in> A \<Longrightarrow> call_step maxcalls (k, A) (decrease_call_count k, A - {ch})"

inductive_cases call_step_cases: "call_step maxcalls s s'"

definition calls_ok :: "int \<Rightarrow> call_counts \<times> nat set \<Rightarrow> bool" where
  "calls_ok maxcalls s \<longleftrightarrow>
     (case s of (k, A) \<Rightarrow> finite A \<and> countcalls k = int (card A) \<and> countcalls k \<le> totalcalls k \<and>
        (maxcalls > 0 \<longrightarrow> countcalls k \<le> maxcalls))"

lemma start_counts:
  "ast_pbx_start booted maxcalls overload thread_ok k = (r, k') \<Longrightarrow> 0 \<le> countcalls k \<Longrightarrow>
    (if r = AST_PBX_SUCCESS
     then countcalls k' = countcalls k + 1 \<and> totalcalls k' = totalcalls k + 1 \<and> \<not> (maxcalls \<noteq> 0 \<and> countcalls k \<ge> maxcalls)
     else countcalls k' = countcalls k \<and> totalcalls k \<le> totalcalls k')"
  by (auto simp: ast_pbx_start_def increase_call_count_def decrease_call_count_def split: if_splits prod.splits)

lemma call_step_ok: "call_step maxcalls s s' \<Longrightarrow> calls_ok maxcalls s \<Longrightarrow> calls_ok maxcalls s'"
proof (induction rule: call_step.induct)
  case (call_start booted overload thread_ok k k' ch A)
  with start_counts [OF call_start(1)] show ?case by (auto simp: calls_ok_def)
next
  case (call_refused booted overload thread_ok k r k' A)
  with start_counts [OF call_refused(1)] show ?case by (auto simp: calls_ok_def)
next
  case (call_end ch A k)
  then have "card A > 0" by (auto simp: calls_ok_def card_gt_0_iff)
  with call_end show ?case by (auto simp: calls_ok_def decrease_call_count_def card_Diff_singleton of_nat_diff)
qed

text \<open>
  C14: however the starts and ends of calls interleave, the counter of active calls is the number of
  channels that are running, never more than the configured maximum, and never more than the number of
  calls processed. A call that was refused or whose thread could not be created leaves no trace in it.
\<close>

theorem call_limit_respected:
  assumes "(call_step maxcalls)\<^sup>*\<^sup>* (\<lparr>countcalls = 0, totalcalls = 0\<rparr>, {}) (k, A)"
  shows "ast_active_calls k = int (card A) \<and> (maxcalls > 0 \<longrightarrow> ast_active_calls k \<le> maxcalls) \<and> ast_active_calls k \<le> ast_processed_calls k"
proof -
  from assms have "calls_ok maxcalls (k, A)"
  proof (induction rule: rtranclp_induct)
    case base
    show ?case by (simp add: calls_ok_def)
  next
    case (step y z)
    then show ?case using call_step_ok by blast
  qed
  then show ?thesis by (auto simp: calls_ok_def ast_active_calls_def ast_processed_calls_def)
qed

theorem call_limit_respected_witness:
  "ast_active_calls \<lparr>countcalls = 1, totalcalls = 1\<rparr> = int (card {7 :: nat}) \<and> ast_active_calls \<lparr>countcalls = 1, totalcalls = 1\<rparr> \<le> 1"
proof -
  have "call_step 1 (\<lparr>countcalls = 0, totalcalls = 0\<rparr>, {}) (\<lparr>countcalls = 1, totalcalls = 1\<rparr>, {7})"
    by (rule call_start [where booted = True and overload = False and thread_ok = True])
       (simp_all add: ast_pbx_start_def increase_call_count_def)
  from call_limit_respected [OF r_into_rtranclp [of "call_step 1", OF this]] show ?thesis by simp
qed

section \<open>A call runs through its extension\<close>

text \<open>The arguments of the search that the loop makes at the position of a channel.\<close>

definition spawn_args :: "'w ast_channel \<Rightarrow> ('w ast_channel) find_args" where
  "spawn_args c = \<lparr>fa_chan = Some c, fa_bypass = None, fa_exten = ch_exten c, fa_priority = ch_priority c, fa_label = None,
     fa_callerid = ch_number c, fa_action = E_SPAWN\<rparr>"

lemma spawn_args_fields [simp]:
  "fa_exten (spawn_args c) = ch_exten c" "fa_callerid (spawn_args c) = ch_number c" "fa_action (spawn_args c) = E_SPAWN"
  "fa_label (spawn_args c) = None" "fa_bypass (spawn_args c) = None" "fa_priority (spawn_args c) = ch_priority c"
  by (simp_all add: spawn_args_def)

text \<open>
  An extension with nothing else around it: \<open>ch\<close> is the only extension of the channel's context that
  matches its number and its caller, and the context has neither switches nor includes.
\<close>

definition only_chain :: "'w run_env \<Rightarrow> 'w ast_channel \<Rightarrow> ast_context \<Rightarrow> exten_chain \<Rightarrow> bool" where
  "only_chain env c con ch \<longleftrightarrow>
     (\<forall>w. find_context (env_dialplan (plan env w)) (ch_context c) = Some con \<and> overrideswitch (plan env w) = []) \<and>
     context_ok con \<and> alts con = [] \<and> con_includes con = [] \<and>
     ch \<in> set (root con) \<and> (\<forall>d \<in> set (root con). chain_matches (spawn_args c) d \<longleftrightarrow> d = ch) \<and>
     args_valid (spawn_args c) \<and> length (ch_context c) < AST_MAX_CONTEXT \<and> length (ch_exten c) < AST_MAX_EXTENSION"

text \<open>Applications that succeed and only act on the world outside the channel.\<close>

definition plain_apps :: "'w run_env \<Rightarrow> (string \<Rightarrow> string \<Rightarrow> 'w \<Rightarrow> 'w) \<Rightarrow> ast_exten list \<Rightarrow> bool" where
  "plain_apps env effect es \<longleftrightarrow>
     (\<forall>e \<in> set es. \<exists>app. pbx_findapp env (e_app e) = Some app \<and>
        (\<forall>c d. app_execute app c d = (0, c\<lparr>ch_world := effect (e_app e) d (ch_world c)\<rparr>)))"

definition run_entry :: "'w run_env \<Rightarrow> (string \<Rightarrow> string \<Rightarrow> 'w \<Rightarrow> 'w) \<Rightarrow> ast_exten \<Rightarrow> 'w ast_channel \<Rightarrow> 'w ast_channel" where
  "run_entry env effect e c =
     c\<lparr>ch_world := effect (e_app e) (app_args env c e) (ch_world c), ch_priority := ch_priority c + 1\<rparr>"



lemma only_chain_offers:
  assumes "only_chain env c con ch" "fa_exten a = ch_exten c" "fa_callerid a = ch_number c" "fa_action a \<in> {E_SPAWN, E_MATCH}"
    and "fa_label a = None" "d \<in> set (root con)"
  shows "offers a d e \<longleftrightarrow> d = ch \<and> e \<in> set (peers ch) \<and> e_priority e = fa_priority a"
proof -
  have "chain_matches a d = chain_matches (spawn_args c) d"
    using assms(2-4) by (auto simp: chain_matches_def cid_match_def spawn_args_def extension_match_core_def extension_match_core_aux_def)
  with assms(1,5,6) show ?thesis by (auto simp: offers_def only_chain_def chain_entry_def by_label_def)
qed

lemma only_chain_first:
  assumes "only_chain env c con ch" "fa_exten a = ch_exten c" "fa_callerid a = ch_number c" "fa_action a \<in> {E_SPAWN, E_MATCH}"
    and "fa_label a = None" "e \<in> set (peers ch)" "e_priority e = fa_priority a"
  shows "first_offer a (root con) e"
proof -
  have "ch \<in> set (root con)" using assms(1) by (simp add: only_chain_def)
  then obtain pre post where r: "root con = pre @ ch # post" "ch \<notin> set pre" by (meson split_list_first)
  with only_chain_offers [OF assms(1-5)] assms(6,7) show ?thesis
    unfolding first_offer_def by (intro exI [of _ pre] exI [of _ ch] exI [of _ post]) auto
qed

lemma only_chain_search:
  assumes "only_chain env c con ch" "fa_exten a = ch_exten c" "fa_callerid a = ch_number c" "fa_action a \<in> {E_SPAWN, E_MATCH}"
    and "fa_label a = None" "fa_bypass a = None"
  shows "e \<in> set (peers ch) \<Longrightarrow> e_priority e = fa_priority a \<Longrightarrow>
      \<exists>q. find_extension (plan env w) a (ch_context c) = Some (Some e, q)"
    "\<forall>e \<in> set (peers ch). e_priority e \<noteq> fa_priority a \<Longrightarrow>
      \<exists>q. find_extension (plan env w) a (ch_context c) = Some (None, q) \<and> swo q = None"
proof -
  have c: "context_to_search (plan env w) a (ch_context c) = Some con" "overrideswitch (plan env w) = []" "context_ok con"
    "args_valid a" "alts con = []" "con_includes con = []"
    using assms by (auto simp: only_chain_def context_to_search_def args_valid_def spawn_args_def)
  have a: "\<not> by_label a" "fa_action a \<noteq> E_MATCHMORE" using assms(4,5) by (auto simp: by_label_def)
  show "\<exists>q. find_extension (plan env w) a (ch_context c) = Some (Some e, q)" if "e \<in> set (peers ch)" "e_priority e = fa_priority a"
    using own_extension_found [OF c(1,3,4,2) a only_chain_first [OF assms(1-5) that]] .
  show "\<exists>q. find_extension (plan env w) a (ch_context c) = Some (None, q) \<and> swo q = None"
    if "\<forall>e \<in> set (peers ch). e_priority e \<noteq> fa_priority a"
    using own_extension_missing [OF c(1,3,4,2) a(2) _ c(5,6)] only_chain_offers [OF assms(1-5)] that by blast
qed

text \<open>One application of the extension.\<close>

lemma spawn_entry:
  assumes "only_chain env c con ch" "plain_apps env effect [e]" "e \<in> set (peers ch)" "ch_priority c = e_priority e"
  shows "ast_spawn_extension env c (ch_context c) (ch_exten c) (ch_priority c) (ch_number c) =
    Some (0, True, c\<lparr>ch_world := effect (e_app e) (app_args env c e) (ch_world c)\<rparr>)"
proof -
  obtain q where f: "find_extension (plan env (ch_world c)) (spawn_args c) (ch_context c) = Some (Some e, q)"
    using only_chain_search(1) [OF assms(1), of "spawn_args c" e "ch_world c"] assms(3,4) by fastforce
  obtain app where app: "pbx_findapp env (e_app e) = Some app"
    "app_execute app c d = (0, c\<lparr>ch_world := effect (e_app e) d (ch_world c)\<rparr>)" for c d
    using assms(2) by (auto simp: plain_apps_def)
  have len: "length (ch_context c) < AST_MAX_CONTEXT" "length (ch_exten c) < AST_MAX_EXTENSION"
    using assms(1) by (simp_all add: only_chain_def)
  show ?thesis
    using f app len by (simp add: ast_spawn_extension_def pbx_extension_helper_def spawn_args_def [symmetric] matching_action_def pbx_exec_def)
qed

lemma turn_entry:
  assumes "only_chain env c con ch" "plain_apps env effect [e]" "e \<in> set (peers ch)" "ch_priority c = e_priority e"
    and "softhangup c = 0" "ast_tvzero (whentohangup c)"
  shows "pbx_turn env c error = Some (Again (run_entry env effect e c) error)"
  using spawn_entry [OF assms(1-4)] assms(5,6)
  by (simp add: pbx_turn_def after_success_def ast_check_hangup_def run_entry_def)





section \<open>Examples\<close>

definition demo_plan :: "'c find_env" where
  "demo_plan = \<lparr>env_dialplan = [(demo_context ''in'')\<lparr>root := [first_chain demo_exten]\<rparr>], env_switches = [], overrideswitch = [],
     substitute = (\<lambda>_ s. s), buffer_ok = True, local_time = (\<lambda>_. noon_tuesday)\<rparr>"

definition demo_run :: "nat run_env" where
  "demo_run = \<lparr>plan = (\<lambda>_. demo_plan), applications = [\<lparr>app_name = ''Dial'', app_execute = (\<lambda>c d. (0, c\<lparr>ch_world := ch_world c + 1\<rparr>))\<rparr>],
     app_args = (\<lambda>_ _. []), func_write = (\<lambda>c _ _. (0, c)), waitfordigit = (\<lambda>c _. (0, c)), clock = (\<lambda>_. Timeval 0 0),
     global_vars = (\<lambda>_. []), builtin_congestion = (\<lambda>c _. (-1, c)), builtin_busy = (\<lambda>c _. (-1, c)), exception_ok = True,
     frames_ok = True, autofallthrough = True\<rparr>"

definition running_channel :: "nat ast_channel" where
  "running_channel = demo_channel\<lparr>ch_pbx := Some \<lparr>dtimeoutms = 5000, rtimeoutms = 10000\<rparr>\<rparr>"

lemma running_fields [simp]:
  "ch_context running_channel = ''in''" "ch_exten running_channel = ''123''" "ch_priority running_channel = 1"
  "ch_number running_channel = None" "softhangup running_channel = 0" "whentohangup running_channel = Timeval 0 0"
  "ch_pbx running_channel = Some \<lparr>dtimeoutms = 5000, rtimeoutms = 10000\<rparr>"
  by (simp_all add: running_channel_def demo_channel_def)

lemma demo_exten_valid: "exten_valid demo_exten"
  by (simp add: exten_valid_def demo_exten_def ext_valid_def no_nul_def no_ff_def)

lemma demo_only_chain:
  "only_chain demo_run running_channel ((demo_context ''in'')\<lparr>root := [first_chain demo_exten]\<rparr>) (first_chain demo_exten)"
proof -
  have "extension_match_core ''_1XX'' ''123'' E_SPAWN = Some 1" by code_simp
  then have "chain_matches (spawn_args running_channel) (first_chain demo_exten)"
    by (simp add: chain_matches_def first_chain_def demo_exten_def cid_match_def)
  with first_chain_ok [OF demo_exten_valid] show ?thesis
    by (simp add: only_chain_def demo_run_def demo_plan_def find_context_def demo_context_def context_ok_def args_valid_def
        ext_valid_def no_nul_def no_ff_def s_or_def AST_MAX_EXTENSION_def AST_MAX_CONTEXT_def)
qed

lemma demo_plain_apps: "plain_apps demo_run (\<lambda>_ _ w. w + 1) (peers (first_chain demo_exten))"
  by (simp add: plain_apps_def first_chain_def demo_run_def pbx_findapp_def demo_exten_def)









theorem call_continues_only_where_it_can_witness:
  "\<exists>c' res found c1. pbx_turn demo_run running_channel False = Some (Again c' False) \<and>
    ast_spawn_extension demo_run running_channel ''in'' ''123'' 1 None = Some (res, found, c1)"
proof -
  have e: "plain_apps demo_run (\<lambda>_ _ w. w + 1) [demo_exten]" "demo_exten \<in> set (peers (first_chain demo_exten))"
    "ch_priority running_channel = e_priority demo_exten"
    using demo_plain_apps by (simp_all add: plain_apps_def first_chain_def demo_exten_def)
  have "ast_tvzero (whentohangup running_channel)" by (simp add: ast_tvzero_def)
  from turn_entry [OF demo_only_chain e _ this] obtain c' where t: "pbx_turn demo_run running_channel False = Some (Again c' False)" by auto
  have "exception_ok demo_run" by (simp add: demo_run_def)
  from call_continues_only_where_it_can [OF this t] t show ?thesis by auto
qed

end
