(* ===== verification/Ast_Translate.thy ===== *)
theory Ast_Translate
  imports Ast_Prelude "HOL-Library.Monad_Syntax"
begin

text \<open>
  Translation between media formats, \<open>main/translate.c\<close>: the registered translators, the matrix that
  holds for every pair of formats the first step and the quality of the best path, the construction of a
  path from it and the choice of formats for two channels. Measuring the cost of a translator and the
  translation of frames run code of modules and are parameters. Formats are 64-bit masks with one bit per
  format, as in the code; the matrix is indexed by bit numbers. Qualities are sums of at most a few dozen
  numbers below a million and costs are microseconds of processor time, both natural numbers here; that
  a sum of costs wraps at 32 bits is not modelled, and no theorem below depends on costs.
\<close>

section \<open>Formats\<close>

unbundle bit_operations_syntax

type_synonym format_t = "64 word"

definition MAX_FORMAT :: nat where "MAX_FORMAT = 64"
definition MAX_AUDIO_FORMAT :: nat where "MAX_AUDIO_FORMAT = 47"

text \<open>\<open>1LL << x\<close>.\<close>

definition format_bit :: "nat \<Rightarrow> format_t" where
  "format_bit x = push_bit x 1"

definition AST_FORMAT_SLINEAR :: format_t where "AST_FORMAT_SLINEAR = format_bit 6"
definition AST_FORMAT_SLINEAR16 :: format_t where "AST_FORMAT_SLINEAR16 = format_bit 15"
definition AST_FORMAT_AUDIO_MASK :: format_t where "AST_FORMAT_AUDIO_MASK = 0xFFFF0000FFFF"
definition AST_FORMAT_VIDEO_MASK :: format_t where
  "AST_FORMAT_VIDEO_MASK = (0x1FFFFFF AND NOT AST_FORMAT_AUDIO_MASK) OR 0x7FFF000000000000"

text \<open>The cases are G722, SLINEAR16, SIREN7 and SPEEX16; SIREN14; G719.\<close>

definition ast_format_rate :: "format_t \<Rightarrow> int" where
  "ast_format_rate format =
     (if format \<in> {format_bit 12, AST_FORMAT_SLINEAR16, format_bit 13, format_bit 33} then 16000
      else if format = format_bit 14 then 32000
      else if format = format_bit 32 then 48000
      else 8000)"

text \<open>The index of the lowest bit that is set.\<close>

definition powerof :: "format_t \<Rightarrow> nat option" where
  "powerof d = find (\<lambda>x. bit d x) [0..<64]"

text \<open>The classes of sample rate change, best first.\<close>

definition get_rate_change_result :: "format_t \<Rightarrow> format_t \<Rightarrow> nat" where
  "get_rate_change_result src dst =
     (let src_ll = (src = AST_FORMAT_SLINEAR \<or> src = AST_FORMAT_SLINEAR16);
          dst_ll = (dst = AST_FORMAT_SLINEAR \<or> src = AST_FORMAT_SLINEAR16);
          src_rate = ast_format_rate src;
          dst_rate = ast_format_rate dst
      in if src_ll then
           if dst_ll \<and> src_rate = dst_rate then 400000
           else if \<not> dst_ll \<and> src_rate = dst_rate then 600000
           else if dst_ll \<and> src_rate < dst_rate then 800000
           else if \<not> dst_ll \<and> src_rate < dst_rate then 825000
           else if dst_ll \<and> src_rate > dst_rate then 850000
           else if \<not> dst_ll \<and> src_rate > dst_rate then 875000
           else 885000
         else
           if dst_ll \<and> src_rate = dst_rate then 900000
           else if \<not> dst_ll \<and> src_rate = dst_rate then 915000
           else if dst_ll \<and> src_rate < dst_rate then 930000
           else if \<not> dst_ll \<and> src_rate < dst_rate then 945000
           else if dst_ll \<and> src_rate > dst_rate then 960000
           else if \<not> dst_ll \<and> src_rate > dst_rate then 975000
           else 985000)"

section \<open>The matrix\<close>

text \<open>A translator: its address, the indices of its formats, its cost and whether it is in use.\<close>

record ast_translator =
  t_addr :: nat
  srcfmt :: nat
  dstfmt :: nat
  t_cost :: nat
  t_active :: bool

record translator_path =
  tp_step :: "ast_translator option"
  tp_cost :: nat
  multistep :: nat
  rate_change :: nat

type_synonym tr_matrix = "nat \<Rightarrow> nat \<Rightarrow> translator_path"

definition empty_matrix :: tr_matrix where
  "empty_matrix x z = \<lparr>tp_step = None, tp_cost = 0, multistep = 0, rate_change = 0\<rparr>"

definition set_path :: "nat \<Rightarrow> nat \<Rightarrow> translator_path \<Rightarrow> tr_matrix \<Rightarrow> tr_matrix" where
  "set_path x z p m = m(x := (m x)(z := p))"

definition step_weight :: "ast_translator \<Rightarrow> nat" where
  "step_weight t = get_rate_change_result (format_bit (srcfmt t)) (format_bit (dstfmt t))"

text \<open>A translator as a direct path, if it is better than the one in the matrix.\<close>

definition direct_path :: "ast_translator \<Rightarrow> tr_matrix \<Rightarrow> tr_matrix" where
  "direct_path t m =
     (let x = srcfmt t; z = dstfmt t; new_rate_change = step_weight t; p = m x z
      in if tp_step p = None \<or> t_cost t < tp_cost p \<and> new_rate_change \<le> rate_change p \<or> new_rate_change < rate_change p
         then set_path x z (p\<lparr>tp_step := Some t, tp_cost := t_cost t, rate_change := new_rate_change\<rparr>) m
         else m)"

text \<open>One triple of the inner loops: a path from \<open>x\<close> to \<open>z\<close> through \<open>y\<close>. The number counts the changes.\<close>

definition relax :: "nat \<times> nat \<times> nat \<Rightarrow> tr_matrix \<times> nat \<Rightarrow> tr_matrix \<times> nat" where
  "relax = (\<lambda>(x, y, z) (m, changed).
     if x = y \<or> z = x \<or> z = y then (m, changed)
     else if tp_step (m x y) = None \<or> tp_step (m y z) = None then (m, changed)
     else if tp_step (m x z) \<noteq> None \<and>
             (rate_change (m x z) < rate_change (m x y) \<or> rate_change (m x z) < rate_change (m y z)) then (m, changed)
     else let new_rate_change = rate_change (m x y) + rate_change (m y z);
              newcost = tp_cost (m x y) + tp_cost (m y z);
              better_choice = (tp_step (m x z) = None \<or> new_rate_change < rate_change (m x z))
          in if \<not> better_choice then (m, changed)
             else (set_path x z \<lparr>tp_step = tp_step (m x y), tp_cost = newcost, multistep = 1, rate_change = new_rate_change\<rparr> m,
                   changed + 1))"

definition format_triples :: "nat \<Rightarrow> (nat \<times> nat \<times> nat) list" where
  "format_triples n = [(x, y, z). x \<leftarrow> [0..<n], y \<leftarrow> [0..<n], z \<leftarrow> [0..<n]]"

definition relax_all :: "nat \<Rightarrow> tr_matrix \<Rightarrow> tr_matrix \<times> nat" where
  "relax_all n m = fold relax (format_triples n) (m, 0)"

partial_function (option) relax_loop :: "nat \<Rightarrow> tr_matrix \<Rightarrow> tr_matrix option" where
  "relax_loop n m = (case relax_all n m of (m', changed) \<Rightarrow> if changed = 0 then Some m' else relax_loop n m')"

text \<open>
  The costs are measured again when \<open>samples\<close> is not 0; \<open>calc_cost\<close> is the measurement. Only active
  translators are measured and used.
\<close>

definition measure_costs :: "(ast_translator \<Rightarrow> nat \<Rightarrow> nat) \<Rightarrow> nat \<Rightarrow> ast_translator list \<Rightarrow> ast_translator list" where
  "measure_costs calc_cost samples ts =
     map (\<lambda>t. if t_active t \<and> samples \<noteq> 0 then t\<lparr>t_cost := calc_cost t samples\<rparr> else t) ts"

definition rebuild_matrix :: "nat \<Rightarrow> ast_translator list \<Rightarrow> tr_matrix option" where
  "rebuild_matrix n ts = relax_loop n (fold direct_path (filter t_active ts) empty_matrix)"

section \<open>The translators\<close>

record trans_state =
  translators :: "ast_translator list"
  matrix :: tr_matrix

definition rebuild :: "trans_state \<Rightarrow> trans_state option" where
  "rebuild s = map_option (\<lambda>m. s\<lparr>matrix := m\<rparr>) (rebuild_matrix MAX_FORMAT (translators s))"

text \<open>Recalculation of all costs, as the command line interface asks for it.\<close>

definition recalculate :: "(ast_translator \<Rightarrow> nat \<Rightarrow> nat) \<Rightarrow> nat \<Rightarrow> trans_state \<Rightarrow> trans_state option" where
  "recalculate calc_cost samples s = rebuild (s\<lparr>translators := measure_costs calc_cost samples (translators s)\<rparr>)"

fun insert_translator :: "ast_translator \<Rightarrow> ast_translator list \<Rightarrow> ast_translator list option" where
  "insert_translator t [] = None"
| "insert_translator t (u # us) =
     (if srcfmt u = srcfmt t \<and> dstfmt u = dstfmt t \<and> t_cost u > t_cost t then Some (t # u # us)
      else map_option ((#) u) (insert_translator t us))"

text \<open>\<open>src\<close> and \<open>dst\<close> are the masks given by the module, \<open>buf_size\<close> its buffer size, \<open>cost\<close> the measured cost.\<close>

definition ast_register_translator ::
  "nat \<Rightarrow> format_t \<Rightarrow> format_t \<Rightarrow> nat \<Rightarrow> nat \<Rightarrow> bool \<Rightarrow> trans_state \<Rightarrow> (int \<times> trans_state) option" where
  "ast_register_translator addr src dst buf_size cost has_module s =
     (if \<not> has_module then Some (-1, s)
      else if buf_size = 0 then Some (-1, s)
      else case (powerof src, powerof dst) of
          (Some x, Some z) \<Rightarrow>
            if x \<ge> MAX_FORMAT \<or> z \<ge> MAX_FORMAT then Some (-1, s)
            else let t = \<lparr>t_addr = addr, srcfmt = x, dstfmt = z, t_cost = cost, t_active = True\<rparr>;
                     ts = (case insert_translator t (translators s) of Some ts \<Rightarrow> ts | None \<Rightarrow> t # translators s)
                 in map_option (\<lambda>s'. (0, s')) (rebuild (s\<lparr>translators := ts\<rparr>))
        | _ \<Rightarrow> Some (-1, s))"

fun remove_translator :: "nat \<Rightarrow> ast_translator list \<Rightarrow> ast_translator list option" where
  "remove_translator addr [] = None"
| "remove_translator addr (u # us) = (if t_addr u = addr then Some us else map_option ((#) u) (remove_translator addr us))"

definition ast_unregister_translator :: "nat \<Rightarrow> trans_state \<Rightarrow> (int \<times> trans_state) option" where
  "ast_unregister_translator addr s =
     (case remove_translator addr (translators s) of
        None \<Rightarrow> Some (-1, s)
      | Some ts \<Rightarrow> map_option (\<lambda>s'. (0, s')) (rebuild (s\<lparr>translators := ts\<rparr>)))"

definition set_active :: "nat \<Rightarrow> bool \<Rightarrow> ast_translator list \<Rightarrow> ast_translator list" where
  "set_active addr b ts = map (\<lambda>t. if t_addr t = addr then t\<lparr>t_active := b\<rparr> else t) ts"

definition ast_translator_activate :: "nat \<Rightarrow> trans_state \<Rightarrow> trans_state option" where
  "ast_translator_activate addr s = rebuild (s\<lparr>translators := set_active addr True (translators s)\<rparr>)"

definition ast_translator_deactivate :: "nat \<Rightarrow> trans_state \<Rightarrow> trans_state option" where
  "ast_translator_deactivate addr s = rebuild (s\<lparr>translators := set_active addr False (translators s)\<rparr>)"

section \<open>Paths\<close>

text \<open>
  The chain of translators from one format to another; \<open>newpvt\<close> tells whether a translator can be set
  up. The inner result is the chain or \<open>NULL\<close>; no outer result is a loop that never ends.
\<close>

partial_function (option) build_steps :: "(ast_translator \<Rightarrow> bool) \<Rightarrow> tr_matrix \<Rightarrow> nat \<Rightarrow> nat \<Rightarrow> ast_translator list option option" where
  "build_steps newpvt m source dest =
     (if source = dest then Some (Some [])
      else case tp_step (m source dest) of
          None \<Rightarrow> Some None
        | Some t \<Rightarrow>
            if \<not> newpvt t then Some None
            else do { p \<leftarrow> build_steps newpvt m (dstfmt t) dest; Some (map_option ((#) t) p) })"

definition ast_translator_build_path :: "(ast_translator \<Rightarrow> bool) \<Rightarrow> trans_state \<Rightarrow> format_t \<Rightarrow> format_t \<Rightarrow> ast_translator list option option" where
  "ast_translator_build_path newpvt s dest source =
     (case (powerof source, powerof dest) of
        (Some x, Some z) \<Rightarrow> build_steps newpvt (matrix s) x z
      | _ \<Rightarrow> Some None)"

text \<open>-1, the largest unsigned number, when there is no path.\<close>

definition ast_translate_path_steps :: "trans_state \<Rightarrow> format_t \<Rightarrow> format_t \<Rightarrow> 32 word" where
  "ast_translate_path_steps s dest src =
     (case (powerof src, powerof dest) of
        (Some x, Some z) \<Rightarrow> if tp_step (matrix s x z) \<noteq> None then of_nat (multistep (matrix s x z)) + 1 else -1
      | _ \<Rightarrow> -1)"

section \<open>The choice of formats\<close>

text \<open>The best common format: the lowest among those with the highest sample rate.\<close>

definition best_common :: "format_t \<Rightarrow> nat option" where
  "best_common common =
     fold (\<lambda>y best. if \<not> bit common y then best
                    else case best of
                        None \<Rightarrow> Some y
                      | Some b \<Rightarrow> if ast_format_rate (format_bit b) < ast_format_rate (format_bit y) then Some y else Some b)
       [0..<Suc MAX_AUDIO_FORMAT] None"

record best_pick =
  bp_src :: nat
  bp_dst :: nat
  besttime :: nat
  beststeps :: nat
  best_rate_change :: nat

definition consider_pair :: "tr_matrix \<Rightarrow> nat \<times> nat \<Rightarrow> best_pick option \<Rightarrow> best_pick option" where
  "consider_pair m = (\<lambda>(y, x) best.
     let p = m x y;
         better = (case best of
             None \<Rightarrow> rate_change p < 2147483647 \<or> rate_change p \<le> 2147483647 \<and> (tp_cost p < 2147483647 \<or> multistep p < 2147483647)
           | Some b \<Rightarrow> rate_change p < best_rate_change b \<or>
               rate_change p \<le> best_rate_change b \<and> (tp_cost p < besttime b \<or> multistep p < beststeps b))
     in if better
        then Some \<lparr>bp_src = x, bp_dst = y, besttime = tp_cost p, beststeps = multistep p, best_rate_change = rate_change p\<rparr>
        else best)"

text \<open>The pairs of a destination and a source format that a path connects, in the order of the loops.\<close>

definition format_pairs :: "tr_matrix \<Rightarrow> format_t \<Rightarrow> format_t \<Rightarrow> (nat \<times> nat) list" where
  "format_pairs m dst srcs =
     [(y, x). y \<leftarrow> [0..<Suc MAX_AUDIO_FORMAT], bit dst y, x \<leftarrow> [0..<Suc MAX_AUDIO_FORMAT], bit srcs x \<and> tp_step (m x y) \<noteq> None]"

text \<open>The result with the new values of \<open>*dst\<close> and \<open>*srcs\<close>.\<close>

definition ast_translator_best_choice :: "trans_state \<Rightarrow> format_t \<Rightarrow> format_t \<Rightarrow> int \<times> format_t \<times> format_t" where
  "ast_translator_best_choice s dst srcs =
     (let common = dst AND srcs AND AST_FORMAT_AUDIO_MASK in
      if srcs AND AST_FORMAT_AUDIO_MASK = AST_FORMAT_AUDIO_MASK \<and> bit dst 2 then (0, format_bit 2, format_bit 2)
      else if common \<noteq> 0
      then (case best_common common of Some b \<Rightarrow> (0, format_bit b, format_bit b) | None \<Rightarrow> (0, -1, -1))
      else case fold (consider_pair (matrix s)) (format_pairs (matrix s) dst srcs) None of
          None \<Rightarrow> (-1, dst, srcs)
        | Some b \<Rightarrow> (0, format_bit (bp_dst b), format_bit (bp_src b)))"

text \<open>
  The formats of \<open>dest\<close> that can be translated from and to the lowest format of \<open>src\<close>, or that \<open>src\<close>
  has itself. A source format with index 0 is taken for none.
\<close>

definition drop_untranslatable :: "tr_matrix \<Rightarrow> format_t \<Rightarrow> format_t \<Rightarrow> nat \<Rightarrow> format_t \<Rightarrow> format_t \<Rightarrow> format_t" where
  "drop_untranslatable m msk dest source src res =
     (if source = 0 then res
      else fold (\<lambda>x r. if \<not> bit msk x \<or> \<not> bit dest x \<or> bit src x then r
                       else if tp_step (m source x) = None \<or> tp_step (m x source) = None then r AND NOT (format_bit x) else r)
             [0..<63] res)"

definition ast_translate_available_formats :: "trans_state \<Rightarrow> format_t \<Rightarrow> format_t \<Rightarrow> format_t" where
  "ast_translate_available_formats s dest src =
     (if src = 0 then dest
      else let src_audio = (case powerof (src AND AST_FORMAT_AUDIO_MASK) of Some x \<Rightarrow> x | None \<Rightarrow> 0);
               src_video = (case powerof (src AND AST_FORMAT_VIDEO_MASK) of Some x \<Rightarrow> x | None \<Rightarrow> 0)
           in drop_untranslatable (matrix s) AST_FORMAT_VIDEO_MASK dest src_video src
                (drop_untranslatable (matrix s) AST_FORMAT_AUDIO_MASK dest src_audio src dest))"

section \<open>Paths of translators\<close>

fun tr_path :: "ast_translator set \<Rightarrow> nat \<Rightarrow> ast_translator list \<Rightarrow> nat \<Rightarrow> bool" where
  "tr_path E x [] z \<longleftrightarrow> x = z"
| "tr_path E x (t # ts) z \<longleftrightarrow> t \<in> E \<and> srcfmt t = x \<and> tr_path E (dstfmt t) ts z"

definition path_weight :: "ast_translator list \<Rightarrow> nat" where
  "path_weight p = sum_list (map step_weight p)"

lemma path_weight_simps [simp]:
  "path_weight [] = 0" "path_weight (t # p) = step_weight t + path_weight p" "path_weight (p @ q) = path_weight p + path_weight q"
  by (simp_all add: path_weight_def)

lemma tr_path_append: "tr_path E x (p @ q) z \<longleftrightarrow> (\<exists>y. tr_path E x p y \<and> tr_path E y q z)"
  by (induction p arbitrary: x) auto

lemma step_weight_pos: "0 < step_weight t"
  unfolding step_weight_def get_rate_change_result_def Let_def
  by (simp only: if_distrib [of "(<) 0"] zero_less_numeral if_cancel)

text \<open>
  What the matrix promises while it is built: every entry is the weight of some path that begins with its
  step, and every translator is covered by an entry that is at least as good.
\<close>

definition sound :: "ast_translator set \<Rightarrow> tr_matrix \<Rightarrow> bool" where
  "sound E m \<longleftrightarrow> (\<forall>x z t. tp_step (m x z) = Some t \<longrightarrow> (\<exists>p. tr_path E x (t # p) z \<and> path_weight (t # p) = rate_change (m x z)))"

definition covers :: "ast_translator set \<Rightarrow> tr_matrix \<Rightarrow> bool" where
  "covers E m \<longleftrightarrow> (\<forall>t \<in> E. tp_step (m (srcfmt t) (dstfmt t)) \<noteq> None \<and> rate_change (m (srcfmt t) (dstfmt t)) \<le> step_weight t)"

text \<open>The stable matrices: no detour through a third format is better.\<close>

definition stable :: "nat \<Rightarrow> tr_matrix \<Rightarrow> bool" where
  "stable n m \<longleftrightarrow>
     (\<forall>x < n. \<forall>y < n. \<forall>z < n. x \<noteq> y \<longrightarrow> z \<noteq> x \<longrightarrow> z \<noteq> y \<longrightarrow> tp_step (m x y) \<noteq> None \<longrightarrow> tp_step (m y z) \<noteq> None \<longrightarrow>
        tp_step (m x z) \<noteq> None \<and> rate_change (m x z) \<le> rate_change (m x y) + rate_change (m y z))"

text \<open>In a sound and stable matrix that covers the translators every entry is the weight of a lightest path.\<close>

lemma stable_lightest:
  assumes "stable n m" "covers E m" "\<forall>t \<in> E. srcfmt t < n \<and> dstfmt t < n"
  shows "tr_path E x p z \<Longrightarrow> x \<noteq> z \<Longrightarrow> x < n \<Longrightarrow> tp_step (m x z) \<noteq> None \<and> rate_change (m x z) \<le> path_weight p"
proof (induction p arbitrary: x)
  case (Cons t p)
  let ?y = "dstfmt t"
  have t: "t \<in> E" "srcfmt t = x" "tr_path E ?y p z" using Cons.prems by auto
  then have d: "tp_step (m x ?y) \<noteq> None" "rate_change (m x ?y) \<le> step_weight t" "?y < n"
    using assms(2,3) by (auto simp: covers_def)
  have "z < n"
  proof (cases p rule: rev_cases)
    case Nil
    with t d show ?thesis by simp
  next
    case (snoc q u)
    with t(3) assms(3) show ?thesis by (auto simp: tr_path_append)
  qed
  consider "?y = z" | "?y = x" | "?y \<noteq> z" "?y \<noteq> x" by blast
  then show ?case
  proof cases
    case 1
    with d show ?thesis by simp
  next
    case 2
    with Cons.IH [of x] t Cons.prems show ?thesis by fastforce
  next
    case 3
    from Cons.IH [OF t(3) 3(1) d(3)] have "tp_step (m ?y z) \<noteq> None" "rate_change (m ?y z) \<le> path_weight p" by auto
    moreover have "tp_step (m x z) \<noteq> None \<and> rate_change (m x z) \<le> rate_change (m x ?y) + rate_change (m ?y z)"
      using assms(1) Cons.prems(2,3) d(1,3) \<open>z < n\<close> 3 calculation(1) unfolding stable_def by blast
    ultimately show ?thesis using d(2) by simp
  qed
qed simp

section \<open>Building the matrix\<close>

lemma set_path_at [simp]: "set_path x z p m a b = (if a = x \<and> b = z then p else m a b)"
  by (simp add: set_path_def)

lemma direct_path_sound: "sound E m \<Longrightarrow> t \<in> E \<Longrightarrow> sound E (direct_path t m)"
  unfolding sound_def direct_path_def Let_def
  by (auto simp: intro: exI [of _ "[]"])

lemma direct_path_keeps:
  "tp_step (m x z) \<noteq> None \<Longrightarrow> tp_step (direct_path t m x z) \<noteq> None \<and> rate_change (direct_path t m x z) \<le> rate_change (m x z)"
  by (auto simp: direct_path_def Let_def)

lemma direct_path_covers:
  "tp_step (direct_path t m (srcfmt t) (dstfmt t)) \<noteq> None \<and> rate_change (direct_path t m (srcfmt t) (dstfmt t)) \<le> step_weight t"
  by (auto simp: direct_path_def Let_def)

lemma direct_paths:
  assumes "set ts \<subseteq> E" "sound E m"
  shows "sound E (fold direct_path ts m) \<and>
    (\<forall>x z. tp_step (m x z) \<noteq> None \<longrightarrow> tp_step (fold direct_path ts m x z) \<noteq> None \<and> rate_change (fold direct_path ts m x z) \<le> rate_change (m x z)) \<and>
    covers (set ts) (fold direct_path ts m)"
  using assms
proof (induction ts arbitrary: m)
  case (Cons t ts)
  let ?m = "direct_path t m"
  from Cons have ih: "sound E (fold direct_path ts ?m)"
    "\<And>x z. tp_step (?m x z) \<noteq> None \<Longrightarrow> tp_step (fold direct_path ts ?m x z) \<noteq> None \<and> rate_change (fold direct_path ts ?m x z) \<le> rate_change (?m x z)"
    "covers (set ts) (fold direct_path ts ?m)"
    using direct_path_sound [of E m t] by auto
  have "covers (set (t # ts)) (fold direct_path (t # ts) m)"
    unfolding covers_def
  proof
    fix u assume "u \<in> set (t # ts)"
    then show "tp_step (fold direct_path (t # ts) m (srcfmt u) (dstfmt u)) \<noteq> None \<and>
      rate_change (fold direct_path (t # ts) m (srcfmt u) (dstfmt u)) \<le> step_weight u"
      using ih(3) ih(2) [of "srcfmt t" "dstfmt t"] direct_path_covers [of t m] by (auto simp: covers_def)
  qed
  moreover have "tp_step (fold direct_path (t # ts) m x z) \<noteq> None \<and> rate_change (fold direct_path (t # ts) m x z) \<le> rate_change (m x z)"
    if "tp_step (m x z) \<noteq> None" for x z
    using ih(2) [of x z] direct_path_keeps [of m x z t] that by auto
  ultimately show ?case using ih(1) by simp
qed (simp add: covers_def)

section \<open>Relaxation\<close>

text \<open>A triple is open when a path through its middle format improves the matrix.\<close>

definition open_triple :: "tr_matrix \<Rightarrow> nat \<times> nat \<times> nat \<Rightarrow> bool" where
  "open_triple m = (\<lambda>(x, y, z). x \<noteq> y \<and> z \<noteq> x \<and> z \<noteq> y \<and> tp_step (m x y) \<noteq> None \<and> tp_step (m y z) \<noteq> None \<and>
     (tp_step (m x z) = None \<or> rate_change (m x y) + rate_change (m y z) < rate_change (m x z)))"

definition detour :: "tr_matrix \<Rightarrow> nat \<times> nat \<times> nat \<Rightarrow> tr_matrix" where
  "detour m = (\<lambda>(x, y, z). set_path x z \<lparr>tp_step = tp_step (m x y), tp_cost = tp_cost (m x y) + tp_cost (m y z), multistep = 1,
     rate_change = rate_change (m x y) + rate_change (m y z)\<rparr> m)"

lemma relax_open: "relax xyz (m, k) = (if open_triple m xyz then (detour m xyz, k + 1) else (m, k))"
  by (cases xyz) (auto simp: relax_def open_triple_def detour_def Let_def)

lemma detour_sound:
  assumes "sound E m" "open_triple m xyz"
  shows "sound E (detour m xyz)"
proof -
  obtain x y z where xyz: "xyz = (x, y, z)" by (cases xyz)
  from assms(2) xyz obtain t u where t: "tp_step (m x y) = Some t" "tp_step (m y z) = Some u" by (auto simp: open_triple_def)
  from assms(1) t obtain p q where p: "tr_path E x (t # p) y" "path_weight (t # p) = rate_change (m x y)"
    "tr_path E y (u # q) z" "path_weight (u # q) = rate_change (m y z)" unfolding sound_def by blast
  then have "tr_path E x (t # p @ u # q) z" "path_weight (t # p @ u # q) = rate_change (m x y) + rate_change (m y z)"
    by (auto simp: tr_path_append)
  with assms(1) t show ?thesis unfolding sound_def detour_def xyz by auto
qed

lemma detour_covers:
  assumes "covers E m" "open_triple m xyz"
  shows "covers E (detour m xyz)"
proof -
  obtain x y z where xyz: "xyz = (x, y, z)" by (cases xyz)
  have "tp_step (detour m xyz a b) \<noteq> None \<and> rate_change (detour m xyz a b) \<le> w"
    if "tp_step (m a b) \<noteq> None \<and> rate_change (m a b) \<le> w" for a b w
    using that assms(2) by (auto simp: xyz detour_def open_triple_def)
  with assms(1) show ?thesis unfolding covers_def by blast
qed

text \<open>The relaxation of a list of triples: the number of changes, and what stays true.\<close>

lemma fold_relax_count: "k \<le> snd (fold relax ts (m, k))"
proof (induction ts arbitrary: m k)
  case (Cons t ts)
  have "k \<le> snd (relax t (m, k))" by (simp add: relax_open)
  also have "\<dots> \<le> snd (fold relax ts (relax t (m, k)))" using Cons.IH [of "snd (relax t (m, k))" "fst (relax t (m, k))"] by simp
  finally show ?case by simp
qed simp

lemma fold_relax_done:
  "snd (fold relax ts (m, k)) = k \<Longrightarrow> fst (fold relax ts (m, k)) = m \<and> (\<forall>t \<in> set ts. \<not> open_triple m t)"
proof (induction ts arbitrary: m k)
  case (Cons t ts)
  show ?case
  proof (cases "open_triple m t")
    case True
    then have "snd (fold relax (t # ts) (m, k)) \<ge> k + 1" using fold_relax_count [of "k + 1" ts "detour m t"] by (simp add: relax_open)
    with Cons.prems show ?thesis by simp
  next
    case False
    with Cons show ?thesis by (simp add: relax_open)
  qed
qed simp

lemma fold_relax_keeps:
  assumes "\<And>m t. P m \<Longrightarrow> t \<in> set ts \<Longrightarrow> open_triple m t \<Longrightarrow> P (detour m t)" "P m"
  shows "P (fst (fold relax ts (m, k)))"
  using assms
proof (induction ts arbitrary: m k)
  case (Cons t ts)
  have "P (fst (relax t (m, k)))" using Cons.prems by (simp add: relax_open)
  then show ?case
    using Cons.IH [of "fst (relax t (m, k))" "snd (relax t (m, k))"] Cons.prems(1) by simp
qed simp

lemma set_triples: "set (format_triples n) = {(x, y, z). x < n \<and> y < n \<and> z < n}"
  by (force simp: format_triples_def)

lemma stable_closed:
  assumes "\<forall>t \<in> set (format_triples n). \<not> open_triple m t"
  shows "stable n m"
  unfolding stable_def
proof (intro allI impI)
  fix x y z assume n: "x < n" "y < n" "z < n" and d: "x \<noteq> y" "z \<noteq> x" "z \<noteq> y" "tp_step (m x y) \<noteq> None" "tp_step (m y z) \<noteq> None"
  from n assms have "\<not> open_triple m (x, y, z)" by (simp add: set_triples)
  with d show "tp_step (m x z) \<noteq> None \<and> rate_change (m x z) \<le> rate_change (m x y) + rate_change (m y z)"
    by (simp add: open_triple_def)
qed

text \<open>
  Why relaxation ends: a change either fills a gap of the matrix or makes an entry smaller.
\<close>

definition gaps :: "nat \<Rightarrow> tr_matrix \<Rightarrow> nat" where
  "gaps n m = card {(x, z). x < n \<and> z < n \<and> tp_step (m x z) = None}"

definition load :: "nat \<Rightarrow> tr_matrix \<Rightarrow> nat" where
  "load n m = (\<Sum>(x, z) \<in> {0..<n} \<times> {0..<n}. if tp_step (m x z) = None then 0 else rate_change (m x z))"

definition progress :: "nat \<Rightarrow> (tr_matrix \<times> tr_matrix) set" where
  "progress n = inv_image (less_than <*lex*> less_than) (\<lambda>m. (gaps n m, load n m))"

lemma wf_progress: "wf (progress n)"
  by (simp add: progress_def wf_lex_prod)

lemma trans_progress: "trans (progress n)"
  unfolding progress_def by (rule trans_inv_image) (auto intro: trans_lex_prod trans_less_than)

lemma detour_progress:
  assumes "open_triple m (x, y, z)" "x < n" "z < n"
  shows "(detour m (x, y, z), m) \<in> progress n"
proof -
  let ?m = "detour m (x, y, z)"
  let ?G = "\<lambda>m. {(x, z). x < n \<and> z < n \<and> tp_step (m x z) = None}"
  have s: "tp_step (?m a b) = (if a = x \<and> b = z then tp_step (m x y) else tp_step (m a b))"
    "rate_change (?m a b) = (if a = x \<and> b = z then rate_change (m x y) + rate_change (m y z) else rate_change (m a b))" for a b
    by (simp_all add: detour_def)
  have o: "tp_step (m x y) \<noteq> None" "tp_step (m x z) = None \<or> rate_change (m x y) + rate_change (m y z) < rate_change (m x z)"
    using assms(1) by (simp_all add: open_triple_def)
  have fin: "finite (?G m)" by (rule finite_subset [of _ "{0..<n} \<times> {0..<n}"]) auto
  have G: "?G ?m = ?G m - {(x, z)}" using o(1) by (auto simp: s split: if_splits)
  show ?thesis
  proof (cases "tp_step (m x z)")
    case None
    then have "(x, z) \<in> ?G m" using assms(2,3) by simp
    then have "gaps n ?m < gaps n m" unfolding gaps_def G by (rule card_Diff1_less [OF fin])
    then show ?thesis by (simp add: progress_def)
  next
    case (Some t)
    then have g: "?G ?m = ?G m" using G by auto
    let ?w = "\<lambda>m (a, b). if tp_step (m a b) = None then 0 else rate_change (m a b)"
    have "(\<Sum>ab \<in> {0..<n} \<times> {0..<n}. ?w ?m ab) < (\<Sum>ab \<in> {0..<n} \<times> {0..<n}. ?w m ab)"
    proof (rule sum_strict_mono_ex1)
      show "\<forall>ab \<in> {0..<n} \<times> {0..<n}. ?w ?m ab \<le> ?w m ab" using o Some by (auto simp: s)
      show "\<exists>ab \<in> {0..<n} \<times> {0..<n}. ?w ?m ab < ?w m ab"
        by (rule bexI [of _ "(x, z)"]) (use o Some assms(2,3) in \<open>auto simp: s\<close>)
    qed simp
    with g show ?thesis by (simp add: progress_def gaps_def load_def)
  qed
qed

lemma fold_relax_progress:
  assumes "\<forall>(x, y, z) \<in> set ts. x < n \<and> z < n"
  shows "fold relax ts (m, k) = (m, k) \<or> (fst (fold relax ts (m, k)), m) \<in> progress n"
  using assms
proof (induction ts arbitrary: m k)
  case (Cons t ts)
  obtain x y z where t: "t = (x, y, z)" by (cases t)
  show ?case
  proof (cases "open_triple m t")
    case False
    with Cons show ?thesis by (simp add: relax_open)
  next
    case True
    have "(detour m t, m) \<in> progress n" using detour_progress True Cons.prems t by auto
    moreover have "fold relax ts (detour m t, k + 1) = (detour m t, k + 1) \<or> (fst (fold relax ts (detour m t, k + 1)), detour m t) \<in> progress n"
      using Cons by simp
    ultimately show ?thesis using True transD [OF trans_progress] by (fastforce simp: relax_open)
  qed
qed simp

lemma relax_loop_stable:
  assumes "sound E m" "covers E m"
  shows "\<exists>m'. relax_loop n m = Some m' \<and> sound E m' \<and> covers E m' \<and> stable n m'"
  using wf_progress [of n] assms
proof (induction m rule: wf_induct_rule)
  case (less m)
  obtain m' k where r: "fold relax (format_triples n) (m, 0) = (m', k)" by fastforce
  have s: "sound E m'" "covers E m'"
    using fold_relax_keeps [where P = "sound E" and ts = "format_triples n" and k = 0, OF detour_sound less.prems(1)]
      fold_relax_keeps [where P = "covers E" and ts = "format_triples n" and k = 0, OF detour_covers less.prems(2)] r by simp_all
  show ?case
  proof (cases "k = 0")
    case True
    then have "m' = m" "stable n m" using fold_relax_done [of "format_triples n" m 0] stable_closed r by auto
    with True r s show ?thesis by (subst relax_loop.simps) (simp add: relax_all_def)
  next
    case False
    then have "(m', m) \<in> progress n" using fold_relax_progress [of "format_triples n" n m 0] r by (auto simp: set_triples)
    from less.IH [OF this s] r False show ?thesis by (subst relax_loop.simps) (simp add: relax_all_def)
  qed
qed

section \<open>The matrix holds the lightest paths\<close>

definition lightest :: "ast_translator set \<Rightarrow> nat \<Rightarrow> tr_matrix \<Rightarrow> bool" where
  "lightest E n m \<longleftrightarrow>
     (\<forall>x < n. \<forall>z < n. x \<noteq> z \<longrightarrow>
        (case tp_step (m x z) of
           None \<Rightarrow> \<not> (\<exists>p. tr_path E x p z)
         | Some t \<Rightarrow> (\<exists>p. tr_path E x (t # p) z \<and> path_weight (t # p) = rate_change (m x z)) \<and>
                     (\<forall>p. tr_path E x p z \<longrightarrow> rate_change (m x z) \<le> path_weight p)))"

lemma lightestD:
  assumes "lightest E n m" "x < n" "z < n" "x \<noteq> z"
  shows "case tp_step (m x z) of
      None \<Rightarrow> \<not> (\<exists>p. tr_path E x p z)
    | Some t \<Rightarrow> (\<exists>p. tr_path E x (t # p) z \<and> path_weight (t # p) = rate_change (m x z)) \<and>
                (\<forall>p. tr_path E x p z \<longrightarrow> rate_change (m x z) \<le> path_weight p)"
  using assms unfolding lightest_def by blast

lemma lightest_Some:
  assumes "lightest E n m" "x < n" "z < n" "x \<noteq> z" "tp_step (m x z) = Some t"
  shows "\<exists>p. tr_path E x (t # p) z \<and> path_weight (t # p) = rate_change (m x z)"
    "tr_path E x p z \<Longrightarrow> rate_change (m x z) \<le> path_weight p"
  using lightestD [OF assms(1-4)] unfolding assms(5) option.case by blast+

lemma lightest_path:
  assumes "lightest E n m" "x < n" "z < n" "x \<noteq> z" "tr_path E x p z"
  shows "tp_step (m x z) \<noteq> None \<and> rate_change (m x z) \<le> path_weight p"
proof (cases "tp_step (m x z)")
  case None
  with lightestD [OF assms(1-4)] assms(5) show ?thesis by auto
next
  case (Some t)
  with lightest_Some(2) [OF assms(1-4) Some assms(5)] show ?thesis by simp
qed

definition in_use :: "ast_translator list \<Rightarrow> ast_translator set" where
  "in_use ts = {t \<in> set ts. t_active t}"

lemma rebuild_lightest:
  assumes "\<forall>t \<in> set ts. srcfmt t < n \<and> dstfmt t < n"
  shows "\<exists>m. rebuild_matrix n ts = Some m \<and> lightest (in_use ts) n m"
proof -
  let ?E = "in_use ts" and ?m0 = "fold direct_path (filter t_active ts) empty_matrix"
  have E: "set (filter t_active ts) = ?E" by (auto simp: in_use_def)
  have "sound ?E empty_matrix" by (simp add: sound_def empty_matrix_def)
  with direct_paths [of "filter t_active ts" ?E empty_matrix] E have "sound ?E ?m0" "covers ?E ?m0" by auto
  from relax_loop_stable [OF this, of n] obtain m where m: "relax_loop n ?m0 = Some m" "sound ?E m" "covers ?E m" "stable n m" by blast
  have e: "\<forall>t \<in> ?E. srcfmt t < n \<and> dstfmt t < n" using assms by (auto simp: in_use_def)
  have "lightest ?E n m" unfolding lightest_def
  proof (intro allI impI)
    fix x z assume n: "x < n" "z < n" "x \<noteq> z"
    note l = stable_lightest [OF m(4,3) e _ n(3,1)]
    show "case tp_step (m x z) of None \<Rightarrow> \<not> (\<exists>p. tr_path ?E x p z)
      | Some t \<Rightarrow> (\<exists>p. tr_path ?E x (t # p) z \<and> path_weight (t # p) = rate_change (m x z)) \<and>
          (\<forall>p. tr_path ?E x p z \<longrightarrow> rate_change (m x z) \<le> path_weight p)"
    proof (cases "tp_step (m x z)")
      case None
      with l show ?thesis by auto
    next
      case (Some t)
      with l m(2) show ?thesis by (auto simp: sound_def)
    qed
  qed
  with m(1) show ?thesis by (auto simp: rebuild_matrix_def)
qed

text \<open>
  C25: rebuilding the translation matrix ends, and leaves for every pair of different formats the best way
  to translate: an entry exactly when a chain of active translators leads from one to the other, with the
  first translator of a best chain and with its quality, the least sum of sample rate change classes over
  all chains, of any length.
\<close>

theorem translation_matrix_lightest:
  assumes "\<forall>t \<in> set ts. srcfmt t < n \<and> dstfmt t < n"
  shows "\<exists>m. rebuild_matrix n ts = Some m \<and> lightest (in_use ts) n m"
  using assms by (rule rebuild_lightest)

section \<open>Following the matrix\<close>

lemma build_steps_lightest:
  assumes m: "lightest E n m" "\<forall>t \<in> E. srcfmt t < n \<and> dstfmt t < n"
  shows "x < n \<Longrightarrow> z < n \<Longrightarrow> x \<noteq> z \<Longrightarrow> tp_step (m x z) \<noteq> None \<Longrightarrow>
    \<exists>p. build_steps newpvt m x z = Some (if \<forall>t \<in> set p. newpvt t then Some p else None) \<and>
      tr_path E x p z \<and> path_weight p = rate_change (m x z)"
proof (induction "rate_change (m x z)" arbitrary: x rule: less_induct)
  case less
  then obtain t p where t: "tp_step (m x z) = Some t" "tr_path E x (t # p) z" "path_weight (t # p) = rate_change (m x z)"
    and best: "\<And>q. tr_path E x q z \<Longrightarrow> rate_change (m x z) \<le> path_weight q"
    using lightest_Some [OF m(1) less.prems(1-3)] by blast
  let ?y = "dstfmt t"
  have y: "?y < n" "t \<in> E" "srcfmt t = x" "tr_path E ?y p z" using t(2) m(2) by auto
  show ?case
  proof (cases "?y = z")
    case True
    have "path_weight [t] = rate_change (m x z)" using best [of "[t]"] t(3) y True by simp
    moreover have "build_steps newpvt m z z = Some (Some [])" by (subst build_steps.simps) simp
    then have "build_steps newpvt m x z = Some (if newpvt t then Some [t] else None)"
      using less.prems(3) t(1) True by (subst build_steps.simps) simp
    ultimately show ?thesis using y True by (intro exI [of _ "[t]"]) simp
  next
    case False
    have s: "tp_step (m ?y z) \<noteq> None \<and> rate_change (m ?y z) \<le> path_weight p"
      by (rule lightest_path [OF m(1) y(1) less.prems(2) False y(4)])
    have "rate_change (m ?y z) < rate_change (m x z)" using s t(3) step_weight_pos [of t] by simp
    from less.hyps [OF this y(1) less.prems(2) False] s obtain q where
      q: "build_steps newpvt m ?y z = Some (if \<forall>t \<in> set q. newpvt t then Some q else None)" "tr_path E ?y q z"
        "path_weight q = rate_change (m ?y z)" by auto
    have "path_weight (t # q) = rate_change (m x z)" using best [of "t # q"] q s t(3) y by simp
    moreover have "build_steps newpvt m x z = Some (if \<forall>t \<in> set (t # q). newpvt t then Some (t # q) else None)"
      using q(1) less.prems(3) t(1) by (subst build_steps.simps) simp
    ultimately show ?thesis using y q(2) by (intro exI [of _ "t # q"]) simp
  qed
qed

section \<open>The registry\<close>

text \<open>The translators have formats of the matrix, and the matrix is up to date.\<close>

definition trans_ok :: "trans_state \<Rightarrow> bool" where
  "trans_ok s \<longleftrightarrow>
     (\<forall>t \<in> set (translators s). srcfmt t < MAX_FORMAT \<and> dstfmt t < MAX_FORMAT) \<and>
     lightest (in_use (translators s)) MAX_FORMAT (matrix s)"

lemma rebuild_ok:
  assumes "\<forall>t \<in> set (translators s). srcfmt t < MAX_FORMAT \<and> dstfmt t < MAX_FORMAT"
  shows "\<exists>s'. rebuild s = Some s' \<and> trans_ok s' \<and> translators s' = translators s"
  using rebuild_lightest [OF assms] assms by (auto simp: rebuild_def trans_ok_def)

lemma powerof_bound: "powerof d = Some x \<Longrightarrow> x < MAX_FORMAT \<and> bit d x"
  by (auto simp: powerof_def find_Some_iff MAX_FORMAT_def)

lemma insert_translator_set: "insert_translator t ts = Some us \<Longrightarrow> set us = insert t (set ts)"
  by (induction t ts arbitrary: us rule: insert_translator.induct) (auto split: if_splits)

lemma remove_translator_set: "remove_translator a ts = Some us \<Longrightarrow> set us \<subseteq> set ts"
  by (induction a ts arbitrary: us rule: remove_translator.induct) (auto split: if_splits)

text \<open>
  C27: every operation on the translators, registering, unregistering, activating, deactivating and
  measuring them again, returns and leaves a matrix of best paths for the translators then in use.
\<close>

theorem translator_operations_keep_matrix:
  assumes "trans_ok s"
  shows "(\<exists>r s'. ast_register_translator addr src dst buf_size cost has_module s = Some (r, s') \<and> trans_ok s') \<and>
    (\<exists>r s'. ast_unregister_translator addr s = Some (r, s') \<and> trans_ok s') \<and>
    (\<exists>s'. ast_translator_activate addr s = Some s' \<and> trans_ok s') \<and>
    (\<exists>s'. ast_translator_deactivate addr s = Some s' \<and> trans_ok s') \<and>
    (\<exists>s'. recalculate calc_cost samples s = Some s' \<and> trans_ok s')"
proof (intro conjI)
  have ok: "\<forall>t \<in> set (translators s). srcfmt t < MAX_FORMAT \<and> dstfmt t < MAX_FORMAT" using assms by (simp add: trans_ok_def)
  have keep: "\<exists>s'. rebuild (s\<lparr>translators := map f (translators s)\<rparr>) = Some s' \<and> trans_ok s'"
    if "\<forall>t. srcfmt (f t) = srcfmt t \<and> dstfmt (f t) = dstfmt t" for f
    using rebuild_ok [of "s\<lparr>translators := map f (translators s)\<rparr>"] ok that by auto
  show "\<exists>s'. ast_translator_activate addr s = Some s' \<and> trans_ok s'"
    unfolding ast_translator_activate_def set_active_def by (rule keep) simp
  show "\<exists>s'. ast_translator_deactivate addr s = Some s' \<and> trans_ok s'"
    unfolding ast_translator_deactivate_def set_active_def by (rule keep) simp
  show "\<exists>s'. recalculate calc_cost samples s = Some s' \<and> trans_ok s'"
    unfolding recalculate_def measure_costs_def by (rule keep) simp
  show "\<exists>r s'. ast_unregister_translator addr s = Some (r, s') \<and> trans_ok s'"
  proof (cases "remove_translator addr (translators s)")
    case None
    with assms show ?thesis by (simp add: ast_unregister_translator_def)
  next
    case (Some us)
    with ok rebuild_ok [of "s\<lparr>translators := us\<rparr>"] remove_translator_set [OF Some] show ?thesis
      by (auto simp: ast_unregister_translator_def)
  qed
  show "\<exists>r s'. ast_register_translator addr src dst buf_size cost has_module s = Some (r, s') \<and> trans_ok s'"
  proof (cases "has_module \<and> buf_size \<noteq> 0 \<and> powerof src \<noteq> None \<and> powerof dst \<noteq> None")
    case False
    with assms show ?thesis by (auto simp: ast_register_translator_def split: option.splits)
  next
    case True
    then obtain x z where xz: "powerof src = Some x" "powerof dst = Some z" by auto
    define t where "t = \<lparr>t_addr = addr, srcfmt = x, dstfmt = z, t_cost = cost, t_active = True\<rparr>"
    define us where "us = (case insert_translator t (translators s) of Some ts \<Rightarrow> ts | None \<Rightarrow> t # translators s)"
    have b: "x < MAX_FORMAT" "z < MAX_FORMAT" using xz powerof_bound by auto
    have "set us = insert t (set (translators s))"
      using insert_translator_set by (auto simp: us_def split: option.splits)
    with ok b rebuild_ok [of "s\<lparr>translators := us\<rparr>"] obtain s' where "rebuild (s\<lparr>translators := us\<rparr>) = Some s'" "trans_ok s'"
      by (auto simp: t_def)
    with True xz b show ?thesis by (simp add: ast_register_translator_def t_def [symmetric] us_def [symmetric])
  qed
qed

text \<open>
  C26: a translation path is built whenever one exists, and it is a best one: following the matrix step by
  step ends at the destination, the translators on the way fit together, and no other chain has a better
  sum of sample rate changes. The result is \<open>NULL\<close> exactly when no chain exists or a translator cannot be
  set up; nothing is needed between equal formats.
\<close>

theorem translation_path_optimal:
  assumes "trans_ok s" "powerof source = Some x" "powerof dest = Some z"
  shows "\<exists>r. ast_translator_build_path newpvt s dest source = Some r \<and>
    (if x = z then r = Some []
     else if \<exists>p. tr_path (in_use (translators s)) x p z
     then \<exists>p. r = (if \<forall>t \<in> set p. newpvt t then Some p else None) \<and> tr_path (in_use (translators s)) x p z \<and>
            (\<forall>q. tr_path (in_use (translators s)) x q z \<longrightarrow> path_weight p \<le> path_weight q)
     else r = None)"
proof -
  let ?E = "in_use (translators s)" and ?m = "matrix s"
  have n: "x < MAX_FORMAT" "z < MAX_FORMAT" using assms powerof_bound by auto
  have l: "lightest ?E MAX_FORMAT ?m" "\<forall>t \<in> ?E. srcfmt t < MAX_FORMAT \<and> dstfmt t < MAX_FORMAT"
    using assms(1) by (auto simp: trans_ok_def in_use_def)
  have b: "ast_translator_build_path newpvt s dest source = build_steps newpvt ?m x z"
    by (simp add: ast_translator_build_path_def assms)
  show ?thesis
  proof (cases "x = z")
    case True
    then show ?thesis unfolding b by (subst build_steps.simps) simp
  next
    case False
    show ?thesis
    proof (cases "\<exists>p. tr_path ?E x p z")
      case no: False
      then have "tp_step (?m x z) = None" using lightest_Some(1) [OF l(1) n False] by (cases "tp_step (?m x z)") blast+
      with False no show ?thesis unfolding b by (subst build_steps.simps) simp
    next
      case yes: True
      note least = lightest_path [OF l(1) n False]
      from yes least have "tp_step (?m x z) \<noteq> None" by blast
      from build_steps_lightest [OF l n False this, of newpvt] obtain p where
        p: "build_steps newpvt ?m x z = Some (if \<forall>t \<in> set p. newpvt t then Some p else None)" "tr_path ?E x p z"
          "path_weight p = rate_change (?m x z)" by blast
      have "\<forall>q. tr_path ?E x q z \<longrightarrow> path_weight p \<le> path_weight q" unfolding p(3) using least by blast
      with p(1,2) False yes show ?thesis unfolding b by auto
    qed
  qed
qed

section \<open>Bounds\<close>

definition path_nodes :: "nat \<Rightarrow> ast_translator list \<Rightarrow> nat list" where
  "path_nodes x p = x # map dstfmt p"

lemma tr_path_cut:
  assumes "tr_path E x p z" "\<not> distinct (path_nodes x p)"
  shows "\<exists>q. tr_path E x q z \<and> length q < length p"
  using assms
proof (induction p arbitrary: x)
  case (Cons t p)
  show ?case
  proof (cases "x \<in> set (map dstfmt (t # p))")
    case True
    then obtain u where u: "u \<in> set (t # p)" "dstfmt u = x" unfolding set_map by blast
    from split_list [OF u(1)] obtain us vs where s: "t # p = us @ u # vs" by blast
    from Cons.prems(1) have "tr_path E x (us @ u # vs) z" unfolding s .
    then have "tr_path E x vs z" using u(2) by (auto simp: tr_path_append)
    moreover have "length vs < length (t # p)" unfolding s by simp
    ultimately show ?thesis by blast
  next
    case False
    then have "\<not> distinct (path_nodes (dstfmt t) p)" using Cons.prems(2) by (simp add: path_nodes_def)
    with Cons obtain q where "tr_path E (dstfmt t) q z" "length q < length p" by auto
    with Cons.prems(1) show ?thesis by (intro exI [of _ "t # q"]) simp
  qed
qed (simp add: path_nodes_def)

lemma short_path:
  assumes "\<forall>t \<in> E. srcfmt t < n \<and> dstfmt t < n" "x < n"
  shows "tr_path E x p z \<Longrightarrow> \<exists>q. tr_path E x q z \<and> length q < n"
proof (induction "length p" arbitrary: p rule: less_induct)
  case less
  show ?case
  proof (cases "distinct (path_nodes x p)")
    case False
    from tr_path_cut [OF less.prems False] less.hyps show ?thesis by blast
  next
    case True
    have "set p \<subseteq> E" using less.prems by (induction p arbitrary: x) auto
    then have "set (path_nodes x p) \<subseteq> {0..<n}" using assms by (auto simp: path_nodes_def)
    then have "card (set (path_nodes x p)) \<le> n" using card_mono [of "{0..<n}"] by fastforce
    then have "length (path_nodes x p) \<le> n" using distinct_card [OF True] by simp
    with less.prems show ?thesis by (auto simp: path_nodes_def)
  qed
qed

lemma step_weight_le: "step_weight t \<le> 985000"
  unfolding step_weight_def get_rate_change_result_def Let_def
  by (simp only: if_distrib [of "\<lambda>w. w \<le> (985000::nat)"] numeral_le_iff le_num_simps less_num_simps order_refl if_cancel)

lemma path_weight_le: "path_weight p \<le> 985000 * length p"
proof (induction p)
  case (Cons t p)
  with step_weight_le [of t] show ?case by simp
qed simp

lemma rate_change_bound:
  assumes "trans_ok s" "x < MAX_FORMAT" "z < MAX_FORMAT" "x \<noteq> z" "tp_step (matrix s x z) \<noteq> None"
  shows "rate_change (matrix s x z) < 2147483647"
proof -
  let ?E = "in_use (translators s)"
  have l: "lightest ?E MAX_FORMAT (matrix s)" "\<forall>t \<in> ?E. srcfmt t < MAX_FORMAT \<and> dstfmt t < MAX_FORMAT"
    using assms(1) by (auto simp: trans_ok_def in_use_def)
  obtain t where "tp_step (matrix s x z) = Some t" using assms(5) by blast
  from lightest_Some(1) [OF l(1) assms(2-4) this] obtain p where "tr_path ?E x p z" by blast
  from short_path [OF l(2) assms(2) this] obtain q where q: "tr_path ?E x q z" "length q < MAX_FORMAT" by blast
  have "rate_change (matrix s x z) \<le> 985000 * length q"
    using lightest_path [OF l(1) assms(2-4) q(1)] path_weight_le [of q] by simp
  with q(2) show ?thesis by (simp add: MAX_FORMAT_def)
qed

section \<open>The best choice\<close>

text \<open>The pick so far: one of the pairs seen, and none of them has a better rate change.\<close>

definition picked :: "tr_matrix \<Rightarrow> (nat \<times> nat) set \<Rightarrow> best_pick option \<Rightarrow> bool" where
  "picked m S best \<longleftrightarrow>
     (case best of
        None \<Rightarrow> S = {}
      | Some b \<Rightarrow> (bp_dst b, bp_src b) \<in> S \<and> best_rate_change b = rate_change (m (bp_src b) (bp_dst b)) \<and>
          (\<forall>(y, x) \<in> S. best_rate_change b \<le> rate_change (m x y)))"

lemma picked_step:
  assumes "picked m S best" "rate_change (m x y) < 2147483647"
  shows "picked m (insert (y, x) S) (consider_pair m (y, x) best)"
proof (cases best)
  case None
  with assms show ?thesis by (simp add: picked_def consider_pair_def Let_def)
next
  case (Some b)
  show ?thesis
  proof (cases "rate_change (m x y) < best_rate_change b \<or>
      rate_change (m x y) \<le> best_rate_change b \<and> (tp_cost (m x y) < besttime b \<or> multistep (m x y) < beststeps b)")
    case True
    then have "rate_change (m x y) \<le> best_rate_change b" by auto
    with True assms(1) Some show ?thesis by (fastforce simp: picked_def consider_pair_def Let_def)
  next
    case False
    then have "best_rate_change b \<le> rate_change (m x y)" by auto
    with False assms(1) Some show ?thesis by (auto simp: picked_def consider_pair_def Let_def)
  qed
qed

lemma picked_fold:
  assumes "\<forall>(y, x) \<in> set ps. rate_change (m x y) < 2147483647" "picked m S best"
  shows "picked m (S \<union> set ps) (fold (consider_pair m) ps best)"
  using assms
proof (induction ps arbitrary: S best)
  case (Cons yx ps)
  obtain y x where "yx = (y, x)" by (cases yx)
  with Cons.IH [OF _ picked_step [OF Cons.prems(2), of x y]] Cons.prems(1) show ?case by simp
qed simp

text \<open>A pair of formats between which audio can be translated.\<close>

definition translatable :: "trans_state \<Rightarrow> format_t \<Rightarrow> format_t \<Rightarrow> nat \<Rightarrow> nat \<Rightarrow> bool" where
  "translatable s dst srcs x y \<longleftrightarrow> x \<le> MAX_AUDIO_FORMAT \<and> y \<le> MAX_AUDIO_FORMAT \<and> bit srcs x \<and> bit dst y \<and> tp_step (matrix s x y) \<noteq> None"

lemma set_format_pairs: "set (format_pairs (matrix s) dst srcs) = {(y, x). translatable s dst srcs x y}"
proof (rule set_eqI)
  fix q :: "nat \<times> nat"
  obtain y x where q: "q = (y, x)" by (cases q)
  show "q \<in> set (format_pairs (matrix s) dst srcs) \<longleftrightarrow> q \<in> {(y, x). translatable s dst srcs x y}"
    unfolding q by (auto simp: format_pairs_def translatable_def less_Suc_eq_le simp del: upt_Suc split: if_splits)
qed

text \<open>
  For two sets of audio formats without a common one the choice fails, with -1, exactly when no
  source format can be translated to a destination format; otherwise it narrows both sets to one format
  each, between which a path exists, and no other pair has a path with a better sample rate change.
\<close>

theorem best_choice_optimal:
  assumes "trans_ok s" "dst AND srcs = 0" "\<not> (srcs AND AST_FORMAT_AUDIO_MASK = AST_FORMAT_AUDIO_MASK \<and> bit dst 2)"
    and "ast_translator_best_choice s dst srcs = (r, dst', srcs')"
  shows "(if \<exists>x y. translatable s dst srcs x y
    then \<exists>x y. r = 0 \<and> srcs' = format_bit x \<and> dst' = format_bit y \<and> translatable s dst srcs x y \<and>
      (\<forall>x' y'. translatable s dst srcs x' y' \<longrightarrow> rate_change (matrix s x y) \<le> rate_change (matrix s x' y'))
    else r = -1 \<and> dst' = dst \<and> srcs' = srcs)"
proof -
  let ?ps = "format_pairs (matrix s) dst srcs" and ?best = "fold (consider_pair (matrix s)) (format_pairs (matrix s) dst srcs) None"
  have ne: "x \<noteq> y" if "translatable s dst srcs x y" for x y
  proof
    assume "x = y"
    with that have "bit (dst AND srcs) x" by (simp add: translatable_def bit_simps)
    with assms(2) show False by simp
  qed
  have "\<forall>(y, x) \<in> set ?ps. rate_change (matrix s x y) < 2147483647"
    using rate_change_bound [OF assms(1)] ne by (auto simp: set_format_pairs translatable_def MAX_AUDIO_FORMAT_def MAX_FORMAT_def)
  from picked_fold [OF this, of "{}" None] have p: "picked (matrix s) {(y, x). translatable s dst srcs x y} ?best"
    by (simp add: picked_def set_format_pairs)
  have c: "ast_translator_best_choice s dst srcs =
      (case ?best of None \<Rightarrow> (-1, dst, srcs) | Some b \<Rightarrow> (0, format_bit (bp_dst b), format_bit (bp_src b)))"
    using assms(2,3) by (auto simp: ast_translator_best_choice_def Let_def and.assoc [symmetric])
  show ?thesis
  proof (cases ?best)
    case None
    with p c assms(4) show ?thesis by (auto simp: picked_def)
  next
    case (Some b)
    with p have "translatable s dst srcs (bp_src b) (bp_dst b)"
      "\<And>x y. translatable s dst srcs x y \<Longrightarrow> rate_change (matrix s (bp_src b) (bp_dst b)) \<le> rate_change (matrix s x y)"
      by (auto simp: picked_def)
    with Some c assms(4) show ?thesis by auto
  qed
qed

section \<open>Two translators\<close>

text \<open>Mu-law to signed linear and signed linear to A-law: mu-law reaches A-law over signed linear only.\<close>

definition ulaw_alaw :: "ast_translator list" where
  "ulaw_alaw =
     [\<lparr>t_addr = 1, srcfmt = 2, dstfmt = 6, t_cost = 1, t_active = True\<rparr>,
      \<lparr>t_addr = 2, srcfmt = 6, dstfmt = 3, t_cost = 1, t_active = True\<rparr>]"

lemma in_use_ulaw_alaw: "in_use ulaw_alaw = set ulaw_alaw"
  by (auto simp: in_use_def ulaw_alaw_def)

lemma ulaw_alaw_formats: "\<forall>t \<in> set ulaw_alaw. srcfmt t < MAX_FORMAT \<and> dstfmt t < MAX_FORMAT"
  by (simp add: ulaw_alaw_def MAX_FORMAT_def)

lemma ulaw_alaw_path: "tr_path (set ulaw_alaw) 2 p 3 \<longleftrightarrow> p = ulaw_alaw"
proof
  assume a: "tr_path (set ulaw_alaw) 2 p 3"
  then obtain t q where p: "p = t # q" by (cases p) auto
  with a have t: "t = ulaw_alaw ! 0" "tr_path (set ulaw_alaw) 6 q 3" by (auto simp: ulaw_alaw_def)
  then obtain u r where q: "q = u # r" by (cases q) auto
  with t have u: "u = ulaw_alaw ! 1" "tr_path (set ulaw_alaw) 3 r 3" by (auto simp: ulaw_alaw_def)
  then have "r = []" by (cases r) (auto simp: ulaw_alaw_def)
  with p q t u show "p = ulaw_alaw" by (simp add: ulaw_alaw_def)
qed (simp add: ulaw_alaw_def)

lemma ulaw_alaw_no_path: "\<not> tr_path (set ulaw_alaw) 3 p 2"
  by (cases p) (auto simp: ulaw_alaw_def)

lemma ulaw_alaw_state: "\<exists>s. trans_ok s \<and> translators s = ulaw_alaw"
  using rebuild_ok [of "\<lparr>translators = ulaw_alaw, matrix = empty_matrix\<rparr>"] ulaw_alaw_formats by auto

lemma powerof_2 [simp]: "powerof 4 = Some 2"
  unfolding powerof_def by code_simp

lemma powerof_3 [simp]: "powerof 8 = Some 3"
  unfolding powerof_def by code_simp

theorem translation_matrix_lightest_witness:
  "\<exists>m. rebuild_matrix MAX_FORMAT ulaw_alaw = Some m \<and> tp_step (m 2 3) = Some (ulaw_alaw ! 0) \<and>
     rate_change (m 2 3) = path_weight ulaw_alaw \<and> tp_step (m 3 2) = None"
proof -
  obtain m where m: "rebuild_matrix MAX_FORMAT ulaw_alaw = Some m" "lightest (set ulaw_alaw) MAX_FORMAT m"
    using translation_matrix_lightest [OF ulaw_alaw_formats] in_use_ulaw_alaw by auto
  have f: "(2::nat) < MAX_FORMAT" "(3::nat) < MAX_FORMAT" "(2::nat) \<noteq> 3" by (simp_all add: MAX_FORMAT_def)
  obtain t where t: "tp_step (m 2 3) = Some t"
    using lightest_path [OF m(2) f, of ulaw_alaw] by (auto simp: ulaw_alaw_path)
  from lightest_Some(1) [OF m(2) f this] obtain p where "t # p = ulaw_alaw" "path_weight (t # p) = rate_change (m 2 3)"
    unfolding ulaw_alaw_path by blast
  moreover have "tp_step (m 3 2) = None"
  proof (cases "tp_step (m 3 2)")
    case (Some u)
    with lightest_Some(1) [OF m(2) f(2,1) f(3) [symmetric] Some] ulaw_alaw_no_path show ?thesis by blast
  qed
  ultimately show ?thesis using m(1) t by (auto simp: ulaw_alaw_def)
qed

theorem translator_operations_keep_matrix_witness:
  "\<exists>s s'. translators s = ulaw_alaw \<and> trans_ok s \<and> ast_unregister_translator 1 s = Some (0, s') \<and>
     trans_ok s' \<and> translators s' = tl ulaw_alaw"
proof -
  obtain s where s: "trans_ok s" "translators s = ulaw_alaw" using ulaw_alaw_state by blast
  from translator_operations_keep_matrix [OF s(1), of 1 0 0 0 0 False "\<lambda>_ _. 0" 0] obtain r s' where
    u: "ast_unregister_translator 1 s = Some (r, s')" "trans_ok s'" by blast
  have "remove_translator 1 (translators s) = Some (tl ulaw_alaw)" by (simp add: s ulaw_alaw_def)
  with u(1) have "r = 0 \<and> translators s' = tl ulaw_alaw"
    by (auto simp: ast_unregister_translator_def rebuild_def)
  with s u show ?thesis by blast
qed

theorem translation_path_optimal_witness:
  "\<exists>s. trans_ok s \<and> ast_translator_build_path (\<lambda>_. True) s 8 4 = Some (Some ulaw_alaw) \<and>
     ast_translator_build_path (\<lambda>_. True) s 4 8 = Some None"
proof -
  obtain s where s: "trans_ok s" "translators s = ulaw_alaw" using ulaw_alaw_state by blast
  have "ast_translator_build_path (\<lambda>_. True) s 8 4 = Some (Some ulaw_alaw)"
    using translation_path_optimal [OF s(1) powerof_2 powerof_3, of "\<lambda>_. True"]
    by (simp add: s in_use_ulaw_alaw ulaw_alaw_path)
  moreover have "ast_translator_build_path (\<lambda>_. True) s 4 8 = Some None"
    using translation_path_optimal [OF s(1) powerof_3 powerof_2, of "\<lambda>_. True"]
    by (simp add: s in_use_ulaw_alaw ulaw_alaw_no_path)
  ultimately show ?thesis using s(1) by blast
qed

theorem best_choice_optimal_witness:
  "\<exists>s. trans_ok s \<and> ast_translator_best_choice s 8 4 = (0, 8, 4) \<and> ast_translator_best_choice s 4 8 = (-1, 4, 8)"
proof -
  obtain s where s: "trans_ok s" "translators s = ulaw_alaw" using ulaw_alaw_state by blast
  then have l: "lightest (set ulaw_alaw) MAX_FORMAT (matrix s)" by (simp add: trans_ok_def in_use_ulaw_alaw)
  have f: "(2::nat) < MAX_FORMAT" "(3::nat) < MAX_FORMAT" "(2::nat) \<noteq> 3" by (simp_all add: MAX_FORMAT_def)
  have b: "bit (8 :: format_t) x \<longleftrightarrow> x = 3" "bit (4 :: format_t) x \<longleftrightarrow> x = 2" for x
    using bit_exp_iff [where 'a = "64 word", of 3 x] bit_exp_iff [where 'a = "64 word", of 2 x] by auto
  have p: "tp_step (matrix s 2 3) \<noteq> None" using lightest_path [OF l f, of ulaw_alaw] by (simp add: ulaw_alaw_path)
  have n: "tp_step (matrix s 3 2) = None"
  proof (cases "tp_step (matrix s 3 2)")
    case (Some u)
    with lightest_Some(1) [OF l f(2,1) f(3) [symmetric] Some] ulaw_alaw_no_path show ?thesis by blast
  qed
  have t: "translatable s 8 4 x y \<longleftrightarrow> x = 2 \<and> y = 3" "\<not> translatable s 4 8 x y" for x y
    using p n unfolding translatable_def b by (auto simp: MAX_AUDIO_FORMAT_def)
  have "ast_translator_best_choice s 8 4 = (0, 8, 4)"
    using best_choice_optimal [OF s(1), of 8 4 "fst (ast_translator_best_choice s 8 4)"
        "fst (snd (ast_translator_best_choice s 8 4))" "snd (snd (ast_translator_best_choice s 8 4))"]
    by (auto simp: t b AST_FORMAT_AUDIO_MASK_def format_bit_def prod_eq_iff)
  moreover have "ast_translator_best_choice s 4 8 = (-1, 4, 8)"
    using best_choice_optimal [OF s(1), of 4 8 "fst (ast_translator_best_choice s 4 8)"
        "fst (snd (ast_translator_best_choice s 4 8))" "snd (snd (ast_translator_best_choice s 4 8))"]
    by (auto simp: t b AST_FORMAT_AUDIO_MASK_def prod_eq_iff)
  ultimately show ?thesis using s(1) by blast
qed

section \<open>Available formats\<close>

lemma drop_untranslatable_bit:
  "bit (drop_untranslatable m msk dest source src res) y \<longleftrightarrow>
     bit res y \<and> \<not> (source \<noteq> 0 \<and> y < 63 \<and> bit msk y \<and> bit dest y \<and> \<not> bit src y \<and>
       (tp_step (m source y) = None \<or> tp_step (m y source) = None))"
proof -
  let ?bad = "\<lambda>x. bit msk x \<and> bit dest x \<and> \<not> bit src x \<and> (tp_step (m source x) = None \<or> tp_step (m x source) = None)"
  let ?f = "\<lambda>x r. if \<not> bit msk x \<or> \<not> bit dest x \<or> bit src x then r
      else if tp_step (m source x) = None \<or> tp_step (m x source) = None then r AND NOT (format_bit x) else r"
  have f: "bit (?f x r) y \<longleftrightarrow> bit r y \<and> \<not> (y = x \<and> ?bad x)" for x r
    using bit_imp_le_length [of r y] by (auto simp: bit_simps format_bit_def)
  have "bit (fold ?f xs r) y \<longleftrightarrow> bit r y \<and> \<not> (y \<in> set xs \<and> ?bad y)" for xs r
  proof (induction xs arbitrary: r)
    case (Cons x xs)
    show ?case unfolding fold_simps Cons.IH f by auto
  qed simp
  from this [of "[0..<63]" res] show ?thesis unfolding drop_untranslatable_def set_upt
    by (cases "source = 0") (simp_all only: if_True if_False atLeastLessThan_iff, auto)
qed

text \<open>
  For audio formats whose lowest one is not the one with index 0, the available formats are those of
  \<open>dest\<close> that the source supplies itself or that chains of translators connect with its lowest format in
  both directions; other media are left alone.
\<close>

lemma available_formats_audio:
  assumes "trans_ok s" "powerof (src AND AST_FORMAT_AUDIO_MASK) = Some x" "x \<noteq> 0" "src AND AST_FORMAT_VIDEO_MASK = 0"
  shows "bit (ast_translate_available_formats s dest src) y \<longleftrightarrow>
    bit dest y \<and> (bit AST_FORMAT_AUDIO_MASK y \<longrightarrow> bit src y \<or>
      (\<exists>p. tr_path (in_use (translators s)) x p y) \<and> (\<exists>p. tr_path (in_use (translators s)) y p x))"
proof -
  let ?E = "in_use (translators s)"
  have l: "lightest ?E MAX_FORMAT (matrix s)" using assms(1) by (simp add: trans_ok_def)
  have x: "x < MAX_FORMAT" "bit src x" using powerof_bound [OF assms(2)] by (auto simp: bit_simps)
  have path: "tp_step (matrix s a b) = None \<longleftrightarrow> \<not> (\<exists>p. tr_path ?E a p b)" if "a < MAX_FORMAT" "b < MAX_FORMAT" "a \<noteq> b" for a b
    using lightest_path [OF l that] lightest_Some(1) [OF l that] by (cases "tp_step (matrix s a b)") blast+
  have "src \<noteq> 0" using x(2) by auto
  moreover have "powerof (src AND AST_FORMAT_VIDEO_MASK) = None" unfolding assms(4) by (simp add: powerof_def find_None_iff)
  ultimately have a: "ast_translate_available_formats s dest src = drop_untranslatable (matrix s) AST_FORMAT_AUDIO_MASK dest x src dest"
    using assms(2) by (simp add: ast_translate_available_formats_def drop_untranslatable_def)
  have m: "y < 48" if "bit AST_FORMAT_AUDIO_MASK y"
  proof (rule ccontr)
    assume "\<not> y < 48"
    moreover have "take_bit 48 AST_FORMAT_AUDIO_MASK = AST_FORMAT_AUDIO_MASK" by (simp add: AST_FORMAT_AUDIO_MASK_def)
    ultimately show False using that by (metis bit_take_bit_iff)
  qed
  show ?thesis
  proof (cases "bit AST_FORMAT_AUDIO_MASK y \<and> \<not> bit src y")
    case True
    then have "y < MAX_FORMAT" "y < 63" "x \<noteq> y" using m x(2) by (auto simp: MAX_FORMAT_def)
    then have "(tp_step (matrix s x y) = None) = (\<nexists>p. tr_path ?E x p y)" "(tp_step (matrix s y x) = None) = (\<nexists>p. tr_path ?E y p x)"
      using path x(1) by blast+
    with True \<open>y < 63\<close> assms(3) show ?thesis unfolding a drop_untranslatable_bit by (simp, blast)
  next
    case False
    then show ?thesis unfolding a drop_untranslatable_bit by blast
  qed
qed

end
