(* ===== verification/Ast_Obj2.thy ===== *)
theory Ast_Obj2
  imports Ast_Prelude "HOL-Library.Monad_Syntax"
begin

text \<open>
  Reference-counted objects and containers, \<open>main/astobj2.c\<close>. Objects live in a store, a map from addresses;
  an address outside the store is what fails the check of the magic number: \<open>NULL\<close>, or an object that is
  gone. A container is an object with buckets of entries, each of which holds a reference to an object.
  Entries carry version numbers, 32-bit words that wrap as in the code, with which an iterator finds its
  place again after a change. That a counter of references or of elements overflows is not modelled; it takes
  as many references. Sizes of objects, locks and the copies of the functions that trace
  references are not modelled. The user data of an object is outside the model; of a destructor only
  the references it gives up matter, and they are a parameter: \<open>releases a\<close> lists the objects the destructor
  of \<open>a\<close> releases. An operation whose result is \<open>None\<close> does not return or has no defined behaviour.
\<close>

section \<open>Data\<close>

record bucket_entry =
  be_addr :: nat
  be_version :: "32 word"
  be_obj :: nat

text \<open>A callback answers with the bits \<open>CMP_MATCH\<close> and \<open>CMP_STOP\<close>.\<close>

type_synonym cmp_result = "bool \<times> bool"

record search_flags =
  OBJ_UNLINK :: bool
  OBJ_NODATA :: bool
  OBJ_MULTIPLE :: bool
  OBJ_POINTER :: bool
  OBJ_CONTINUE :: bool

record ao2_container =
  hash_fn :: "nat \<Rightarrow> int"
  cmp_fn :: "(nat \<Rightarrow> nat \<Rightarrow> cmp_result) option"
  n_buckets :: nat
  elements :: int
  c_version :: "32 word"
  buckets :: "bucket_entry list list"

text \<open>A plain object has a destructor or not; a container has \<open>container_destruct\<close>.\<close>

datatype ao2_data = User bool | Container ao2_container

record astobj2 =
  ref_counter :: int
  user_data :: ao2_data

text \<open>\<open>oom\<close> tells which of the next allocations fail; when it is used up none does.\<close>

record ao2_state =
  objs :: "nat \<Rightarrow> astobj2 option"
  brk :: nat
  oom :: "bool list"

record ao2_iterator =
  it_c :: nat
  it_mallocd :: bool
  it_unlink :: bool
  it_bucket :: nat
  it_c_version :: "32 word"
  it_obj :: "nat option"
  it_version :: "32 word"

definition calloc :: "ao2_state \<Rightarrow> nat option \<times> ao2_state" where
  "calloc s =
     (case oom s of
        [] \<Rightarrow> (Some (brk s), s\<lparr>brk := brk s + 1\<rparr>)
      | True # bs \<Rightarrow> (None, s\<lparr>oom := bs\<rparr>)
      | False # bs \<Rightarrow> (Some (brk s), s\<lparr>brk := brk s + 1, oom := bs\<rparr>))"

section \<open>Objects\<close>

definition INTERNAL_OBJ :: "ao2_state \<Rightarrow> nat \<Rightarrow> astobj2 option" where
  "INTERNAL_OBJ s a = objs s a"

definition internal_ao2_alloc :: "ao2_data \<Rightarrow> ao2_state \<Rightarrow> nat option \<times> ao2_state" where
  "internal_ao2_alloc d s =
     (case calloc s of
        (None, s1) \<Rightarrow> (None, s1)
      | (Some a, s1) \<Rightarrow> (Some a, s1\<lparr>objs := (objs s1)(a \<mapsto> \<lparr>ref_counter = 1, user_data = d\<rparr>)\<rparr>))"

definition ao2_alloc :: "bool \<Rightarrow> ao2_state \<Rightarrow> nat option \<times> ao2_state" where
  "ao2_alloc has_destructor s = internal_ao2_alloc (User has_destructor) s"

text \<open>Every bucket in turn, first entry first.\<close>

definition container_objs :: "ao2_container \<Rightarrow> nat list" where
  "container_objs c = map be_obj (concat (buckets c))"

text \<open>The references the destructor of an object gives up; for a container, those of its entries.\<close>

fun destructor_fn :: "(nat \<Rightarrow> nat list) \<Rightarrow> nat \<Rightarrow> ao2_data \<Rightarrow> nat list" where
  "destructor_fn releases a (User True) = releases a"
| "destructor_fn releases a (User False) = []"
| "destructor_fn releases a (Container c) = container_objs c"

definition set_counter :: "nat \<Rightarrow> int \<Rightarrow> ao2_state \<Rightarrow> ao2_state" where
  "set_counter a n s = s\<lparr>objs := (objs s)(a := map_option (\<lambda>ob. ob\<lparr>ref_counter := n\<rparr>) (objs s a))\<rparr>"

definition free_obj :: "nat \<Rightarrow> ao2_state \<Rightarrow> ao2_state" where
  "free_obj a s = s\<lparr>objs := (objs s)(a := None)\<rparr>"

fun fold_opt :: "('a \<Rightarrow> 's \<Rightarrow> 's option) \<Rightarrow> 'a list \<Rightarrow> 's \<Rightarrow> 's option" where
  "fold_opt f [] s = Some s"
| "fold_opt f (x # xs) s = Option.bind (f x s) (fold_opt f xs)"

lemma fold_opt_mono [partial_function_mono]:
  assumes "\<And>x s. mono_option (\<lambda>f. C x s f)"
  shows "mono_option (\<lambda>f. fold_opt (\<lambda>x s. C x s f) xs s)"
proof (induction xs arbitrary: s)
  case (Cons x xs)
  then show ?case using assms by (auto intro!: partial_function_mono)
qed (auto intro: partial_function_mono)

text \<open>The former value of the counter is returned. The last reference runs the destructor.\<close>

partial_function (option) internal_ao2_ref :: "(nat \<Rightarrow> nat list) \<Rightarrow> int \<Rightarrow> nat \<Rightarrow> ao2_state \<Rightarrow> (int \<times> ao2_state) option" where
  "internal_ao2_ref releases delta a s =
     (case INTERNAL_OBJ s a of
        None \<Rightarrow> Some (-1, s)
      | Some ob \<Rightarrow>
          if delta = 0 then Some (ref_counter ob, s)
          else let ret = ref_counter ob; current_value = ret + delta; s1 = set_counter a current_value s
               in if current_value > 0 then Some (ret, s1)
                  else do {
                    s2 \<leftarrow> fold_opt (\<lambda>o' s. do { r \<leftarrow> internal_ao2_ref releases (-1) o' s; Some (snd r) })
                            (destructor_fn releases a (user_data ob)) s1;
                    Some (ret, free_obj a s2)
                  })"

definition ao2_ref :: "(nat \<Rightarrow> nat list) \<Rightarrow> nat \<Rightarrow> int \<Rightarrow> ao2_state \<Rightarrow> ao2_state option" where
  "ao2_ref releases a delta s = map_option snd (internal_ao2_ref releases delta a s)"

section \<open>Containers\<close>

definition hash_zero :: "nat \<Rightarrow> int" where
  "hash_zero a = 0"

text \<open>Without a hash function there is one bucket.\<close>

definition ao2_container_alloc ::
  "nat \<Rightarrow> (nat \<Rightarrow> int) option \<Rightarrow> (nat \<Rightarrow> nat \<Rightarrow> cmp_result) option \<Rightarrow> ao2_state \<Rightarrow> nat option \<times> ao2_state" where
  "ao2_container_alloc n hash cmp s =
     (let num_buckets = (if hash = None then 1 else n)
      in internal_ao2_alloc
           (Container \<lparr>hash_fn = (case hash of Some h \<Rightarrow> h | None \<Rightarrow> hash_zero), cmp_fn = cmp, n_buckets = num_buckets,
                       elements = 0, c_version = 1, buckets = replicate num_buckets []\<rparr>) s)"

definition get_container :: "ao2_state \<Rightarrow> nat \<Rightarrow> ao2_container option" where
  "get_container s a = (case INTERNAL_OBJ s a of Some ob \<Rightarrow> (case user_data ob of Container c \<Rightarrow> Some c | _ \<Rightarrow> None) | None \<Rightarrow> None)"

definition put_container :: "nat \<Rightarrow> ao2_container \<Rightarrow> ao2_state \<Rightarrow> ao2_state" where
  "put_container a c s = s\<lparr>objs := (objs s)(a := map_option (\<lambda>ob. ob\<lparr>user_data := Container c\<rparr>) (objs s a))\<rparr>"

definition ao2_container_count :: "ao2_state \<Rightarrow> nat \<Rightarrow> int option" where
  "ao2_container_count s a = map_option elements (get_container s a)"

text \<open>
  The bucket of an object: \<open>abs\<close> of the hash, which stays negative for the least integer, and the remainder.
  A negative index, or no bucket at all, has no defined behaviour.
\<close>

definition link_bucket :: "ao2_container \<Rightarrow> nat \<Rightarrow> nat option" where
  "link_bucket c a =
     (if n_buckets c = 0 then None
      else let i = to_int32 \<bar>hash_fn c a\<bar> smod int (n_buckets c) in if i < 0 then None else Some (nat i))"

definition insert_entry :: "nat \<Rightarrow> nat \<Rightarrow> nat \<Rightarrow> ao2_container \<Rightarrow> ao2_container" where
  "insert_entry i p a c =
     c\<lparr>c_version := c_version c + 1, elements := elements c + 1,
       buckets := (buckets c)[i := buckets c ! i @ [\<lparr>be_addr = p, be_version = c_version c, be_obj = a\<rparr>]]\<rparr>"

text \<open>The entry, if one was made. \<open>c\<close> has to be a container when it is an object.\<close>

definition internal_ao2_link :: "nat \<Rightarrow> nat \<Rightarrow> ao2_state \<Rightarrow> (nat option \<times> ao2_state) option" where
  "internal_ao2_link c a s =
     (if INTERNAL_OBJ s a = None \<or> INTERNAL_OBJ s c = None then Some (None, s)
      else case calloc s of
          (None, s1) \<Rightarrow> Some (None, s1)
        | (Some p, s1) \<Rightarrow>
            do {
              ct \<leftarrow> get_container s1 c;
              i \<leftarrow> link_bucket ct a;
              Some (Some p, put_container c (insert_entry i p a ct) s1)
            })"

definition ao2_link :: "(nat \<Rightarrow> nat list) \<Rightarrow> nat \<Rightarrow> nat \<Rightarrow> ao2_state \<Rightarrow> (nat option \<times> ao2_state) option" where
  "ao2_link releases c a s =
     do {
       (p, s1) \<leftarrow> internal_ao2_link c a s;
       if p = None then Some (None, s1)
       else do { s2 \<leftarrow> ao2_ref releases a 1 s1; Some (p, s2) }
     }"

definition ao2_match_by_addr :: "nat \<Rightarrow> nat \<Rightarrow> cmp_result" where
  "ao2_match_by_addr a arg = (if a = arg then (True, True) else (False, False))"

definition cb_true :: "nat \<Rightarrow> 'u \<Rightarrow> cmp_result \<times> 'u" where
  "cb_true a u = ((True, False), u)"

definition remove_entry :: "nat \<Rightarrow> nat \<Rightarrow> ao2_container \<Rightarrow> ao2_container" where
  "remove_entry i p c =
     c\<lparr>c_version := c_version c + 1, elements := elements c - 1,
       buckets := (buckets c)[i := filter (\<lambda>e. be_addr e \<noteq> p) (buckets c ! i)]\<rparr>"
section \<open>Searching\<close>

text \<open>
  What is done with an entry that matches: \<open>ret\<close> is the object found so far, \<open>multi\<close> the container that
  collects the results of a search for several objects.
\<close>

definition take_match ::
  "(nat \<Rightarrow> nat list) \<Rightarrow> search_flags \<Rightarrow> nat \<Rightarrow> nat option \<Rightarrow> nat \<Rightarrow> bucket_entry \<Rightarrow> nat option \<Rightarrow> ao2_state \<Rightarrow>
   (nat option \<times> ao2_state) option" where
  "take_match releases flags c multi i e ret s =
     do {
       (ret1, s1) \<leftarrow>
         (if OBJ_NODATA flags then Some (ret, s)
          else if OBJ_UNLINK flags \<or> OBJ_MULTIPLE flags then Some (Some (be_obj e), s)
          else do { s1 \<leftarrow> ao2_ref releases (be_obj e) 1 s; Some (Some (be_obj e), s1) });
       (ret2, s2) \<leftarrow>
         (case (ret1, multi) of
            (Some o', Some mc) \<Rightarrow> do { (p, s2) \<leftarrow> ao2_link releases mc o' s1; Some (None, s2) }
          | _ \<Rightarrow> Some (ret1, s1));
       s3 \<leftarrow>
         (if \<not> OBJ_UNLINK flags then Some s2
          else do {
            ct \<leftarrow> get_container s2 c;
            s3 \<leftarrow> Some (put_container c (remove_entry i (be_addr e) ct) s2);
            if OBJ_NODATA flags \<or> OBJ_MULTIPLE flags then ao2_ref releases (be_obj e) (-1) s3 else Some s3
          });
       Some (ret2, s3)
     }"

text \<open>
  The entries of a bucket. The callback \<open>cb\<close> may change data of its caller, of type \<open>'u\<close>, and no container.
  The first component tells whether the search is over.
\<close>

fun scan_bucket ::
  "(nat \<Rightarrow> nat list) \<Rightarrow> search_flags \<Rightarrow> (nat \<Rightarrow> 'u \<Rightarrow> cmp_result \<times> 'u) \<Rightarrow> nat \<Rightarrow> nat option \<Rightarrow> nat \<Rightarrow> bucket_entry list \<Rightarrow>
   nat option \<Rightarrow> 'u \<Rightarrow> ao2_state \<Rightarrow> (bool \<times> nat option \<times> 'u \<times> ao2_state) option" where
  "scan_bucket releases flags cb c multi i [] ret u s = Some (False, ret, u, s)"
| "scan_bucket releases flags cb c multi i (e # es) ret u s =
     (case cb (be_obj e) u of
        ((False, False), u1) \<Rightarrow> scan_bucket releases flags cb c multi i es ret u1 s
      | ((False, True), u1) \<Rightarrow> Some (True, ret, u1, s)
      | ((True, stop), u1) \<Rightarrow>
          do {
            (ret1, s1) \<leftarrow> take_match releases flags c multi i e ret s;
            if stop \<or> \<not> OBJ_MULTIPLE flags then Some (True, ret1, u1, s1)
            else scan_bucket releases flags cb c multi i es ret1 u1 s1
          })"

text \<open>
  The loop over the buckets from \<open>i\<close> up to \<open>lim\<close>, \<open>last\<close> in the code. With \<open>OBJ_POINTER\<close> and \<open>OBJ_CONTINUE\<close> it goes on with the first
  bucket behind the last one. A search that is over sets the index to \<open>last\<close>, in front of that test.
\<close>

partial_function (option) callback_loop ::
  "(nat \<Rightarrow> nat list) \<Rightarrow> search_flags \<Rightarrow> (nat \<Rightarrow> 'u \<Rightarrow> cmp_result \<times> 'u) \<Rightarrow> nat \<Rightarrow> nat option \<Rightarrow> nat \<Rightarrow> nat \<Rightarrow> nat \<Rightarrow> nat \<Rightarrow>
   nat option \<Rightarrow> 'u \<Rightarrow> ao2_state \<Rightarrow> (nat option \<times> 'u \<times> ao2_state) option" where
  "callback_loop releases flags cb c multi n start i lim ret u s =
     (if \<not> i < lim then Some (ret, u, s)
      else do {
        ct \<leftarrow> get_container s c;
        (over, ret1, u1, s1) \<leftarrow> scan_bucket releases flags cb c multi i (buckets ct ! i) ret u s;
        if ret1 \<noteq> None then Some (ret1, u1, s1)
        else let i1 = (if over then lim else i)
             in if i1 + 1 = n \<and> OBJ_POINTER flags \<and> OBJ_CONTINUE flags
                then callback_loop releases flags cb c multi n start 0 start ret1 u1 s1
                else callback_loop releases flags cb c multi n start (i1 + 1) lim ret1 u1 s1
      })"

text \<open>Where the search starts and ends: a negative remainder means all buckets.\<close>

definition search_bounds :: "search_flags \<Rightarrow> ao2_container \<Rightarrow> nat \<Rightarrow> (nat \<times> nat) option" where
  "search_bounds flags c arg =
     (if \<not> OBJ_POINTER flags then Some (0, n_buckets c)
      else if n_buckets c = 0 then None
      else let i = hash_fn c arg smod int (n_buckets c)
           in if i < 0 then Some (0, n_buckets c)
              else if OBJ_CONTINUE flags then Some (nat i, n_buckets c)
              else Some (nat i, nat i + 1))"

definition ao2_iterator_init :: "(nat \<Rightarrow> nat list) \<Rightarrow> nat \<Rightarrow> bool \<Rightarrow> bool \<Rightarrow> ao2_state \<Rightarrow> (ao2_iterator \<times> ao2_state) option" where
  "ao2_iterator_init releases c mallocd unlink s =
     map_option (Pair \<lparr>it_c = c, it_mallocd = mallocd, it_unlink = unlink, it_bucket = 0, it_c_version = 0, it_obj = None, it_version = 0\<rparr>)
       (ao2_ref releases c 1 s)"

datatype ao2_found = Found_None | Found_Obj nat | Found_Many ao2_iterator

definition run_search ::
  "(nat \<Rightarrow> nat list) \<Rightarrow> search_flags \<Rightarrow> (nat \<Rightarrow> 'u \<Rightarrow> cmp_result \<times> 'u) \<Rightarrow> nat \<Rightarrow> nat option \<Rightarrow> nat \<Rightarrow> 'u \<Rightarrow> ao2_state \<Rightarrow>
   (nat option \<times> 'u \<times> ao2_state) option" where
  "run_search releases flags cb c multi arg u s =
     do {
       ct \<leftarrow> get_container s c;
       (start, lim) \<leftarrow> search_bounds flags ct arg;
       callback_loop releases flags cb c multi (n_buckets ct) start start lim None u s
     }"

definition internal_ao2_callback ::
  "(nat \<Rightarrow> nat list) \<Rightarrow> nat \<Rightarrow> search_flags \<Rightarrow> (nat \<Rightarrow> 'u \<Rightarrow> cmp_result \<times> 'u) option \<Rightarrow> nat \<Rightarrow> 'u \<Rightarrow> ao2_state \<Rightarrow>
   (ao2_found \<times> 'u \<times> ao2_state) option" where
  "internal_ao2_callback releases c flags cb_fn arg u s =
     (let cb = (case cb_fn of Some f \<Rightarrow> f | None \<Rightarrow> cb_true) in
      if INTERNAL_OBJ s c = None then Some (Found_None, u, s)
      else if OBJ_MULTIPLE flags \<and> \<not> OBJ_NODATA flags
      then case ao2_container_alloc 1 None None s of
          (None, s1) \<Rightarrow> Some (Found_None, u, s1)
        | (Some mc, s1) \<Rightarrow>
            (case calloc s1 of
               (None, s2) \<Rightarrow> do { s3 \<leftarrow> ao2_ref releases mc (-1) s2; Some (Found_None, u, s3) }
             | (Some _, s2) \<Rightarrow>
                 do {
                   (ret, u1, s3) \<leftarrow> run_search releases flags cb c (Some mc) arg u s2;
                   (it, s4) \<leftarrow> ao2_iterator_init releases mc True True s3;
                   s5 \<leftarrow> ao2_ref releases mc (-1) s4;
                   Some (Found_Many it, u1, s5)
                 })
      else do {
        (ret, u1, s1) \<leftarrow> run_search releases flags cb c None arg u s;
        Some (case ret of Some a \<Rightarrow> Found_Obj a | None \<Rightarrow> Found_None, u1, s1)
      })"

definition ao2_find :: "(nat \<Rightarrow> nat list) \<Rightarrow> nat \<Rightarrow> nat \<Rightarrow> search_flags \<Rightarrow> ao2_state \<Rightarrow> (ao2_found \<times> ao2_state) option" where
  "ao2_find releases c arg flags s =
     do {
       ct \<leftarrow> get_container s c;
       (r, u, s1) \<leftarrow> internal_ao2_callback releases c flags (map_option (\<lambda>f a u. (f a arg, u)) (cmp_fn ct)) arg () s;
       Some (r, s1)
     }"

definition ao2_unlink :: "(nat \<Rightarrow> nat list) \<Rightarrow> nat \<Rightarrow> nat \<Rightarrow> ao2_state \<Rightarrow> ao2_state option" where
  "ao2_unlink releases c a s =
     (if INTERNAL_OBJ s a = None then Some s
      else map_option (\<lambda>(r, u, s1). s1)
             (internal_ao2_callback releases c
                \<lparr>OBJ_UNLINK = True, OBJ_NODATA = True, OBJ_MULTIPLE = False, OBJ_POINTER = True, OBJ_CONTINUE = False\<rparr>
                (Some (\<lambda>o' u. (ao2_match_by_addr o' a, u))) a () s))"

section \<open>Iterators\<close>

definition ao2_iterator_destroy :: "(nat \<Rightarrow> nat list) \<Rightarrow> ao2_iterator \<Rightarrow> ao2_state \<Rightarrow> ao2_state option" where
  "ao2_iterator_destroy releases a s = ao2_ref releases (it_c a) (-1) s"

text \<open>The entries behind the one with the given address, which has to be in the bucket.\<close>

fun entries_after :: "nat \<Rightarrow> bucket_entry list \<Rightarrow> bucket_entry list option" where
  "entries_after p [] = None"
| "entries_after p (e # es) = (if be_addr e = p then Some es else entries_after p es)"

text \<open>The next bucket and entry with a later version.\<close>

function find_later :: "ao2_container \<Rightarrow> nat \<Rightarrow> 32 word \<Rightarrow> nat \<times> 32 word \<times> bucket_entry option" where
  "find_later c b v =
     (if \<not> b < n_buckets c then (b, v, None)
      else case find (\<lambda>e. v < be_version e) (buckets c ! b) of
          Some e \<Rightarrow> (b, v, Some e)
        | None \<Rightarrow> find_later c (b + 1) 0)"
  by auto
termination by (relation "measure (\<lambda>(c, b, v). n_buckets c - b)") auto

declare find_later.simps [simp del]

text \<open>The position after the current entry is followed, when the container has not changed.\<close>

definition next_position :: "ao2_container \<Rightarrow> ao2_iterator \<Rightarrow> (ao2_iterator \<times> bucket_entry option) option" where
  "next_position c a =
     (let browse = (\<lambda>a. case find_later c (it_bucket a) (it_version a) of (b, v, p) \<Rightarrow> (a\<lparr>it_bucket := b, it_version := v\<rparr>, p))
      in case it_obj a of
          Some p \<Rightarrow>
            if c_version c = it_c_version a
            then do {
              rest \<leftarrow> entries_after p (buckets c ! it_bucket a);
              Some (case rest of
                  e # _ \<Rightarrow> (a, Some e)
                | [] \<Rightarrow> browse (a\<lparr>it_bucket := it_bucket a + 1, it_version := 0, it_obj := None\<rparr>))
            }
            else Some (browse a)
        | None \<Rightarrow> Some (browse a))"

text \<open>An iterator that unlinks hands the reference of the container over to the caller.\<close>

definition internal_ao2_iterator_next :: "ao2_iterator \<Rightarrow> ao2_state \<Rightarrow> (nat option \<times> bool \<times> ao2_iterator \<times> ao2_state) option" where
  "internal_ao2_iterator_next a s =
     (if INTERNAL_OBJ s (it_c a) = None then Some (None, False, a, s)
      else do {
        ct \<leftarrow> get_container s (it_c a);
        (a1, p) \<leftarrow> next_position ct a;
        Some (case p of
            None \<Rightarrow> (None, False, a1, s)
          | Some e \<Rightarrow>
              if it_unlink a1
              then let ct1 = remove_entry (it_bucket a1) (be_addr e) ct
                   in (Some (be_obj e), False, a1\<lparr>it_version := 0, it_obj := None, it_c_version := c_version ct1\<rparr>,
                       put_container (it_c a) ct1 s)
              else (Some (be_obj e), True, a1\<lparr>it_version := be_version e, it_obj := Some (be_addr e), it_c_version := c_version ct\<rparr>, s))
      })"

definition ao2_iterator_next :: "(nat \<Rightarrow> nat list) \<Rightarrow> ao2_iterator \<Rightarrow> ao2_state \<Rightarrow> (nat option \<times> ao2_iterator \<times> ao2_state) option" where
  "ao2_iterator_next releases a s =
     do {
       (ret, q, a1, s1) \<leftarrow> internal_ao2_iterator_next a s;
       case ret of
         Some o' \<Rightarrow> if q then do { s2 \<leftarrow> ao2_ref releases o' 1 s1; Some (ret, a1, s2) } else Some (ret, a1, s1)
       | None \<Rightarrow> Some (ret, a1, s1)
     }"

section \<open>References\<close>

text \<open>
  The references that objects hold, those in \<open>D\<close> excepted: objects whose destructor runs have given theirs up.
\<close>

definition data_refs :: "(nat \<Rightarrow> nat list) \<Rightarrow> nat \<Rightarrow> astobj2 option \<Rightarrow> nat multiset" where
  "data_refs releases a ob = (case ob of Some ob \<Rightarrow> mset (destructor_fn releases a (user_data ob)) | None \<Rightarrow> {#})"

definition held :: "(nat \<Rightarrow> nat list) \<Rightarrow> nat set \<Rightarrow> ao2_state \<Rightarrow> nat multiset" where
  "held releases D s = (\<Sum>a \<in> dom (objs s) - D. data_refs releases a (objs s a))"

text \<open>
  With the multiset \<open>ext\<close> of references the callers have: every counter is the number of references to its
  object, every reference is to a live object, and no object without references is left.
\<close>

definition accounted :: "(nat \<Rightarrow> nat list) \<Rightarrow> nat multiset \<Rightarrow> nat set \<Rightarrow> ao2_state \<Rightarrow> bool" where
  "accounted releases ext D s \<longleftrightarrow>
     finite (dom (objs s)) \<and> set_mset (ext + held releases D s) \<subseteq> dom (objs s) - D \<and>
     (\<forall>a ob. objs s a = Some ob \<longrightarrow> a \<notin> D \<longrightarrow>
        a \<in># ext + held releases D s \<and> ref_counter ob = int (count (ext + held releases D s) a))"

text \<open>Only counters change, and objects go.\<close>

definition shrinks :: "ao2_state \<Rightarrow> ao2_state \<Rightarrow> bool" where
  "shrinks s s' \<longleftrightarrow> brk s' = brk s \<and> oom s' = oom s \<and>
     (\<forall>a ob'. objs s' a = Some ob' \<longrightarrow> (\<exists>ob. objs s a = Some ob \<and> user_data ob' = user_data ob))"

lemma shrinks_refl [simp]: "shrinks s s"
  by (simp add: shrinks_def)

lemma shrinks_trans: "shrinks s s' \<Longrightarrow> shrinks s' s'' \<Longrightarrow> shrinks s s''"
  unfolding shrinks_def by metis

lemma held_remove:
  assumes "finite (dom (objs s))" "objs s a = Some ob" "a \<notin> D"
  shows "held releases D s = mset (destructor_fn releases a (user_data ob)) + held releases (insert a D) s"
proof -
  have d: "dom (objs s) - D = insert a (dom (objs s) - insert a D)" using assms by auto
  have "held releases D s = (\<Sum>x \<in> insert a (dom (objs s) - insert a D). data_refs releases x (objs s x))"
    unfolding held_def d [symmetric] ..
  also have "\<dots> = data_refs releases a (objs s a) + held releases (insert a D) s"
    unfolding held_def using assms(1) by (subst sum.insert) auto
  finally show ?thesis using assms(2) by (simp add: data_refs_def)
qed

lemma held_cong:
  assumes "dom (objs s') = dom (objs s)" "\<And>a. a \<notin> D \<Longrightarrow> map_option user_data (objs s' a) = map_option user_data (objs s a)"
  shows "held releases D s' = held releases D s"
  unfolding held_def assms(1)
proof (rule sum.cong)
  fix a assume "a \<in> dom (objs s) - D"
  with assms(2) [of a] show "data_refs releases a (objs s' a) = data_refs releases a (objs s a)"
    by (auto simp: data_refs_def split: option.splits)
qed simp

lemma set_counter_objs:
  "objs (set_counter a n s) b = (if b = a then map_option (\<lambda>ob. ob\<lparr>ref_counter := n\<rparr>) (objs s a) else objs s b)"
  by (simp add: set_counter_def)

lemma set_counter_dom [simp]: "dom (objs (set_counter a n s)) = dom (objs s)"
  by (auto simp: set_counter_objs split: if_splits)

lemma set_counter_shrinks: "shrinks s (set_counter a n s)"
  by (auto simp: shrinks_def set_counter_def)

lemma held_set_counter [simp]: "held releases D (set_counter a n s) = held releases D s"
  by (rule held_cong) (auto simp: set_counter_objs option.map_comp comp_def)

lemma free_obj_shrinks: "shrinks s (free_obj a s)"
  by (auto simp: shrinks_def free_obj_def)

lemma free_obj_dom: "dom (objs (free_obj a s)) = dom (objs s) - {a}"
  by (auto simp: free_obj_def)

lemma held_free_obj: "held releases D (free_obj a s) = held releases (insert a D) s"
proof -
  have "dom (objs s) - {a} - D = dom (objs s) - insert a D" by auto
  then show ?thesis unfolding held_def free_obj_dom by (auto simp: free_obj_def intro: sum.cong)
qed

lemma held_shrinks:
  assumes "shrinks s s'" "finite (dom (objs s))"
  shows "held releases D s' \<subseteq># held releases D s"
proof -
  have sub: "dom (objs s') - D \<subseteq> dom (objs s) - D" using assms(1) by (fastforce simp: shrinks_def)
  have eq: "data_refs releases a (objs s' a) = data_refs releases a (objs s a)" if "a \<in> dom (objs s') - D" for a
    using that assms(1) by (fastforce simp: shrinks_def data_refs_def)
  have "held releases D s' = (\<Sum>a \<in> dom (objs s') - D. data_refs releases a (objs s a))"
    unfolding held_def using eq by (intro sum.cong) auto
  also have "\<dots> \<subseteq># held releases D s"
    unfolding held_def sum.subset_diff [OF sub finite_Diff [OF assms(2)]] by simp
  finally show ?thesis .
qed

text \<open>Taking and dropping a reference that is not the last one.\<close>

lemma accounted_counter:
  assumes "accounted releases ext D s" "objs s a = Some ob" "a \<notin> D"
    and "a \<in># ext' + held releases D s" "set_mset ext' \<subseteq> insert a (set_mset ext)"
    and "int (count (ext' + held releases D s) a) = n" "\<And>b. b \<noteq> a \<Longrightarrow> count ext' b = count ext b"
  shows "accounted releases ext' D (set_counter a n s)"
  unfolding accounted_def held_set_counter set_counter_dom
proof (intro conjI allI impI)
  note acc = assms(1) [unfolded accounted_def]
  show "finite (dom (objs s))" using acc by blast
  show "set_mset (ext' + held releases D s) \<subseteq> dom (objs s) - D"
    using acc assms(2,3,5) by (auto simp: domIff)
  fix b ob' assume b: "objs (set_counter a n s) b = Some ob'" "b \<notin> D"
  have "b \<in># ext' + held releases D s \<and> ref_counter ob' = int (count (ext' + held releases D s) b)"
  proof (cases "b = a")
    case True
    with b assms(2,4,6) show ?thesis by (auto simp: set_counter_objs)
  next
    case False
    with b have "objs s b = Some ob'" by (simp add: set_counter_objs)
    with acc b(2) have "b \<in># ext + held releases D s" "ref_counter ob' = int (count (ext + held releases D s) b)" by blast+
    moreover have "count ext' b = count ext b" using assms(7) False by blast
    ultimately show ?thesis by (simp add: count_greater_zero_iff [symmetric] del: count_greater_zero_iff)
  qed
  then show "b \<in># ext' + held releases D s" "ref_counter ob' = int (count (ext' + held releases D s) b)" by blast+
qed

lemma in_mset_int: "a \<in># M \<longleftrightarrow> 0 < int (count M a)"
  by simp

lemma drop_ref_bind [simp]: "Option.bind r (fold_opt f []) = r"
  by (cases r) simp_all

lemma accounted_dying:
  assumes "accounted releases (add_mset a ext) D s" "objs s a = Some ob" "a \<notin> D" "ref_counter ob = 1"
  shows "accounted releases (ext + mset (destructor_fn releases a (user_data ob))) (insert a D) (set_counter a n s)"
proof -
  note acc = assms(1) [unfolded accounted_def]
  have fin: "finite (dom (objs s))" using acc by blast
  let ?R = "mset (destructor_fn releases a (user_data ob)) + held releases (insert a D) s"
  have h: "held releases D s = ?R" by (rule held_remove [OF fin assms(2,3)])
  from acc assms(2,3) have "ref_counter ob = int (count (add_mset a ext + ?R) a)" unfolding h by blast
  with assms(4) have "int (count (ext + ?R) a) = 0" unfolding count_union count_add_mset by simp
  then have na: "a \<notin># ext + ?R" unfolding in_mset_int by simp
  show ?thesis unfolding accounted_def held_set_counter set_counter_dom
  proof (intro conjI allI impI)
    show "finite (dom (objs s))" by (rule fin)
    show "set_mset (ext + mset (destructor_fn releases a (user_data ob)) + held releases (insert a D) s) \<subseteq> dom (objs s) - insert a D"
      using acc na unfolding h by auto
    fix b ob' assume b: "objs (set_counter a n s) b = Some ob'" "b \<notin> insert a D"
    then have o: "objs s b = Some ob'" by (simp add: set_counter_objs)
    with acc b(2) have c: "b \<in># add_mset a ext + ?R" "ref_counter ob' = int (count (add_mset a ext + ?R) b)" unfolding h by blast+
    from c(1) b(2) show "b \<in># ext + mset (destructor_fn releases a (user_data ob)) + held releases (insert a D) s" by auto
    from c(2) b(2) show "ref_counter ob' = int (count (ext + mset (destructor_fn releases a (user_data ob)) + held releases (insert a D) s) b)" by auto
  qed
qed

lemma accounted_free:
  assumes "accounted releases ext (insert a D) s"
  shows "accounted releases ext D (free_obj a s)"
  using assms unfolding accounted_def held_free_obj free_obj_dom
  by (auto simp: free_obj_def split: if_splits)

definition drop_ref :: "(nat \<Rightarrow> nat list) \<Rightarrow> nat \<Rightarrow> ao2_state \<Rightarrow> ao2_state option" where
  "drop_ref releases o' s = do { r \<leftarrow> internal_ao2_ref releases (-1) o' s; Some (snd r) }"

lemma ao2_ref_drop: "ao2_ref releases a (-1) s = drop_ref releases a s"
  by (cases "internal_ao2_ref releases (-1) a s") (simp_all add: ao2_ref_def drop_ref_def)

lemma drop_ref_last:
  assumes "objs s a = Some ob" "ref_counter ob \<le> 1"
  shows "drop_ref releases a s =
    do { s2 \<leftarrow> fold_opt (drop_ref releases) (destructor_fn releases a (user_data ob)) (set_counter a (ref_counter ob - 1) s);
         Some (free_obj a s2) }"
  unfolding drop_ref_def [abs_def] using assms
  by (subst internal_ao2_ref.simps) (simp add: INTERNAL_OBJ_def Let_def)

lemma drop_ref_more:
  assumes "objs s a = Some ob" "ref_counter ob > 1"
  shows "drop_ref releases a s = Some (set_counter a (ref_counter ob - 1) s)"
  unfolding drop_ref_def using assms by (subst internal_ao2_ref.simps) (simp add: INTERNAL_OBJ_def Let_def)

text \<open>
  Dropping references returns, and leaves every counter right again: by induction on the number of all
  references there are.
\<close>

lemma drop_refs:
  assumes "accounted releases (ext + mset xs) D s"
  shows "\<exists>s'. fold_opt (drop_ref releases) xs s = Some s' \<and> accounted releases ext D s' \<and> shrinks s s'"
  using assms
proof (induction "size (ext + mset xs + held releases D s)" arbitrary: xs ext D s rule: less_induct)
  case less
  note acc = less.prems [unfolded accounted_def]
  show ?case
  proof (cases xs)
    case Nil
    with less.prems show ?thesis by simp
  next
    case (Cons x ys)
    have fin: "finite (dom (objs s))" using acc by blast
    have "x \<in> dom (objs s) - D" using acc Cons by auto
    then obtain ob where x: "objs s x = Some ob" "x \<notin> D" by blast
    have split: "ext + mset xs = add_mset x (ext + mset ys)" using Cons by simp
    let ?k = "ref_counter ob"
    have k: "?k = int (count (ext + mset ys + held releases D s) x) + 1" using acc x split by auto
    have step: "\<exists>s1. drop_ref releases x s = Some s1 \<and> accounted releases (ext + mset ys) D s1 \<and> shrinks s s1"
    proof (cases "?k > 1")
      case True
      have "accounted releases (ext + mset ys) D (set_counter x (?k - 1) s)"
      proof (rule accounted_counter [OF less.prems x])
        show "x \<in># ext + mset ys + held releases D s" using True k unfolding in_mset_int by linarith
        show "set_mset (ext + mset ys) \<subseteq> insert x (set_mset (ext + mset xs))" using Cons by auto
        show "int (count (ext + mset ys + held releases D s) x) = ?k - 1" using k by simp
        show "count (ext + mset ys) b = count (ext + mset xs) b" if "b \<noteq> x" for b using that Cons by simp
      qed
      with drop_ref_more [OF x(1) True] set_counter_shrinks show ?thesis by simp
    next
      case False
      with k have one: "?k = 1" by simp
      let ?cs = "destructor_fn releases x (user_data ob)"
      have h: "held releases D s = mset ?cs + held releases (insert x D) s" by (rule held_remove [OF fin x])
      have a: "accounted releases (ext + mset ys + mset ?cs) (insert x D) (set_counter x (?k - 1) s)"
        by (rule accounted_dying [OF less.prems [unfolded split] x one])
      have "size (ext + mset ys + mset ?cs + held releases (insert x D) (set_counter x (?k - 1) s)) < size (ext + mset xs + held releases D s)"
        by (simp add: h split)
      from less.hyps [OF this a] obtain s2 where
        s2: "fold_opt (drop_ref releases) ?cs (set_counter x (?k - 1) s) = Some s2" "accounted releases (ext + mset ys) (insert x D) s2"
          "shrinks (set_counter x (?k - 1) s) s2" by blast
      have "drop_ref releases x s = Some (free_obj x s2)" using drop_ref_last [OF x(1)] one s2(1) by simp
      moreover have "shrinks s (free_obj x s2)"
        using shrinks_trans [OF shrinks_trans [OF set_counter_shrinks s2(3)] free_obj_shrinks] .
      ultimately show ?thesis using accounted_free [OF s2(2)] by blast
    qed
    then obtain s1 where s1: "drop_ref releases x s = Some s1" "accounted releases (ext + mset ys) D s1" "shrinks s s1" by blast
    have "size (held releases D s1) \<le> size (held releases D s)" by (rule size_mset_mono [OF held_shrinks [OF s1(3) fin]])
    then have "size (ext + mset ys + held releases D s1) < size (ext + mset xs + held releases D s)" using Cons by simp
    from less.hyps [OF this s1(2)] obtain s' where "fold_opt (drop_ref releases) ys s1 = Some s'" "accounted releases ext D s'" "shrinks s1 s'" by blast
    with s1(1) shrinks_trans [OF s1(3)] Cons show ?thesis by auto
  qed
qed

lemma drop_ref_accounted:
  assumes "accounted releases (add_mset a ext) {} s"
  shows "\<exists>s'. ao2_ref releases a (-1) s = Some s' \<and> accounted releases ext {} s' \<and> shrinks s s'"
  using drop_refs [of releases ext "[a]" "{}" s] assms by (simp add: ao2_ref_drop)

lemma add_ref_accounted:
  assumes "accounted releases ext {} s" "objs s a = Some ob"
  shows "\<exists>s'. ao2_ref releases a 1 s = Some s' \<and> accounted releases (add_mset a ext) {} s' \<and> shrinks s s' \<and> dom (objs s') = dom (objs s)"
proof -
  have k: "a \<in># ext + held releases {} s" "ref_counter ob = int (count (ext + held releases {} s) a)"
    using assms by (auto simp: accounted_def)
  then have pos: "ref_counter ob > 0" unfolding in_mset_int by linarith
  have "ao2_ref releases a 1 s = Some (set_counter a (ref_counter ob + 1) s)"
    unfolding ao2_ref_def using assms(2) pos by (subst internal_ao2_ref.simps) (simp add: INTERNAL_OBJ_def Let_def)
  moreover have "accounted releases (add_mset a ext) {} (set_counter a (ref_counter ob + 1) s)"
    by (rule accounted_counter [OF assms]) (use k in auto)
  ultimately show ?thesis using set_counter_shrinks by simp
qed

section \<open>Well-formed states\<close>

definition container_ok :: "nat \<Rightarrow> ao2_container \<Rightarrow> bool" where
  "container_ok b c \<longleftrightarrow> 0 < n_buckets c \<and> length (buckets c) = n_buckets c \<and>
     distinct (map be_addr (concat (buckets c))) \<and> (\<forall>e \<in> set (concat (buckets c)). be_addr e < b) \<and>
     elements c = int (length (concat (buckets c)))"

definition ao2_ok :: "(nat \<Rightarrow> nat list) \<Rightarrow> nat multiset \<Rightarrow> ao2_state \<Rightarrow> bool" where
  "ao2_ok releases ext s \<longleftrightarrow> accounted releases ext {} s \<and> dom (objs s) \<subseteq> {..<brk s} \<and>
     (\<forall>a c. get_container s a = Some c \<longrightarrow> container_ok (brk s) c)"

lemma get_container_Some: "get_container s a = Some c \<longleftrightarrow> (\<exists>ob. objs s a = Some ob \<and> user_data ob = Container c)"
  by (auto simp: get_container_def INTERNAL_OBJ_def split: option.splits ao2_data.splits)

lemma get_container_shrinks:
  assumes "shrinks s s'" "objs s' a \<noteq> None"
  shows "get_container s' a = get_container s a"
  using assms unfolding shrinks_def get_container_def INTERNAL_OBJ_def by force

lemma get_container_shrinks_Some: "shrinks s s' \<Longrightarrow> get_container s' a = Some c \<Longrightarrow> get_container s a = Some c"
  by (fastforce simp: get_container_Some shrinks_def)

lemma ao2_ok_shrinks:
  assumes "ao2_ok releases ext s" "shrinks s s'" "accounted releases ext' {} s'"
  shows "ao2_ok releases ext' s'"
proof -
  have b: "brk s' = brk s" using assms(2) by (simp add: shrinks_def)
  have "dom (objs s') \<subseteq> dom (objs s)" using assms(2) by (fastforce simp: shrinks_def)
  moreover have "container_ok (brk s') c" if "get_container s' a = Some c" for a c
    using get_container_shrinks_Some [OF assms(2) that] assms(1) b by (auto simp: ao2_ok_def)
  ultimately show ?thesis using assms(1,3) b unfolding ao2_ok_def by (metis subset_trans)
qed

lemma accounted_live: "accounted releases ext {} s \<Longrightarrow> a \<in># ext + held releases {} s \<Longrightarrow> objs s a \<noteq> None"
  unfolding accounted_def by fastforce

lemma ao2_ok_live: "ao2_ok releases ext s \<Longrightarrow> a \<in># ext \<Longrightarrow> objs s a \<noteq> None"
  unfolding ao2_ok_def using accounted_live [of releases ext s a] by simp

lemma container_refs_held:
  assumes "finite (dom (objs s))" "get_container s c = Some ct"
  shows "mset (container_objs ct) \<subseteq># held releases {} s"
proof -
  obtain ob where ob: "objs s c = Some ob" "user_data ob = Container ct" using assms(2) get_container_Some by blast
  from held_remove [OF assms(1) ob(1), of "{}"] ob(2) show ?thesis by simp
qed

lemma entry_live:
  assumes "ao2_ok releases ext s" "get_container s c = Some ct" "e \<in> set (concat (buckets ct))"
  shows "objs s (be_obj e) \<noteq> None"
proof -
  have acc: "accounted releases ext {} s" using assms(1) by (simp add: ao2_ok_def)
  then have fin: "finite (dom (objs s))" by (simp add: accounted_def)
  have "be_obj e \<in># mset (container_objs ct)" using assms(3) by (auto simp: container_objs_def)
  then have "be_obj e \<in># ext + held releases {} s" using mset_subset_eqD [OF container_refs_held [OF fin assms(2)]] by auto
  with acc show ?thesis by (rule accounted_live)
qed

lemma put_container_objs:
  "objs (put_container a c s) b = (if b = a then map_option (\<lambda>ob. ob\<lparr>user_data := Container c\<rparr>) (objs s a) else objs s b)"
  by (simp add: put_container_def)

lemma put_container_dom [simp]: "dom (objs (put_container a c s)) = dom (objs s)"
  by (auto simp: put_container_objs split: if_splits)

lemma put_container_other [simp]: "brk (put_container a c s) = brk s" "oom (put_container a c s) = oom s"
  by (simp_all add: put_container_def)

lemma get_put_container: "objs s a \<noteq> None \<Longrightarrow> get_container (put_container a c s) b = (if b = a then Some c else get_container s b)"
  by (auto simp: get_container_def INTERNAL_OBJ_def put_container_objs)

lemma put_accounted:
  assumes "accounted releases ext {} s" "get_container s c = Some ct"
    and "ext' + mset (container_objs ct') = ext + mset (container_objs ct)"
  shows "accounted releases ext' {} (put_container c ct' s)"
proof -
  obtain ob where ob: "objs s c = Some ob" "user_data ob = Container ct" using assms(2) get_container_Some by blast
  have fin: "finite (dom (objs s))" using assms(1) by (simp add: accounted_def)
  let ?s = "put_container c ct' s"
  have ob': "objs ?s c = Some (ob\<lparr>user_data := Container ct'\<rparr>)" using ob by (simp add: put_container_objs)
  have o: "held releases {c} ?s = held releases {c} s" by (rule held_cong) (auto simp: put_container_objs)
  have "held releases {} ?s = mset (container_objs ct') + held releases {c} ?s"
    using held_remove [of ?s, OF _ ob', of "{}" releases] fin by simp
  moreover have "held releases {} s = mset (container_objs ct) + held releases {c} s"
    using held_remove [OF fin ob(1), of "{}" releases] ob(2) by simp
  ultimately have t: "ext' + held releases {} ?s = ext + held releases {} s"
    using assms(3) unfolding o by (simp add: add.assoc [symmetric])
  show ?thesis using assms(1) unfolding accounted_def t put_container_dom
    by (auto simp: put_container_objs split: if_splits)
qed

lemma put_ok:
  assumes "ao2_ok releases ext s" "get_container s c = Some ct" "container_ok (brk s) ct'"
    and "ext' + mset (container_objs ct') = ext + mset (container_objs ct)"
  shows "ao2_ok releases ext' (put_container c ct' s)"
proof -
  have "objs s c \<noteq> None" using assms(2) by (auto simp: get_container_Some)
  with assms put_accounted [OF _ assms(2,4), of releases] show ?thesis
    by (auto simp: ao2_ok_def get_put_container split: if_splits)
qed

lemma calloc_cases:
  obtains "calloc s = (None, s\<lparr>oom := tl (oom s)\<rparr>)" | "calloc s = (Some (brk s), s\<lparr>brk := brk s + 1, oom := tl (oom s)\<rparr>)"
  by (cases s; cases "oom s"; cases "hd (oom s)") (auto simp: calloc_def)

lemma container_ok_mono: "container_ok b c \<Longrightarrow> b \<le> b' \<Longrightarrow> container_ok b' c"
  by (fastforce simp: container_ok_def)

lemma get_container_more [simp]: "get_container (s\<lparr>brk := b\<rparr>) a = get_container s a" "get_container (s\<lparr>oom := f\<rparr>) a = get_container s a"
  by (simp_all add: get_container_def INTERNAL_OBJ_def)

lemma accounted_more [simp]:
  "accounted releases ext D (s\<lparr>brk := b\<rparr>) = accounted releases ext D s"
  "accounted releases ext D (s\<lparr>oom := f\<rparr>) = accounted releases ext D s"
  by (simp_all add: accounted_def held_def)

lemma ao2_ok_more:
  assumes "ao2_ok releases ext s"
  shows "ao2_ok releases ext (s\<lparr>oom := f\<rparr>)" "ao2_ok releases ext (s\<lparr>brk := brk s + 1, oom := f\<rparr>)"
  using assms container_ok_mono [of "brk s" _ "brk s + 1"] unfolding ao2_ok_def by auto

section \<open>Operations keep the references accounted\<close>

lemma alloc_ok:
  assumes "ao2_ok releases (ext + mset (destructor_fn releases (brk s) d)) s"
    and "\<forall>c. d = Container c \<longrightarrow> container_ok (brk s) c"
  shows "(\<exists>s'. internal_ao2_alloc d s = (None, s') \<and> ao2_ok releases (ext + mset (destructor_fn releases (brk s) d)) s' \<and> objs s' = objs s) \<or>
    (\<exists>s'. internal_ao2_alloc d s = (Some (brk s), s') \<and> ao2_ok releases (add_mset (brk s) ext) s' \<and>
       objs s' = (objs s)(brk s \<mapsto> \<lparr>ref_counter = 1, user_data = d\<rparr>) \<and> brk s' = brk s + 1)"
proof (cases rule: calloc_cases [of s])
  case 1
  with ao2_ok_more(1) [OF assms(1)] show ?thesis by (simp add: internal_ao2_alloc_def)
next
  case 2
  let ?a = "brk s" and ?m = "mset (destructor_fn releases (brk s) d)"
  let ?s = "s\<lparr>brk := brk s + 1, oom := tl (oom s), objs := (objs s)(brk s \<mapsto> \<lparr>ref_counter = 1, user_data = d\<rparr>)\<rparr>"
  have acc: "accounted releases (ext + ?m) {} s" using assms(1) by (simp add: ao2_ok_def)
  note acc' = acc [unfolded accounted_def]
  have n: "objs s ?a = None" using assms(1) by (auto simp: ao2_ok_def)
  have D: "dom (objs ?s) = insert ?a (dom (objs s))" by auto
  have fin: "finite (dom (objs ?s))" unfolding D using acc' by simp
  have sum: "(\<Sum>x\<in>dom (objs s). data_refs releases x (objs ?s x)) = (\<Sum>x\<in>dom (objs s). data_refs releases x (objs s x))"
    using n by (intro sum.cong) auto
  have "held releases {} ?s = data_refs releases ?a (objs ?s ?a) + (\<Sum>x\<in>dom (objs s). data_refs releases x (objs ?s x))"
    unfolding held_def Diff_empty D using acc' n by (subst sum.insert) auto
  then have h: "held releases {} ?s = ?m + held releases {} s" unfolding sum by (simp add: held_def data_refs_def)
  have tot: "add_mset ?a ext + held releases {} ?s = add_mset ?a (ext + ?m + held releases {} s)"
    unfolding h by (simp add: add.assoc)
  have sub: "set_mset (ext + ?m + held releases {} s) \<subseteq> dom (objs s)" using acc' by auto
  then have na: "?a \<notin># ext + ?m + held releases {} s" using n by (metis domIff subsetD)
  have "accounted releases (add_mset ?a ext) {} ?s"
    unfolding accounted_def tot
  proof (intro conjI allI impI)
    show "finite (dom (objs ?s))" by (rule fin)
    show "set_mset (add_mset ?a (ext + ?m + held releases {} s)) \<subseteq> dom (objs ?s) - {}" unfolding D using sub by auto
    fix b ob assume b: "objs ?s b = Some ob"
    show "b \<in># add_mset ?a (ext + ?m + held releases {} s)" using b acc' by (cases "b = ?a") auto
    show "ref_counter ob = int (count (add_mset ?a (ext + ?m + held releases {} s)) b)"
    proof (cases "b = ?a")
      case True
      with b have "ref_counter ob = 1" by auto
      moreover have "count (ext + ?m + held releases {} s) ?a = 0" using na by (simp add: not_in_iff)
      ultimately show ?thesis using True by simp
    next
      case False
      with b acc' show ?thesis by auto
    qed
  qed
  moreover have "container_ok (brk ?s) c" if "get_container ?s b = Some c" for b c
  proof (cases "b = ?a")
    case True
    with that assms(2) have "container_ok (brk s) c" by (auto simp: get_container_Some)
    then show ?thesis by (rule container_ok_mono) simp
  next
    case False
    with that have "get_container s b = Some c" by (auto simp: get_container_Some)
    with assms(1) have "container_ok (brk s) c" by (auto simp: ao2_ok_def)
    then show ?thesis by (rule container_ok_mono) simp
  qed
  moreover have "dom (objs ?s) \<subseteq> {..<brk ?s}" using assms(1) by (auto simp: ao2_ok_def)
  ultimately have "ao2_ok releases (add_mset ?a ext) ?s" unfolding ao2_ok_def by blast
  with 2 show ?thesis by (simp add: internal_ao2_alloc_def)
qed

lemma smod_less: "0 < (n::int) \<Longrightarrow> x smod n < n"
  using smod_int_compares(1) [of x n] smod_int_compares(4) [of x n] by (cases "0 \<le> x") auto

lemma link_bucket_less: "link_bucket c a = Some i \<Longrightarrow> i < n_buckets c"
  using smod_less [of "int (n_buckets c)" "to_int32 \<bar>hash_fn c a\<bar>"]
  by (auto simp: link_bucket_def Let_def split: if_splits)

lemma mset_exchange:
  fixes A :: "'a multiset"
  assumes "A + B = E + C" "E + X = B + Y"
  shows "A + X = C + Y"
proof -
  have "(A + X) + B = (A + B) + X" by (simp only: ac_simps)
  also have "\<dots> = (E + X) + C" unfolding assms(1) by (simp only: ac_simps)
  also have "\<dots> = (C + Y) + B" unfolding assms(2) by (simp only: ac_simps)
  finally show ?thesis by simp
qed

lemma container_objs_update:
  assumes "i < length (buckets c)" "mset (map be_obj es) + X = mset (map be_obj (buckets c ! i)) + Y"
  shows "mset (container_objs (c\<lparr>buckets := (buckets c)[i := es]\<rparr>)) + X = mset (container_objs c) + Y"
proof -
  have "mset (concat ((buckets c)[i := es])) + mset (buckets c ! i) = mset es + mset (concat (buckets c))"
    by (rule mset_concat_update [OF assms(1)])
  then have "image_mset be_obj (mset (concat ((buckets c)[i := es])) + mset (buckets c ! i)) =
      image_mset be_obj (mset es + mset (concat (buckets c)))" by (rule arg_cong)
  then have "mset (container_objs (c\<lparr>buckets := (buckets c)[i := es]\<rparr>)) + mset (map be_obj (buckets c ! i)) =
      mset (map be_obj es) + mset (container_objs c)" by (simp add: container_objs_def)
  from mset_exchange [OF this assms(2)] show ?thesis .
qed

lemma container_ok_mset:
  assumes "container_ok b c" "mset (concat (buckets c)) = add_mset e (mset (concat bs))" "length bs = n_buckets c"
  shows "container_ok b (c\<lparr>c_version := v, elements := elements c - 1, buckets := bs\<rparr>)"
proof -
  have "image_mset be_addr (mset (concat (buckets c))) = add_mset (be_addr e) (image_mset be_addr (mset (concat bs)))"
    by (simp add: assms(2))
  then have "mset (map be_addr (concat (buckets c))) = mset (be_addr e # map be_addr (concat bs))" by simp
  then have "distinct (be_addr e # map be_addr (concat bs))"
    using assms(1) mset_eq_imp_distinct_iff unfolding container_ok_def by blast
  moreover have "set (concat bs) \<subseteq> set (concat (buckets c))" using arg_cong [OF assms(2), of set_mset] by auto
  moreover have "length (concat (buckets c)) = Suc (length (concat bs))" using arg_cong [OF assms(2), of size] by simp
  ultimately show ?thesis using assms(1,3) by (auto simp: container_ok_def)
qed

lemma filter_addr: "distinct (map be_addr es) \<Longrightarrow> e \<in> set es \<Longrightarrow> filter (\<lambda>x. be_addr x \<noteq> be_addr e) es = remove1 e es"
proof (induction es)
  case (Cons x es)
  show ?case
  proof (cases "x = e")
    case True
    then have "\<forall>y \<in> set es. be_addr y \<noteq> be_addr e" using Cons.prems(1) by (auto simp: rev_image_eqI)
    then have "filter (\<lambda>x. be_addr x \<noteq> be_addr e) es = es" by (simp add: filter_id_conv)
    with True show ?thesis by simp
  next
    case False
    with Cons have "be_addr x \<noteq> be_addr e" by auto
    with Cons False show ?thesis by auto
  qed
qed simp

lemma bucket_distinct:
  assumes "container_ok b c" "i < n_buckets c"
  shows "distinct (map be_addr (buckets c ! i))"
proof -
  have "buckets c ! i \<in> set (buckets c)" using assms by (simp add: container_ok_def)
  then obtain us vs where "buckets c = us @ (buckets c ! i) # vs" by (meson split_list)
  then have "distinct (map be_addr (concat (us @ (buckets c ! i) # vs)))" using assms(1) by (simp add: container_ok_def)
  then show ?thesis by simp
qed

lemma remove_entry_ok:
  assumes "container_ok b c" "i < n_buckets c" "e \<in> set (buckets c ! i)"
  shows "container_ok b (remove_entry i (be_addr e) c)"
    "add_mset (be_obj e) (mset (container_objs (remove_entry i (be_addr e) c))) = mset (container_objs c)"
    "set (buckets (remove_entry i (be_addr e) c) ! i) = set (buckets c ! i) - {e}"
proof -
  have len: "i < length (buckets c)" using assms by (simp add: container_ok_def)
  note d = bucket_distinct [OF assms(1,2)]
  have r: "filter (\<lambda>x. be_addr x \<noteq> be_addr e) (buckets c ! i) = remove1 e (buckets c ! i)" by (rule filter_addr [OF d assms(3)])
  have m: "mset (concat (buckets c)) = add_mset e (mset (concat ((buckets c)[i := remove1 e (buckets c ! i)])))"
    by (rule mset_concat_remove1 [OF len assms(3)])
  show "container_ok b (remove_entry i (be_addr e) c)"
    unfolding remove_entry_def r by (rule container_ok_mset [OF assms(1) m]) (use assms(1) in \<open>simp add: container_ok_def\<close>)
  show "add_mset (be_obj e) (mset (container_objs (remove_entry i (be_addr e) c))) = mset (container_objs c)"
    using arg_cong [OF m, of "image_mset be_obj"] unfolding remove_entry_def r by (simp add: container_objs_def)
  show "set (buckets (remove_entry i (be_addr e) c) ! i) = set (buckets c ! i) - {e}"
    unfolding remove_entry_def r using len d by (simp add: distinct_map)
qed

lemma insert_entry_ok:
  assumes "container_ok b c" "i < n_buckets c"
  shows "container_ok (b + 1) (insert_entry i b a c)"
    "mset (container_objs (insert_entry i b a c)) = add_mset a (mset (container_objs c))"
proof -
  let ?e = "\<lparr>be_addr = b, be_version = c_version c, be_obj = a\<rparr>"
  let ?bs = "(buckets c)[i := buckets c ! i @ [?e]]"
  have len: "i < length (buckets c)" using assms by (simp add: container_ok_def)
  have m: "mset (concat ?bs) = add_mset ?e (mset (concat (buckets c)))"
    using mset_concat_update [OF len, of "buckets c ! i @ [?e]"] by simp
  then have "mset (map be_addr (concat ?bs)) = mset (b # map be_addr (concat (buckets c)))"
    using arg_cong [OF m, of "image_mset be_addr"] by simp
  moreover have "distinct (b # map be_addr (concat (buckets c)))" using assms(1) by (auto simp: container_ok_def)
  ultimately have "distinct (map be_addr (concat ?bs))" using mset_eq_imp_distinct_iff by blast
  moreover have "set (concat ?bs) = insert ?e (set (concat (buckets c)))" using arg_cong [OF m, of set_mset] by simp
  then have "\<forall>e \<in> set (concat ?bs). be_addr e < b + 1" using assms(1) by (fastforce simp: container_ok_def)
  moreover have "length (concat ?bs) = Suc (length (concat (buckets c)))" using arg_cong [OF m, of size] by simp
  ultimately show "container_ok (b + 1) (insert_entry i b a c)" using assms(1) by (auto simp: container_ok_def insert_entry_def)
  show "mset (container_objs (insert_entry i b a c)) = add_mset a (mset (container_objs c))"
    using arg_cong [OF m, of "image_mset be_obj"] by (simp add: insert_entry_def container_objs_def)
qed

lemma ao2_ref_add:
  assumes "objs s a = Some ob" "ref_counter ob > 0"
  shows "ao2_ref releases a 1 s = Some (set_counter a (ref_counter ob + 1) s)"
  unfolding ao2_ref_def using assms by (subst internal_ao2_ref.simps) (simp add: INTERNAL_OBJ_def Let_def)

lemma set_counter_put: "set_counter a n (put_container c ct s) = put_container c ct (set_counter a n s)"
proof (cases "a = c")
  case True
  show ?thesis
  proof (cases "objs s c")
    case None
    with True show ?thesis by (simp add: set_counter_def put_container_def)
  next
    case (Some ob)
    obtain r u where "ob = \<lparr>ref_counter = r, user_data = u\<rparr>" by (cases ob)
    with True Some show ?thesis by (simp add: set_counter_def put_container_def)
  qed
qed (auto simp: set_counter_def put_container_def fun_upd_twist)

lemma ao2_ok_counter:
  assumes "ao2_ok releases ext s" "objs s a = Some ob"
  shows "ref_counter ob > 0" "ao2_ok releases (add_mset a ext) (set_counter a (ref_counter ob + 1) s)"
proof -
  have acc: "accounted releases ext {} s" using assms(1) by (simp add: ao2_ok_def)
  have "a \<in># ext + held releases {} s" "ref_counter ob = int (count (ext + held releases {} s) a)"
    using acc assms(2) by (auto simp: accounted_def)
  then show pos: "ref_counter ob > 0" unfolding in_mset_int by linarith
  from add_ref_accounted [OF acc assms(2)] ao2_ref_add [OF assms(2) pos, of releases]
  show "ao2_ok releases (add_mset a ext) (set_counter a (ref_counter ob + 1) s)"
    using ao2_ok_shrinks [OF assms(1)] by auto
qed

text \<open>Linking: the container gets a reference of its own; when there is no memory nothing changes.\<close>

lemma link_ok:
  assumes "ao2_ok releases ext s" "get_container s c = Some ct" "objs s a \<noteq> None" "link_bucket ct a = Some i"
  shows "(\<exists>s'. ao2_link releases c a s = Some (None, s') \<and> ao2_ok releases ext s' \<and> objs s' = objs s) \<or>
    (\<exists>s'. ao2_link releases c a s = Some (Some (brk s), s') \<and> ao2_ok releases ext s' \<and> dom (objs s') = dom (objs s) \<and>
      (\<forall>b. get_container s' b = (if b = c then Some (insert_entry i (brk s) a ct) else get_container s b)))"
proof -
  have cl: "objs s c \<noteq> None" using assms(2) by (auto simp: get_container_Some)
  show ?thesis
  proof (cases rule: calloc_cases [of s])
    case 1
    with assms(3) cl ao2_ok_more(1) [OF assms(1)] show ?thesis
      by (auto simp: ao2_link_def internal_ao2_link_def INTERNAL_OBJ_def)
  next
    case 2
    obtain ob where ob: "objs s a = Some ob" using assms(3) by blast
    let ?s1 = "s\<lparr>brk := brk s + 1, oom := tl (oom s)\<rparr>" and ?ct = "insert_entry i (brk s) a ct"
    let ?s2 = "set_counter a (ref_counter ob + 1) ?s1"
    have ok1: "ao2_ok releases ext ?s1" by (rule ao2_ok_more(2) [OF assms(1)])
    have ob1: "objs ?s1 a = Some ob" using ob by simp
    note pos = ao2_ok_counter(1) [OF ok1 ob1] and ok2 = ao2_ok_counter(2) [OF ok1 ob1]
    have il: "internal_ao2_link c a s = Some (Some (brk s), put_container c ?ct ?s1)"
      using 2 assms cl by (simp add: internal_ao2_link_def INTERNAL_OBJ_def)
    obtain ob' where ob': "objs (put_container c ?ct ?s1) a = Some ob'" "ref_counter ob' = ref_counter ob"
      using ob by (cases "a = c") (simp_all add: put_container_objs)
    have "ao2_ref releases a 1 (put_container c ?ct ?s1) = Some (put_container c ?ct ?s2)"
      using ao2_ref_add [OF ob'(1), of releases] ob'(2) pos unfolding set_counter_put by simp
    then have "ao2_link releases c a s = Some (Some (brk s), put_container c ?ct ?s2)" by (simp add: ao2_link_def il)
    moreover have gc: "get_container ?s2 b = get_container s b" for b
      by (auto simp: get_container_def INTERNAL_OBJ_def set_counter_objs split: option.splits)
    have i: "i < n_buckets ct" by (rule link_bucket_less [OF assms(4)])
    have "container_ok (brk s) ct" using assms(1,2) by (auto simp: ao2_ok_def)
    note ins = insert_entry_ok [OF this i, of a]
    have "ao2_ok releases ext (put_container c ?ct ?s2)"
    proof (rule put_ok [OF ok2])
      show "get_container ?s2 c = Some ct" using gc assms(2) by simp
      show "container_ok (brk ?s2) ?ct" using ins(1) by (simp add: set_counter_def)
      show "ext + mset (container_objs ?ct) = add_mset a ext + mset (container_objs ct)" using ins(2) by simp
    qed
    moreover have "objs ?s2 c \<noteq> None" using cl by (auto simp: set_counter_objs)
    then have "\<forall>b. get_container (put_container c ?ct ?s2) b = (if b = c then Some ?ct else get_container s b)"
      using gc by (simp add: get_put_container)
    ultimately show ?thesis by simp
  qed
qed


end
