(* ===== verification/Obj2_Search.thy ===== *)
theory Obj2_Search
  imports Ast_Obj2
begin

text \<open>
  Searches and iterators of \<open>main/astobj2.c\<close>: what \<open>ao2_callback\<close> and the functions on top of it do to the
  references, what a search finds, and that an iterator visits every object once whatever happens to the
  container in between.
\<close>

section \<open>A search keeps the references accounted\<close>

text \<open>
  During a search the caller has a reference to the container, and so has the search to the container that
  collects the results.
\<close>

definition collects :: "search_flags \<Rightarrow> nat \<Rightarrow> nat option \<Rightarrow> nat multiset \<Rightarrow> ao2_state \<Rightarrow> bool" where
  "collects flags c multi ext s \<longleftrightarrow>
     (case multi of
        None \<Rightarrow> \<not> OBJ_MULTIPLE flags \<or> OBJ_NODATA flags
      | Some mc \<Rightarrow> OBJ_MULTIPLE flags \<and> \<not> OBJ_NODATA flags \<and> mc \<noteq> c \<and> mc \<in># ext \<and>
          (\<exists>m. get_container s mc = Some m \<and> n_buckets m = 1 \<and> hash_fn m = hash_zero))"

definition searching :: "(nat \<Rightarrow> nat list) \<Rightarrow> search_flags \<Rightarrow> nat \<Rightarrow> nat option \<Rightarrow> nat multiset \<Rightarrow> ao2_container \<Rightarrow> ao2_state \<Rightarrow> bool" where
  "searching releases flags c multi ext ct s \<longleftrightarrow>
     ao2_ok releases ext s \<and> c \<in># ext \<and> get_container s c = Some ct \<and> collects flags c multi ext s"

definition found_refs :: "nat option \<Rightarrow> nat multiset" where
  "found_refs ret = (case ret of Some a \<Rightarrow> {#a#} | None \<Rightarrow> {#})"

lemma link_zero: "n_buckets m = 1 \<Longrightarrow> hash_fn m = hash_zero \<Longrightarrow> link_bucket m a = Some 0"
  by (simp add: link_bucket_def hash_zero_def to_int32_def)

lemma searching_drop:
  assumes "searching releases flags c multi (add_mset a ext) ct s" "c \<in># ext" "\<And>mc. multi = Some mc \<Longrightarrow> mc \<in># ext"
  shows "\<exists>s'. ao2_ref releases a (-1) s = Some s' \<and> searching releases flags c multi ext ct s'"
proof -
  have ok: "ao2_ok releases (add_mset a ext) s" using assms(1) by (simp add: searching_def)
  then obtain s' where s': "ao2_ref releases a (-1) s = Some s'" "accounted releases ext {} s'" "shrinks s s'"
    using drop_ref_accounted [of releases a ext s] by (auto simp: ao2_ok_def)
  have ok': "ao2_ok releases ext s'" by (rule ao2_ok_shrinks [OF ok s'(3,2)])
  have gc: "get_container s' b = get_container s b" if "b \<in># ext" for b
    by (rule get_container_shrinks [OF s'(3) ao2_ok_live [OF ok' that]])
  have "collects flags c multi ext s'"
    using assms(1,3) gc by (cases multi) (auto simp: searching_def collects_def)
  with ok' assms(1,2) gc s'(1) show ?thesis by (auto simp: searching_def)
qed

lemma searching_add:
  assumes "searching releases flags c multi ext ct s" "objs s a \<noteq> None"
  shows "\<exists>s'. ao2_ref releases a 1 s = Some s' \<and> searching releases flags c multi (add_mset a ext) ct s'"
proof -
  obtain ob where ob: "objs s a = Some ob" using assms(2) by blast
  have ok: "ao2_ok releases ext s" using assms(1) by (simp add: searching_def)
  have gc: "get_container (set_counter a n s) b = get_container s b" for n b
    by (auto simp: get_container_def INTERNAL_OBJ_def set_counter_objs split: option.splits)
  have "collects flags c multi (add_mset a ext) (set_counter a (ref_counter ob + 1) s)"
    using assms(1) by (cases multi) (auto simp: searching_def collects_def gc)
  then show ?thesis using assms(1) ao2_ref_add [OF ob ao2_ok_counter(1) [OF ok ob], of releases] ao2_ok_counter(2) [OF ok ob]
    by (auto simp: searching_def gc)
qed

lemma searching_link:
  assumes "searching releases flags c (Some mc) ext ct s" "objs s a \<noteq> None"
  shows "\<exists>p s'. ao2_link releases mc a s = Some (p, s') \<and> searching releases flags c (Some mc) ext ct s'"
proof -
  obtain m where m: "get_container s mc = Some m" "n_buckets m = 1" "hash_fn m = hash_zero" "mc \<noteq> c"
    using assms(1) by (auto simp: searching_def collects_def)
  have ok: "ao2_ok releases ext s" using assms(1) by (simp add: searching_def)
  from link_ok [OF ok m(1) assms(2) link_zero [OF m(2,3)]] show ?thesis
  proof (elim disjE exE conjE)
    fix s' assume s': "ao2_link releases mc a s = Some (None, s')" "ao2_ok releases ext s'" "objs s' = objs s"
    then have "get_container s' = get_container s" by (simp add: get_container_def [abs_def] INTERNAL_OBJ_def)
    with assms(1) s' show ?thesis by (auto simp: searching_def collects_def)
  next
    fix s' assume s': "ao2_link releases mc a s = Some (Some (brk s), s')" "ao2_ok releases ext s'"
      "\<forall>b. get_container s' b = (if b = mc then Some (insert_entry 0 (brk s) a m) else get_container s b)"
    with assms(1) m show ?thesis by (auto simp: searching_def collects_def insert_entry_def)
  qed
qed
lemma searching_unlink:
  assumes "searching releases flags c multi ext ct s" "i < n_buckets ct" "e \<in> set (buckets ct ! i)"
  shows "searching releases flags c multi (add_mset (be_obj e) ext) (remove_entry i (be_addr e) ct)
    (put_container c (remove_entry i (be_addr e) ct) s)"
proof -
  let ?ct = "remove_entry i (be_addr e) ct"
  have ok: "ao2_ok releases ext s" and gc: "get_container s c = Some ct" using assms(1) by (simp_all add: searching_def)
  have l: "objs s c \<noteq> None" using gc by (auto simp: get_container_Some)
  have "container_ok (brk s) ct" using ok gc by (auto simp: ao2_ok_def)
  note r = remove_entry_ok [OF this assms(2,3)]
  have "add_mset (be_obj e) ext + mset (container_objs ?ct) = ext + mset (container_objs ct)" using r(2) by (metis union_mset_add_mset_left union_mset_add_mset_right)
  from put_ok [OF ok gc r(1) this] assms(1) show ?thesis
    by (cases multi) (auto simp: searching_def collects_def get_put_container [OF l])
qed

lemma take_match_ok:
  assumes "searching releases flags c multi ext ct s" "i < n_buckets ct" "e \<in> set (buckets ct ! i)"
  defines "ret \<equiv> (if OBJ_NODATA flags \<or> multi \<noteq> None then None else Some (be_obj e))"
    and "ct' \<equiv> (if OBJ_UNLINK flags then remove_entry i (be_addr e) ct else ct)"
  shows "\<exists>s'. take_match releases flags c multi i e None s = Some (ret, s') \<and>
    searching releases flags c multi (ext + found_refs ret) ct' s'"
proof -
  let ?o = "be_obj e"
  have ok: "ao2_ok releases ext s" and gc: "get_container s c = Some ct" and cin: "c \<in># ext" and col: "collects flags c multi ext s"
    using assms(1) by (simp_all add: searching_def)
  have "container_ok (brk s) ct" using ok gc by (auto simp: ao2_ok_def)
  then have "e \<in> set (concat (buckets ct))" using assms(2,3) by (auto simp: container_ok_def)
  then have live: "objs s ?o \<noteq> None" by (rule entry_live [OF ok gc])
  have drop: "\<exists>s'. ao2_ref releases ?o (-1) (put_container c (remove_entry i (be_addr e) ct) s2) = Some s' \<and>
      searching releases flags c multi ext (remove_entry i (be_addr e) ct) s'" if "searching releases flags c multi ext ct s2" for s2
    by (rule searching_drop [OF searching_unlink [OF that assms(2,3)] cin]) (use col in \<open>simp add: collects_def\<close>)
  show ?thesis
  proof (cases multi)
    case (Some mc)
    then have f: "OBJ_MULTIPLE flags" "\<not> OBJ_NODATA flags" using col by (auto simp: collects_def)
    obtain p s2 where s2: "ao2_link releases mc ?o s = Some (p, s2)" "searching releases flags c multi ext ct s2"
      using searching_link [OF assms(1) [unfolded Some] live] Some by auto
    have gc2: "get_container s2 c = Some ct" using s2(2) by (simp add: searching_def)
    show ?thesis
    proof (cases "OBJ_UNLINK flags")
      case True
      with drop [OF s2(2)] s2(1) gc2 Some f show ?thesis by (auto simp: take_match_def ret_def ct'_def found_refs_def)
    next
      case False
      with s2 Some f show ?thesis by (auto simp: take_match_def ret_def ct'_def found_refs_def)
    qed
  next
    case None
    then have f: "OBJ_MULTIPLE flags \<Longrightarrow> OBJ_NODATA flags" using col by (auto simp: collects_def)
    show ?thesis
    proof (cases "OBJ_NODATA flags")
      case True
      with drop [OF assms(1)] assms(1) gc None show ?thesis by (auto simp: take_match_def ret_def ct'_def found_refs_def)
    next
      case nd: False
      show ?thesis
      proof (cases "OBJ_UNLINK flags")
        case True
        with searching_unlink [OF assms(1-3)] gc None nd f show ?thesis by (auto simp: take_match_def ret_def ct'_def found_refs_def)
      next
        case False
        with searching_add [OF assms(1) live] None nd f show ?thesis by (auto simp: take_match_def ret_def ct'_def found_refs_def)
      qed
    qed
  qed
qed









lemma add_ref_ok:
  assumes "ao2_ok releases ext s" "objs s a \<noteq> None"
  shows "\<exists>s'. ao2_ref releases a 1 s = Some s' \<and> ao2_ok releases (add_mset a ext) s' \<and> dom (objs s') = dom (objs s) \<and>
    (\<forall>b. get_container s' b = get_container s b)"
proof -
  obtain ob where ob: "objs s a = Some ob" using assms(2) by blast
  have "get_container (set_counter a n s) b = get_container s b" for n b
    by (auto simp: get_container_def INTERNAL_OBJ_def set_counter_objs split: option.splits)
  with ao2_ref_add [OF ob ao2_ok_counter(1) [OF assms(1) ob], of releases] ao2_ok_counter(2) [OF assms(1) ob] show ?thesis by simp
qed

lemma drop_ref_ok:
  assumes "ao2_ok releases (add_mset a ext) s"
  shows "\<exists>s'. ao2_ref releases a (-1) s = Some s' \<and> ao2_ok releases ext s' \<and> shrinks s s'"
  using drop_ref_accounted [of releases a ext s] ao2_ok_shrinks [OF assms] assms by (auto simp: ao2_ok_def)




section \<open>The place of an iterator\<close>

text \<open>
  Versions grow along every bucket, no two entries have the same, and all are between 0 and the version of the
  container. This needs that the version of the container has not wrapped.
\<close>

definition versioned :: "ao2_container \<Rightarrow> bool" where
  "versioned c \<longleftrightarrow> length (buckets c) = n_buckets c \<and> distinct (map be_version (concat (buckets c))) \<and>
     (\<forall>es \<in> set (buckets c). sorted_wrt (\<lambda>x y. be_version x < be_version y) es \<and>
        (\<forall>e \<in> set es. 0 < be_version e \<and> be_version e < c_version c))"

text \<open>The current entry of an iterator is where the iterator says, unless the container has changed.\<close>

definition iter_ok :: "ao2_container \<Rightarrow> ao2_iterator \<Rightarrow> bool" where
  "iter_ok c a \<longleftrightarrow>
     (\<forall>p. it_obj a = Some p \<longrightarrow> c_version c = it_c_version a \<longrightarrow>
        it_bucket a < n_buckets c \<and> (\<exists>e \<in> set (buckets c ! it_bucket a). be_addr e = p \<and> be_version e = it_version a))"

definition later :: "nat \<Rightarrow> 32 word \<Rightarrow> nat \<Rightarrow> bucket_entry \<Rightarrow> bool" where
  "later b v i e \<longleftrightarrow> b < i \<or> i = b \<and> v < be_version e"

definition in_bucket :: "ao2_container \<Rightarrow> nat \<Rightarrow> bucket_entry \<Rightarrow> bool" where
  "in_bucket c i e \<longleftrightarrow> i < n_buckets c \<and> e \<in> set (buckets c ! i)"

lemma versionedD:
  assumes "versioned c" "i < n_buckets c"
  shows "sorted_wrt (\<lambda>x y. be_version x < be_version y) (buckets c ! i)"
    "e \<in> set (buckets c ! i) \<Longrightarrow> 0 < be_version e \<and> be_version e < c_version c"
proof -
  have "buckets c ! i \<in> set (buckets c)" using assms by (simp add: versioned_def)
  with assms(1) show "sorted_wrt (\<lambda>x y. be_version x < be_version y) (buckets c ! i)"
    "e \<in> set (buckets c ! i) \<Longrightarrow> 0 < be_version e \<and> be_version e < c_version c"
    by (auto simp: versioned_def)
qed

lemma find_first_later:
  assumes "sorted_wrt (\<lambda>x y. be_version x < be_version y) es" "find (\<lambda>e. v < be_version e) es = Some e"
  shows "e \<in> set es" "v < be_version e" "\<forall>x \<in> set es. v < be_version x \<longrightarrow> be_version e \<le> be_version x"
  using assms by (induction es) (auto split: if_splits)

text \<open>What browsing finds: the first entry behind the position, if there is one.\<close>

lemma find_later_spec:
  assumes "versioned c"
  shows "find_later c b v = (b', v', p) \<Longrightarrow>
    (case p of
       Some e \<Rightarrow> in_bucket c b' e \<and> later b v b' e \<and>
         (\<forall>i x. in_bucket c i x \<and> later b v i x \<longrightarrow> i = b' \<and> be_version x = be_version e \<or> later b' (be_version e) i x)
     | None \<Rightarrow> \<not> (\<exists>i x. in_bucket c i x \<and> later b v i x))"
proof (induction "n_buckets c - b" arbitrary: b v)
  case 0
  then have "p = None" by (subst (asm) find_later.simps) simp
  moreover have "\<not> (in_bucket c i x \<and> later b v i x)" for i x using 0 by (auto simp: in_bucket_def later_def)
  ultimately show ?case by simp
next
  case (Suc k)
  then have b: "b < n_buckets c" by simp
  note s = versionedD(1) [OF assms b]
  show ?case
  proof (cases "find (\<lambda>e. v < be_version e) (buckets c ! b)")
    case (Some e)
    with Suc.prems b have r: "b' = b" "p = Some e" by (subst (asm) find_later.simps; simp)+
    note f = find_first_later [OF s Some]
    have "i = b \<and> be_version x = be_version e \<or> later b (be_version e) i x" if "in_bucket c i x" "later b v i x" for i x
      using that f(3) by (auto simp: in_bucket_def later_def)
    with r f(1,2) b show ?thesis by (simp add: in_bucket_def later_def)
  next
    case None
    with Suc.prems b have r: "find_later c (b + 1) 0 = (b', v', p)" by (subst (asm) find_later.simps) simp
    have n: "\<not> v < be_version x" if "x \<in> set (buckets c ! b)" for x using None that by (simp add: find_None_iff)
    have l: "later (b + 1) 0 i x \<longleftrightarrow> later b v i x" if "in_bucket c i x" for i x
      using that n versionedD(2) [OF assms, of i x] by (auto simp: in_bucket_def later_def)
    have "k = n_buckets c - (b + 1)" using Suc(2) by simp
    from Suc.hyps(1) [OF this r] l show ?thesis by (cases p) auto
  qed
qed

text \<open>Following the pointer to the current entry gives what browsing gives.\<close>

lemma entries_after_spec:
  assumes "sorted_wrt (\<lambda>x y. be_version x < be_version y) es" "distinct (map be_addr es)" "e \<in> set es"
  shows "\<exists>rest. entries_after (be_addr e) es = Some rest \<and>
    find (\<lambda>x. be_version e < be_version x) es = (case rest of x # _ \<Rightarrow> Some x | [] \<Rightarrow> None)"
  using assms
proof (induction es)
  case (Cons x es)
  show ?case
  proof (cases "x = e")
    case True
    with Cons.prems show ?thesis by (cases es) auto
  next
    case False
    with Cons.prems have e: "e \<in> set es" "be_addr x \<noteq> be_addr e" "be_version x < be_version e" by auto
    with Cons.IH Cons.prems show ?thesis by auto
  qed
qed simp

lemma next_position_browse:
  assumes "container_ok b c" "versioned c" "iter_ok c a"
  shows "\<exists>a1. next_position c a = Some (a1, snd (snd (find_later c (it_bucket a) (it_version a)))) \<and>
    it_bucket a1 = fst (find_later c (it_bucket a) (it_version a)) \<and> it_c a1 = it_c a \<and> it_unlink a1 = it_unlink a"
proof (cases "\<exists>p. it_obj a = Some p \<and> c_version c = it_c_version a")
  case False
  then show ?thesis by (cases "it_obj a") (auto simp: next_position_def Let_def split: prod.splits)
next
  case True
  then obtain p where p: "it_obj a = Some p" "c_version c = it_c_version a" by blast
  with assms(3) obtain e where e: "it_bucket a < n_buckets c" "e \<in> set (buckets c ! it_bucket a)" "be_addr e = p" "be_version e = it_version a"
    by (auto simp: iter_ok_def)
  from entries_after_spec [OF versionedD(1) [OF assms(2) e(1)] bucket_distinct [OF assms(1) e(1)] e(2)] e(3,4) obtain rest where
    r: "entries_after p (buckets c ! it_bucket a) = Some rest"
      "find (\<lambda>x. it_version a < be_version x) (buckets c ! it_bucket a) = (case rest of x # _ \<Rightarrow> Some x | [] \<Rightarrow> None)" by auto
  show ?thesis
  proof (cases rest)
    case Nil
    with r e(1) have "find_later c (it_bucket a) (it_version a) = find_later c (it_bucket a + 1) 0" by (subst find_later.simps) simp
    with Nil p r(1) show ?thesis by (auto simp: next_position_def Let_def split: prod.splits)
  next
    case (Cons x xs)
    with r e(1) have "find_later c (it_bucket a) (it_version a) = (it_bucket a, it_version a, Some x)" by (subst find_later.simps) simp
    with Cons p r(1) show ?thesis by (simp add: next_position_def Let_def)
  qed
qed

lemma find_later_in: "find_later c b v = (b', v', Some e) \<Longrightarrow> in_bucket c b' e"
proof (induction "n_buckets c - b" arbitrary: b v)
  case 0
  then show ?case by (subst (asm) find_later.simps) simp
next
  case (Suc k)
  then have b: "b < n_buckets c" "k = n_buckets c - (b + 1)" by simp_all
  show ?case
  proof (cases "find (\<lambda>e. v < be_version e) (buckets c ! b)")
    case (Some x)
    with Suc.prems b have "b' = b" "x = e" by (subst (asm) find_later.simps; simp)+
    with Some b show ?thesis by (auto simp: in_bucket_def find_Some_iff)
  next
    case None
    with Suc.prems b(1) have "find_later c (b + 1) 0 = (b', v', Some e)" by (subst (asm) find_later.simps) simp
    with Suc.hyps(1) [OF b(2)] show ?thesis by blast
  qed
qed

lemma entries_after_in:
  assumes "e \<in> set es"
  shows "\<exists>rest. entries_after (be_addr e) es = Some rest \<and> set rest \<subseteq> set es"
  using assms by (induction es) auto

lemma next_position_in:
  assumes "iter_ok c a"
  shows "\<exists>a1 p. next_position c a = Some (a1, p) \<and> it_c a1 = it_c a \<and> it_unlink a1 = it_unlink a \<and>
    (case p of Some e \<Rightarrow> in_bucket c (it_bucket a1) e | None \<Rightarrow> iter_ok c a1)"
proof (cases "\<exists>p. it_obj a = Some p \<and> c_version c = it_c_version a")
  case False
  obtain b v q where f: "find_later c (it_bucket a) (it_version a) = (b, v, q)" by (metis prod.exhaust)
  with False have "next_position c a = Some (a\<lparr>it_bucket := b, it_version := v\<rparr>, q)" by (cases "it_obj a") (auto simp: next_position_def)
  with False find_later_in [of c _ _ b v] f show ?thesis by (cases q) (auto simp: iter_ok_def)
next
  case True
  then obtain p where p: "it_obj a = Some p" "c_version c = it_c_version a" by blast
  with assms obtain e where e: "it_bucket a < n_buckets c" "e \<in> set (buckets c ! it_bucket a)" "be_addr e = p" by (auto simp: iter_ok_def)
  with entries_after_in obtain rest where r: "entries_after p (buckets c ! it_bucket a) = Some rest" "set rest \<subseteq> set (buckets c ! it_bucket a)" by blast
  obtain b v q where f: "find_later c (it_bucket a + 1) 0 = (b, v, q)" by (metis prod.exhaust)
  show ?thesis
  proof (cases rest)
    case Nil
    with p r(1) f have "next_position c a = Some (a\<lparr>it_bucket := b, it_version := v, it_obj := None\<rparr>, q)" by (simp add: next_position_def)
    with find_later_in [of c _ _ b v] f show ?thesis by (cases q) (auto simp: iter_ok_def)
  next
    case (Cons x xs)
    with p r(1) have "next_position c a = Some (a, Some x)" by (simp add: next_position_def)
    with Cons r(2) e(1) show ?thesis by (auto simp: in_bucket_def)
  qed
qed

lemma iterator_next_ok:
  assumes "ao2_ok releases ext s" "it_c a \<in># ext" "get_container s (it_c a) = Some ct" "iter_ok ct a"
  shows "\<exists>r a' s' ct'. ao2_iterator_next releases a s = Some (r, a', s') \<and> ao2_ok releases (ext + found_refs r) s' \<and>
    get_container s' (it_c a) = Some ct' \<and> it_c a' = it_c a \<and> it_unlink a' = it_unlink a \<and> iter_ok ct' a' \<and> (\<not> it_unlink a \<longrightarrow> ct' = ct)"
proof -
  let ?c = "it_c a"
  have io: "INTERNAL_OBJ s ?c \<noteq> None" "objs s ?c \<noteq> None" using ao2_ok_live [OF assms(1,2)] by (simp_all add: INTERNAL_OBJ_def)
  have cok: "container_ok (brk s) ct" using assms(1,3) by (auto simp: ao2_ok_def)
  obtain a1 p where a1: "next_position ct a = Some (a1, p)" "it_c a1 = ?c" "it_unlink a1 = it_unlink a"
    "case p of Some e \<Rightarrow> in_bucket ct (it_bucket a1) e | None \<Rightarrow> iter_ok ct a1" using next_position_in [OF assms(4)] by blast
  show ?thesis
  proof (cases p)
    case None
    then have "ao2_iterator_next releases a s = Some (None, a1, s)"
      using io assms(3) a1(1) by (auto simp: ao2_iterator_next_def internal_ao2_iterator_next_def)
    with None a1 assms show ?thesis by (auto simp: found_refs_def)
  next
    case (Some e)
    then have e: "it_bucket a1 < n_buckets ct" "e \<in> set (buckets ct ! it_bucket a1)" using a1(4) by (auto simp: in_bucket_def)
    show ?thesis
    proof (cases "it_unlink a")
      case True
      let ?ct = "remove_entry (it_bucket a1) (be_addr e) ct"
      let ?a = "a1\<lparr>it_version := 0, it_obj := None, it_c_version := c_version ?ct\<rparr>"
      have "ao2_iterator_next releases a s = Some (Some (be_obj e), ?a, put_container ?c ?ct s)"
        using io(1) assms(3) a1 Some True by (auto simp: ao2_iterator_next_def internal_ao2_iterator_next_def Let_def)
      moreover note r = remove_entry_ok [OF cok e]
      have "ao2_ok releases (ext + found_refs (Some (be_obj e))) (put_container ?c ?ct s)"
        by (rule put_ok [OF assms(1,3) r(1)]) (use r(2) in \<open>simp add: found_refs_def union_mset_add_mset_left [symmetric] flip: union_mset_add_mset_right\<close>)
      ultimately show ?thesis using True a1(2,3) get_put_container [OF io(2)] by (auto simp: iter_ok_def)
    next
      case False
      let ?a = "a1\<lparr>it_version := be_version e, it_obj := Some (be_addr e), it_c_version := c_version ct\<rparr>"
      have "buckets ct ! it_bucket a1 \<in> set (buckets ct)" using cok e(1) by (simp add: container_ok_def)
      then have "e \<in> set (concat (buckets ct))" using e(2) by auto
      from add_ref_ok [OF assms(1) entry_live [OF assms(1,3) this]] obtain s' where s': "ao2_ref releases (be_obj e) 1 s = Some s'"
        "ao2_ok releases (add_mset (be_obj e) ext) s'" "\<forall>b. get_container s' b = get_container s b" by blast
      have "ao2_iterator_next releases a s = Some (Some (be_obj e), ?a, s')"
        using io(1) assms(3) a1 Some False s'(1) by (auto simp: ao2_iterator_next_def internal_ao2_iterator_next_def Let_def)
      moreover have "iter_ok ct ?a" using e by (auto simp: iter_ok_def)
      ultimately show ?thesis using False a1(2,3) s'(2,3) assms(3) by (auto simp: found_refs_def)
    qed
  qed
qed

section \<open>What the operations do to the references\<close>

text \<open>
  C16: giving up a reference returns, whatever destructors and nested containers it sets off, and leaves every
  counter equal to the number of references to its object: an object is gone exactly when no reference to
  it is left, and the data of the objects that remain is unchanged.
\<close>

theorem release_reference_exact:
  assumes "ao2_ok releases (add_mset a ext) s"
  shows "\<exists>s'. ao2_ref releases a (-1) s = Some s' \<and> ao2_ok releases ext s' \<and>
    (\<forall>b. case objs s' b of
        None \<Rightarrow> count (ext + held releases {} s') b = 0
      | Some ob \<Rightarrow> 0 < ref_counter ob \<and> ref_counter ob = int (count (ext + held releases {} s') b) \<and>
          (\<exists>ob0. objs s b = Some ob0 \<and> user_data ob = user_data ob0))"
proof -
  obtain s' where s': "ao2_ref releases a (-1) s = Some s'" "ao2_ok releases ext s'" "shrinks s s'" using drop_ref_ok [OF assms] by blast
  have acc: "accounted releases ext {} s'" using s'(2) by (simp add: ao2_ok_def)
  have "case objs s' b of
        None \<Rightarrow> count (ext + held releases {} s') b = 0
      | Some ob \<Rightarrow> 0 < ref_counter ob \<and> ref_counter ob = int (count (ext + held releases {} s') b) \<and>
          (\<exists>ob0. objs s b = Some ob0 \<and> user_data ob = user_data ob0)" for b
  proof (cases "objs s' b")
    case None
    then have "b \<notin># ext + held releases {} s'" using accounted_live [OF acc] by blast
    with None show ?thesis by (simp add: not_in_iff)
  next
    case (Some ob)
    with acc have "ref_counter ob = int (count (ext + held releases {} s') b)" by (auto simp: accounted_def)
    with Some ao2_ok_counter(1) [OF s'(2) Some] s'(3) show ?thesis by (auto simp: shrinks_def)
  qed
  with s'(1,2) show ?thesis by blast
qed


section \<open>An iteration\<close>

text \<open>
  How a container may change between two calls: entries go, and new ones, with later versions, are added at
  the end of their buckets.
\<close>

definition evolves :: "ao2_container \<Rightarrow> ao2_container \<Rightarrow> bool" where
  "evolves c c' \<longleftrightarrow> n_buckets c' = n_buckets c \<and> c_version c \<le> c_version c' \<and>
     (c_version c' = c_version c \<longrightarrow> buckets c' = buckets c) \<and>
     (\<forall>i e. in_bucket c' i e \<longrightarrow> in_bucket c i e \<or> c_version c \<le> be_version e)"

lemma word_less_inc:
  fixes x :: "32 word"
  assumes "x \<noteq> - 1"
  shows "x < x + 1"
proof -
  have "1 + x \<noteq> 0" using assms by (metis add.commute add_eq_0_iff2)
  from unatSuc [OF this] show ?thesis by (simp add: word_less_nat_alt add.commute)
qed

lemma evolves_insert:
  assumes "container_ok b c" "versioned c" "i < n_buckets c" "0 < c_version c" "c_version c \<noteq> - 1"
  shows "evolves c (insert_entry i p a c)" "versioned (insert_entry i p a c)"
proof -
  let ?e = "\<lparr>be_addr = p, be_version = c_version c, be_obj = a\<rparr>"
  have len: "i < length (buckets c)" using assms(1,3) by (simp add: container_ok_def)
  have lt: "c_version c < c_version c + 1" by (rule word_less_inc [OF assms(5)])
  show "evolves c (insert_entry i p a c)"
    using lt len by (auto simp: evolves_def insert_entry_def in_bucket_def nth_list_update split: if_splits)
  have m: "mset (concat ((buckets c)[i := buckets c ! i @ [?e]])) = add_mset ?e (mset (concat (buckets c)))"
    using mset_concat_update [OF len, of "buckets c ! i @ [?e]"] by simp
  have "mset (map be_version (concat ((buckets c)[i := buckets c ! i @ [?e]]))) = mset (c_version c # map be_version (concat (buckets c)))"
    using arg_cong [OF m, of "image_mset be_version"] by simp
  moreover have "distinct (c_version c # map be_version (concat (buckets c)))" using assms(2) by (fastforce simp: versioned_def)
  ultimately have "distinct (map be_version (concat ((buckets c)[i := buckets c ! i @ [?e]])))" using mset_eq_imp_distinct_iff by blast
  moreover have "sorted_wrt (\<lambda>x y. be_version x < be_version y) es \<and> (\<forall>e \<in> set es. 0 < be_version e \<and> be_version e < c_version c + 1)"
    if "es \<in> set ((buckets c)[i := buckets c ! i @ [?e]])" for es
  proof -
    have old: "sorted_wrt (\<lambda>x y. be_version x < be_version y) xs \<and> (\<forall>e \<in> set xs. 0 < be_version e \<and> be_version e < c_version c)"
      if "xs \<in> set (buckets c)" for xs using assms(2) that by (auto simp: versioned_def)
    from that consider "es \<in> set (buckets c)" | "es = buckets c ! i @ [?e]" using set_update_subset_insert by fastforce
    then show ?thesis
    proof cases
      case 1
      with old [OF 1] lt show ?thesis by force
    next
      case 2
      with old [of "buckets c ! i"] len lt assms(4) show ?thesis by (force simp: sorted_wrt_append)
    qed
  qed
  ultimately show "versioned (insert_entry i p a c)" using assms(2) by (auto simp: versioned_def insert_entry_def)
qed

lemma evolves_remove:
  assumes "container_ok b c" "versioned c" "i < n_buckets c" "e \<in> set (buckets c ! i)" "c_version c \<noteq> - 1"
  shows "evolves c (remove_entry i (be_addr e) c)" "versioned (remove_entry i (be_addr e) c)"
proof -
  have len: "i < length (buckets c)" using assms(1,3) by (simp add: container_ok_def)
  note lt = word_less_inc [OF assms(5)]
  let ?es = "filter (\<lambda>x. be_addr x \<noteq> be_addr e) (buckets c ! i)"
  show "evolves c (remove_entry i (be_addr e) c)"
    using lt len by (auto simp: evolves_def remove_entry_def in_bucket_def nth_list_update split: if_splits)
  have r: "?es = remove1 e (buckets c ! i)" by (rule filter_addr [OF bucket_distinct [OF assms(1,3)] assms(4)])
  have "mset (concat (buckets c)) = add_mset e (mset (concat ((buckets c)[i := ?es])))"
    unfolding r by (rule mset_concat_remove1 [OF len assms(4)])
  from arg_cong [OF this, of "image_mset be_version"]
  have "mset (map be_version (concat (buckets c))) = mset (be_version e # map be_version (concat ((buckets c)[i := ?es])))" by simp
  then have "distinct (be_version e # map be_version (concat ((buckets c)[i := ?es])))"
    using assms(2) mset_eq_imp_distinct_iff unfolding versioned_def by blast
  moreover have "sorted_wrt (\<lambda>x y. be_version x < be_version y) es \<and> (\<forall>e \<in> set es. 0 < be_version e \<and> be_version e < c_version c + 1)"
    if "es \<in> set ((buckets c)[i := ?es])" for es
  proof -
    have old: "sorted_wrt (\<lambda>x y. be_version x < be_version y) xs \<and> (\<forall>e \<in> set xs. 0 < be_version e \<and> be_version e < c_version c)"
      if "xs \<in> set (buckets c)" for xs using assms(2) that by (auto simp: versioned_def)
    from that consider "es \<in> set (buckets c)" | "es = ?es" using set_update_subset_insert by fastforce
    then show ?thesis
    proof cases
      case 1
      with old [OF 1] lt show ?thesis by force
    next
      case 2
      with old [of "buckets c ! i"] len lt show ?thesis by (force simp: sorted_wrt_filter)
    qed
  qed
  ultimately show "versioned (remove_entry i (be_addr e) c)" using assms(2) by (auto simp: versioned_def remove_entry_def)
qed

text \<open>
  A run of an iterator that does not unlink: calls of \<open>ao2_iterator_next\<close>, and between them any changes of the
  state that keep the references accounted and let the container evolve. \<open>K\<close> holds the entries, by
  version and object, that were there all the time, \<open>ret\<close> what has been returned.
\<close>

definition entry_keys :: "ao2_container \<Rightarrow> (32 word \<times> nat) set" where
  "entry_keys c = {(be_version e, be_obj e) | e i. in_bucket c i e}"

inductive iteration :: "(nat \<Rightarrow> nat list) \<Rightarrow> nat \<Rightarrow> nat multiset \<Rightarrow> ao2_iterator \<Rightarrow> ao2_state \<Rightarrow> (32 word \<times> nat) set \<Rightarrow> (32 word \<times> nat) list \<Rightarrow> bool"
  for releases c where
  start: "iteration releases c ext it s (entry_keys ct) []"
    if "ao2_ok releases ext s" "c \<in># ext" "get_container s c = Some ct" "versioned ct"
      "it = \<lparr>it_c = c, it_mallocd = m, it_unlink = False, it_bucket = 0, it_c_version = 0, it_obj = None, it_version = 0\<rparr>"
| change: "iteration releases c ext' it s' (K \<inter> entry_keys ct') ret"
    if "iteration releases c ext it s K ret" "get_container s c = Some ct"
      "ao2_ok releases ext' s'" "c \<in># ext'" "get_container s' c = Some ct'" "evolves ct ct'" "versioned ct'"
| step: "iteration releases c (add_mset a ext) it' s' K (ret @ [(it_version it', a)])"
    if "iteration releases c ext it s K ret" "ao2_iterator_next releases it s = Some (Some a, it', s')"

definition iter_inv :: "nat \<Rightarrow> ao2_container \<Rightarrow> ao2_iterator \<Rightarrow> (32 word \<times> nat) set \<Rightarrow> (32 word \<times> nat) list \<Rightarrow> bool" where
  "iter_inv c ct it K ret \<longleftrightarrow> it_c it = c \<and> \<not> it_unlink it \<and> iter_ok ct it \<and> it_c_version it \<le> c_version ct \<and> distinct (map fst ret) \<and> K \<subseteq> entry_keys ct \<and>
     (\<forall>k \<in> set ret. fst k < c_version ct) \<and>
     (\<forall>i e. in_bucket ct i e \<longrightarrow> be_version e \<in> fst ` set ret \<longrightarrow> \<not> later (it_bucket it) (it_version it) i e) \<and>
     (\<forall>i e. in_bucket ct i e \<longrightarrow> (be_version e, be_obj e) \<in> K \<longrightarrow> \<not> later (it_bucket it) (it_version it) i e \<longrightarrow> (be_version e, be_obj e) \<in> set ret)"

lemma iter_inv_start:
  assumes "versioned ct" "it = \<lparr>it_c = c, it_mallocd = m, it_unlink = False, it_bucket = 0, it_c_version = 0, it_obj = None, it_version = 0\<rparr>"
  shows "iter_inv c ct it (entry_keys ct) []"
proof -
  have "later 0 0 i e" if "in_bucket ct i e" for i e
    using that versionedD(2) [OF assms(1), of i e] by (auto simp: later_def in_bucket_def)
  with assms(2) show ?thesis by (auto simp: iter_inv_def iter_ok_def)
qed

lemma iter_inv_change:
  assumes "iter_inv c ct it K ret" "evolves ct ct'" "versioned ct"
  shows "iter_inv c ct' it (K \<inter> entry_keys ct') ret"
proof -
  have le: "c_version ct \<le> c_version ct'" using assms(2) by (simp add: evolves_def)
  have old: "in_bucket ct i e" if "in_bucket ct' i e" "be_version e < c_version ct" for i e
    using that assms(2) unfolding evolves_def by (meson leD)
  have K: "v < c_version ct" if "(v, a) \<in> K" for v a
  proof -
    have "(v, a) \<in> entry_keys ct" using that assms(1) by (auto simp: iter_inv_def)
    then obtain e i where "v = be_version e" "i < n_buckets ct" "e \<in> set (buckets ct ! i)" by (auto simp: entry_keys_def in_bucket_def)
    with versionedD(2) [OF assms(3)] show ?thesis by blast
  qed
  have R: "v < c_version ct" if "v \<in> fst ` set ret" for v using that assms(1) by (auto simp: iter_inv_def)
  have "iter_ok ct' it"
  proof (cases "c_version ct' = it_c_version it")
    case True
    with assms(1) le have "c_version ct' = c_version ct" by (auto simp: iter_inv_def)
    with assms(1,2) show ?thesis by (auto simp: iter_inv_def iter_ok_def evolves_def)
  qed (simp add: iter_ok_def)
  moreover have "it_c_version it \<le> c_version ct'" using assms(1) le by (auto simp: iter_inv_def)
  moreover have "\<forall>k \<in> set ret. fst k < c_version ct'" using R le by force
  moreover have "\<not> later (it_bucket it) (it_version it) i e" if "in_bucket ct' i e" "be_version e \<in> fst ` set ret" for i e
    using old [OF that(1) R [OF that(2)]] that(2) assms(1) by (auto simp: iter_inv_def)
  moreover have "(be_version e, be_obj e) \<in> set ret"
    if "in_bucket ct' i e" "(be_version e, be_obj e) \<in> K" "\<not> later (it_bucket it) (it_version it) i e" for i e
    using old [OF that(1) K [OF that(2)]] that assms(1) by (auto simp: iter_inv_def)
  ultimately show ?thesis using assms(1) by (auto simp: iter_inv_def)
qed

lemma iterator_next_spec:
  assumes "get_container s (it_c a) = Some ct" "container_ok b ct" "versioned ct" "iter_ok ct a" "\<not> it_unlink a"
    and "ao2_iterator_next releases a s = Some (r, a', s')"
  shows "case r of
      None \<Rightarrow> \<not> (\<exists>i x. in_bucket ct i x \<and> later (it_bucket a) (it_version a) i x)
    | Some o' \<Rightarrow> it_c_version a' = c_version ct \<and> (\<exists>e. be_obj e = o' \<and> be_version e = it_version a' \<and>
        in_bucket ct (it_bucket a') e \<and> later (it_bucket a) (it_version a) (it_bucket a') e \<and>
        (\<forall>i x. in_bucket ct i x \<and> later (it_bucket a) (it_version a) i x \<longrightarrow>
           i = it_bucket a' \<and> be_version x = be_version e \<or> later (it_bucket a') (be_version e) i x))"
proof -
  obtain b' v' p where f: "find_later ct (it_bucket a) (it_version a) = (b', v', p)" by (metis prod.exhaust)
  obtain a1 where a1: "next_position ct a = Some (a1, p)" "it_bucket a1 = b'" "\<not> it_unlink a1"
    using next_position_browse [OF assms(2-4)] f assms(5) by auto
  note spec = find_later_spec [OF assms(3) f]
  have io: "INTERNAL_OBJ s (it_c a) \<noteq> None" using assms(1) by (auto simp: get_container_def split: option.splits)
  show ?thesis
  proof (cases p)
    case None
    with io assms(1,6) a1 have "r = None" by (auto simp: ao2_iterator_next_def internal_ao2_iterator_next_def)
    with spec None show ?thesis by simp
  next
    case (Some e)
    let ?a = "a1\<lparr>it_version := be_version e, it_obj := Some (be_addr e), it_c_version := c_version ct\<rparr>"
    have "r = Some (be_obj e) \<and> a' = ?a"
      using io assms(1,6) a1 Some by (cases "ao2_ref releases (be_obj e) 1 s") (auto simp: ao2_iterator_next_def internal_ao2_iterator_next_def)
    then have r: "r = Some (be_obj e)" "it_c_version a' = c_version ct" "it_version a' = be_version e" "it_bucket a' = b'" using a1(2) by auto
    show ?thesis unfolding r(1) option.case
    proof (intro conjI exI)
      show "it_c_version a' = c_version ct" by (rule r(2))
      show "be_obj e = be_obj e" "be_version e = it_version a'" using r(3) by simp_all
    qed (use spec Some r(4) in simp_all)
  qed
qed

lemma distinct_concat_index:
  "distinct (concat xss) \<Longrightarrow> i < length xss \<Longrightarrow> j < length xss \<Longrightarrow> x \<in> set (xss ! i) \<Longrightarrow> x \<in> set (xss ! j) \<Longrightarrow> i = j"
proof (induction xss arbitrary: i j)
  case (Cons ys xss)
  have "x \<notin> set (xss ! k)" if "x \<in> set ys" "k < length xss" for k using Cons.prems(1) that by (auto simp: disjoint_iff)
  with Cons show ?case by (cases i; cases j) auto
qed simp

lemma version_bucket:
  assumes "versioned ct" "in_bucket ct i x" "in_bucket ct j y" "be_version x = be_version y"
  shows "x = y \<and> i = j"
proof -
  have d: "distinct (map be_version (concat (buckets ct)))" and l: "length (buckets ct) = n_buckets ct" using assms(1) by (simp_all add: versioned_def)
  have "x \<in> set (concat (buckets ct))" "y \<in> set (concat (buckets ct))" using assms(2,3) l by (auto simp: in_bucket_def)
  with d assms(4) have "x = y" by (auto simp: distinct_map inj_on_def)
  moreover from this have "i = j"
    using distinct_concat_index [of "buckets ct" i j x] d l assms(2,3) by (auto simp: in_bucket_def distinct_map)
  ultimately show ?thesis ..
qed

lemma iter_inv_step:
  assumes "iter_inv c ct it K ret" "versioned ct" "iter_ok ct it'" "it_c it' = c" "\<not> it_unlink it'" "it_c_version it' = c_version ct"
    and e: "be_version e = it_version it'" "in_bucket ct (it_bucket it') e" "later (it_bucket it) (it_version it) (it_bucket it') e"
      "\<forall>i x. in_bucket ct i x \<and> later (it_bucket it) (it_version it) i x \<longrightarrow>
         i = it_bucket it' \<and> be_version x = be_version e \<or> later (it_bucket it') (be_version e) i x"
  shows "iter_inv c ct it' K (ret @ [(it_version it', be_obj e)])"
proof -
  let ?b = "it_bucket it" and ?v = "it_version it" and ?b' = "it_bucket it'" and ?v' = "it_version it'"
  note inv = assms(1) [unfolded iter_inv_def]
  have new: "be_version e \<notin> fst ` set ret" using inv e(2,3) by blast
  have lt: "be_version e < c_version ct" using versionedD(2) [OF assms(2)] e(2) by (auto simp: in_bucket_def)
  have mono: "later ?b ?v i x" if "later ?b' ?v' i x" for i x using that e(1,3) by (auto simp: later_def)
  have seen: "\<not> later ?b' ?v' i x" if "in_bucket ct i x" "be_version x \<in> fst ` set (ret @ [(?v', be_obj e)])" for i x
  proof (cases "be_version x = be_version e")
    case True
    with version_bucket [OF assms(2) that(1) e(2)] e(1) show ?thesis by (simp add: later_def)
  next
    case False
    with that(2) e(1) have "be_version x \<in> fst ` set ret" by auto
    with inv that(1) have "\<not> later ?b ?v i x" by blast
    with mono show ?thesis by blast
  qed
  have visited: "(be_version x, be_obj x) \<in> set (ret @ [(?v', be_obj e)])"
    if "in_bucket ct i x" "(be_version x, be_obj x) \<in> K" "\<not> later ?b' ?v' i x" for i x
  proof (cases "later ?b ?v i x")
    case True
    with e(1,4) that(1,3) have "be_version x = be_version e" by auto
    then have "x = e" using version_bucket [OF assms(2) that(1) e(2)] by blast
    with e(1) show ?thesis by simp
  next
    case False
    with inv that(1,2) have "(be_version x, be_obj x) \<in> set ret" by blast
    then show ?thesis by simp
  qed
  show ?thesis unfolding iter_inv_def
    using inv assms(3-6) new lt e(1) seen visited by auto
qed

lemma iteration_inv:
  assumes "iteration releases c ext it s K ret"
  shows "\<exists>ct. ao2_ok releases ext s \<and> c \<in># ext \<and> get_container s c = Some ct \<and> versioned ct \<and> iter_inv c ct it K ret"
  using assms
proof induction
  case (start ext s ct it m)
  with iter_inv_start [OF start(4,5)] show ?case by blast
next
  case (change ext it s K ret ct ext' s' ct')
  then have "versioned ct" "iter_inv c ct it K ret" by auto
  with iter_inv_change [OF _ change(6)] change show ?case by blast
next
  case (step ext it s K ret a it' s')
  then obtain ct where ct: "ao2_ok releases ext s" "c \<in># ext" "get_container s c = Some ct" "versioned ct" "iter_inv c ct it K ret" by blast
  have it: "it_c it = c" "\<not> it_unlink it" "iter_ok ct it" using ct(5) by (simp_all add: iter_inv_def)
  have cok: "container_ok (brk s) ct" using ct(1,3) by (auto simp: ao2_ok_def)
  from iterator_next_ok [OF ct(1), of it ct] ct(2,3) it step(2) have ok: "ao2_ok releases (ext + found_refs (Some a)) s'"
    "get_container s' c = Some ct" "it_c it' = c" "\<not> it_unlink it'" "iter_ok ct it'" by auto
  from iterator_next_spec [OF _ cok ct(4) it(3,2) step(2)] ct(3) it(1) obtain e where
    e: "it_c_version it' = c_version ct" "be_obj e = a" "be_version e = it_version it'" "in_bucket ct (it_bucket it') e"
      "later (it_bucket it) (it_version it) (it_bucket it') e"
      "\<forall>i x. in_bucket ct i x \<and> later (it_bucket it) (it_version it) i x \<longrightarrow>
         i = it_bucket it' \<and> be_version x = be_version e \<or> later (it_bucket it') (be_version e) i x" by auto
  from iter_inv_step [OF ct(5,4) ok(5,3,4) e(1,3-6)] have "iter_inv c ct it' K (ret @ [(it_version it', a)])" unfolding e(2) .
  with ok ct(2,4) show ?case by (auto simp: found_refs_def)
qed

text \<open>
  C18: an iterator visits every object once, whatever happens to the container in between: no entry is
  returned twice, and when the iterator comes to the end every entry that was in the container all the
  time has been returned. This holds also where the iterator follows its pointer to the current
  entry, which it does only when the container has not changed.
\<close>

theorem iteration_visits_once:
  assumes "iteration releases c ext it s K ret"
  shows "distinct (map fst ret) \<and>
    (\<exists>r it' s'. ao2_iterator_next releases it s = Some (r, it', s') \<and> (r = None \<longrightarrow> K \<subseteq> set ret))"
proof -
  obtain ct where ct: "ao2_ok releases ext s" "c \<in># ext" "get_container s c = Some ct" "versioned ct" "iter_inv c ct it K ret"
    using iteration_inv [OF assms] by blast
  have it: "it_c it = c" "\<not> it_unlink it" "iter_ok ct it" "distinct (map fst ret)" "K \<subseteq> entry_keys ct" using ct(5) by (simp_all add: iter_inv_def)
  have cok: "container_ok (brk s) ct" using ct(1,3) by (auto simp: ao2_ok_def)
  obtain r it' s' where n: "ao2_iterator_next releases it s = Some (r, it', s')"
    using iterator_next_ok [OF ct(1), of it ct] ct(2,3) it by blast
  have "K \<subseteq> set ret" if "r = None"
  proof
    fix k assume k: "k \<in> K"
    then obtain e i where e: "k = (be_version e, be_obj e)" "in_bucket ct i e" using it(5) by (auto simp: entry_keys_def)
    have "\<not> later (it_bucket it) (it_version it) i e"
      using iterator_next_spec [OF _ cok ct(4) it(3,2) n] ct(3) it(1) that e(2) by auto
    with ct(5) k e show "k \<in> set ret" unfolding iter_inv_def by blast
  qed
  with it(4) n show ?thesis by blast
qed

section \<open>What a search finds\<close>

text \<open>An entry is in the bucket its object hashes to.\<close>

definition placed :: "ao2_container \<Rightarrow> bool" where
  "placed c \<longleftrightarrow> (\<forall>i e. in_bucket c i e \<longrightarrow> link_bucket c (be_obj e) = Some i)"

lemma link_bucket_cong: "hash_fn c' = hash_fn c \<Longrightarrow> n_buckets c' = n_buckets c \<Longrightarrow> link_bucket c' = link_bucket c"
  by (simp add: fun_eq_iff link_bucket_def)

lemma placed_insert:
  assumes "container_ok b c" "placed c" "link_bucket c a = Some i"
  shows "placed (insert_entry i p a c)"
  using assms link_bucket_less [OF assms(3)] link_bucket_cong [of "insert_entry i p a c" c]
  by (auto simp: placed_def insert_entry_def in_bucket_def container_ok_def nth_list_update split: if_splits)

lemma placed_remove: "container_ok b c \<Longrightarrow> placed c \<Longrightarrow> placed (remove_entry i p c)"
  using link_bucket_cong [of "remove_entry i p c" c]
  by (cases "i < n_buckets c") (auto simp: placed_def remove_entry_def in_bucket_def container_ok_def nth_list_update split: if_splits)

lemma bounds_cover:
  assumes "search_bounds flags c arg = Some (start, lim)" "link_bucket c a = Some i"
    and "OBJ_POINTER flags \<longrightarrow> hash_fn c a = hash_fn c arg" "- 2147483648 \<le> hash_fn c a" "hash_fn c a < 2147483648" "i < n_buckets c"
  shows "start \<le> i \<and> i < lim \<or> OBJ_POINTER flags \<and> OBJ_CONTINUE flags"
proof (cases "OBJ_POINTER flags \<and> \<not> OBJ_CONTINUE flags \<and> 0 \<le> hash_fn c arg smod int (n_buckets c)")
  case False
  with assms(1,6) show ?thesis by (auto simp: search_bounds_def Let_def split: if_splits)
next
  case True
  let ?n = "int (n_buckets c)"
  have n: "0 < ?n" using assms(6) by simp
  have h: "hash_fn c a = hash_fn c arg" using True assms(3) by simp
  have "int i = hash_fn c arg smod ?n"
  proof (cases "0 \<le> hash_fn c a")
    case pos: True
    with assms(2,4,5) show ?thesis by (auto simp: link_bucket_def Let_def to_int32_id h split: if_splits)
  next
    case neg: False
    then have z: "hash_fn c arg smod ?n = 0" using True smod_int_compares(4) [of "hash_fn c arg" ?n] n h by simp
    show ?thesis
    proof (cases "hash_fn c a = - 2147483648")
      case True
      have "to_int32 \<bar>hash_fn c a\<bar> = - 2147483648" unfolding True by (simp add: to_int32_def)
      with z True h assms(2) show ?thesis by (auto simp: link_bucket_def Let_def split: if_splits)
    next
      case False
      with neg assms(4) have "to_int32 \<bar>hash_fn c a\<bar> = - hash_fn c a" by (simp add: to_int32_id)
      with z h assms(2) show ?thesis by (auto simp: link_bucket_def Let_def split: if_splits)
    qed
  qed
  with True assms(1,6) show ?thesis by (auto simp: search_bounds_def Let_def split: if_splits)
qed

lemma scan_bucket_first:
  assumes "\<not> OBJ_MULTIPLE flags" "\<forall>o' u. snd (fst (cb o' u)) \<longrightarrow> fst (fst (cb o' u))" "\<forall>o' u. snd (cb o' u) = u"
  shows "scan_bucket releases flags cb c multi i es ret u s =
    (case find (\<lambda>e. fst (fst (cb (be_obj e) u))) es of
       None \<Rightarrow> Some (False, ret, u, s)
     | Some e \<Rightarrow> map_option (\<lambda>(r, s1). (True, r, u, s1)) (take_match releases flags c multi i e ret s))"
proof (induction es)
  case (Cons e es)
  obtain m st u1 where cb: "cb (be_obj e) u = ((m, st), u1)" by (metis prod.exhaust)
  with assms(2,3) have "u1 = u" "st \<longrightarrow> m" by (metis fst_conv snd_conv)+
  with Cons cb assms(1) show ?case
    by (cases m; cases st; cases "take_match releases flags c multi i e ret s") auto
qed simp

lemma callback_loop_first:
  assumes "searching releases flags c None ext ct s" "\<not> OBJ_MULTIPLE flags" "\<not> OBJ_NODATA flags" "\<not> (OBJ_POINTER flags \<and> OBJ_CONTINUE flags)"
    and cb: "\<forall>o' u. snd (fst (cb o' u)) \<longrightarrow> fst (fst (cb o' u))" "\<forall>o' u. snd (cb o' u) = u"
    and "lim \<le> n_buckets ct"
  shows "\<exists>ret s'. callback_loop releases flags cb c None (n_buckets ct) start i lim None u s = Some (ret, u, s') \<and>
    (case ret of
       Some a \<Rightarrow> \<exists>j e. i \<le> j \<and> j < lim \<and> in_bucket ct j e \<and> be_obj e = a \<and> fst (fst (cb a u))
     | None \<Rightarrow> s' = s \<and> (\<forall>j e. i \<le> j \<and> j < lim \<and> in_bucket ct j e \<longrightarrow> \<not> fst (fst (cb (be_obj e) u))))"
  using assms(7)
proof (induction "lim - i" arbitrary: i)
  case 0
  then have "callback_loop releases flags cb c None (n_buckets ct) start i lim None u s = Some (None, u, s)" by (subst callback_loop.simps) simp
  with 0 show ?case by auto
next
  case (Suc k)
  have i: "i < lim" "i < n_buckets ct" and k: "k = lim - (i + 1)" using Suc by simp_all
  have gc: "get_container s c = Some ct" using assms(1) by (simp add: searching_def)
  note sc = scan_bucket_first [OF assms(2) cb, of releases c None i "buckets ct ! i" None u s]
  show ?case
  proof (cases "find (\<lambda>e. fst (fst (cb (be_obj e) u))) (buckets ct ! i)")
    case None
    have "callback_loop releases flags cb c None (n_buckets ct) start i lim None u s =
        callback_loop releases flags cb c None (n_buckets ct) start (i + 1) lim None u s"
      using sc None assms(4) by (subst callback_loop.simps) (auto simp: i gc)
    moreover have "\<not> fst (fst (cb (be_obj e) u))" if "in_bucket ct i e" for e
      using None that by (auto simp: find_None_iff in_bucket_def)
    moreover obtain ret s' where "callback_loop releases flags cb c None (n_buckets ct) start (i + 1) lim None u s = Some (ret, u, s')"
      "case ret of
         Some a \<Rightarrow> \<exists>j e. i + 1 \<le> j \<and> j < lim \<and> in_bucket ct j e \<and> be_obj e = a \<and> fst (fst (cb a u))
       | None \<Rightarrow> s' = s \<and> (\<forall>j e. i + 1 \<le> j \<and> j < lim \<and> in_bucket ct j e \<longrightarrow> \<not> fst (fst (cb (be_obj e) u)))"
      using Suc.hyps(1) [OF k Suc.prems] by blast
    moreover have "i \<le> j \<longleftrightarrow> j = i \<or> i + 1 \<le> j" for j by auto
    ultimately show ?thesis by (cases ret) auto
  next
    case (Some e)
    then have e: "e \<in> set (buckets ct ! i)" "fst (fst (cb (be_obj e) u))" by (auto simp: find_Some_iff)
    obtain s' where "take_match releases flags c None i e None s = Some (Some (be_obj e), s')"
      using take_match_ok [OF assms(1) i(2) e(1)] assms(3) by auto
    then have "callback_loop releases flags cb c None (n_buckets ct) start i lim None u s = Some (Some (be_obj e), u, s')"
      using sc Some by (subst callback_loop.simps) (simp add: i gc)
    with e i show ?thesis by (auto simp: in_bucket_def)
  qed
qed

lemma set_concat_nth: "set (concat xss) = {x. \<exists>i < length xss. x \<in> set (xss ! i)}"
  by (induction xss rule: rev_induct) (auto simp: nth_append less_Suc_eq)

text \<open>
  C19: a search for one object finds one when there is one: the object returned is in the container and
  matches, and when none is returned no object of the container matches. With \<open>OBJ_POINTER\<close> only one bucket
  is searched, which is the right one when objects that match have the hash of the argument, also when
  the hash is negative.
\<close>

theorem find_finds_match:
  assumes "ao2_ok releases ext s" "c \<in># ext" "get_container s c = Some ct" "placed ct" "cmp_fn ct = Some f"
    and "\<not> OBJ_MULTIPLE flags" "\<not> OBJ_NODATA flags" "\<not> (OBJ_POINTER flags \<and> OBJ_CONTINUE flags)"
    and "\<forall>a. snd (f a arg) \<longrightarrow> fst (f a arg)"
    and "\<forall>a. - 2147483648 \<le> hash_fn ct a \<and> hash_fn ct a < 2147483648"
    and "\<forall>a. OBJ_POINTER flags \<and> fst (f a arg) \<longrightarrow> hash_fn ct a = hash_fn ct arg"
  shows "\<exists>r s'. ao2_find releases c arg flags s = Some (r, s') \<and>
    (case r of
       Found_Obj a \<Rightarrow> a \<in> set (container_objs ct) \<and> fst (f a arg)
     | Found_None \<Rightarrow> (\<forall>a \<in> set (container_objs ct). \<not> fst (f a arg))
     | Found_Many it \<Rightarrow> False)"
proof -
  let ?cb = "\<lambda>o' u :: unit. (f o' arg, u)"
  have cok: "container_ok (brk s) ct" using assms(1,3) by (auto simp: ao2_ok_def)
  have "set (concat (buckets ct)) = {e. \<exists>i. in_bucket ct i e}"
    using cok set_concat_nth [of "buckets ct"] by (simp add: in_bucket_def container_ok_def)
  then have objs: "set (container_objs ct) = {be_obj e | e i. in_bucket ct i e}" by (auto simp: container_objs_def)
  have n: "0 < n_buckets ct" using cok by (simp add: container_ok_def)
  have "hash_fn ct arg smod int (n_buckets ct) < int (n_buckets ct)" using smod_less n by simp
  then obtain start lim where b: "search_bounds flags ct arg = Some (start, lim)" "lim \<le> n_buckets ct"
    using n assms(8) by (cases "search_bounds flags ct arg") (auto simp: search_bounds_def Let_def split: if_splits)
  have s: "searching releases flags c None ext ct s" using assms by (simp add: searching_def collects_def)
  have p: "\<forall>o' u. snd (fst (?cb o' u)) \<longrightarrow> fst (fst (?cb o' u))" "\<forall>o' u. snd (?cb o' u) = u" using assms(9) by simp_all
  obtain ret s' where r: "callback_loop releases flags ?cb c None (n_buckets ct) start start lim None () s = Some (ret, (), s')"
    "case ret of
       Some a \<Rightarrow> \<exists>j e. start \<le> j \<and> j < lim \<and> in_bucket ct j e \<and> be_obj e = a \<and> fst (f a arg)
     | None \<Rightarrow> s' = s \<and> (\<forall>j e. start \<le> j \<and> j < lim \<and> in_bucket ct j e \<longrightarrow> \<not> fst (f (be_obj e) arg))"
    using callback_loop_first [OF s assms(6-8) p b(2), of start start "()"] unfolding fst_conv by blast
  have "INTERNAL_OBJ s c \<noteq> None" using ao2_ok_live [OF assms(1,2)] by (simp add: INTERNAL_OBJ_def)
  then have fd: "ao2_find releases c arg flags s = Some (case ret of Some a \<Rightarrow> Found_Obj a | None \<Rightarrow> Found_None, s')"
    using assms(3,5-7) b(1) r(1) by (auto simp: ao2_find_def internal_ao2_callback_def run_search_def)
  show ?thesis
  proof (cases ret)
    case (Some a)
    with r(2) fd show ?thesis by (auto simp: objs)
  next
    case None
    have "\<not> fst (f (be_obj e) arg)" if "in_bucket ct i e" for i e
    proof
      assume m: "fst (f (be_obj e) arg)"
      have "link_bucket ct (be_obj e) = Some i" using assms(4) that by (simp add: placed_def)
      from bounds_cover [OF b(1) this] assms(8,10,11) m that have "start \<le> i \<and> i < lim" by (auto simp: in_bucket_def)
      with r(2) None that m show False by auto
    qed
    with None fd show ?thesis by (auto simp: objs)
  qed
qed

section \<open>A search that never ends\<close>

text \<open>
  Without data and without unlinking, a search around all buckets that starts in the last one: the index that
  ends the search is that of the last bucket, and the loop takes it for the wrap-around.
\<close>

definition around_flags :: search_flags where
  "around_flags = \<lparr>OBJ_UNLINK = False, OBJ_NODATA = True, OBJ_MULTIPLE = False, OBJ_POINTER = True, OBJ_CONTINUE = True\<rparr>"

lemma callback_loop_endless:
  assumes "get_container s c = Some ct" "n_buckets ct = n" "j + 1 < n" "in_bucket ct j e0" "fst (f (be_obj e0))"
    and "\<forall>a. snd (f a) \<longrightarrow> fst (f a)" "i \<le> j"
  shows "callback_loop releases around_flags (\<lambda>o' u. (f o', u)) c None n (n - 1) i (n - 1) None u s = None"
proof -
  let ?cb = "\<lambda>o' u. (f o', u)"
  have never: "callback_loop rel fl cb c' mu n' start i' lim ret u2 s2 = Some y \<Longrightarrow>
      \<not> (fl = around_flags \<and> cb = ?cb \<and> c' = c \<and> mu = None \<and> n' = n \<and> start = n - 1 \<and> lim = n - 1 \<and> i' \<le> j \<and> ret = None \<and> s2 = s)"
    for rel fl cb c' mu n' start i' lim ret u2 s2 y
  proof (rule callback_loop.raw_induct [of "\<lambda>rel fl cb c' mu n' start i' lim ret u2 s2 y.
      \<not> (fl = around_flags \<and> cb = ?cb \<and> c' = c \<and> mu = None \<and> n' = n \<and> start = n - 1 \<and> lim = n - 1 \<and> i' \<le> j \<and> ret = None \<and> s2 = s)"])
    fix loop rel fl cb c' mu n' start i' lim ret u2 s2 y
    assume ih: "\<And>rel fl cb c' mu n' start i' lim ret u2 s2 y. loop rel fl cb c' mu n' start i' lim ret u2 s2 = Some y \<Longrightarrow>
        \<not> (fl = around_flags \<and> cb = ?cb \<and> c' = c \<and> mu = None \<and> n' = n \<and> start = n - 1 \<and> lim = n - 1 \<and> i' \<le> j \<and> ret = None \<and> s2 = s)"
      and body: "(if \<not> i' < lim then Some (ret, u2, s2)
        else do {
          ct \<leftarrow> get_container s2 c';
          (over, ret1, u1, s1) \<leftarrow> scan_bucket rel fl cb c' mu i' (buckets ct ! i') ret u2 s2;
          if ret1 \<noteq> None then Some (ret1, u1, s1)
          else let i1 = (if over then lim else i')
               in if i1 + 1 = n' \<and> OBJ_POINTER fl \<and> OBJ_CONTINUE fl
                  then loop rel fl cb c' mu n' start 0 start ret1 u1 s1
                  else loop rel fl cb c' mu n' start (i1 + 1) lim ret1 u1 s1
        }) = Some y"
    show "\<not> (fl = around_flags \<and> cb = ?cb \<and> c' = c \<and> mu = None \<and> n' = n \<and> start = n - 1 \<and> lim = n - 1 \<and> i' \<le> j \<and> ret = None \<and> s2 = s)"
    proof
      assume a: "fl = around_flags \<and> cb = ?cb \<and> c' = c \<and> mu = None \<and> n' = n \<and> start = n - 1 \<and> lim = n - 1 \<and> i' \<le> j \<and> ret = None \<and> s2 = s"
      then have i: "i' < lim" "i' < n" using assms(3) by auto
      let ?f = "find (\<lambda>e. fst (f (be_obj e))) (buckets ct ! i')"
      have tm: "take_match rel around_flags c None i' e None s = Some (None, s)" for e
        by (simp add: take_match_def around_flags_def)
      have sc: "scan_bucket rel around_flags ?cb c None i' (buckets ct ! i') None u2 s = Some (?f \<noteq> None, None, u2, s)"
        using scan_bucket_first [of around_flags ?cb rel c None i' "buckets ct ! i'" None u2 s] assms(6) tm
        by (cases ?f) (auto simp: around_flags_def)
      show False
      proof (cases ?f)
        case (Some e)
        with body a i sc assms(1,3) have "loop rel fl cb c' mu n' start 0 start None u2 s = Some y"
          by (auto simp: around_flags_def Let_def)
        from ih [OF this] a show False by simp
      next
        case None
        then have "i' \<noteq> j" using assms(4,5) by (auto simp: find_None_iff in_bucket_def)
        with a have "i' + 1 \<le> j" by simp
        have "i' + 1 \<noteq> n" using i(1) a by auto
        with body a i sc assms(1) None have "loop rel fl cb c' mu n' start (i' + 1) lim None u2 s = Some y"
          by (auto simp: around_flags_def Let_def)
        from ih [OF this] a \<open>i' + 1 \<le> j\<close> show False by simp
      qed
    qed
  qed
  from never [of releases around_flags ?cb c None n "n - 1" i "n - 1" None u s] assms(7)
  show ?thesis by (cases "callback_loop releases around_flags ?cb c None n (n - 1) i (n - 1) None u s") auto
qed

text \<open>
  A search through all buckets with \<open>OBJ_POINTER\<close> and \<open>OBJ_CONTINUE\<close> that is to return nothing never ends when the
  argument hashes to the last bucket, where no object matches, and an object in another bucket does.
\<close>

theorem search_around_endless:
  assumes "get_container s c = Some ct" "n_buckets ct = n" "hash_fn ct arg smod int n = int n - 1"
    and "\<forall>e \<in> set (buckets ct ! (n - 1)). \<not> fst (f (be_obj e))"
    and "j + 1 < n" "in_bucket ct j e" "fst (f (be_obj e))" "\<forall>a. snd (f a) \<longrightarrow> fst (f a)"
  shows "internal_ao2_callback releases c around_flags (Some (\<lambda>o' u. (f o', u))) arg u s = None"
proof -
  let ?cb = "\<lambda>o' u. (f o', u)"
  have n: "0 < n" "n - 1 < n" "nat (int n - 1) = n - 1" using assms(5) by auto
  have "search_bounds around_flags ct arg = Some (n - 1, n)"
    using n(1,3) assms(2,3) by (simp add: search_bounds_def around_flags_def Let_def)
  moreover have "scan_bucket releases around_flags ?cb c None (n - 1) (buckets ct ! (n - 1)) None u s = Some (False, None, u, s)"
  proof -
    have "find (\<lambda>e. fst (f (be_obj e))) (buckets ct ! (n - 1)) = None" using assms(4) by (auto simp: find_None_iff)
    with scan_bucket_first [of around_flags ?cb releases c None "n - 1" "buckets ct ! (n - 1)" None u s] assms(8)
    show ?thesis by (simp add: around_flags_def)
  qed
  then have "callback_loop releases around_flags ?cb c None n (n - 1) (n - 1) n None u s =
      callback_loop releases around_flags ?cb c None n (n - 1) 0 (n - 1) None u s"
    by (subst callback_loop.simps) (use n assms(1) in \<open>simp add: around_flags_def Let_def\<close>)
  moreover have "callback_loop releases around_flags ?cb c None n (n - 1) 0 (n - 1) None u s = None"
    by (rule callback_loop_endless [OF assms(1,2,5-8)]) simp
  ultimately have "run_search releases around_flags ?cb c None arg u s = None" using assms(1,2) by (simp add: run_search_def)
  moreover have "INTERNAL_OBJ s c \<noteq> None" using assms(1) by (auto simp: get_container_def split: option.splits)
  ultimately show ?thesis by (auto simp: internal_ao2_callback_def around_flags_def)
qed

section \<open>A container with one object\<close>

definition demo_container :: ao2_container where
  "demo_container =
     \<lparr>hash_fn = (\<lambda>a. int (a mod 2)), cmp_fn = Some (\<lambda>a arg. (a = arg, False)), n_buckets = 2, elements = 1, c_version = 2,
      buckets = [[\<lparr>be_addr = 3, be_version = 1, be_obj = 2\<rparr>], []]\<rparr>"

definition demo_state :: ao2_state where
  "demo_state =
     \<lparr>objs = [1 \<mapsto> \<lparr>ref_counter = 1, user_data = Container demo_container\<rparr>, 2 \<mapsto> \<lparr>ref_counter = 2, user_data = User False\<rparr>],
      brk = 4, oom = []\<rparr>"

definition demo_iterator :: ao2_iterator where
  "demo_iterator = \<lparr>it_c = 1, it_mallocd = False, it_unlink = False, it_bucket = 0, it_c_version = 0, it_obj = None, it_version = 0\<rparr>"

lemma demo_get: "get_container demo_state a = (if a = 1 then Some demo_container else None)"
  by (simp add: get_container_def INTERNAL_OBJ_def demo_state_def)

lemma demo_ok: "ao2_ok (\<lambda>_. []) {#1, 2#} demo_state"
proof -
  have d: "dom (objs demo_state) = {1, 2}" by (auto simp: demo_state_def)
  have h: "held (\<lambda>_. []) {} demo_state = {#2#}"
    unfolding held_def d by (simp add: data_refs_def demo_state_def demo_container_def container_objs_def)
  have "accounted (\<lambda>_. []) {#1, 2#} {} demo_state"
    unfolding accounted_def h d by (auto simp: demo_state_def split: if_splits)
  moreover have "container_ok 4 demo_container" by (auto simp: container_ok_def demo_container_def)
  moreover have b: "brk demo_state = 4" by (simp add: demo_state_def)
  ultimately show ?thesis unfolding ao2_ok_def d b by (auto simp: demo_get split: if_splits)
qed

lemma demo_versioned: "versioned demo_container"
  by (auto simp: versioned_def demo_container_def)

lemma demo_bucket: "in_bucket demo_container i e \<longleftrightarrow> i = 0 \<and> e = \<lparr>be_addr = 3, be_version = 1, be_obj = 2\<rparr>"
  by (auto simp: in_bucket_def demo_container_def less_2_cases_iff)

lemma demo_placed: "placed demo_container"
  unfolding placed_def demo_bucket by (auto simp: link_bucket_def demo_container_def to_int32_def)

theorem release_reference_exact_witness:
  "ao2_ok (\<lambda>_. []) {#1, 2#} demo_state \<and> (\<exists>s'. ao2_ref (\<lambda>_. []) 1 (-1) demo_state = Some s' \<and> ao2_ok (\<lambda>_. []) {#2#} s')"
  using demo_ok release_reference_exact [of "\<lambda>_. []" 1 "{#2#}" demo_state] by auto


theorem iteration_visits_once_witness:
  "iteration (\<lambda>_. []) 1 {#1, 2#} demo_iterator demo_state {(1, 2)} [] \<and>
   (\<exists>a it' s'. ao2_iterator_next (\<lambda>_. []) demo_iterator demo_state = Some (Some a, it', s'))"
proof -
  have k: "entry_keys demo_container = {(1, 2)}" by (auto simp: entry_keys_def demo_bucket)
  have it: "iteration (\<lambda>_. []) 1 {#1, 2#} demo_iterator demo_state {(1, 2)} []"
    unfolding k [symmetric]
    by (rule iteration.start [OF demo_ok _ _ demo_versioned, of _ _ False]) (simp_all add: demo_get demo_iterator_def)
  obtain r it' s' where "ao2_iterator_next (\<lambda>_. []) demo_iterator demo_state = Some (r, it', s')" "r \<noteq> None"
    using iteration_visits_once [OF it] by auto
  with it show ?thesis by auto
qed

theorem find_finds_match_witness:
  "\<exists>s'. ao2_find (\<lambda>_. []) 1 2 \<lparr>OBJ_UNLINK = False, OBJ_NODATA = False, OBJ_MULTIPLE = False, OBJ_POINTER = True, OBJ_CONTINUE = False\<rparr> demo_state
     = Some (Found_Obj 2, s')"
proof -
  have c: "cmp_fn demo_container = Some (\<lambda>a arg. (a = arg, False))" "\<forall>a. - 2147483648 \<le> hash_fn demo_container a \<and> hash_fn demo_container a < 2147483648"
    "set (container_objs demo_container) = {2}"
    by (auto simp: demo_container_def container_objs_def intro: order_less_le_trans [of _ 2])
  let ?r = "\<lambda>r. case r of
       Found_Obj a \<Rightarrow> a \<in> set (container_objs demo_container) \<and> fst (a = 2, False)
     | Found_None \<Rightarrow> (\<forall>a \<in> set (container_objs demo_container). \<not> fst (a = 2, False))
     | Found_Many it \<Rightarrow> False"
  have "\<exists>r s'. ao2_find (\<lambda>_. []) 1 2 \<lparr>OBJ_UNLINK = False, OBJ_NODATA = False, OBJ_MULTIPLE = False, OBJ_POINTER = True, OBJ_CONTINUE = False\<rparr> demo_state
      = Some (r, s') \<and> ?r r"
    by (rule find_finds_match [OF demo_ok _ _ demo_placed c(1)]) (use c(2) in \<open>simp_all add: demo_get\<close>)
  moreover have "?r r \<Longrightarrow> r = Found_Obj 2" for r by (cases r) (auto simp: c(3))
  ultimately show ?thesis by blast
qed

theorem search_around_endless_witness:
  "internal_ao2_callback (\<lambda>_. []) 1 around_flags (Some (\<lambda>o' u. ((o' = 2, False), u))) 1 () demo_state = None"
  by (rule search_around_endless [of demo_state 1 demo_container 2 1 "\<lambda>a. (a = 2, False)" 0 "\<lparr>be_addr = 3, be_version = 1, be_obj = 2\<rparr>"])
    (simp_all add: demo_get demo_bucket, simp_all add: demo_container_def signed_modulo_int_def)

end
