(* ===== verification/Udptl.thy ===== *)
theory Udptl
  imports Ast_Prelude "HOL-Library.Monad_Syntax"
begin

text \<open>
  Facsimile packets over UDP, \<open>main/udptl.c\<close>: building a packet with its error recovery, either copies of the
  packets before it or exclusive-or sums of them, and taking one apart, recovering what was lost. A buffer is
  the list of the bytes in it. An operation whose result is \<open>None\<close> has no defined behaviour: it writes or
  reads outside a buffer, or uses a variable that has no value. Sockets and the messages in the log are not modelled.
\<close>

unbundle bit_operations_syntax

section \<open>Lengths and open types\<close>

type_synonym octet = "8 word"

definition LOCAL_FAX_MAX_DATAGRAM :: nat where "LOCAL_FAX_MAX_DATAGRAM = 1400"
definition MAX_FEC_ENTRIES :: nat where "MAX_FEC_ENTRIES = 5"
definition UDPTL_BUF_MASK :: nat where "UDPTL_BUF_MASK = 15"

text \<open>The status, the new position and the value; the buffer ends at the limit.\<close>

definition decode_length :: "octet list \<Rightarrow> nat \<Rightarrow> int \<times> nat \<times> 32 word" where
  "decode_length buf len =
     (if len \<ge> length buf then (-1, len, 0)
      else if (buf ! len) AND 0x80 = 0 then (0, len + 1, ucast (buf ! len))
      else if (buf ! len) AND 0x40 = 0
      then if len = length buf - 1 then (-1, len, 0)
           else (0, len + 2, push_bit 8 (ucast (buf ! len AND 0x3F)) OR ucast (buf ! (len + 1)))
      else (1, len + 1, push_bit 14 (ucast (buf ! len AND 0x3F))))"

text \<open>The new position, and the place and the length of the data: nothing is set for length 0. \<open>None\<close> is an error.\<close>

definition decode_open_type :: "octet list \<Rightarrow> nat \<Rightarrow> (nat \<times> (nat \<times> nat) option) option" where
  "decode_open_type buf len =
     (case decode_length buf len of
        (stat, len1, octet_cnt) \<Rightarrow>
          if stat \<noteq> 0 then None
          else if octet_cnt > 0
          then if len1 + unat octet_cnt > length buf then None else Some (len1 + unat octet_cnt, Some (len1, unat octet_cnt))
          else Some (len1, None))"

definition slice :: "octet list \<Rightarrow> nat \<times> nat \<Rightarrow> octet list" where
  "slice buf = (\<lambda>(pos, n). take n (drop pos buf))"

definition encode_length :: "32 word \<Rightarrow> octet list \<times> 32 word" where
  "encode_length value =
     (if value < 0x80 then ([ucast value], value)
      else if value < 0x4000 then ([ucast (drop_bit 8 (0x8000 OR value)), ucast value], value)
      else let multiplier = (if value < 0x10000 then drop_bit 14 value else 4)
           in ([ucast (0xC0 OR multiplier)], push_bit 14 multiplier))"

text \<open>Writing behind what is written so far, in a buffer of \<open>buflen\<close> bytes.\<close>

definition put :: "nat \<Rightarrow> octet list \<Rightarrow> octet list \<Rightarrow> octet list option" where
  "put buflen bytes out = (if length out + length bytes \<le> buflen then Some (out @ bytes) else None)"

text \<open>The inner \<open>None\<close> is the error of a buffer that is too small for the data.\<close>

function encode_octets :: "nat \<Rightarrow> octet list \<Rightarrow> octet list \<Rightarrow> octet list option option" where
  "encode_octets buflen data out =
     (case encode_length (of_nat (length data)) of
        (bytes, enclen) \<Rightarrow>
          do {
            out1 \<leftarrow> put buflen bytes out;
            if unat enclen + length out1 > buflen then Some None
            else let out2 = out1 @ take (unat enclen) data
                 in if unat enclen \<ge> length data \<or> enclen = 0 then Some (Some out2)
                    else encode_octets buflen (drop (unat enclen) data) out2
          })"
  by pat_completeness auto
termination
  by (relation "measure (\<lambda>(b, d, out). length d)") (auto simp: unat_gt_0 intro!: diff_less)

definition encode_open_type :: "nat \<Rightarrow> octet list \<Rightarrow> octet list \<Rightarrow> octet list option option" where
  "encode_open_type buflen data out = encode_octets buflen (if data = [] then [0] else data) out"

declare encode_octets.simps [simp del]

lemma word_small_bits:
  assumes "unat (w :: 32 word) < 2 ^ n" "n \<le> m"
  shows "\<not> bit w m"
proof
  assume "bit w m"
  then have "bit (unat w) m" by (simp add: bit_unsigned_iff)
  moreover have "take_bit n (unat w) = unat w" using assms(1) by (simp add: take_bit_nat_eq_self_iff)
  ultimately show False using assms(2) by (metis bit_take_bit_iff linorder_not_le)
qed

lemma word_less_unat: "(w :: 32 word) < 0x80 \<longleftrightarrow> unat w < 2 ^ 7" "w < 0x4000 \<longleftrightarrow> unat w < 2 ^ 14"
  by (simp_all add: word_less_nat_alt)

lemma short_length:
  assumes "w < (0x80 :: 32 word)"
  shows "(ucast w :: octet) AND 0x80 = 0" "ucast (ucast w :: octet) = w"
proof -
  have b: "\<not> bit w m" if "7 \<le> m" for m using word_small_bits [of w 7 m] assms that by (simp add: word_less_unat)
  show "(ucast w :: octet) AND 0x80 = 0"
  proof (rule bit_eqI)
    fix n show "bit ((ucast w :: octet) AND 0x80) n = bit (0 :: octet) n"
      using b bit_exp_iff [where 'a = "8 word", of 7 n] by (auto simp: bit_simps)
  qed
  show "ucast (ucast w :: octet) = w"
  proof (rule bit_eqI)
    fix n show "bit (ucast (ucast w :: octet) :: 32 word) n = bit w n" using b [of n] bit_imp_le_length [of w n] by (cases "n < 8") (auto simp: bit_simps)
  qed
qed

lemma long_length:
  assumes "w < (0x4000 :: 32 word)"
  defines "h \<equiv> (ucast (drop_bit 8 (0x8000 OR w)) :: octet)"
  shows "h AND 0x80 \<noteq> 0" "h AND 0x40 = 0" "push_bit 8 (ucast (h AND 0x3F)) OR ucast (ucast w :: octet) = w"
proof -
  have b: "\<not> bit w m" if "14 \<le> m" for m using word_small_bits [of w 14 m] assms(1) that by (simp add: word_less_unat)
  have k: "bit (0x8000 :: 32 word) n \<longleftrightarrow> n = 15" "bit (0x80 :: 32 word) n \<longleftrightarrow> n = 7" "bit (0x80 :: octet) n \<longleftrightarrow> n = 7" "bit (0x40 :: octet) n \<longleftrightarrow> n = 6" for n
    using bit_exp_iff [where 'a = "32 word", of 15 n] bit_exp_iff [where 'a = "32 word", of 7 n] bit_exp_iff [where 'a = "8 word", of 7 n]
     bit_exp_iff [where 'a = "8 word", of 6 n] by auto
  have m: "bit (0x3F :: octet) n \<longleftrightarrow> n < 6" for n
    using bit_mask_iff [where 'a = "8 word", of 6 n] bit_imp_le_length [of "0x3F :: octet" n]
    by (cases "n < 8") (auto simp: mask_eq_exp_minus_1)
  have h: "bit h n \<longleftrightarrow> n < 8 \<and> (bit w (n + 8) \<or> n = 7)" for n
  proof -
    have "bit h n \<longleftrightarrow> n < 8 \<and> bit (drop_bit 8 (0x8000 OR w)) n" unfolding h_def by (simp only: bit_unsigned_iff possible_bit_word) simp
    also have "bit (drop_bit 8 (0x8000 OR w)) n \<longleftrightarrow> bit (0x8000 OR w) (8 + n)" by (simp only: bit_drop_bit_eq comp_apply)
    also have "\<dots> \<longleftrightarrow> n = 7 \<or> bit w (n + 8)" by (simp only: bit_or_iff k(1)) (auto simp: add.commute)
    finally show ?thesis by blast
  qed
  have "bit (h AND 0x80) 7" by (simp add: bit_simps h k)
  then show "h AND 0x80 \<noteq> 0" by auto
  show "h AND 0x40 = 0"
  proof (rule bit_eqI)
    fix n show "bit (h AND 0x40) n = bit (0 :: octet) n" unfolding bit_and_iff h k using b [of 14] by auto
  qed
  show "push_bit 8 (ucast (h AND 0x3F)) OR ucast (ucast w :: octet) = w"
  proof (rule bit_eqI)
    fix n
    have "bit (push_bit 8 (ucast (h AND 0x3F)) OR ucast (ucast w :: octet) :: 32 word) n \<longleftrightarrow>
        8 \<le> n \<and> n < 32 \<and> bit (h AND 0x3F) (n - 8) \<or> n < 8 \<and> bit w n" by (auto simp: bit_simps)
    also have "\<dots> \<longleftrightarrow> bit w n"
    proof -
      have "bit w n \<longrightarrow> n < 14" using b [of n] not_less by blast
      then show ?thesis unfolding bit_and_iff h m by (cases "n < 8") auto
    qed
    finally show "bit (push_bit 8 (ucast (h AND 0x3F)) OR ucast (ucast w :: octet) :: 32 word) n = bit w n" .
qed
qed
section \<open>The session\<close>

datatype ast_t38_ec_modes = UDPTL_ERROR_CORRECTION_NONE | UDPTL_ERROR_CORRECTION_FEC | UDPTL_ERROR_CORRECTION_REDUNDANCY

text \<open>A received packet with its sums. No packet in a place is \<open>buf_len\<close> = -1.\<close>

record udptl_fec_rx_buffer =
  rx_buf :: "octet list option"
  fec_len :: "nat list"
  fec :: "octet list list"
  fec_span :: nat
  fec_entries :: nat

record ast_udptl =
  error_correction_scheme :: ast_t38_ec_modes
  error_correction_entries :: nat
  error_correction_span :: nat
  tx_seq_no :: "32 word"
  rx_seq_no :: "32 word"
  tx :: "octet list option list"
  rx :: "udptl_fec_rx_buffer list"
  far_max_datagram :: int
  local_max_datagram :: int
  far_max_ifp :: int
  local_max_ifp :: int

section \<open>Building a packet\<close>

text \<open>The places of a circular buffer from \<open>i\<close> up to \<open>lim\<close> in steps of \<open>entries\<close>; the loop ends because a multiple of the step leads there.\<close>

fun ring_walk :: "nat \<Rightarrow> int \<Rightarrow> int \<Rightarrow> int \<Rightarrow> nat list" where
  "ring_walk 0 entries i lim = []"
| "ring_walk (Suc k) entries i lim =
     (if i = lim then [] else nat i # ring_walk k entries ((i + entries) mod 16) lim)"

definition fec_group :: "nat \<Rightarrow> nat \<Rightarrow> int \<Rightarrow> nat list" where
  "fec_group span entries lim = ring_walk span (int entries) ((lim - int span * int entries) mod 16) lim"

text \<open>
  A place nothing was put in has the length -1. A sum takes it for an empty one; a copy is never taken from
  it, because there are no more copies than packets sent before.
\<close>

definition place :: "octet list option list \<Rightarrow> nat \<Rightarrow> octet list" where
  "place bufs i = (case bufs ! i of Some b \<Rightarrow> b | None \<Rightarrow> [])"

text \<open>Adding a packet to the sum, which grows to the length of the longest one.\<close>

definition xor_into :: "octet list \<Rightarrow> octet list \<Rightarrow> octet list" where
  "xor_into b s =
     (if length s < length b then map2 (XOR) s (take (length s) b) @ drop (length s) b
      else map2 (XOR) (take (length b) s) b @ drop (length b) s)"

definition fec_sum :: "octet list option list \<Rightarrow> nat list \<Rightarrow> octet list" where
  "fec_sum bufs is = fold (\<lambda>i s. xor_into (place bufs i) s) is []"

fun encode_all :: "nat \<Rightarrow> octet list list \<Rightarrow> octet list \<Rightarrow> octet list option option" where
  "encode_all buflen [] out = Some (Some out)"
| "encode_all buflen (d # ds) out =
     do {
       r \<leftarrow> encode_open_type buflen d out;
       case r of None \<Rightarrow> Some None | Some out1 \<Rightarrow> encode_all buflen ds out1
     }"

definition recovery :: "ast_udptl \<Rightarrow> nat \<Rightarrow> nat \<Rightarrow> octet list \<times> octet list list" where
  "recovery s seq entry =
     (case error_correction_scheme s of
        UDPTL_ERROR_CORRECTION_NONE \<Rightarrow> ([0x00, 0x00], [])
      | UDPTL_ERROR_CORRECTION_REDUNDANCY \<Rightarrow>
          let entries = (if unat (tx_seq_no s) > error_correction_entries s then error_correction_entries s else unat (tx_seq_no s))
          in (0x00 # fst (encode_length (of_nat entries)),
              map (\<lambda>i. place (tx s) (nat ((int entry - int i - 1) mod 16))) [0..<entries])
      | UDPTL_ERROR_CORRECTION_FEC \<Rightarrow>
          let early = (seq < error_correction_span s * error_correction_entries s);
              entries = (if early then seq div error_correction_span s else error_correction_entries s);
              span = (if early \<and> seq < error_correction_span s then 0 else error_correction_span s)
          in ([0x80, 1, of_nat span, of_nat entries],
              map (\<lambda>m. fec_sum (tx s) (fec_group span entries ((int entry + int m) mod 16))) [0..<entries]))"

text \<open>The packet, or the error -1 with what it leaves behind.\<close>

definition udptl_build_packet :: "ast_udptl \<Rightarrow> nat \<Rightarrow> octet list \<Rightarrow> (octet list option \<times> ast_udptl) option" where
  "udptl_build_packet s buflen ifp =
     (let seq = unat (tx_seq_no s) mod 0x10000; entry = seq mod 16;
          s1 = s\<lparr>tx := (tx s)[entry := Some ifp]\<rparr>
      in if length ifp > LOCAL_FAX_MAX_DATAGRAM then None
         else do {
           out \<leftarrow> put buflen [of_nat (seq div 256), of_nat seq] [];
           r \<leftarrow> encode_open_type buflen ifp out;
           case r of
             None \<Rightarrow> Some (None, s1)
           | Some out1 \<Rightarrow>
               let (head, copies) = recovery s1 seq entry
               in do {
                    out2 \<leftarrow> put buflen head out1;
                    r2 \<leftarrow> encode_all buflen copies out2;
                    Some (case r2 of None \<Rightarrow> (None, s1) | Some out3 \<Rightarrow> (Some out3, s1\<lparr>tx_seq_no := tx_seq_no s1 + 1\<rparr>))
                  }
         })"

section \<open>Taking a packet apart\<close>

text \<open>A frame: its sequence number and its data.\<close>

type_synonym t38_frame = "int \<times> octet list"

text \<open>
  The copies of earlier packets behind one count. An empty one leaves its slot of \<open>bufs\<close> without a value, which
  the code then reads; the status -1 is the inner \<open>None\<close>.
\<close>

function read_copies :: "octet list \<Rightarrow> nat \<Rightarrow> nat \<Rightarrow> nat \<Rightarrow> (nat \<times> nat) list \<Rightarrow> (nat \<times> (nat \<times> nat) list) option option" where
  "read_copies buf ptr i cnt bufs =
     (if \<not> (i < cnt \<and> length bufs < 15) then Some (Some (ptr, bufs))
      else case decode_open_type buf ptr of
          None \<Rightarrow> Some None
        | Some (ptr1, None) \<Rightarrow> None
        | Some (ptr1, Some d) \<Rightarrow> read_copies buf ptr1 (i + 1) cnt (bufs @ [d]))"
  by pat_completeness auto
termination by (relation "measure (\<lambda>(b, p, i, c, bs). c - i)") auto

declare read_copies.simps [simp del]

text \<open>A count may be followed by another when its status says so.\<close>

partial_function (option) read_secondary :: "octet list \<Rightarrow> nat \<Rightarrow> (nat \<times> nat) list \<Rightarrow> (nat \<times> nat) list option option" where
  "read_secondary buf ptr bufs =
     (case decode_length buf ptr of
        (stat2, ptr1, cnt) \<Rightarrow>
          if stat2 < 0 then Some None
          else do {
            r \<leftarrow> read_copies buf ptr1 0 (unat cnt) bufs;
            case r of
              None \<Rightarrow> Some None
            | Some (ptr2, bufs2) \<Rightarrow> if stat2 > 0 \<and> length bufs2 < 15 then read_secondary buf ptr2 bufs2 else Some (Some bufs2)
          })"

declare read_secondary.simps [code]

text \<open>
  The frames of the copies not seen before, oldest first. The sequence number is an \<open>int\<close>, and the comparison
  one of unsigned numbers.
\<close>

definition secondary_frames :: "octet list \<Rightarrow> int \<Rightarrow> 32 word \<Rightarrow> (nat \<times> nat) list \<Rightarrow> t38_frame list" where
  "secondary_frames buf seq_no expected bufs =
     [(seq_no - int i, slice buf (bufs ! (i - 1))). i \<leftarrow> rev [1..<Suc (length bufs)], word_of_int (seq_no - int i) \<ge> expected]"

definition clear_slot :: "udptl_fec_rx_buffer \<Rightarrow> udptl_fec_rx_buffer" where
  "clear_slot b = b\<lparr>rx_buf := None, fec_len := (fec_len b)[0 := 0], fec_span := 0, fec_entries := 0\<rparr>"

text \<open>The slots of the packets that were missed; \<open>rx_seq_no\<close> moves on.\<close>

definition skip_missed :: "nat \<Rightarrow> ast_udptl \<Rightarrow> ast_udptl" where
  "skip_missed seq_no s =
     (if seq_no > unat (rx_seq_no s)
      then s\<lparr>rx := fold (\<lambda>k bs. bs[k mod 16 := clear_slot (bs ! (k mod 16))]) [unat (rx_seq_no s)..<seq_no] (rx s),
             rx_seq_no := of_nat seq_no\<rparr>
      else s)"

text \<open>
  The sums of a packet. An empty one leaves the length of the slot and the place of the data as they are,
  the place at \<open>NULL\<close> in the beginning. The first component tells whether all could be read. Reading
  behind the end of the packet is taken as undefined.
\<close>

function read_sums :: "octet list \<Rightarrow> nat \<Rightarrow> nat \<Rightarrow> nat \<Rightarrow> nat option \<Rightarrow> udptl_fec_rx_buffer \<Rightarrow> (bool \<times> udptl_fec_rx_buffer) option" where
  "read_sums buf ptr i entries data b =
     (if \<not> i < entries then Some (True, b)
      else case decode_open_type buf ptr of
          None \<Rightarrow> Some (False, b)
        | Some (ptr1, d) \<Rightarrow>
            let data1 = (case d of Some (pos, n) \<Rightarrow> Some pos | None \<Rightarrow> data);
                b1 = (case d of Some (pos, n) \<Rightarrow> b\<lparr>fec_len := (fec_len b)[i := n]\<rparr> | None \<Rightarrow> b);
                n = fec_len b1 ! i
            in if n > LOCAL_FAX_MAX_DATAGRAM then Some (False, b1)
               else if n = 0 then read_sums buf ptr1 (i + 1) entries data1 b1
               else case data1 of
                   None \<Rightarrow> None
                 | Some pos \<Rightarrow>
                     if pos + n > length buf then None
                     else read_sums buf ptr1 (i + 1) entries data1 (b1\<lparr>fec := (fec b1)[i := slice buf (pos, n)]\<rparr>))"
  by pat_completeness auto
termination by (relation "measure (\<lambda>(b, p, i, e, d, r). e - i)") auto

declare read_sums.simps [simp del]

definition received :: "udptl_fec_rx_buffer list \<Rightarrow> nat \<Rightarrow> octet list" where
  "received bs k = (case rx_buf (bs ! k) of Some d \<Rightarrow> d | None \<Rightarrow> [])"

text \<open>The only slot of a group without data, if there is exactly one.\<close>

definition missing_slot :: "udptl_fec_rx_buffer list \<Rightarrow> nat list \<Rightarrow> nat option" where
  "missing_slot bs ks = (case filter (\<lambda>k. received bs k = []) ks of [k] \<Rightarrow> Some k | _ \<Rightarrow> None)"

definition octet_at :: "octet list \<Rightarrow> nat \<Rightarrow> octet" where
  "octet_at d j = (if j < length d then d ! j else 0)"

definition repair_data :: "udptl_fec_rx_buffer list \<Rightarrow> nat list \<Rightarrow> octet list \<Rightarrow> nat \<Rightarrow> octet list" where
  "repair_data bs ks fsum n = map (\<lambda>j. fold (\<lambda>k v. v XOR octet_at (received bs k) j) ks (fsum ! j)) [0..<n]"

text \<open>One sum \<open>m\<close> of slot \<open>l\<close>. The sum is read, and the slot written, up to its recorded length.\<close>

definition repair_sum :: "nat \<Rightarrow> nat \<Rightarrow> udptl_fec_rx_buffer list \<times> nat set \<Rightarrow> (udptl_fec_rx_buffer list \<times> nat set) option" where
  "repair_sum l m = (\<lambda>(bs, repaired).
     let b = bs ! l; ks = fec_group (fec_span b) (fec_entries b) ((int l + int m) mod 16); n = fec_len b ! m
     in case missing_slot bs ks of
          None \<Rightarrow> Some (bs, repaired)
        | Some w \<Rightarrow>
            if n > LOCAL_FAX_MAX_DATAGRAM \<or> n > length (fec b ! m) then None
            else Some (bs[w := (bs ! w)\<lparr>rx_buf := Some (repair_data bs ks (fec b ! m) n)\<rparr>], insert w repaired))"

fun fold_steps :: "('a \<Rightarrow> 's \<Rightarrow> 's option) \<Rightarrow> 'a list \<Rightarrow> 's \<Rightarrow> 's option" where
  "fold_steps f [] s = Some s"
| "fold_steps f (x # xs) s = Option.bind (f x s) (fold_steps f xs)"

definition repair_slot :: "nat \<Rightarrow> udptl_fec_rx_buffer list \<times> nat set \<Rightarrow> (udptl_fec_rx_buffer list \<times> nat set) option" where
  "repair_slot l bsr =
     (if fec_len (fst bsr ! l) ! 0 = 0 then Some bsr
      else fold_steps (repair_sum l) [0..<fec_entries (fst bsr ! l)] bsr)"

text \<open>The slots from that of the packet backwards.\<close>

definition repair_all :: "nat \<Rightarrow> nat \<Rightarrow> nat \<Rightarrow> udptl_fec_rx_buffer list \<Rightarrow> (udptl_fec_rx_buffer list \<times> nat set) option" where
  "repair_all x span entries bs =
     fold_steps repair_slot (map (\<lambda>t. nat ((int x - int t) mod 16)) [0..<nat ((16 - int span * int entries) mod 16)]) (bs, {x})"

definition repaired_frames :: "nat \<Rightarrow> nat \<Rightarrow> udptl_fec_rx_buffer list \<Rightarrow> nat set \<Rightarrow> t38_frame list" where
  "repaired_frames x seq_no bs repaired =
     [(int seq_no - 15 + int t, received bs ((x + 1 + t) mod 16)). t \<leftarrow> [0..<15], (x + 1 + t) mod 16 \<in> repaired]"

text \<open>The part of a packet with sums, from \<open>ptr\<close>: the frames that were repaired, or the error.\<close>

definition rx_fec :: "ast_udptl \<Rightarrow> octet list \<Rightarrow> nat \<Rightarrow> nat \<Rightarrow> octet list \<Rightarrow> (t38_frame list option \<times> ast_udptl) option" where
  "rx_fec s buf ptr seq_no ifp =
     (if length ifp > LOCAL_FAX_MAX_DATAGRAM then Some (None, s)
      else let s1 = skip_missed seq_no s; x = seq_no mod 16;
               b1 = (rx s1 ! x)\<lparr>rx_buf := Some ifp\<rparr>;
               save = (\<lambda>b. s1\<lparr>rx := (rx s1)[x := b]\<rparr>)
           in if ptr + 2 > length buf \<or> buf ! ptr \<noteq> 1 then Some (None, save b1)
              else let span = unat (buf ! (ptr + 1)); b2 = b1\<lparr>fec_span := span\<rparr>
                   in if ptr + 3 > length buf then Some (None, save b2)
                      else let entries = unat (buf ! (ptr + 2))
                           in if entries > MAX_FEC_ENTRIES then Some (None, save b2)
                              else do {
                                (ok, b3) \<leftarrow> read_sums buf (ptr + 3) 0 entries None (b2\<lparr>fec_entries := entries\<rparr>);
                                if \<not> ok then Some (None, save b3)
                                else do {
                                  (bs, repaired) \<leftarrow> repair_all x span entries (rx (save b3));
                                  Some (Some (repaired_frames x seq_no bs repaired), s1\<lparr>rx := bs\<rparr>)
                                }
                              })"

definition rx_secondary :: "ast_udptl \<Rightarrow> octet list \<Rightarrow> nat \<Rightarrow> nat \<Rightarrow> t38_frame list option option" where
  "rx_secondary s buf ptr seq_no =
     (if \<not> seq_no > unat (rx_seq_no s) then Some (Some [])
      else do {
        r \<leftarrow> read_secondary buf ptr [];
        Some (map_option (secondary_frames buf (int seq_no) (rx_seq_no s)) r)
      })"

text \<open>The frames of a packet, or the error -1. The packet itself comes last, unless it is an old one.\<close>

definition udptl_rx_packet :: "ast_udptl \<Rightarrow> octet list \<Rightarrow> (t38_frame list option \<times> ast_udptl) option" where
  "udptl_rx_packet s buf =
     (if length buf < 2 then Some (None, s)
      else let seq_no = unat (buf ! 0) * 256 + unat (buf ! 1)
           in case decode_open_type buf 2 of
                None \<Rightarrow> Some (None, s)
              | Some (ptr, d) \<Rightarrow>
                  let ifp = (case d of Some d \<Rightarrow> slice buf d | None \<Rightarrow> [])
                  in if ptr + 1 > length buf then Some (None, s)
                     else do {
                       (r, s1) \<leftarrow> (if buf ! ptr AND 0x80 = 0
                                   then do { r \<leftarrow> rx_secondary s buf (ptr + 1) seq_no; Some (r, s) }
                                   else rx_fec s buf (ptr + 1) seq_no ifp);
                       Some (case r of
                           None \<Rightarrow> (None, s1)
                         | Some fs \<Rightarrow>
                             (Some (fs @ (if seq_no \<ge> unat (rx_seq_no s1) then [(int seq_no, ifp)] else [])),
                              s1\<lparr>rx_seq_no := of_nat (seq_no + 1)\<rparr>))
                     })"

section \<open>Open types survive the way\<close>

definition open_head :: "octet list \<Rightarrow> octet list" where
  "open_head data = fst (encode_length (of_nat (length data)))"

definition open_bytes :: "octet list \<Rightarrow> octet list" where
  "open_bytes data = open_head data @ data"

lemma unat_length: "length data < 0x4000 \<Longrightarrow> unat (of_nat (length data) :: 32 word) = length data"
  by (simp add: unsigned_of_nat take_bit_nat_eq_self_iff)

lemma encode_length_value: "length data < 0x4000 \<Longrightarrow> snd (encode_length (of_nat (length data))) = of_nat (length data)"
  using unat_length [of data] by (auto simp: encode_length_def word_less_nat_alt)

lemma encode_open_type_fits:
  assumes "data \<noteq> []" "length data < 0x4000" "length out + length (open_bytes data) \<le> buflen"
  shows "encode_open_type buflen data out = Some (Some (out @ open_bytes data))"
proof -
  have e: "encode_length (of_nat (length data)) = (open_head data, of_nat (length data))"
    using encode_length_value [OF assms(2)] by (metis open_head_def prod.collapse)
  have "encode_octets buflen data out = Some (Some (out @ open_bytes data))"
    by (subst encode_octets.simps) (use assms(3) unat_length [OF assms(2)] in \<open>simp add: e put_def open_bytes_def Let_def\<close>)
  with assms(1) show ?thesis by (simp add: encode_open_type_def)
qed

lemma open_head_cases:
  assumes "data \<noteq> []" "length data < 0x4000"
  shows "(length data < 0x80 \<and> open_head data = [ucast (of_nat (length data) :: 32 word)]) \<or>
    (0x80 \<le> length data \<and> open_head data = [ucast (drop_bit 8 (0x8000 OR (of_nat (length data) :: 32 word))), ucast (of_nat (length data) :: 32 word)])"
  using unat_length [OF assms(2)] assms(2) by (auto simp: open_head_def encode_length_def word_less_nat_alt)

lemma decode_length_open:
  assumes "data \<noteq> []" "length data < 0x4000"
  shows "decode_length (pre @ open_head data @ rest) (length pre) = (0, length pre + length (open_head data), of_nat (length data))"
proof -
  let ?w = "of_nat (length data) :: 32 word"
  show ?thesis
  proof (cases "length data < 0x80")
    case True
    then have w: "?w < 0x80" using unat_length [OF assms(2)] by (simp add: word_less_nat_alt)
    from True open_head_cases [OF assms] have h: "open_head data = [ucast ?w]" by auto
    show ?thesis unfolding decode_length_def h using short_length [OF w] by (simp del: unsigned_of_nat)
  next
    case False
    have w: "?w < 0x4000" using unat_length [OF assms(2)] assms(2) by (simp add: word_less_nat_alt)
    from False open_head_cases [OF assms] have h: "open_head data = [ucast (drop_bit 8 (0x8000 OR ?w)), ucast ?w]" by auto
    note l = long_length [OF w]
    have n: "(pre @ open_head data @ rest) ! length pre = ucast (drop_bit 8 (0x8000 OR ?w))"
      "(pre @ open_head data @ rest) ! (length pre + 1) = ucast ?w" unfolding h by (simp_all add: nth_append)
    show ?thesis unfolding decode_length_def n using l(1,2) by (simp add: l(3) h del: drop_bit_or)
  qed
qed

lemma decode_open_type_back:
  assumes "data \<noteq> []" "length data < 0x4000"
  shows "decode_open_type (pre @ open_bytes data @ rest) (length pre) =
    Some (length pre + length (open_bytes data), Some (length pre + length (open_head data), length data))"
proof -
  have d: "decode_length (pre @ open_bytes data @ rest) (length pre) = (0, length pre + length (open_head data), of_nat (length data))"
    using decode_length_open [OF assms, of pre "data @ rest"] by (simp add: open_bytes_def)
  have "(0 :: 32 word) < of_nat (length data)" using unat_length [OF assms(2)] assms(1) by (simp add: word_less_nat_alt)
  then show ?thesis unfolding decode_open_type_def d using unat_length [OF assms(2)] by (simp add: open_bytes_def)
qed

lemma slice_back: "slice (pre @ open_bytes data @ rest) (length pre + length (open_head data), length data) = data"
  by (simp add: slice_def open_bytes_def)

section \<open>Copies of earlier packets\<close>

definition ifp_ok :: "octet list \<Rightarrow> bool" where
  "ifp_ok d \<longleftrightarrow> d \<noteq> [] \<and> length d < 0x4000"

lemma read_copies_all:
  assumes "\<forall>d \<in> set ds. ifp_ok d" "length bufs + length ds \<le> 15"
  shows "\<exists>ps. read_copies (pre @ concat (map open_bytes ds) @ rest) (length pre) i (i + length ds) bufs =
      Some (Some (length pre + length (concat (map open_bytes ds)), bufs @ ps)) \<and>
    map (slice (pre @ concat (map open_bytes ds) @ rest)) ps = ds"
  using assms
proof (induction ds arbitrary: pre i bufs)
  case Nil
  then show ?case by (simp add: read_copies.simps)
next
  case (Cons d ds)
  let ?buf = "pre @ open_bytes d @ concat (map open_bytes ds) @ rest"
  let ?p = "(length pre + length (open_head d), length d)"
  have d: "d \<noteq> []" "length d < 0x4000" using Cons.prems(1) by (simp_all add: ifp_ok_def)
  have l: "length bufs < 15" "length (bufs @ [?p]) + length ds \<le> 15" using Cons.prems(2) by simp_all
  from Cons.IH [OF _ l(2), of "pre @ open_bytes d" "i + 1"] Cons.prems(1) obtain ps where
    ps: "read_copies ?buf (length pre + length (open_bytes d)) (i + 1) (i + 1 + length ds) (bufs @ [?p]) =
        Some (Some (length pre + length (open_bytes d) + length (concat (map open_bytes ds)), bufs @ ?p # ps))"
      "map (slice ?buf) ps = ds" by auto
  have "read_copies ?buf (length pre) i (i + length (d # ds)) bufs =
      read_copies ?buf (length pre + length (open_bytes d)) (i + 1) (i + 1 + length ds) (bufs @ [?p])"
    by (subst read_copies.simps) (simp add: l(1) decode_open_type_back [OF d, of pre "concat (map open_bytes ds) @ rest"])
  with ps slice_back [of pre d "concat (map open_bytes ds) @ rest"] show ?case
    by (intro exI [of _ "?p # ps"]) (simp add: add.assoc)
qed

lemma small_count:
  assumes "n < 0x80"
  shows "fst (encode_length (of_nat n)) = [of_nat n]" "decode_length (pre @ of_nat n # rest) (length pre) = (0, length pre + 1, of_nat n)"
proof -
  have u: "unat (of_nat n :: 32 word) = n" using assms by (simp add: unsigned_of_nat take_bit_nat_eq_self_iff)
  then have w: "(of_nat n :: 32 word) < 0x80" using assms by (simp add: word_less_nat_alt)
  have c: "(ucast (of_nat n :: 32 word) :: octet) = of_nat n"
    by (rule word_unat_eq_iff [THEN iffD2]) (use assms in \<open>simp add: unsigned_of_nat take_bit_nat_eq_self_iff\<close>)
  show "fst (encode_length (of_nat n)) = [of_nat n]" using w by (simp add: encode_length_def c del: unsigned_of_nat)
  show "decode_length (pre @ of_nat n # rest) (length pre) = (0, length pre + 1, of_nat n)"
    using short_length [OF w, unfolded c] by (simp add: decode_length_def del: unsigned_of_nat)
qed

lemma encode_all_fits:
  assumes "\<forall>d \<in> set ds. ifp_ok d" "length out + length (concat (map open_bytes ds)) \<le> buflen"
  shows "encode_all buflen ds out = Some (Some (out @ concat (map open_bytes ds)))"
  using assms
proof (induction ds arbitrary: out)
  case (Cons d ds)
  then have "encode_open_type buflen d out = Some (Some (out @ open_bytes d))"
    by (intro encode_open_type_fits) (auto simp: ifp_ok_def)
  with Cons show ?case by simp
qed simp

text \<open>A packet as bytes: number, data, kind of recovery, copies.\<close>

definition redundant_packet :: "nat \<Rightarrow> octet list \<Rightarrow> octet list list \<Rightarrow> octet list" where
  "redundant_packet seq ifp copies =
     [of_nat (seq div 256), of_nat seq] @ open_bytes ifp @ [0x00, of_nat (length copies)] @ concat (map open_bytes copies)"

lemma seq_bytes:
  assumes "seq < 0x10000"
  shows "unat (of_nat (seq div 256) :: octet) * 256 + unat (of_nat seq :: octet) = seq"
  using assms by (simp add: unsigned_of_nat take_bit_eq_mod)

lemma backwards:
  assumes "m \<le> n"
  shows "rev [1..<Suc m] = map (\<lambda>k. n - k) [n - m..<n]"
  by (rule nth_equalityI) (use assms in \<open>auto simp: rev_nth simp del: upt_Suc\<close>)

lemma filter_from: "a \<le> r \<Longrightarrow> r \<le> b \<Longrightarrow> filter (\<lambda>k. r \<le> k) [a..<b] = [r..<b]"
proof -
  assume a: "a \<le> r" "r \<le> b"
  then have "[a..<b] = [a..<r] @ [r..<b]" by (metis le_add_diff_inverse upt_add_eq_append)
  then show ?thesis by (simp add: filter_id_conv)
qed

lemma concat_if: "concat (map (\<lambda>i. if P i then [f i] else []) xs) = map f (filter P xs)"
  by (induction xs) auto

lemma secondary_frames_eq:
  assumes "seq < 0x10000" "map (slice buf) ps = copies" "length copies \<le> seq" "r \<le> seq" "seq \<le> r + length copies"
  shows "secondary_frames buf (int seq) (of_nat r) ps = map (\<lambda>k. (int k, copies ! (seq - 1 - k))) [r..<seq]"
proof -
  let ?m = "length ps"
  have m: "?m = length copies" using assms(2) by auto
  have le: "(of_nat r :: 32 word) \<le> word_of_int (int seq - int (seq - k)) \<longleftrightarrow> r \<le> k" if "k < seq" for k
  proof -
    have "word_of_int (int seq - int (seq - k)) = (of_nat k :: 32 word)" using that by (simp add: of_nat_diff)
    moreover have "unat (of_nat k :: 32 word) = k" "unat (of_nat r :: 32 word) = r"
      using assms(1,4) that by (simp_all add: unsigned_of_nat take_bit_nat_eq_self_iff)
    ultimately show ?thesis by (simp add: word_le_nat_alt)
  qed
  have "secondary_frames buf (int seq) (of_nat r) ps =
      map (\<lambda>i. (int seq - int i, slice buf (ps ! (i - 1)))) (filter (\<lambda>i. of_nat r \<le> (word_of_int (int seq - int i) :: 32 word)) (rev [1..<Suc ?m]))"
    unfolding secondary_frames_def by (rule concat_if)
  also have "filter (\<lambda>i. of_nat r \<le> (word_of_int (int seq - int i) :: 32 word)) (rev [1..<Suc ?m]) =
      map (\<lambda>k. seq - k) (filter (\<lambda>k. r \<le> k) [seq - ?m..<seq])"
  proof -
    have "filter (\<lambda>k. of_nat r \<le> (word_of_int (int seq - int (seq - k)) :: 32 word)) [seq - ?m..<seq] = filter (\<lambda>k. r \<le> k) [seq - ?m..<seq]"
      by (rule filter_cong [OF refl], rule le) simp
    then show ?thesis unfolding backwards [OF assms(3) [folded m]] filter_map comp_def by simp
  qed
  also have "filter (\<lambda>k. r \<le> k) [seq - ?m..<seq] = [r..<seq]" by (rule filter_from) (use assms m in auto)
  also have "map (\<lambda>i. (int seq - int i, slice buf (ps ! (i - 1)))) (map (\<lambda>k. seq - k) [r..<seq]) = map (\<lambda>k. (int k, copies ! (seq - 1 - k))) [r..<seq]"
    unfolding map_map comp_def
  proof (rule map_cong [OF refl])
    fix k assume "k \<in> set [r..<seq]"
    then have k: "k < seq" "seq - k - 1 < length ps" using m assms(5) by auto
    then have "slice buf (ps ! (seq - k - 1)) = copies ! (seq - k - 1)" using assms(2) by (metis nth_map)
    with k(1) show "(int seq - int (seq - k), slice buf (ps ! (seq - k - 1))) = (int k, copies ! (seq - 1 - k))"
      by (simp add: of_nat_diff diff_commute)
  qed
  finally show ?thesis .
qed

lemma rx_redundant_packet:
  assumes "seq < 0x10000" "ifp_ok ifp" "\<forall>d \<in> set copies. ifp_ok d" "length copies \<le> 15"
    and "rx_seq_no t = of_nat r" "r \<le> seq" "seq \<le> r + length copies" "length copies \<le> seq"
  shows "udptl_rx_packet t (redundant_packet seq ifp copies) =
    Some (Some (map (\<lambda>k. (int k, if k = seq then ifp else copies ! (seq - 1 - k))) [r..<Suc seq]), t\<lparr>rx_seq_no := of_nat (seq + 1)\<rparr>)"
proof -
  let ?buf = "redundant_packet seq ifp copies" and ?head = "[of_nat (seq div 256), of_nat seq] :: octet list"
  let ?body = "concat (map open_bytes copies)"
  let ?p = "2 + length (open_bytes ifp)" and ?d = "(2 + length (open_head ifp), length ifp)"
  have ifp: "ifp \<noteq> []" "length ifp < 0x4000" using assms(2) by (simp_all add: ifp_ok_def)
  have buf: "?buf = ?head @ open_bytes ifp @ [0x00, of_nat (length copies)] @ ?body" by (simp add: redundant_packet_def)
  have buf2: "?buf = (?head @ open_bytes ifp @ [0x00]) @ of_nat (length copies) # ?body" unfolding buf by simp
  have buf3: "?buf = (?head @ open_bytes ifp @ [0x00, of_nat (length copies)]) @ ?body @ []" unfolding buf by simp
  have dec: "decode_open_type ?buf 2 = Some (?p, Some ?d)"
    using decode_open_type_back [OF ifp, of ?head "[0x00, of_nat (length copies)] @ ?body"] unfolding buf by (simp add: numeral_2_eq_2)
  have sl: "slice ?buf ?d = ifp"
    using slice_back [of ?head ifp "[0x00, of_nat (length copies)] @ ?body"] unfolding buf by simp
  have n: "?buf ! 0 = of_nat (seq div 256)" "?buf ! 1 = of_nat seq" "?buf ! ?p = 0x00" "\<not> length ?buf < 2" "\<not> ?p + 1 > length ?buf"
    unfolding buf by (simp_all add: nth_append)
  have u: "unat (rx_seq_no t) = r" using assms(1,5,6) by (simp add: unsigned_of_nat take_bit_nat_eq_self_iff)
  have cnt: "unat (of_nat (length copies) :: 32 word) = length copies" using assms(4) by (simp add: unsigned_of_nat take_bit_nat_eq_self_iff)
  obtain ps where ps: "read_copies ?buf (?p + 2) 0 (length copies) [] = Some (Some (?p + 2 + length ?body, ps))" "map (slice ?buf) ps = copies"
    using read_copies_all [OF assms(3), of "[]" "?head @ open_bytes ifp @ [0x00, of_nat (length copies)]" "[]" 0] assms(4)
    unfolding buf3 by (auto simp: add.commute)
  have "decode_length ?buf (?p + 1) = (0, ?p + 2, of_nat (length copies))"
    using small_count(2) [of "length copies" "?head @ open_bytes ifp @ [0x00]" ?body] assms(4) unfolding buf2 by simp
  then have rs: "read_secondary ?buf (?p + 1) [] = Some (Some ps)"
    by (subst read_secondary.simps) (use ps(1) in \<open>simp add: cnt numeral_2_eq_2\<close>)
  have len: "length ps = length copies" using ps(2) by (metis length_map)
  have "rx_secondary t ?buf (?p + 1) seq = Some (Some (map (\<lambda>k. (int k, copies ! (seq - 1 - k))) [r..<seq]))"
    using secondary_frames_eq [OF assms(1) ps(2) assms(8,6,7)] assms(5,6) u rs by (cases "r = seq") (auto simp: rx_secondary_def)
  moreover have "map (\<lambda>k. (int k, if k = seq then ifp else copies ! (seq - 1 - k))) [r..<Suc seq] =
      map (\<lambda>k. (int k, copies ! (seq - 1 - k))) [r..<seq] @ [(int seq, ifp)]" using assms(6) by simp
  ultimately show ?thesis using n dec sl u assms(6) seq_bytes [OF assms(1)] unfolding udptl_rx_packet_def by (simp add: Let_def)
qed

text \<open>A sender that has sent \<open>hist\<close>: the circular buffer holds the last packets.\<close>

definition sent :: "ast_udptl \<Rightarrow> octet list list \<Rightarrow> bool" where
  "sent s hist \<longleftrightarrow> error_correction_scheme s = UDPTL_ERROR_CORRECTION_REDUNDANCY \<and> error_correction_entries s \<le> 15 \<and>
     length (tx s) = 16 \<and> tx_seq_no s = of_nat (length hist) \<and>
     (\<forall>k < length hist. length hist \<le> k + 16 \<longrightarrow> tx s ! (k mod 16) = Some (hist ! k))"

lemma ring_place:
  assumes "k < n" "n < k + 16"
  shows "nat ((int (n mod 16) - int (n - 1 - k) - 1) mod 16) = k mod 16" "n mod 16 \<noteq> k mod 16"
proof -
  have "(int (n mod 16) - int (n - 1 - k) - 1) mod 16 = (int n - int (n - 1 - k) - 1) mod 16"
    unfolding zmod_int diff_diff_eq by (simp only: of_nat_numeral mod_diff_left_eq)
  also have "int n - int (n - 1 - k) - 1 = int k" using assms(1) by simp
  finally show "nat ((int (n mod 16) - int (n - 1 - k) - 1) mod 16) = k mod 16" by (simp add: nat_mod_distrib)
  show "n mod 16 \<noteq> k mod 16"
  proof
    assume "n mod 16 = k mod 16"
    then have "16 dvd n - k" using assms(1) by (simp add: mod_eq_dvd_iff_nat)
    then have "16 \<le> n - k" using assms(1) by (intro dvd_imp_le) auto
    with assms(2) show False by simp
  qed
qed

lemma sent_copies:
  assumes "sent s hist" "length hist < 0x10000" "n = length hist"
  defines "e \<equiv> (if n > error_correction_entries s then error_correction_entries s else n)"
  shows "recovery (s\<lparr>tx := (tx s)[n mod 16 := Some ifp]\<rparr>) n (n mod 16) = ([0x00, of_nat e], map (\<lambda>i. hist ! (n - 1 - i)) [0..<e])"
proof -
  let ?s = "s\<lparr>tx := (tx s)[n mod 16 := Some ifp]\<rparr>"
  have u: "unat (tx_seq_no s) = n" using assms(1-3) by (simp add: sent_def unsigned_of_nat take_bit_nat_eq_self_iff)
  have e: "e \<le> 15" "e \<le> n" using assms(1) by (auto simp: sent_def e_def)
  have "place ((tx s)[n mod 16 := Some ifp]) (nat ((int (n mod 16) - int i - 1) mod 16)) = hist ! (n - 1 - i)" if "i < e" for i
  proof -
    let ?k = "n - 1 - i"
    have k: "?k < n" "n < ?k + 16" "n - 1 - ?k = i" using that e by auto
    have "tx s ! (?k mod 16) = Some (hist ! ?k)" using assms(1,3) k by (simp add: sent_def)
    with ring_place [OF k(1,2), unfolded k(3)] show ?thesis by (simp add: place_def)
  qed
  moreover have "fst (encode_length (of_nat e)) = [of_nat e]" by (rule small_count(1)) (use e in simp)
  moreover have "error_correction_scheme s = UDPTL_ERROR_CORRECTION_REDUNDANCY" using assms(1) by (simp add: sent_def)
  moreover have en: "(if unat (tx_seq_no ?s) > error_correction_entries ?s then error_correction_entries ?s else unat (tx_seq_no ?s)) = e"
    by (simp add: u e_def)
  ultimately show ?thesis unfolding recovery_def Let_def en by simp
qed

lemma sent_step:
  assumes "sent s hist" "length hist < 0x10000"
  shows "sent (s\<lparr>tx := (tx s)[length hist mod 16 := Some ifp], tx_seq_no := tx_seq_no s + 1\<rparr>) (hist @ [ifp])"
proof -
  have "(tx s)[length hist mod 16 := Some ifp] ! (k mod 16) = Some ((hist @ [ifp]) ! k)" if "k < Suc (length hist)" "Suc (length hist) \<le> k + 16" for k
  proof (cases "k = length hist")
    case True
    with assms(1) show ?thesis by (simp add: sent_def)
  next
    case False
    with that ring_place(2) [of k "length hist"] assms(1) show ?thesis by (simp add: sent_def nth_append)
  qed
  with assms(1) show ?thesis by (simp add: sent_def)
qed

text \<open>What the length of a packet of \<open>n\<close> bytes takes.\<close>

definition length_octets :: "nat \<Rightarrow> nat" where
  "length_octets n = (if n < 0x80 then 1 else 2)"

lemma open_bytes_length: "ifp_ok d \<Longrightarrow> length d \<le> M \<Longrightarrow> length (open_bytes d) \<le> M + length_octets M"
  using open_head_cases [of d] by (auto simp: ifp_ok_def open_bytes_def length_octets_def)

lemma concat_length: "\<forall>d \<in> set ds. ifp_ok d \<and> length d \<le> M \<Longrightarrow> length (concat (map open_bytes ds)) \<le> length ds * (M + length_octets M)"
proof (induction ds)
  case (Cons d ds)
  then have "length (open_bytes d) \<le> M + length_octets M" "length (concat (map open_bytes ds)) \<le> length ds * (M + length_octets M)"
    using open_bytes_length [of d] by auto
  then show ?case by simp
qed simp

text \<open>The packet is built when the buffer has room for the data and its copies.\<close>

lemma build_redundant:
  assumes "sent s hist" "length hist < 0x10000" "\<forall>d \<in> set (ifp # hist). ifp_ok d \<and> length d \<le> M" "M \<le> LOCAL_FAX_MAX_DATAGRAM"
    and "4 + (error_correction_entries s + 1) * (M + length_octets M) \<le> buflen" "n = length hist"
  defines "e \<equiv> (if n > error_correction_entries s then error_correction_entries s else n)"
  shows "udptl_build_packet s buflen ifp =
    Some (Some (redundant_packet n ifp (map (\<lambda>i. hist ! (n - 1 - i)) [0..<e])), s\<lparr>tx := (tx s)[n mod 16 := Some ifp], tx_seq_no := tx_seq_no s + 1\<rparr>)"
proof -
  let ?copies = "map (\<lambda>i. hist ! (n - 1 - i)) [0..<e]"
  have "unat (tx_seq_no s) = n" using assms(1,2,6) by (simp add: sent_def unsigned_of_nat take_bit_nat_eq_self_iff)
  then have u: "unat (tx_seq_no s) mod 0x10000 = n" using assms(2,6) by simp
  have e: "e \<le> error_correction_entries s" "e \<le> n" by (auto simp: e_def)
  have "set ?copies \<subseteq> set hist" using e(2) assms(6) by auto
  then have c: "\<forall>d \<in> set ?copies. ifp_ok d \<and> length d \<le> M" using assms(3) by auto
  have ifp: "ifp \<noteq> []" "length ifp < 0x4000" "length ifp \<le> LOCAL_FAX_MAX_DATAGRAM" "length (open_bytes ifp) \<le> M + length_octets M"
    using assms(3,4) open_bytes_length [of ifp] by (auto simp: ifp_ok_def)
  have "length (concat (map open_bytes ?copies)) \<le> e * (M + length_octets M)" using concat_length [OF c] by simp
  also have "\<dots> \<le> error_correction_entries s * (M + length_octets M)" by (rule mult_le_mono1 [OF e(1)])
  finally have l: "4 + length (open_bytes ifp) + length (concat (map open_bytes ?copies)) \<le> buflen" using assms(5) ifp(4) by simp
  have p1: "put buflen [of_nat (n div 256), of_nat n] [] = Some [of_nat (n div 256), of_nat n]" using l by (simp add: put_def)
  have p2: "encode_open_type buflen ifp [of_nat (n div 256), of_nat n] = Some (Some ([of_nat (n div 256), of_nat n] @ open_bytes ifp))"
    by (rule encode_open_type_fits [OF ifp(1,2)]) (use l in simp)
  have p3: "put buflen [0x00, of_nat e] ([of_nat (n div 256), of_nat n] @ open_bytes ifp) =
      Some ([of_nat (n div 256), of_nat n] @ open_bytes ifp @ [0x00, of_nat e])" using l by (simp add: put_def)
  have p4: "encode_all buflen ?copies ([of_nat (n div 256), of_nat n] @ open_bytes ifp @ [0x00, of_nat e]) =
      Some (Some (redundant_packet n ifp ?copies))"
    using encode_all_fits [of ?copies "[of_nat (n div 256), of_nat n] @ open_bytes ifp @ [0x00, of_nat e]" buflen] c l
    by (simp add: redundant_packet_def)
  note r = sent_copies [OF assms(1,2,6), of ifp, folded e_def]
  show ?thesis unfolding udptl_build_packet_def Let_def u using ifp(3) r
    by (simp only: p1 p2 p3 p4 bind.bind_lunit option.case prod.case not_less [symmetric] if_False if_True not_True_eq_False) simp
qed

section \<open>A transmission with losses\<close>

text \<open>Each packet is built, and received when it arrives; the frames are delivered in the order they come.\<close>

fun transmit :: "nat \<Rightarrow> ast_udptl \<Rightarrow> ast_udptl \<Rightarrow> (octet list \<times> bool) list \<Rightarrow> t38_frame list option" where
  "transmit buflen s t [] = Some []"
| "transmit buflen s t ((ifp, arrives) # xs) =
     do {
       (r, s1) \<leftarrow> udptl_build_packet s buflen ifp;
       case r of
         None \<Rightarrow> None
       | Some pkt \<Rightarrow>
           if arrives
           then do {
             (fs, t1) \<leftarrow> udptl_rx_packet t pkt;
             case fs of None \<Rightarrow> None | Some fs \<Rightarrow> map_option ((@) fs) (transmit buflen s1 t1 xs)
           }
           else transmit buflen s1 t xs
     }"

text \<open>No more than \<open>n\<close> packets in a row are lost, \<open>g\<close> before the list.\<close>

fun gaps_up_to :: "nat \<Rightarrow> nat \<Rightarrow> bool list \<Rightarrow> bool" where
  "gaps_up_to n g [] = True"
| "gaps_up_to n g (True # bs) = gaps_up_to n 0 bs"
| "gaps_up_to n g (False # bs) = (g < n \<and> gaps_up_to n (g + 1) bs)"

text \<open>How far the receiver gets.\<close>

fun reached :: "nat \<Rightarrow> nat \<Rightarrow> bool list \<Rightarrow> nat" where
  "reached r n [] = r"
| "reached r n (b # bs) = reached (if b then n + 1 else r) (n + 1) bs"

lemma reached_last: "bs \<noteq> [] \<Longrightarrow> last bs \<Longrightarrow> reached r n bs = n + length bs"
proof (induction bs arbitrary: r n)
  case (Cons b bs)
  then show ?case by (cases bs) auto
qed simp

lemma reached_ge: "r \<le> n \<Longrightarrow> r \<le> reached r n bs"
proof (induction bs arbitrary: r n)
  case (Cons b bs)
  have "(if b then n + 1 else r) \<le> n + 1" using Cons.prems by simp
  from Cons.IH [OF this] Cons.prems show ?case by (auto split: if_splits)
qed simp

lemma rx_built_packet:
  assumes "sent s hist" "length hist < 0x10000 - 1" "\<forall>d \<in> set (ifp # hist). ifp_ok d \<and> length d \<le> M" "n = length hist"
    and "rx_seq_no t = of_nat r" "r \<le> n" "n - r \<le> error_correction_entries s"
  defines "e \<equiv> (if n > error_correction_entries s then error_correction_entries s else n)"
  shows "udptl_rx_packet t (redundant_packet n ifp (map (\<lambda>i. hist ! (n - 1 - i)) [0..<e])) =
    Some (Some (map (\<lambda>k. (int k, (hist @ [ifp]) ! k)) [r..<Suc n]), t\<lparr>rx_seq_no := of_nat (n + 1)\<rparr>)"
proof -
  let ?copies = "map (\<lambda>i. hist ! (n - 1 - i)) [0..<e]"
  have e: "e \<le> 15" "e \<le> n" "n \<le> r + e" using assms(1,6,7) by (auto simp: sent_def e_def)
  have "set ?copies \<subseteq> set hist" using e(2) assms(4) by auto
  then have c: "\<forall>d \<in> set ?copies. ifp_ok d" using assms(3) by auto
  have "(int k, if k = n then ifp else ?copies ! (n - 1 - k)) = (int k, (hist @ [ifp]) ! k)" if "k \<in> set [r..<Suc n]" for k
  proof (cases "k = n")
    case True
    with assms(4) show ?thesis by simp
  next
    case False
    with that e(3) have "n - 1 - k < e" "k < n" "n - 1 - (n - 1 - k) = k" by auto
    with False assms(4) show ?thesis by (simp add: nth_append)
  qed
  then have m: "map (\<lambda>k. (int k, if k = n then ifp else ?copies ! (n - 1 - k))) [r..<Suc n] = map (\<lambda>k. (int k, (hist @ [ifp]) ! k)) [r..<Suc n]"
    by (intro map_cong) (simp_all only:)
  have "udptl_rx_packet t (redundant_packet n ifp ?copies) =
      Some (Some (map (\<lambda>k. (int k, if k = n then ifp else ?copies ! (n - 1 - k))) [r..<Suc n]), t\<lparr>rx_seq_no := of_nat (n + 1)\<rparr>)"
    by (rule rx_redundant_packet) (use assms c e in simp_all)
  then show ?thesis unfolding m .
qed

lemma transmit_frames:
  assumes "sent s hist" "length hist + length xs < 0x10000" "\<forall>d \<in> set (map fst xs) \<union> set hist. ifp_ok d \<and> length d \<le> M"
    and "M \<le> LOCAL_FAX_MAX_DATAGRAM" "4 + (error_correction_entries s + 1) * (M + length_octets M) \<le> buflen"
    and "rx_seq_no t = of_nat r" "r \<le> length hist" "gaps_up_to (error_correction_entries s) (length hist - r) (map snd xs)"
    and "length hist - r \<le> error_correction_entries s"
  shows "transmit buflen s t xs = Some (map (\<lambda>k. (int k, (hist @ map fst xs) ! k)) [r..<reached r (length hist) (map snd xs)])"
  using assms
proof (induction xs arbitrary: s t hist r)
  case Nil
  then show ?case by simp
next
  case (Cons x xs)
  obtain ifp arrives where x: "x = (ifp, arrives)" by (cases x)
  let ?n = "length hist" and ?E = "error_correction_entries s"
  let ?e = "if ?n > ?E then ?E else ?n"
  let ?s = "s\<lparr>tx := (tx s)[?n mod 16 := Some ifp], tx_seq_no := tx_seq_no s + 1\<rparr>"
  let ?pkt = "redundant_packet ?n ifp (map (\<lambda>i. hist ! (?n - 1 - i)) [0..<?e])"
  have n: "?n < 0x10000" "?n < 0x10000 - 1 \<or> xs = []" using Cons.prems(2) by auto
  have ok: "\<forall>d \<in> set (ifp # hist). ifp_ok d \<and> length d \<le> M" using Cons.prems(3) x by auto
  have b: "udptl_build_packet s buflen ifp = Some (Some ?pkt, ?s)" by (rule build_redundant [OF Cons.prems(1) n(1) ok Cons.prems(4,5) refl])
  have s': "sent ?s (hist @ [ifp])" by (rule sent_step [OF Cons.prems(1) n(1)])
  have ok': "\<forall>d \<in> set (map fst xs) \<union> set (hist @ [ifp]). ifp_ok d \<and> length d \<le> M" using Cons.prems(3) x by auto
  have len: "length (hist @ [ifp]) + length xs < 0x10000" using Cons.prems(2) by simp
  show ?case
  proof (cases arrives)
    case True
    let ?t = "t\<lparr>rx_seq_no := of_nat (?n + 1)\<rparr>"
    have "?n < 0x10000 - 1" using Cons.prems(2) by simp
    from rx_built_packet [OF Cons.prems(1) this ok refl Cons.prems(6,7,9)]
    have rx: "udptl_rx_packet t ?pkt = Some (Some (map (\<lambda>k. (int k, (hist @ [ifp]) ! k)) [r..<Suc ?n]), ?t)" .
    have tr: "transmit buflen ?s ?t xs = Some (map (\<lambda>k. (int k, ((hist @ [ifp]) @ map fst xs) ! k)) [?n + 1..<reached (?n + 1) (length (hist @ [ifp])) (map snd xs)])"
      by (rule Cons.IH [OF s' len ok' Cons.prems(4)]) (use Cons.prems(5,8) x True in simp_all)
    have le: "?n + 1 \<le> reached (?n + 1) (?n + 1) (map snd xs)" by (rule reached_ge) simp
    have "[r..<reached (?n + 1) (?n + 1) (map snd xs)] = [r..<Suc ?n] @ [?n + 1..<reached (?n + 1) (?n + 1) (map snd xs)]"
      using le Cons.prems(7) by (metis Suc_eq_plus1 le_SucI le_add_diff_inverse upt_add_eq_append)
    moreover have "map (\<lambda>k. (int k, (hist @ [ifp]) ! k)) [r..<Suc ?n] = map (\<lambda>k. (int k, (hist @ ifp # map fst xs) ! k)) [r..<Suc ?n]"
      by (intro map_cong) (auto simp: nth_append)
    ultimately show ?thesis using b rx tr x True by simp
  next
    case False
    have "transmit buflen ?s t xs = Some (map (\<lambda>k. (int k, ((hist @ [ifp]) @ map fst xs) ! k)) [r..<reached r (length (hist @ [ifp])) (map snd xs)])"
      by (rule Cons.IH [OF s' len ok' Cons.prems(4)]) (use Cons.prems(5-9) x False in \<open>simp_all add: Suc_diff_le\<close>)
    with b x False show ?thesis by simp
  qed
qed

text \<open>
  C20: with redundancy a transmission of fewer than 65536 packets survives losses. Both ends start at number 0,
  each packet carries up to 15 copies, and the data of a packet is not empty and at most 1400 bytes long. As long as no more packets in a row are lost than each packet carries copies and the last
  one arrives, the receiver delivers every packet once, in order, with its number and its data. Every packet
  can be built, without writing outside the buffer, when the buffer has room for the largest packet and its copies. The bound on
  the number of packets is needed: where the 16-bit number wraps to 0 the receiver expects 65536, and the packet
  is not delivered (\<open>packet_lost_at_wrap\<close>).
\<close>

theorem redundancy_recovers_losses:
  assumes "sent s []" "rx_seq_no t = 0" "xs \<noteq> []" "snd (last xs)" "length xs < 0x10000"
    and "gaps_up_to (error_correction_entries s) 0 (map snd xs)"
    and "\<forall>x \<in> set xs. ifp_ok (fst x) \<and> length (fst x) \<le> M" "M \<le> LOCAL_FAX_MAX_DATAGRAM"
    and "4 + (error_correction_entries s + 1) * (M + length_octets M) \<le> buflen"
  shows "transmit buflen s t xs = Some (map (\<lambda>k. (int k, fst (xs ! k))) [0..<length xs])"
proof -
  have "reached 0 0 (map snd xs) = length xs" using reached_last [of "map snd xs" 0 0] assms(3,4) by (simp add: last_map)
  with transmit_frames [of s "[]" xs M buflen t 0] assms show ?thesis by (simp cong: map_cong)
qed

theorem redundancy_recovers_losses_witness:
  "transmit 64
     \<lparr>error_correction_scheme = UDPTL_ERROR_CORRECTION_REDUNDANCY, error_correction_entries = 3, error_correction_span = 3,
      tx_seq_no = 0, rx_seq_no = 0, tx = replicate 16 None, rx = [],
      far_max_datagram = 400, local_max_datagram = -1, far_max_ifp = -1, local_max_ifp = -1\<rparr>
     \<lparr>error_correction_scheme = UDPTL_ERROR_CORRECTION_REDUNDANCY, error_correction_entries = 3, error_correction_span = 3,
      tx_seq_no = 0, rx_seq_no = 0, tx = [], rx = [],
      far_max_datagram = 400, local_max_datagram = -1, far_max_ifp = -1, local_max_ifp = -1\<rparr>
     [([1], True), ([2, 3], False), ([4], False), ([5], True)] = Some [(0, [1]), (1, [2, 3]), (2, [4]), (3, [5])]"
proof -
  have "sent \<lparr>error_correction_scheme = UDPTL_ERROR_CORRECTION_REDUNDANCY, error_correction_entries = 3, error_correction_span = 3,
      tx_seq_no = 0, rx_seq_no = 0, tx = replicate 16 None, rx = [],
      far_max_datagram = 400, local_max_datagram = -1, far_max_ifp = -1, local_max_ifp = -1\<rparr> []" by (simp add: sent_def)
  from redundancy_recovers_losses [OF this, of _ "[([1], True), ([2, 3], False), ([4], False), ([5], True)]" 2 64]
  show ?thesis by (simp add: ifp_ok_def LOCAL_FAX_MAX_DATAGRAM_def length_octets_def upt_rec)
qed

text \<open>
  Packet 65535 and the one behind it, whose number is 0 again, each with one byte of data and no copies. The first
  is delivered and \<open>rx_seq_no\<close> becomes 65536; the second arrives too and is not delivered, because the comparison
  with \<open>rx_seq_no\<close> does not take the width of the number into account.
\<close>

lemma packet_lost_at_wrap:
  "rx_seq_no t = 65535 \<Longrightarrow> udptl_rx_packet t [255, 255, 1, 7, 0, 0] = Some (Some [(65535, [7])], t\<lparr>rx_seq_no := 65536\<rparr>)"
  "rx_seq_no t = 65536 \<Longrightarrow> udptl_rx_packet t [0, 0, 1, 8, 0, 0] = Some (Some [], t\<lparr>rx_seq_no := 1\<rparr>)"
  by (simp_all add: udptl_rx_packet_def decode_open_type_def decode_length_def rx_secondary_def slice_def read_secondary.simps Let_def)

section \<open>Exclusive-or sums\<close>

lemma length_xor_into: "length (xor_into b s) = max (length s) (length b)"
  by (simp add: xor_into_def)

lemma octet_at_xor: "octet_at (xor_into b s) j = octet_at s j XOR octet_at b j"
  by (auto simp: octet_at_def xor_into_def nth_append min_def)

lemma octet_at_sum:
  "octet_at (fold (\<lambda>i s. xor_into (place bufs i) s) is s) j = fold (\<lambda>k v. v XOR octet_at (place bufs k) j) is (octet_at s j)"
  by (induction "is" arbitrary: s) (simp_all add: octet_at_xor)

lemma length_sum_ge: "length s \<le> length (fold (\<lambda>i s. xor_into (place bufs i) s) is s)"
proof (induction "is" arbitrary: s)
  case (Cons i "is")
  have "length s \<le> length (xor_into (place bufs i) s)" by (simp add: length_xor_into)
  with Cons.IH [of "xor_into (place bufs i) s"] show ?case by simp
qed simp

lemma length_fec_sum: "k \<in> set is \<Longrightarrow> length (place bufs k) \<le> length (fold (\<lambda>i s. xor_into (place bufs i) s) is s)"
proof (induction "is" arbitrary: s)
  case (Cons i "is")
  show ?case
  proof (cases "k \<in> set is")
    case True
    with Cons.IH show ?thesis by simp
  next
    case False
    with Cons.prems have "k = i" by simp
    then have "length (place bufs k) \<le> length (xor_into (place bufs i) s)" by (simp add: length_xor_into)
    also have "\<dots> \<le> length (fold (\<lambda>i s. xor_into (place bufs i) s) is (xor_into (place bufs i) s))" by (rule length_sum_ge)
    finally show ?thesis by simp
  qed
qed simp

lemma fold_xor_start: "fold (\<lambda>k v. v XOR (f k :: octet)) ks a = a XOR fold (\<lambda>k v. v XOR f k) ks 0"
proof (induction ks arbitrary: a)
  case (Cons k ks)
  from Cons.IH [of "a XOR f k"] Cons.IH [of "f k"] show ?case by (simp add: xor.assoc)
qed simp

text \<open>Of two sums that differ in one place only that place is left.\<close>

lemma fold_xor_cancel:
  assumes "distinct ks" "w \<in> set ks" "\<forall>k \<in> set ks - {w}. f k = g k" "g w = 0"
  shows "fold (\<lambda>k v. v XOR (f k :: octet)) ks 0 XOR fold (\<lambda>k v. v XOR g k) ks 0 = f w"
  using assms
proof (induction ks)
  case (Cons k ks)
  have eq: "fold (\<lambda>k v. v XOR f k) ks 0 = fold (\<lambda>k v. v XOR g k) ks 0" if "w \<notin> set ks"
  proof (rule fold_cong [OF refl refl])
    fix x assume "x \<in> set ks"
    with that Cons.prems(3) have "f x = g x" by auto
    then show "(\<lambda>v. v XOR f x) = (\<lambda>v. v XOR g x)" by simp
  qed
  note s = fold_xor_start [of f ks "f k"] fold_xor_start [of g ks "g k"]
  show ?case
  proof (cases "k = w")
    case True
    with Cons.prems eq s show ?thesis by (simp add: xor.assoc)
  next
    case False
    with Cons have "fold (\<lambda>k v. v XOR f k) ks 0 XOR fold (\<lambda>k v. v XOR g k) ks 0 = f w" "f k = g k" by auto
    then show ?thesis using s by (simp add: xor.assoc xor.left_commute)
  qed
qed simp

lemma repair_data_exact:
  assumes "distinct ks" "w \<in> set ks" "received bs w = []" "\<forall>k \<in> set ks - {w}. received bs k = place bufs k"
  shows "repair_data bs ks (fec_sum bufs ks) (length (fec_sum bufs ks)) =
    place bufs w @ replicate (length (fec_sum bufs ks) - length (place bufs w)) 0"
proof (rule nth_equalityI)
  let ?n = "length (fec_sum bufs ks)"
  have le: "length (place bufs w) \<le> ?n" unfolding fec_sum_def by (rule length_fec_sum [OF assms(2)])
  then show "length (repair_data bs ks (fec_sum bufs ks) ?n) = length (place bufs w @ replicate (?n - length (place bufs w)) 0)"
    by (simp add: repair_data_def)
  fix j assume "j < length (repair_data bs ks (fec_sum bufs ks) ?n)"
  then have j: "j < ?n" by (simp add: repair_data_def)
  let ?f = "\<lambda>k. octet_at (place bufs k) j" and ?g = "\<lambda>k. octet_at (received bs k) j"
  have "fec_sum bufs ks ! j = fold (\<lambda>k v. v XOR ?f k) ks 0"
    using octet_at_sum [of bufs ks "[]" j] j by (simp add: octet_at_def fec_sum_def)
  then have "repair_data bs ks (fec_sum bufs ks) ?n ! j = fold (\<lambda>k v. v XOR ?f k) ks 0 XOR fold (\<lambda>k v. v XOR ?g k) ks 0"
    using j fold_xor_start [of ?g ks "fec_sum bufs ks ! j"] by (simp add: repair_data_def)
  also have "\<dots> = octet_at (place bufs w) j"
    by (rule fold_xor_cancel [OF assms(1,2)]) (use assms(3,4) in \<open>auto simp: octet_at_def\<close>)
  finally show "repair_data bs ks (fec_sum bufs ks) ?n ! j = (place bufs w @ replicate (?n - length (place bufs w)) 0) ! j"
    using j by (simp add: octet_at_def nth_append)
qed

lemma filter_single: "distinct ks \<Longrightarrow> w \<in> set ks \<Longrightarrow> P w \<Longrightarrow> \<forall>k \<in> set ks - {w}. \<not> P k \<Longrightarrow> filter P ks = [w]"
proof (induction ks)
  case (Cons k ks)
  show ?case
  proof (cases "k = w")
    case True
    with Cons.prems have "filter P ks = []" by (auto simp: filter_empty_conv)
    with True Cons.prems show ?thesis by simp
  next
    case False
    with Cons show ?thesis by auto
  qed
qed simp

text \<open>
  C22: a sum repairs a single loss: when exactly one packet of its group is missing, the receiver's slot
  is filled with that packet as it was sent, padded with zeros to the length of the longest of the group.
\<close>

theorem fec_repairs_single_loss:
  assumes "ks = fec_group (fec_span (bs ! l)) (fec_entries (bs ! l)) ((int l + int m) mod 16)" "distinct ks" "w \<in> set ks"
    and "received bs w = []" "\<forall>k \<in> set ks - {w}. received bs k = place bufs k \<and> place bufs k \<noteq> []"
    and "fec (bs ! l) ! m = fec_sum bufs ks" "fec_len (bs ! l) ! m = length (fec_sum bufs ks)"
    and "length (fec_sum bufs ks) \<le> LOCAL_FAX_MAX_DATAGRAM"
  shows "repair_sum l m (bs, repaired) =
    Some (bs[w := (bs ! w)\<lparr>rx_buf := Some (place bufs w @ replicate (length (fec_sum bufs ks) - length (place bufs w)) 0)\<rparr>], insert w repaired)"
proof -
  have "filter (\<lambda>k. received bs k = []) ks = [w]" by (rule filter_single [of ks w "\<lambda>k. received bs k = []"]) (use assms(2-5) in auto)
  then have "missing_slot bs ks = Some w" by (simp add: missing_slot_def)
  then show ?thesis using repair_data_exact [OF assms(2-4), of bufs] assms(1,5-8) by (simp add: repair_sum_def Let_def)
qed

theorem fec_repairs_single_loss_witness:
  "repair_sum 3 0
     ([\<lparr>rx_buf = Some [1, 2], fec_len = [0], fec = [[]], fec_span = 0, fec_entries = 0\<rparr>,
       \<lparr>rx_buf = None, fec_len = [0], fec = [[]], fec_span = 0, fec_entries = 0\<rparr>,
       \<lparr>rx_buf = Some [5, 6], fec_len = [0], fec = [[]], fec_span = 0, fec_entries = 0\<rparr>,
       \<lparr>rx_buf = Some [9], fec_len = [2], fec = [[7, 4]], fec_span = 3, fec_entries = 1\<rparr>], {3}) =
   Some ([\<lparr>rx_buf = Some [1, 2], fec_len = [0], fec = [[]], fec_span = 0, fec_entries = 0\<rparr>,
       \<lparr>rx_buf = Some [3, 0], fec_len = [0], fec = [[]], fec_span = 0, fec_entries = 0\<rparr>,
       \<lparr>rx_buf = Some [5, 6], fec_len = [0], fec = [[]], fec_span = 0, fec_entries = 0\<rparr>,
       \<lparr>rx_buf = Some [9], fec_len = [2], fec = [[7, 4]], fec_span = 3, fec_entries = 1\<rparr>], {1, 3})"
proof -
  let ?bs = "[\<lparr>rx_buf = Some [1, 2], fec_len = [0], fec = [[]], fec_span = 0, fec_entries = 0\<rparr>,
       \<lparr>rx_buf = None, fec_len = [0], fec = [[]], fec_span = 0, fec_entries = 0\<rparr>,
       \<lparr>rx_buf = Some [5, 6], fec_len = [0], fec = [[]], fec_span = 0, fec_entries = 0\<rparr>,
       \<lparr>rx_buf = Some [9], fec_len = [2], fec = [[7, 4]], fec_span = 3, fec_entries = 1\<rparr>]"
  let ?tx = "[Some [1, 2], Some [3], Some [5, 6]]"
  have g: "fec_group 3 (Suc 0) 3 = [0, Suc 0, 2]" by (simp add: fec_group_def eval_nat_numeral)
  have f: "fec_sum ?tx [0, Suc 0, 2] = [7, 4]" by (simp add: fec_sum_def place_def xor_into_def)
  have ne: "{0, Suc 0, 2} - {Suc 0} = {0, 2 :: nat}" by auto
  show ?thesis
    using fec_repairs_single_loss [of "[0, 1, 2]" ?bs 3 0 1 ?tx "{3}"]
    by (simp add: g f ne received_def place_def LOCAL_FAX_MAX_DATAGRAM_def insert_commute)
qed

section \<open>A sum that is too long\<close>

text \<open>A receiver that has not got a packet yet.\<close>

definition fresh_slot :: udptl_fec_rx_buffer where
  "fresh_slot = \<lparr>rx_buf = None, fec_len = [0, 0, 0, 0, 0], fec = [[], [], [], [], []], fec_span = 0, fec_entries = 0\<rparr>"

definition one_sum_packet :: "octet \<Rightarrow> octet list \<Rightarrow> octet list" where
  "one_sum_packet seq element = [0, seq, 1, 42, 0x80, 1, 1, 1] @ element"

lemma clear_fresh: "clear_slot fresh_slot = fresh_slot"
  by (simp add: clear_slot_def fresh_slot_def)

lemma list_update_replicate: "(replicate n x)[i := x] = replicate n x"
  by (cases "i < n") (simp_all add: list_update_same_conv list_update_beyond)

lemma skip_fresh: "fold (\<lambda>k bs. bs[k mod 16 := clear_slot (bs ! (k mod 16))]) ks (replicate 16 fresh_slot) = replicate 16 fresh_slot"
  by (induction ks) (simp_all add: clear_fresh list_update_replicate)

text \<open>What the refused packet leaves in its slot.\<close>

definition overlong_slot :: udptl_fec_rx_buffer where
  "overlong_slot = fresh_slot\<lparr>rx_buf := Some [42], fec_len := [1401, 0, 0, 0, 0], fec_span := 1, fec_entries := 1\<rparr>"

lemma overlong_sum_stored:
  assumes "rx s = replicate 16 fresh_slot" "rx_seq_no s = 0"
  shows "udptl_rx_packet s (one_sum_packet 5 ([0x85, 0x79] @ replicate 1401 7)) =
    Some (None, s\<lparr>rx := (replicate 16 fresh_slot)[5 := overlong_slot], rx_seq_no := 5\<rparr>)"
proof -
  define buf where "buf = one_sum_packet 5 ([0x85, 0x79] @ replicate 1401 7)"
  have n: "buf ! 0 = 0" "buf ! Suc 0 = 5" "buf ! 2 = 1" "buf ! 3 = 42" "buf ! 4 = 0x80" "buf ! 5 = 1" "buf ! 6 = 1" "buf ! 7 = 1"
    "buf ! 8 = 0x85" "buf ! 9 = 0x79" "length buf = 1411"
    by (simp_all add: buf_def one_sum_packet_def)
  have d2: "decode_open_type buf 2 = Some (4, Some (3, 1))" by (simp add: decode_open_type_def decode_length_def n)
  have d8: "decode_open_type buf 8 = Some (1411, Some (10, 1401))" by (simp add: decode_open_type_def decode_length_def n)
  have ifp: "slice buf (3, Suc 0) = [42]" by (simp add: slice_def buf_def one_sum_packet_def)
  have r: "read_sums buf 8 0 (Suc 0) None b = Some (False, b\<lparr>fec_len := (fec_len b)[0 := 1401]\<rparr>)" if "fec_len b \<noteq> []" for b
    by (subst read_sums.simps) (use that in \<open>simp add: d8 LOCAL_FAX_MAX_DATAGRAM_def Let_def\<close>)
  have sk: "skip_missed 5 s = s\<lparr>rx := replicate 16 fresh_slot, rx_seq_no := 5\<rparr>"
    by (simp add: skip_missed_def assms skip_fresh)
  have "rx_fec s buf 5 5 [42] = Some (None, s\<lparr>rx := (replicate 16 fresh_slot)[5 := overlong_slot], rx_seq_no := 5\<rparr>)"
    unfolding rx_fec_def sk Let_def
    by (simp add: n r LOCAL_FAX_MAX_DATAGRAM_def MAX_FEC_ENTRIES_def fresh_slot_def overlong_slot_def)
  then show ?thesis unfolding udptl_rx_packet_def Let_def buf_def [symmetric] by (simp add: n d2 ifp)
qed

lemma overlong_sum_repaired:
  "repair_all 3 (Suc 0) (Suc 0) ((replicate 16 fresh_slot)[5 := overlong_slot,
     3 := fresh_slot\<lparr>rx_buf := Some [42], fec_span := 1, fec_entries := 1, fec_len := [1, 0, 0, 0, 0], fec := [[7], [], [], [], []]\<rparr>]) = None"
  (is "repair_all _ _ _ ?bs = None")
proof -
  have w: "map (\<lambda>t. nat ((int 3 - int t) mod 16)) [0..<15] = [3, 2, 1, 0, 15, 14, 13, 12, 11, 10, 9, 8, 7, 6, 5]"
    by (simp add: upt_rec)
  have g: "fec_group 1 1 3 = [2]" "fec_group 1 1 5 = [4]" by (simp_all add: fec_group_def)
  let ?bs2 = "?bs[2 := fresh_slot\<lparr>rx_buf := Some [7]\<rparr>]"
  have s3: "repair_slot 3 (?bs, {3}) = Some (?bs2, {2, 3})"
    using g by (simp add: repair_slot_def repair_sum_def missing_slot_def received_def repair_data_def octet_at_def
      LOCAL_FAX_MAX_DATAGRAM_def fresh_slot_def Let_def)
  have skip: "repair_slot l (?bs2, rep) = Some (?bs2, rep)" if "l < 16" "l \<noteq> 3" "l \<noteq> 5" for l rep
    using that by (simp add: repair_slot_def nth_list_update fresh_slot_def)
  have s5: "repair_slot 5 (?bs2, rep) = None" for rep
    using g by (simp add: repair_slot_def repair_sum_def missing_slot_def received_def
      LOCAL_FAX_MAX_DATAGRAM_def fresh_slot_def overlong_slot_def Let_def)
  show ?thesis unfolding repair_all_def using w s3 skip s5 by simp
qed

lemma overlong_sum_used:
  assumes "rx s = (replicate 16 fresh_slot)[5 := overlong_slot]" "rx_seq_no s = 5"
  shows "udptl_rx_packet s (one_sum_packet 3 [1, 7]) = None"
proof -
  define buf where "buf = one_sum_packet 3 [1, 7]"
  let ?b = "fresh_slot\<lparr>rx_buf := Some [42], fec_span := 1, fec_entries := 1\<rparr>"
  let ?b3 = "?b\<lparr>fec_len := [1, 0, 0, 0, 0], fec := [[7], [], [], [], []]\<rparr>"
  have n: "buf ! 0 = 0" "buf ! Suc 0 = 3" "buf ! 2 = 1" "buf ! 3 = 42" "buf ! 4 = 0x80" "buf ! 5 = 1" "buf ! 6 = 1" "buf ! 7 = 1"
    "buf ! 8 = 1" "buf ! 9 = 7" "length buf = 10" by (simp_all add: buf_def one_sum_packet_def)
  have d2: "decode_open_type buf 2 = Some (4, Some (3, 1))" by (simp add: decode_open_type_def decode_length_def n)
  have d8: "decode_open_type buf 8 = Some (10, Some (9, 1))" by (simp add: decode_open_type_def decode_length_def n)
  have ifp: "slice buf (3, Suc 0) = [42]" "slice buf (9, Suc 0) = [7]" by (simp_all add: slice_def buf_def one_sum_packet_def)
  have r: "read_sums buf 8 0 (Suc 0) None ?b = Some (True, ?b3)"
    by (subst read_sums.simps) (simp add: d8 ifp n LOCAL_FAX_MAX_DATAGRAM_def Let_def fresh_slot_def read_sums.simps [of _ _ "Suc 0" "Suc 0"])
  have a: "repair_all 3 (Suc 0) (Suc 0) ((replicate 16 fresh_slot)[5 := overlong_slot, 3 := ?b3]) = None"
    by (rule overlong_sum_repaired)
  have "rx_fec s buf 5 3 [42] = None"
    unfolding rx_fec_def Let_def skip_missed_def assms
    using r a by (simp add: assms n LOCAL_FAX_MAX_DATAGRAM_def MAX_FEC_ENTRIES_def fresh_slot_def)
  then show ?thesis unfolding udptl_rx_packet_def Let_def buf_def [symmetric] by (simp add: n d2 ifp)
qed

text \<open>
  C23: two packets make the receiver write outside a buffer. The first carries a sum of 1401 bytes; it is refused,
  but its length is already stored. The second, an earlier one, makes the receiver repair a missing packet with it.
\<close>

theorem refused_sum_overruns_buffer:
  assumes "rx s = replicate 16 fresh_slot" "rx_seq_no s = 0"
  shows "\<exists>s1. udptl_rx_packet s (one_sum_packet 5 ([0x85, 0x79] @ replicate 1401 7)) = Some (None, s1) \<and>
    udptl_rx_packet s1 (one_sum_packet 3 [1, 7]) = None"
  using overlong_sum_stored [OF assms] overlong_sum_used by auto

theorem refused_sum_overruns_buffer_witness:
  "\<exists>s1. udptl_rx_packet
      \<lparr>error_correction_scheme = UDPTL_ERROR_CORRECTION_FEC, error_correction_entries = 3, error_correction_span = 3,
       tx_seq_no = 0, rx_seq_no = 0, tx = replicate 16 None, rx = replicate 16 fresh_slot,
       far_max_datagram = 400, local_max_datagram = -1, far_max_ifp = -1, local_max_ifp = -1\<rparr>
      (one_sum_packet 5 ([0x85, 0x79] @ replicate 1401 7)) = Some (None, s1) \<and>
    udptl_rx_packet s1 (one_sum_packet 3 [1, 7]) = None"
  by (rule refused_sum_overruns_buffer) simp_all

end
