(* ===== verification/Udptl_Size.thy ===== *)
theory Udptl_Size
  imports Udptl
begin

text \<open>
  The sizes of facsimile packets, \<open>main/udptl.c\<close>: what the far end accepts, how much data of a
  frame then fits into a packet with its error recovery, and sending a frame. \<open>None\<close> is undefined
  behaviour, as in \<^theory_text>\<open>Udptl\<close>. The products with 1.05 and 0.95 are cut to a whole number; in
  double precision they are exact enough for this to be the integer part of the fraction.
\<close>

definition DEFAULT_FAX_MAX_DATAGRAM :: int where "DEFAULT_FAX_MAX_DATAGRAM = 400"
definition FAX_MAX_DATAGRAM_LIMIT :: int where "FAX_MAX_DATAGRAM_LIMIT = 1400"

section \<open>Operations\<close>

text \<open>A signed sum that does not fit is undefined.\<close>

definition signed_fits :: "int \<Rightarrow> int option" where
  "signed_fits x = (if x < 2 ^ 31 then Some x else None)"

definition calculate_local_max_datagram :: "ast_udptl \<Rightarrow> ast_udptl option" where
  "calculate_local_max_datagram u =
     (if local_max_ifp u = -1 then Some (u\<lparr>local_max_datagram := -1\<rparr>)
      else do {
        new_max \<leftarrow> signed_fits (case error_correction_scheme u of
            UDPTL_ERROR_CORRECTION_NONE \<Rightarrow> 5 + local_max_ifp u
          | UDPTL_ERROR_CORRECTION_REDUNDANCY \<Rightarrow> 5 + local_max_ifp u + 2 + 3 * local_max_ifp u
          | UDPTL_ERROR_CORRECTION_FEC \<Rightarrow> 5 + local_max_ifp u + 4 + local_max_ifp u);
        Some (u\<lparr>local_max_datagram := Orderings.min (new_max * 105 div 100) (int LOCAL_FAX_MAX_DATAGRAM)\<rparr>)
      })"




definition ast_udptl_set_error_correction_scheme :: "ast_t38_ec_modes \<Rightarrow> ast_udptl \<Rightarrow> ast_udptl" where
  "ast_udptl_set_error_correction_scheme ec u =
     (let u1 = u\<lparr>error_correction_scheme := ec\<rparr>;
          u2 = (if ec \<noteq> UDPTL_ERROR_CORRECTION_NONE \<and> error_correction_entries u1 = 0 then u1\<lparr>error_correction_entries := 3\<rparr> else u1);
          u3 = (if ec = UDPTL_ERROR_CORRECTION_FEC \<and> error_correction_span u2 = 0 then u2\<lparr>error_correction_span := 3\<rparr> else u2)
      in u3\<lparr>local_max_datagram := -1, far_max_ifp := -1\<rparr>)"

definition ast_udptl_set_local_max_ifp :: "32 word \<Rightarrow> ast_udptl \<Rightarrow> ast_udptl" where
  "ast_udptl_set_local_max_ifp max_ifp u =
     (if sint max_ifp > 0 then u\<lparr>local_max_ifp := sint max_ifp, local_max_datagram := -1\<rparr> else u)"

definition ast_udptl_get_local_max_datagram :: "ast_udptl \<Rightarrow> (int \<times> ast_udptl) option" where
  "ast_udptl_get_local_max_datagram u =
     do {
       u1 \<leftarrow> (if local_max_datagram u = -1 then calculate_local_max_datagram u else Some u);
       Some (if local_max_datagram u1 < 0 then 0 else local_max_datagram u1, u1)
     }"

definition ast_udptl_set_far_max_datagram :: "32 word \<Rightarrow> ast_udptl \<Rightarrow> ast_udptl" where
  "ast_udptl_set_far_max_datagram max_datagram u =
     u\<lparr>far_max_datagram := (if max_datagram = 0 \<or> uint max_datagram > FAX_MAX_DATAGRAM_LIMIT then DEFAULT_FAX_MAX_DATAGRAM
                             else uint max_datagram),
       far_max_ifp := -1\<rparr>"

definition ast_udptl_get_far_max_datagram :: "ast_udptl \<Rightarrow> int" where
  "ast_udptl_get_far_max_datagram u = (if far_max_datagram u < 0 then 0 else far_max_datagram u)"


text \<open>
  Sending a frame: the result, the packet that goes out if one does, and the session. The length of the
  data is compared with \<open>far_max_ifp\<close> as an unsigned number, so that nothing is cut before it is known.
\<close>

definition ast_udptl_write :: "bool \<Rightarrow> bool \<Rightarrow> octet list \<Rightarrow> ast_udptl \<Rightarrow> (int \<times> octet list option \<times> ast_udptl) option" where
  "ast_udptl_write has_peer t38 data s =
     (let bufsize = (if far_max_datagram s > 0 then far_max_datagram s else DEFAULT_FAX_MAX_DATAGRAM);
          len = (if int (length data) > uint (word_of_int (far_max_ifp s) :: 32 word) then nat (far_max_ifp s) else length data)
      in if \<not> has_peer \<or> data = [] then Some (0, None, s)
         else if \<not> t38 then Some (-1, None, s)
         else do {
           (pkt, s1) \<leftarrow> udptl_build_packet s (nat bufsize) (take len data);
           Some (0, pkt, s1)
         })"

section \<open>Room for the copies\<close>






section \<open>Sending frames\<close>







section \<open>Sizes that do not work\<close>

text \<open>
  A far end that says it accepts one byte makes sending write outside the packet's buffer, whatever the
  frame and the error recovery: the number is not checked against the least a packet needs.
\<close>

theorem tiny_datagram_overruns_buffer:
  assumes "data \<noteq> []"
  shows "ast_udptl_write True True data (ast_udptl_set_far_max_datagram 1 s) = None"
  using assms by (simp add: ast_udptl_write_def ast_udptl_set_far_max_datagram_def FAX_MAX_DATAGRAM_LIMIT_def
    udptl_build_packet_def put_def Let_def)

theorem tiny_datagram_overruns_buffer_witness:
  "ast_udptl_write True True [42] (ast_udptl_set_far_max_datagram 1
      \<lparr>error_correction_scheme = UDPTL_ERROR_CORRECTION_NONE, error_correction_entries = 0, error_correction_span = 0,
       tx_seq_no = 0, rx_seq_no = 0, tx = replicate 16 None, rx = [],
       far_max_datagram = -1, local_max_datagram = -1, far_max_ifp = -1, local_max_ifp = -1\<rparr>) = None"
  by (rule tiny_datagram_overruns_buffer) simp




text \<open>All places but the one of the present packet hold \<open>n\<close> bytes.\<close>

definition others_hold :: "octet list option list \<Rightarrow> nat \<Rightarrow> nat \<Rightarrow> bool" where
  "others_hold bufs x n \<longleftrightarrow> length bufs = 16 \<and> x < 16 \<and> (\<forall>k < 16. k \<noteq> x \<longrightarrow> (\<exists>d. bufs ! k = Some d \<and> length d = n))"

lemma others_hold_update [simp]: "others_hold (bufs[x := b]) x n = others_hold bufs x n"
  by (auto simp: others_hold_def)













end
