(* ===== verification/Ast_Config.thy ===== *)
theory Ast_Config
  imports C_String "HOL-Library.Monad_Syntax"
begin

text \<open>
  Configurations in memory, \<open>main/config.c\<close>: a list of categories, each with a list of variables. Both
  lists have a pointer to their last node, which the code keeps by hand; here it is the position
  of that node. A category has an address, since names are compared as pointers first and a
  category that inherits keeps a pointer to its template. \<open>None\<close> is a dereference of \<open>NULL\<close> or
  of freed memory. Allocations succeed; comments are not modelled.
\<close>

section \<open>Data\<close>

record ast_variable =
  v_name :: string
  v_value :: string
  v_file :: string
  v_lineno :: int
  v_object :: bool
  v_blanklines :: int

record ast_category =
  cat_addr :: nat
  cat_name :: string
  ignored :: bool
  cat_level :: int
  cat_file :: string
  cat_lineno :: int
  template_instances :: "(string \<times> nat) list"
  vars :: "ast_variable list"
  vars_last :: "nat option"

record ast_config_include =
  include_location_file :: string
  include_location_lineno :: int
  included_file :: string
  inclusion_count :: nat

record ast_config =
  cats :: "ast_category list"
  cats_last :: "nat option"
  cur_cat :: "nat option"
  last_browse :: "nat option"
  include_level :: int
  max_include_level :: int
  config_includes :: "ast_config_include list"
  fresh_addr :: nat

text \<open>A pointer to characters: the category whose name it is, if any, and what it points to.\<close>

type_synonym name_ref = "nat option \<times> string"

text \<open>Linking nodes behind the last one; everything behind that is lost.\<close>

fun append_at :: "nat option \<Rightarrow> 'a list \<Rightarrow> 'a list \<Rightarrow> 'a list" where
  "append_at None xs ys = ys"
| "append_at (Some i) xs ys = take (Suc i) xs @ ys"

definition last_pos :: "'a list \<Rightarrow> nat option" where
  "last_pos xs = (if xs = [] then None else Some (length xs - 1))"

section \<open>Variables\<close>

definition ast_variable_new :: "string \<Rightarrow> string \<Rightarrow> string \<Rightarrow> ast_variable" where
  "ast_variable_new name value filename =
     \<lparr>v_name = name, v_value = value, v_file = filename, v_lineno = 0, v_object = False, v_blanklines = 0\<rparr>"

definition ast_variable_move :: "ast_variable \<Rightarrow> ast_variable \<Rightarrow> ast_variable" where
  "ast_variable_move dst src = dst\<lparr>v_lineno := v_lineno src, v_object := v_object src, v_blanklines := v_blanklines src\<rparr>"

definition ast_variable_append :: "ast_category \<Rightarrow> ast_variable list \<Rightarrow> ast_category" where
  "ast_variable_append category variable =
     (if variable = [] then category
      else let vs = append_at (vars_last category) (vars category) variable
           in category\<lparr>vars := vs, vars_last := last_pos vs\<rparr>)"

text \<open>The node behind which a variable is inserted: \<open>k\<close> steps from \<open>cur\<close>, in a list of \<open>n\<close> nodes.\<close>

fun insert_walk :: "nat \<Rightarrow> nat \<Rightarrow> nat \<Rightarrow> nat option" where
  "insert_walk 0 n cur = Some cur"
| "insert_walk (Suc k) n cur =
     (if Suc cur \<ge> n then None else if Suc cur = n - 1 then Some (Suc cur) else insert_walk k n (Suc cur))"

definition ast_variable_insert :: "ast_category \<Rightarrow> ast_variable \<Rightarrow> string \<Rightarrow> ast_category option" where
  "ast_variable_insert category variable line =
     (case scan_int_w 30 line of
        None \<Rightarrow> Some category
      | Some (insertline, _) \<Rightarrow>
          if insertline = 0
          then Some (category\<lparr>vars := variable # vars category, vars_last := map_option Suc (vars_last category)\<rparr>)
          else if vars category = [] then None
          else do {
            cur \<leftarrow> insert_walk (nat (insertline - 1)) (length (vars category)) 0;
            Some (category\<lparr>vars := take (Suc cur) (vars category) @ variable # drop (Suc cur) (vars category),
                           vars_last := map_option (\<lambda>i. if i > cur then Suc i else i) (vars_last category)\<rparr>)
          })"

definition ast_variables_dup :: "ast_variable list \<Rightarrow> ast_variable list" where
  "ast_variables_dup vs = map (\<lambda>v. ast_variable_new (v_name v) (v_value v) (v_file v)) vs"

definition variable_clone :: "ast_variable \<Rightarrow> ast_variable" where
  "variable_clone old =
     (ast_variable_new (v_name old) (v_value old) (v_file old))
       \<lparr>v_lineno := v_lineno old, v_object := v_object old, v_blanklines := v_blanklines old\<rparr>"

text \<open>Which node the pointer to the last one is after the nodes that are not kept have gone.\<close>

definition last_kept :: "bool list \<Rightarrow> nat option \<Rightarrow> nat option" where
  "last_kept keep p =
     (case p of None \<Rightarrow> None
      | Some i \<Rightarrow> case length (filter id (take (Suc i) keep)) of 0 \<Rightarrow> None | Suc k \<Rightarrow> Some k)"

definition delete_hit :: "int \<Rightarrow> string \<Rightarrow> string \<Rightarrow> int \<times> ast_variable \<Rightarrow> bool" where
  "delete_hit req_item variable match = (\<lambda>(num_item, cur).
     0 \<le> req_item \<and> num_item = req_item \<or>
     req_item < 0 \<and> strcase_eq (v_name cur) variable \<and> (match = [] \<or> strcase_eq (v_value cur) match))"

definition delete_vars :: "int \<Rightarrow> string \<Rightarrow> string \<Rightarrow> ast_category \<Rightarrow> int \<times> ast_category" where
  "delete_vars req_item variable match category =
     (let hits = map (delete_hit req_item variable match) (zip (map int [0..<length (vars category)]) (vars category));
          keep = map Not hits
      in (if True \<in> set hits then 0 else -1,
          category\<lparr>vars := map snd (filter fst (zip keep (vars category))), vars_last := last_kept keep (vars_last category)\<rparr>))"

definition ast_variable_delete :: "ast_category \<Rightarrow> string \<Rightarrow> string \<Rightarrow> string \<Rightarrow> int \<times> ast_category" where
  "ast_variable_delete category variable match line =
     (if line = [] then delete_vars (-1) variable match category
      else case scan_int_w 30 line of
          None \<Rightarrow> (-1, category)
        | Some (req_item, _) \<Rightarrow> if req_item < 0 then (-1, category) else delete_vars req_item variable match category)"

definition update_hit :: "string \<Rightarrow> string \<Rightarrow> ast_variable \<Rightarrow> bool" where
  "update_hit variable match cur \<longleftrightarrow> strcase_eq (v_name cur) variable \<and> (match = [] \<or> strcase_eq (v_value cur) match)"

definition ast_variable_update :: "ast_category \<Rightarrow> string \<Rightarrow> string \<Rightarrow> string \<Rightarrow> bool \<Rightarrow> int \<times> ast_category" where
  "ast_variable_update category variable value match object =
     (case dropWhile (\<lambda>v. \<not> update_hit variable match v) (vars category) of
        [] \<Rightarrow> (-1, category)
      | cur # rest \<Rightarrow>
          let newer = ast_variable_move (ast_variable_new variable value (v_file cur)) cur;
              newer = newer\<lparr>v_object := v_object newer \<or> object\<rparr>
          in (0, category\<lparr>vars := takeWhile (\<lambda>v. \<not> update_hit variable match v) (vars category) @ newer # rest\<rparr>))"

section \<open>Categories\<close>

definition ast_category_new :: "nat \<Rightarrow> string \<Rightarrow> string \<Rightarrow> int \<Rightarrow> ast_category" where
  "ast_category_new addr name in_file lineno =
     \<lparr>cat_addr = addr, cat_name = take 79 name, ignored = False, cat_level = 0, cat_file = in_file, cat_lineno = lineno,
      template_instances = [], vars = [], vars_last = None\<rparr>"

definition category_get :: "ast_config \<Rightarrow> name_ref \<Rightarrow> bool \<Rightarrow> ast_category option" where
  "category_get config category_name ign =
     (case find (\<lambda>c. fst category_name = Some (cat_addr c) \<and> (ign \<or> \<not> ignored c)) (cats config) of
        Some c \<Rightarrow> Some c
      | None \<Rightarrow> find (\<lambda>c. strcase_eq (cat_name c) (snd category_name) \<and> (ign \<or> \<not> ignored c)) (cats config))"

definition ast_category_get :: "ast_config \<Rightarrow> name_ref \<Rightarrow> ast_category option" where
  "ast_category_get config category_name = category_get config category_name False"

definition ast_category_exist :: "ast_config \<Rightarrow> name_ref \<Rightarrow> bool" where
  "ast_category_exist config category_name \<longleftrightarrow> ast_category_get config category_name \<noteq> None"

text \<open>The category the cached pointer leads to must still be there.\<close>

definition cat_at :: "ast_config \<Rightarrow> nat \<Rightarrow> ast_category option" where
  "cat_at config addr = find (\<lambda>c. cat_addr c = addr) (cats config)"

definition ast_variable_browse :: "ast_config \<Rightarrow> name_ref \<Rightarrow> ast_variable list option" where
  "ast_variable_browse config category =
     (if last_browse config \<noteq> None \<and> last_browse config = fst category
      then map_option vars (cat_at config (the (last_browse config)))
      else Some (case ast_category_get config category of None \<Rightarrow> [] | Some c \<Rightarrow> vars c))"

definition value_of :: "string \<Rightarrow> ast_variable list \<Rightarrow> string option" where
  "value_of variable vs = map_option v_value (find (\<lambda>v. strcase_eq variable (v_name v)) vs)"

definition ast_variable_retrieve :: "ast_config \<Rightarrow> name_ref option \<Rightarrow> string \<Rightarrow> string option option" where
  "ast_variable_retrieve config category variable =
     (case category of
        Some c \<Rightarrow> map_option (value_of variable) (ast_variable_browse config c)
      | None \<Rightarrow> Some (value_of variable (concat (map vars (cats config)))))"

definition ast_config_option :: "ast_config \<Rightarrow> name_ref option \<Rightarrow> string \<Rightarrow> string option option" where
  "ast_config_option cfg cat var =
     do {
       tmp \<leftarrow> ast_variable_retrieve cfg cat var;
       case tmp of Some s \<Rightarrow> Some (Some s) | None \<Rightarrow> ast_variable_retrieve cfg (Some (None, ''general'')) var
     }"

definition ast_category_append :: "ast_config \<Rightarrow> ast_category \<Rightarrow> ast_config" where
  "ast_category_append config category =
     (let cs = append_at (cats_last config) (cats config) [category\<lparr>cat_level := include_level config\<rparr>]
      in config\<lparr>cats := cs, cats_last := last_pos cs, cur_cat := Some (cat_addr category)\<rparr>)"

text \<open>In front of the first category of that name; without one the code runs off the list.\<close>

definition ast_category_insert :: "ast_config \<Rightarrow> ast_category \<Rightarrow> string \<Rightarrow> ast_config option" where
  "ast_category_insert config cat match =
     (case dropWhile (\<lambda>c. \<not> strcase_eq (cat_name c) match) (cats config) of
        [] \<Rightarrow> None
      | rest \<Rightarrow>
          let front = takeWhile (\<lambda>c. \<not> strcase_eq (cat_name c) match) (cats config)
          in Some (config\<lparr>cats := front @ cat # rest,
                          cats_last := map_option (\<lambda>i. if i \<ge> length front then Suc i else i) (cats_last config)\<rparr>))"

text \<open>The categories behind a node; \<open>last_browse\<close> may lead to one that was deleted.\<close>

definition cats_behind :: "(ast_category \<Rightarrow> bool) \<Rightarrow> ast_config \<Rightarrow> ast_category list option" where
  "cats_behind P config = (case dropWhile (\<lambda>c. \<not> P c) (cats config) of [] \<Rightarrow> None | _ # rest \<Rightarrow> Some rest)"

definition next_available_category :: "ast_category list \<Rightarrow> ast_category list" where
  "next_available_category cs = dropWhile ignored cs"

definition browse_from :: "ast_config \<Rightarrow> name_ref option \<Rightarrow> ast_category list option" where
  "browse_from config prev =
     (case prev of
        None \<Rightarrow> Some (cats config)
      | Some p \<Rightarrow>
          if last_browse config \<noteq> None \<and> last_browse config = fst p then cats_behind (\<lambda>c. fst p = Some (cat_addr c)) config
          else case cats_behind (\<lambda>c. fst p = Some (cat_addr c)) config of
              Some (c # cs) \<Rightarrow> Some (c # cs)
            | _ \<Rightarrow> Some (case cats_behind (\<lambda>c. strcase_eq (cat_name c) (snd p)) config of None \<Rightarrow> [] | Some cs \<Rightarrow> cs))"

definition ast_category_browse :: "ast_config \<Rightarrow> name_ref option \<Rightarrow> (name_ref option \<times> ast_config) option" where
  "ast_category_browse config prev =
     do {
       cs \<leftarrow> browse_from config prev;
       Some (case next_available_category cs of
           [] \<Rightarrow> (None, config\<lparr>last_browse := None\<rparr>)
         | c # _ \<Rightarrow> (Some (Some (cat_addr c), cat_name c), config\<lparr>last_browse := Some (cat_addr c)\<rparr>))
     }"

definition ast_category_detach_variables :: "ast_category \<Rightarrow> ast_variable list \<times> ast_category" where
  "ast_category_detach_variables cat = (vars cat, cat\<lparr>vars := [], vars_last := None\<rparr>)"

definition ast_category_rename :: "ast_category \<Rightarrow> string \<Rightarrow> ast_category" where
  "ast_category_rename cat name = cat\<lparr>cat_name := take 79 name\<rparr>"

definition ast_category_first :: "ast_category option \<Rightarrow> ast_variable list option" where
  "ast_category_first cat = map_option vars cat"

definition ast_category_root :: "ast_config \<Rightarrow> name_ref \<Rightarrow> ast_variable list option" where
  "ast_category_root config cat = map_option vars (ast_category_get config cat)"

text \<open>Moving leaves the pointer to the last variable in the old category, which is freed then.\<close>

definition move_variables :: "ast_category \<Rightarrow> ast_category \<Rightarrow> ast_category \<times> ast_category" where
  "move_variables old new = (old\<lparr>vars := []\<rparr>, ast_variable_append new (vars old))"

definition inherit_category :: "ast_category \<Rightarrow> ast_category \<Rightarrow> ast_category" where
  "inherit_category new base =
     fold (\<lambda>v c. ast_variable_append c [variable_clone v]) (vars base)
       (new\<lparr>template_instances := template_instances new @ [(cat_name base, cat_addr base)]\<rparr>)"

definition ast_config_new :: ast_config where
  "ast_config_new =
     \<lparr>cats = [], cats_last = None, cur_cat = None, last_browse = None, include_level = 0, max_include_level = 10,
      config_includes = [], fresh_addr = 0\<rparr>"

definition delete_at :: "nat \<Rightarrow> ast_config \<Rightarrow> ast_config" where
  "delete_at i cfg =
     cfg\<lparr>cats := take i (cats cfg) @ drop (Suc i) (cats cfg),
         cats_last := last_kept (map (\<lambda>k. k \<noteq> i) [0..<length (cats cfg)]) (cats_last cfg)\<rparr>"

definition ast_category_delete :: "ast_config \<Rightarrow> name_ref \<Rightarrow> int \<times> ast_config" where
  "ast_category_delete cfg category =
     (let i = length (takeWhile (\<lambda>c. fst category \<noteq> Some (cat_addr c)) (cats cfg));
          j = length (takeWhile (\<lambda>c. \<not> strcase_eq (cat_name c) (snd category)) (cats cfg))
      in if i < length (cats cfg) then (0, delete_at i cfg)
         else if j < length (cats cfg) then (0, delete_at j cfg)
         else (-1, cfg))"

definition ast_category_empty :: "ast_config \<Rightarrow> string \<Rightarrow> int \<times> ast_config" where
  "ast_category_empty cfg category =
     (let front = takeWhile (\<lambda>c. strcase_eq (cat_name c) category) (cats cfg)
      in case dropWhile (\<lambda>c. strcase_eq (cat_name c) category) (cats cfg) of
           [] \<Rightarrow> (-1, cfg)
         | c # rest \<Rightarrow> (0, cfg\<lparr>cats := front @ c\<lparr>vars := [], vars_last := None\<rparr> # rest\<rparr>))"

section \<open>Inclusions\<close>

definition ast_include_find :: "ast_config \<Rightarrow> string \<Rightarrow> ast_config_include option" where
  "ast_include_find conf file = find (\<lambda>x. included_file x = file) (config_includes conf)"

text \<open>Every node keeps its place, in its own memory or in new memory.\<close>

definition ast_include_rename :: "ast_config \<Rightarrow> string \<Rightarrow> string \<Rightarrow> ast_config" where
  "ast_include_rename conf from_file to_file =
     (let rename = (\<lambda>f. if f = from_file then to_file else f)
      in conf\<lparr>config_includes := map (\<lambda>i. i\<lparr>include_location_file := rename (include_location_file i)\<rparr>) (config_includes conf),
           cats := map (\<lambda>c. c\<lparr>cat_file := rename (cat_file c),
             vars := map (\<lambda>v. if v_file v = from_file then ast_variable_move (ast_variable_new (v_name v) (v_value v) to_file) v else v) (vars c)\<rparr>) (cats conf)\<rparr>)"

section \<open>The pointers to the last node\<close>

definition wf_category :: "ast_category \<Rightarrow> bool" where
  "wf_category c \<longleftrightarrow> vars_last c = last_pos (vars c)"

definition wf_config :: "ast_config \<Rightarrow> bool" where
  "wf_config cfg \<longleftrightarrow> cats_last cfg = last_pos (cats cfg) \<and> (\<forall>c \<in> set (cats cfg). wf_category c) \<and> distinct (map cat_addr (cats cfg))"

lemma append_at_last: "append_at (last_pos xs) xs ys = xs @ ys"
  by (cases xs) (simp_all add: last_pos_def)

lemma last_pos_update: "last_pos (xs @ x # ys) = last_pos (xs @ y # ys)"
  by (simp add: last_pos_def)

lemma last_kept_last:
  assumes "length keep = length xs"
  shows "last_kept keep (last_pos xs) = last_pos (map snd (filter fst (zip keep xs)))"
proof (cases "xs = []")
  case False
  have "length (map snd (filter fst (zip keep xs))) = length (filter id keep)"
    using assms by (induction keep xs rule: list_induct2) auto
  with False assms show ?thesis by (cases "length (filter id keep)") (auto simp: last_kept_def last_pos_def)
qed (simp add: last_kept_def last_pos_def)

lemma append_exact:
  assumes "wf_category c"
  shows "wf_category (ast_variable_append c vs)" "vars (ast_variable_append c vs) = vars c @ vs"
  using assms by (simp_all add: ast_variable_append_def wf_category_def append_at_last Let_def)

lemma delete_vars_wf: "wf_category c \<Longrightarrow> wf_category (snd (delete_vars n name match c))"
  using last_kept_last [of "map Not (map (delete_hit n name match) (zip (map int [0..<length (vars c)]) (vars c)))" "vars c"]
  by (simp add: delete_vars_def wf_category_def Let_def)

lemma delete_wf: "wf_category c \<Longrightarrow> wf_category (snd (ast_variable_delete c name match line))"
  using delete_vars_wf by (auto simp: ast_variable_delete_def split: option.split)

lemma update_wf: "wf_category c \<Longrightarrow> wf_category (snd (ast_variable_update c name value match object))"
proof (cases "dropWhile (\<lambda>v. \<not> update_hit name match v) (vars c)")
  case (Cons cur rest)
  assume "wf_category c"
  moreover have "vars c = takeWhile (\<lambda>v. \<not> update_hit name match v) (vars c) @ cur # rest"
    using takeWhile_dropWhile_id [of "\<lambda>v. \<not> update_hit name match v" "vars c"] Cons by simp
  then have "last_pos (vars c) = last_pos (takeWhile (\<lambda>v. \<not> update_hit name match v) (vars c) @ x # rest)" for x
    by (metis last_pos_update)
  ultimately show ?thesis using Cons by (simp add: ast_variable_update_def wf_category_def Let_def)
qed (simp add: ast_variable_update_def del: dropWhile_eq_Nil_conv)

text \<open>Renaming leaves no entry in the old file and changes nothing else.\<close>

lemma include_rename_exact:
  assumes "wf_config cfg"
  shows "wf_config (ast_include_rename cfg a b)"
    and "a \<noteq> b \<Longrightarrow> c \<in> set (cats (ast_include_rename cfg a b)) \<Longrightarrow> cat_file c \<noteq> a \<and> (\<forall>v \<in> set (vars c). v_file v \<noteq> a)"
    and "map (\<lambda>c. (cat_name c, map (\<lambda>v. (v_name v, v_value v, v_object v, v_lineno v)) (vars c))) (cats (ast_include_rename cfg a b)) =
      map (\<lambda>c. (cat_name c, map (\<lambda>v. (v_name v, v_value v, v_object v, v_lineno v)) (vars c))) (cats cfg)"
  using assms
  by (auto simp: ast_include_rename_def wf_config_def wf_category_def last_pos_def comp_def ast_variable_move_def ast_variable_new_def Let_def split: if_splits)

lemma fold_append_exact:
  assumes "wf_category c"
  shows "wf_category (fold (\<lambda>v c. ast_variable_append c [f v]) vs c) \<and> vars (fold (\<lambda>v c. ast_variable_append c [f v]) vs c) = vars c @ map f vs"
  using assms
proof (induction vs arbitrary: c)
  case (Cons v vs)
  from Cons.IH [OF append_exact(1) [OF Cons.prems, of "[f v]"]] append_exact(2) [OF Cons.prems, of "[f v]"] show ?case by simp
qed simp

lemma inherit_exact:
  assumes "wf_category c"
  shows "wf_category (inherit_category c base)" "vars (inherit_category c base) = vars c @ map variable_clone (vars base)"
proof -
  let ?c = "c\<lparr>template_instances := template_instances c @ [(cat_name base, cat_addr base)]\<rparr>"
  have "wf_category ?c" using assms by (simp add: wf_category_def)
  from fold_append_exact [OF this, of variable_clone "vars base"]
  show "wf_category (inherit_category c base)" "vars (inherit_category c base) = vars c @ map variable_clone (vars base)"
    by (simp_all add: inherit_category_def)
qed

text \<open>Deleting by name leaves the other variables, deleting by number one less.\<close>

lemma delete_by_name:
  "vars (snd (delete_vars (-1) name match c)) = filter (\<lambda>v. \<not> update_hit name match v) (vars c)"
  "fst (delete_vars (-1) name match c) = (if \<exists>v \<in> set (vars c). update_hit name match v then 0 else -1)"
proof -
  have h: "delete_hit (-1) name match = (\<lambda>(n, v). update_hit name match v)"
    by (auto simp: delete_hit_def update_hit_def)
  have z: "map (\<lambda>(n, v). P v) (zip (map int [0..<length xs]) xs) = map P xs" for P and xs :: "ast_variable list"
    by (rule nth_equalityI) simp_all
  have f: "map snd (filter fst (zip (map (Not \<circ> P) xs) xs)) = filter (\<lambda>v. \<not> P v) xs" for P and xs :: "ast_variable list"
    by (induction xs) auto
  show "vars (snd (delete_vars (-1) name match c)) = filter (\<lambda>v. \<not> update_hit name match v) (vars c)"
    unfolding delete_vars_def h Let_def z by (simp add: f)
  show "fst (delete_vars (-1) name match c) = (if \<exists>v \<in> set (vars c). update_hit name match v then 0 else -1)"
    unfolding delete_vars_def h Let_def z by auto
qed

lemma remove_nth: "k < length xs \<Longrightarrow> map snd (filter fst (zip (map (\<lambda>i. i \<noteq> k) [0..<length xs]) xs)) = take k xs @ drop (Suc k) xs"
proof (induction xs arbitrary: k)
  case (Cons x xs)
  have u: "map (\<lambda>i. i \<noteq> k) [0..<length (x # xs)] = (0 \<noteq> k) # map (\<lambda>i. Suc i \<noteq> k) [0..<length xs]"
    by (simp add: upt_conv_Cons map_Suc_upt [symmetric] del: upt_Suc)
  have all: "map snd (filter fst (zip (map (\<lambda>i. True) [0..<length ys]) ys)) = ys" for ys :: "'a list"
    by (induction ys) (simp_all add: upt_conv_Cons map_Suc_upt [symmetric] comp_def del: upt_Suc)
  show ?case
  proof (cases k)
    case 0
    with all [of xs] show ?thesis unfolding u by simp
  next
    case (Suc j)
    with Cons show ?thesis unfolding u by simp
  qed
qed simp

lemma delete_by_number:
  assumes "0 \<le> n"
  shows "vars (snd (delete_vars n name match c)) = (if nat n < length (vars c) then take (nat n) (vars c) @ drop (Suc (nat n)) (vars c) else vars c)"
    "fst (delete_vars n name match c) = (if nat n < length (vars c) then 0 else -1)"
proof -
  have z: "map (delete_hit n name match) (zip (map int [0..<length (vars c)]) (vars c)) = map (\<lambda>i. i = nat n) [0..<length (vars c)]"
    by (rule nth_equalityI) (use assms in \<open>auto simp: delete_hit_def\<close>)
  have none: "filter fst (zip (map (\<lambda>i. i \<noteq> nat n) [0..<length xs]) xs) = zip (map (\<lambda>i. True) [0..<length xs]) xs"
    if "\<not> nat n < length xs" for xs :: "ast_variable list"
  proof -
    have "map (\<lambda>i. i \<noteq> nat n) [0..<length xs] = map (\<lambda>i. True) [0..<length xs]" using that by auto
    moreover have "filter fst (zip (map (\<lambda>i. True) [0..<length xs]) xs) = zip (map (\<lambda>i. True) [0..<length xs]) xs"
      by (rule filter_True) (auto simp: set_zip)
    ultimately show ?thesis by (simp only:)
  qed
  show "vars (snd (delete_vars n name match c)) = (if nat n < length (vars c) then take (nat n) (vars c) @ drop (Suc (nat n)) (vars c) else vars c)"
    using remove_nth [of "nat n" "vars c"] none [of "vars c"] by (simp add: delete_vars_def z comp_def)
  show "fst (delete_vars n name match c) = (if nat n < length (vars c) then 0 else -1)" by (auto simp: delete_vars_def z Let_def)
qed

lemma update_lookup:
  assumes "\<exists>v \<in> set (vars c). strcase_eq (v_name v) name"
  shows "fst (ast_variable_update c name value [] object) = 0 \<and>
    value_of name (vars (snd (ast_variable_update c name value [] object))) = Some value \<and>
    map v_lineno (vars (snd (ast_variable_update c name value [] object))) = map v_lineno (vars c)"
proof -
  let ?P = "\<lambda>v. \<not> update_hit name [] v"
  from assms obtain cur rest where d: "dropWhile ?P (vars c) = cur # rest"
    by (cases "dropWhile ?P (vars c)") (auto simp: update_hit_def dropWhile_eq_Nil_conv)
  then have vs: "vars c = takeWhile ?P (vars c) @ cur # rest" using takeWhile_dropWhile_id [of ?P "vars c"] by simp
  have f: "find (\<lambda>v. strcase_eq name (v_name v)) (takeWhile ?P xs @ ys) = find (\<lambda>v. strcase_eq name (v_name v)) ys" for xs ys
    by (induction xs) (auto simp: update_hit_def strcase_eq_def)
  from arg_cong [OF vs, of "map v_lineno"] d show ?thesis
    by (simp add: ast_variable_update_def value_of_def f ast_variable_move_def ast_variable_new_def Let_def)
qed

text \<open>
  The operations on the variables of a category do what they say and keep its pointer to the last one:
  appending adds behind, deleting by name removes exactly the variables of that name and value,
  deleting by number one variable, what is updated is what a lookup gives then, at the same line, and inheriting
  adds copies of the template's variables.
\<close>

theorem variable_operations_exact:
  assumes "wf_category c"
  shows "(wf_category (ast_variable_append c vs) \<and> vars (ast_variable_append c vs) = vars c @ vs) \<and>
    (wf_category (snd (ast_variable_delete c name match [])) \<and>
      vars (snd (ast_variable_delete c name match [])) = filter (\<lambda>v. \<not> update_hit name match v) (vars c) \<and>
      (fst (ast_variable_delete c name match []) = 0 \<longleftrightarrow> (\<exists>v \<in> set (vars c). update_hit name match v))) \<and>
    (scan_int_w 30 line = Some (int k, rest) \<and> line \<noteq> [] \<and> k < length (vars c) \<longrightarrow>
      fst (ast_variable_delete c name match line) = 0 \<and> wf_category (snd (ast_variable_delete c name match line)) \<and>
      vars (snd (ast_variable_delete c name match line)) = take k (vars c) @ drop (Suc k) (vars c)) \<and>
    (wf_category (snd (ast_variable_update c name val match object)) \<and>
      ((\<exists>v \<in> set (vars c). strcase_eq (v_name v) name) \<longrightarrow> fst (ast_variable_update c name val [] object) = 0 \<and>
        value_of name (vars (snd (ast_variable_update c name val [] object))) = Some val \<and>
        map v_lineno (vars (snd (ast_variable_update c name val [] object))) = map v_lineno (vars c))) \<and>
    (wf_category (inherit_category c base) \<and> vars (inherit_category c base) = vars c @ map variable_clone (vars base))"
  using append_exact [OF assms] inherit_exact [OF assms] delete_vars_wf [OF assms] delete_by_number [of "int k"]
    update_wf [OF assms] update_lookup [of c name val object]
  by (simp add: ast_variable_delete_def delete_by_name)

theorem variable_operations_exact_witness:
  "vars (snd (ast_variable_delete
      \<lparr>cat_addr = 0, cat_name = ''general'', ignored = False, cat_level = 1, cat_file = [], cat_lineno = 1, template_instances = [],
       vars = [ast_variable_new ''a'' ''1'' [], ast_variable_new ''b'' ''2'' []], vars_last = Some 1\<rparr> ''x'' [] ''1'')) =
   [ast_variable_new ''a'' ''1'' []]"
proof -
  let ?c = "\<lparr>cat_addr = 0, cat_name = ''general'', ignored = False, cat_level = 1, cat_file = [], cat_lineno = 1, template_instances = [],
       vars = [ast_variable_new ''a'' ''1'' [], ast_variable_new ''b'' ''2'' []], vars_last = Some 1\<rparr>"
  have "wf_category ?c" by (simp add: wf_category_def last_pos_def)
  moreover have "scan_int_w 30 ''1'' = Some (int 1, [])" by code_simp
  ultimately show ?thesis using variable_operations_exact [of ?c "[]" "''x''" "[]" "''1''" 1 "[]" "[]" False ?c] by simp
qed

section \<open>Browsing\<close>

text \<open>Asking for the name after the last one, until there is none.\<close>

fun browse_all :: "nat \<Rightarrow> ast_config \<Rightarrow> name_ref option \<Rightarrow> name_ref list option" where
  "browse_all 0 cfg prev = None"
| "browse_all (Suc n) cfg prev =
     do {
       (r, cfg1) \<leftarrow> ast_category_browse cfg prev;
       case r of None \<Rightarrow> Some [] | Some p \<Rightarrow> map_option ((#) p) (browse_all n cfg1 (Some p))
     }"

abbreviation name_pointer :: "ast_category \<Rightarrow> name_ref" where
  "name_pointer c \<equiv> (Some (cat_addr c), cat_name c)"

lemma cats_behind_addr:
  assumes "distinct (map cat_addr (xs @ c # ys))" "cats cfg = xs @ c # ys"
  shows "cats_behind (\<lambda>d. Some (cat_addr c) = Some (cat_addr d)) cfg = Some ys"
proof -
  have "\<forall>d \<in> set xs. cat_addr d \<noteq> cat_addr c" using assms(1) by (fastforce simp: image_iff)
  then have "dropWhile (\<lambda>d. \<not> Some (cat_addr c) = Some (cat_addr d)) (xs @ c # ys) = c # ys" by (subst dropWhile_append2) auto
  with assms(2) show ?thesis by (simp add: cats_behind_def)
qed

lemma skip_ignored:
  assumes "dropWhile ignored cs = c # rest"
  shows "\<exists>is. cs = is @ c # rest \<and> filter (\<lambda>c. \<not> ignored c) cs = c # filter (\<lambda>c. \<not> ignored c) rest \<and> length rest < length cs"
proof -
  have cs: "cs = takeWhile ignored cs @ c # rest" using takeWhile_dropWhile_id [of ignored cs] assms by simp
  have "\<not> ignored c" using assms by (metis hd_dropWhile list.sel(1) list.distinct(1))
  moreover have "filter (\<lambda>c. \<not> ignored c) (takeWhile ignored cs) = []" by (auto simp: filter_empty_conv dest: set_takeWhileD)
  ultimately have "filter (\<lambda>c. \<not> ignored c) cs = c # filter (\<lambda>c. \<not> ignored c) rest"
    by (subst cs) (simp del: takeWhile_dropWhile_id)
  moreover have "length rest < length cs" using arg_cong [OF cs, of length] by simp
  ultimately show ?thesis using cs by blast
qed

lemma browse_rest:
  assumes "distinct (map cat_addr (cats cfg))" "cats cfg = xs @ cs" "length cs < n"
    and "browse_from cfg prev = Some cs"
  shows "browse_all n cfg prev = Some (map name_pointer (filter (\<lambda>c. \<not> ignored c) cs))"
  using assms
proof (induction n arbitrary: cfg xs cs prev)
  case (Suc n)
  show ?case
  proof (cases "dropWhile ignored cs")
    case Nil
    then have "filter (\<lambda>c. \<not> ignored c) cs = []" by (simp add: filter_empty_conv)
    with Nil Suc.prems(4) show ?thesis by (simp add: ast_category_browse_def next_available_category_def del: dropWhile_eq_Nil_conv)
  next
    case (Cons c rest)
    from skip_ignored [OF this] obtain iv where i: "cs = iv @ c # rest"
      "filter (\<lambda>c. \<not> ignored c) cs = c # filter (\<lambda>c. \<not> ignored c) rest" "length rest < length cs" by blast
    let ?cfg = "cfg\<lparr>last_browse := Some (cat_addr c)\<rparr>"
    have c: "cats ?cfg = (xs @ iv) @ c # rest" using Suc.prems(2) i(1) by simp
    have "browse_from ?cfg (Some (name_pointer c)) = Some rest"
      using cats_behind_addr [OF _ c] Suc.prems(1,2) i(1) by (simp add: browse_from_def)
    with Suc.IH [of ?cfg "xs @ iv @ [c]" rest "Some (name_pointer c)"] Suc.prems(1,3) c i(3)
    have "browse_all n ?cfg (Some (name_pointer c)) = Some (map name_pointer (filter (\<lambda>c. \<not> ignored c) rest))" by simp
    with Cons Suc.prems(4) i(2) show ?thesis by (simp add: ast_category_browse_def next_available_category_def)
  qed
qed simp

text \<open>
  C32: browsing goes through the configuration: starting without a name and asking for the next one each time
  gives every category that is not a template once, in order, and ends.
\<close>

theorem browse_visits_categories:
  assumes "wf_config cfg" "length (cats cfg) < n"
  shows "browse_all n cfg None = Some (map (\<lambda>c. (Some (cat_addr c), cat_name c)) (filter (\<lambda>c. \<not> ignored c) (cats cfg)))"
  by (rule browse_rest [where xs = "[]"]) (use assms in \<open>simp_all add: wf_config_def browse_from_def\<close>)

section \<open>Operations that go wrong\<close>

text \<open>
  A variable inserted at the end is lost: inserting does not move the pointer to the last variable,
  and the next variable that is appended takes its place.
\<close>

theorem inserted_variable_lost:
  assumes "wf_category c" "vars c \<noteq> []" "scan_int_w 30 line = Some (int (length (vars c)), rest)"
  shows "\<exists>c1. ast_variable_insert c v line = Some c1 \<and> vars c1 = vars c @ [v] \<and>
    vars (ast_variable_append c1 [w]) = vars c @ [w]"
proof -
  have walk: "cur < n \<Longrightarrow> k = n - 1 - cur \<Longrightarrow> insert_walk k n cur = Some (n - 1)" for k n cur
  proof (induction k arbitrary: cur)
    case (Suc k)
    have c: "Suc cur < n" "k = n - 1 - Suc cur" using Suc.prems by auto
    from Suc.IH [OF this] c(1) show ?case unfolding insert_walk.simps by auto
  qed simp
  let ?n = "length (vars c)"
  have n: "0 < ?n" using assms(2) by simp
  have "nat (int ?n - 1) = ?n - 1" by linarith
  with walk [of 0 ?n "?n - 1"] n have "insert_walk (nat (int ?n - 1)) ?n 0 = Some (?n - 1)" by simp
  then have i: "ast_variable_insert c v line = Some (c\<lparr>vars := vars c @ [v], vars_last := vars_last c\<rparr>)"
    using assms n by (simp add: ast_variable_insert_def wf_category_def last_pos_def)
  moreover have "vars (ast_variable_append (c\<lparr>vars := vars c @ [v], vars_last := vars_last c\<rparr>) [w]) = vars c @ [w]"
    using assms(1,2) by (simp add: ast_variable_append_def wf_category_def last_pos_def Let_def)
  ultimately show ?thesis by simp
qed

text \<open>
  Emptying a category empties another one: the test of the name is the wrong way round, so the first category
  with a different name loses its variables and the one that was named keeps them.
\<close>

theorem category_empty_empties_other:
  assumes "cats cfg = a # rest" "\<not> strcase_eq (cat_name a) name"
  shows "ast_category_empty cfg name = (0, cfg\<lparr>cats := a\<lparr>vars := [], vars_last := None\<rparr> # rest\<rparr>)"
  using assms by (simp add: ast_category_empty_def)

text \<open>Witnesses: two categories, the first with a variable.\<close>

definition example_category :: "nat \<Rightarrow> string \<Rightarrow> ast_variable list \<Rightarrow> ast_category" where
  "example_category addr name vs = (ast_category_new addr name [] 1)\<lparr>vars := vs, vars_last := last_pos vs\<rparr>"

definition example_config :: "ast_category list \<Rightarrow> ast_config" where
  "example_config cs = ast_config_new\<lparr>cats := cs, cats_last := last_pos cs\<rparr>"

theorem browse_visits_categories_witness:
  "browse_all 3 (example_config [(example_category 0 ''t'' [])\<lparr>ignored := True\<rparr>, example_category 1 ''a'' []]) None = Some [(Some 1, ''a'')]"
proof -
  have "wf_config (example_config [(example_category 0 ''t'' [])\<lparr>ignored := True\<rparr>, example_category 1 ''a'' []])"
    by (simp add: wf_config_def wf_category_def example_config_def example_category_def ast_category_new_def)
  from browse_visits_categories [OF this, of 3] show ?thesis
    by (simp add: example_config_def example_category_def ast_category_new_def)
qed

theorem inserted_variable_lost_witness:
  "\<exists>c1. ast_variable_insert (example_category 0 ''a'' [ast_variable_new ''x'' ''1'' []]) (ast_variable_new ''y'' ''2'' []) ''1'' = Some c1 \<and>
    vars c1 = vars (example_category 0 ''a'' [ast_variable_new ''x'' ''1'' []]) @ [ast_variable_new ''y'' ''2'' []] \<and>
    vars (ast_variable_append c1 [ast_variable_new ''z'' ''3'' []]) =
      vars (example_category 0 ''a'' [ast_variable_new ''x'' ''1'' []]) @ [ast_variable_new ''z'' ''3'' []]"
proof -
  have "scan_int_w 30 ''1'' = Some (int 1, [])" by code_simp
  then show ?thesis by (intro inserted_variable_lost) (simp_all add: example_category_def wf_category_def)
qed

theorem category_empty_empties_other_witness:
  "ast_category_empty (example_config [example_category 0 ''a'' [ast_variable_new ''x'' ''1'' []], example_category 1 ''b'' []]) ''b'' =
    (0, (example_config [example_category 0 ''a'' [ast_variable_new ''x'' ''1'' []], example_category 1 ''b'' []])
      \<lparr>cats := (example_category 0 ''a'' [ast_variable_new ''x'' ''1'' []])\<lparr>vars := [], vars_last := None\<rparr> # [example_category 1 ''b'' []]\<rparr>)"
  by (rule category_empty_empties_other) (simp add: example_config_def, code_simp)

end
