(* ===== verification/Config_Parse.thy ===== *)
theory Config_Parse
  imports Ast_Config "HOL-Library.Sublist"
begin

text \<open>
  Reading configuration files, \<open>main/config.c\<close>: the removal of comments, the three kinds of lines, and the
  files with the files they include. What the loader uses of the file system is a parameter. \<open>None\<close> is
  undefined behaviour or a loop that never ends. Modelled is a load without comments, with the option
  \<open>execincludes\<close> off, from files and not from a database; the cache of file times has no
  influence on it.
\<close>

section \<open>Strings\<close>

definition ast_skip_blanks :: "string \<Rightarrow> string" where
  "ast_skip_blanks s = dropWhile (\<lambda>c. uchar c < 33) s"

definition ast_trim_blanks :: "string \<Rightarrow> string" where
  "ast_trim_blanks s = rev (dropWhile (\<lambda>c. uchar c < 33) (rev s))"

definition ast_strip :: "string \<Rightarrow> string" where
  "ast_strip s = ast_trim_blanks (ast_skip_blanks s)"

text \<open>\<open>strchr\<close>: what is in front of the first \<open>c\<close> and what is behind it.\<close>

definition split_at :: "char \<Rightarrow> string \<Rightarrow> (string \<times> string) option" where
  "split_at c s = (case dropWhile (\<lambda>d. d \<noteq> c) s of [] \<Rightarrow> None | _ # r \<Rightarrow> Some (takeWhile (\<lambda>d. d \<noteq> c) s, r))"

section \<open>Lines and comments\<close>

abbreviation newline :: char where "newline \<equiv> CHR 10"

abbreviation backslash :: char where "backslash \<equiv> CHR 92"

definition MAX_NESTED_COMMENTS :: int where "MAX_NESTED_COMMENTS = 128"

definition BUF_SIZE :: nat where "BUF_SIZE = 8192"

text \<open>\<open>fgets\<close> on a text that is not empty.\<close>

definition fgets :: "string \<Rightarrow> string \<times> string" where
  "fgets s =
     (let n = min (BUF_SIZE - 1) (case split_at newline s of None \<Rightarrow> length s | Some (l, r) \<Rightarrow> Suc (length l))
      in (take n s, drop n s))"

lemma fgets_shorter:
  assumes "(buf, r) = fgets s" "s \<noteq> []"
  shows "length r < length s"
proof -
  have "r = snd (fgets s)" using assms(1) by (metis snd_conv)
  then show ?thesis using assms(2) by (cases "split_at newline s") (auto simp: fgets_def BUF_SIZE_def Let_def min_def)
qed

function skip_long :: "string \<Rightarrow> string" where
  "skip_long s = (if s = [] then [] else case fgets s of (buf, r) \<Rightarrow> if length buf \<noteq> BUF_SIZE - 1 then r else skip_long r)"
  by auto
termination by (relation "measure length") (simp_all add: fgets_shorter)

declare skip_long.simps [simp del]

lemma skip_long_length: "length (skip_long s) \<le> length s"
proof (induction s rule: skip_long.induct)
  case (1 s)
  obtain buf r where f: "(buf, r) = fgets s" by (metis surj_pair)
  show ?case
  proof (cases "s = []")
    case False
    with fgets_shorter [OF f] 1 [OF False f] have "length r < length s" "length buf = BUF_SIZE - 1 \<longrightarrow> length (skip_long r) \<le> length r" by auto
    then show ?thesis by (subst skip_long.simps) (auto simp: f [symmetric])
  qed (simp add: skip_long.simps)
qed

text \<open>The lines of a text in the order of their numbers; one that does not fit the buffer is skipped.\<close>

function read_lines :: "string \<Rightarrow> string option list" where
  "read_lines s =
     (if s = [] then []
      else case fgets s of
          (buf, r) \<Rightarrow> if length buf = BUF_SIZE - 1 then None # read_lines (skip_long r) else Some buf # read_lines r)"
  by auto
termination by (relation "measure length") (simp_all add: fgets_shorter le_less_trans [OF skip_long_length])

declare read_lines.simps [simp del]

text \<open>
  At the end of a file there may be one more read, which fails and counts as a line: unless the end was met while
  the last piece was read, or while the rest of a long line was skipped.
\<close>

function fgets_all :: "string \<Rightarrow> string list" where
  "fgets_all s = (if s = [] then [] else case fgets s of (buf, r) \<Rightarrow> buf # fgets_all r)"
  by auto
termination by (relation "measure length") (simp_all add: fgets_shorter)

declare fgets_all.simps [simp del]

definition failed_read :: "string \<Rightarrow> int" where
  "failed_read s =
     (case rev (fgets_all s) of [] \<Rightarrow> 1 | buf # _ \<Rightarrow> if last buf = newline \<and> length buf \<noteq> BUF_SIZE - 1 then 1 else 0)"

text \<open>
  One line. \<open>text\<close> is what is left of it to process, \<open>NULL\<close> as long as all is comment; \<open>joined\<close> tells that
  the text goes on with the part that is still to be searched. A nesting that is too deep is only logged.
\<close>

partial_function (option) comment_loop :: "int \<Rightarrow> string option \<Rightarrow> bool \<Rightarrow> string \<Rightarrow> (int \<times> string option) option" where
  "comment_loop comment text joined new_buf =
     (let flow = (\<lambda>x. if joined then map_option (\<lambda>t. t @ x) text else text)
      in case split_at CHR '';'' new_buf of
           None \<Rightarrow> Some (comment, flow new_buf)
         | Some (front, behind) \<Rightarrow>
             if front \<noteq> [] \<and> last front = backslash
             then comment_loop comment (flow (butlast front @ '';'')) joined behind
             else if take 2 behind = ''--'' \<and> take 1 (drop 2 behind) \<noteq> ''-''
             then if comment < MAX_NESTED_COMMENTS
                  then if comment < 0 then None else comment_loop (comment + 1) (flow front) False (drop 2 behind)
                  else comment_loop comment text joined new_buf
             else if length front \<ge> 2 \<and> drop (length front - 2) front = ''--''
             then if comment - 1 = 0
                  then comment_loop 0 (Some (case text of None \<Rightarrow> [] | Some t \<Rightarrow> t)) True behind
                  else comment_loop (comment - 1) (flow (front @ '';'')) joined behind
             else if comment = 0 then Some (comment, flow front)
             else comment_loop comment (flow (front @ '';'')) joined behind)"

declare comment_loop.simps [code]

definition strip_comments :: "int \<Rightarrow> string \<Rightarrow> (int \<times> string option) option" where
  "strip_comments comment buf = comment_loop comment (if comment \<noteq> 0 then None else Some []) True buf"

section \<open>The file system and inclusions\<close>

record file_env =
  config_dir :: string
  expand :: "string \<Rightarrow> string list"
  read_file :: "string \<Rightarrow> string option"
  existing :: "string list"

definition decimal_digit :: "nat \<Rightarrow> char" where
  "decimal_digit n = char_of (48 + n)"

fun show_nat :: "nat \<Rightarrow> string" where
  "show_nat n = (if n < 10 then [decimal_digit n] else show_nat (n div 10) @ [decimal_digit (n mod 10)])"

declare show_nat.simps [simp del]

text \<open>
  The name under which a file that is included again would be saved, cut off to fit a buffer of 256 bytes. The number
  goes up until there is no file of that name; when all the names that are tried exist the loop does not end, and
  the result is \<open>None\<close>. The numbers are not bounded, which the code would only notice after \<open>2 ^ 31\<close> existing files.
\<close>

definition instance_name :: "string \<Rightarrow> nat \<Rightarrow> string" where
  "instance_name file n = take 255 (file @ ''~~'' @ show_nat n)"

partial_function (option) next_instance :: "file_env \<Rightarrow> string \<Rightarrow> nat \<Rightarrow> nat option" where
  "next_instance fe file n =
     (if instance_name file (Suc n) \<in> set (existing fe) then next_instance fe file (Suc n) else Some (Suc n))"

declare next_instance.simps [code]

definition ast_include_new :: "file_env \<Rightarrow> ast_config \<Rightarrow> string \<Rightarrow> string \<Rightarrow> int \<Rightarrow> (string \<times> ast_config) option" where
  "ast_include_new fe conf from_file file from_lineno =
     (case ast_include_find conf file of
        None \<Rightarrow>
          Some ([], conf\<lparr>config_includes := \<lparr>include_location_file = from_file, include_location_lineno = from_lineno,
                      included_file = file, inclusion_count = 0\<rparr> # config_includes conf\<rparr>)
      | Some inc \<Rightarrow>
          do {
            k \<leftarrow> next_instance fe file (inclusion_count inc);
            let others = takeWhile (\<lambda>x. included_file x \<noteq> file) (config_includes conf);
                rest = drop (Suc (length others)) (config_includes conf)
            in Some (instance_name file k,
                 conf\<lparr>config_includes := \<lparr>include_location_file = from_file, include_location_lineno = from_lineno,
                        included_file = instance_name file k, inclusion_count = 0\<rparr> # others @ inc\<lparr>inclusion_count := k\<rparr> # rest\<rparr>)
          })"

section \<open>A line\<close>

datatype load_status = LOADED | FILEMISSING | FILEINVALID

type_synonym loader = "string \<Rightarrow> ast_config \<Rightarrow> string \<Rightarrow> (load_status \<times> ast_config) option"

definition change_cat :: "nat \<Rightarrow> (ast_category \<Rightarrow> ast_category) \<Rightarrow> ast_config \<Rightarrow> ast_config" where
  "change_cat addr f cfg = cfg\<lparr>cats := map (\<lambda>c. if cat_addr c = addr then f c else c) (cats cfg)\<rparr>"

definition source_file :: "string \<Rightarrow> ast_config \<Rightarrow> string \<Rightarrow> string" where
  "source_file suggested cfg configfile = s_or (Some suggested) (if include_level cfg = 1 then [] else configfile)"

text \<open>
  The words in the parentheses of a header. The category is a new one, \<open>newcat\<close>, until \<open>+\<close> replaces it by the
  one of that name. The first component of the result tells whether there was no error. A category that
  inherits from itself copies its own variables behind themselves without end.
\<close>

type_synonym header_state = "ast_config \<times> ast_category option \<times> nat"

definition header_word :: "string \<Rightarrow> string \<Rightarrow> header_state \<Rightarrow> (bool \<times> header_state) option" where
  "header_word catname w = (\<lambda>(cfg, newcat, cat).
     if w = ''!'' then
       (case newcat of
          Some n \<Rightarrow> Some (True, cfg, Some (n\<lparr>ignored := True\<rparr>), cat)
        | None \<Rightarrow> Some (True, change_cat cat (\<lambda>c. c\<lparr>ignored := True\<rparr>) cfg, None, cat))
     else if w = ''+'' then
       (case category_get cfg (None, catname) True of
          None \<Rightarrow> Some (False, cfg, newcat, cat)
        | Some c \<Rightarrow>
            Some (True,
              (case newcat of None \<Rightarrow> cfg | Some n \<Rightarrow> change_cat (cat_addr c) (\<lambda>c. snd (move_variables n c)) cfg), None, cat_addr c))
     else
       (case category_get cfg (None, w) True of
          None \<Rightarrow> Some (False, cfg, newcat, cat)
        | Some base \<Rightarrow>
            (case newcat of
               Some n \<Rightarrow> Some (True, cfg, Some (inherit_category n base), cat)
             | None \<Rightarrow>
                 if cat_addr base = cat \<and> vars base \<noteq> [] then None
                 else Some (True, change_cat cat (\<lambda>c. inherit_category c base) cfg, None, cat))))"

fun header_words :: "string \<Rightarrow> string list \<Rightarrow> header_state \<Rightarrow> (bool \<times> header_state) option" where
  "header_words catname [] st = Some (True, st)"
| "header_words catname (w # ws) st =
     do {
       (ok, st1) \<leftarrow> header_word catname w st;
       if ok then header_words catname ws st1 else Some (False, st1)
     }"

lemma header_words_keep:
  assumes "header_words catname ws st = Some (ok, st1)" "P st"
    and "\<And>w st ok st1. header_word catname w st = Some (ok, st1) \<Longrightarrow> P st \<Longrightarrow> P st1"
  shows "P st1"
  using assms(1,2)
proof (induction ws arbitrary: st)
  case (Cons w ws)
  from Cons.prems(1) obtain ok2 st2 where h: "header_word catname w st = Some (ok2, st2)"
    and r: "(if ok2 then header_words catname ws st2 else Some (False, st2)) = Some (ok, st1)"
    by (auto split: bind_splits)
  from assms(3) [OF h Cons.prems(2)] r Cons.IH [of st2] show ?case by (auto split: if_splits)
qed simp

text \<open>A line gives the status, and the configuration with the category it is in.\<close>

type_synonym line_result = "int \<times> ast_config \<times> nat option"

definition process_header :: "ast_config \<Rightarrow> nat option \<Rightarrow> string \<Rightarrow> int \<Rightarrow> string \<Rightarrow> string \<Rightarrow> line_result option" where
  "process_header cfg cat buf lineno configfile suggested =
     (case split_at CHR '']'' buf of
        None \<Rightarrow> Some (-1, cfg, cat)
      | Some (catname, c) \<Rightarrow>
          let a = fresh_addr cfg;
              newcat = ast_category_new a catname (source_file suggested cfg configfile) lineno;
              cfg1 = cfg\<lparr>fresh_addr := Suc a\<rparr>
          in if take 1 c \<noteq> ''('' then Some (0, ast_category_append cfg1 newcat, Some a)
             else case split_at CHR '')'' (drop 1 c) of
                 None \<Rightarrow> Some (-1, cfg1, None)
               | Some (options, _) \<Rightarrow>
                   do {
                     (ok, cfg2, newcat2, cat2) \<leftarrow> header_words catname (strsep_all '','' options) (cfg1, Some newcat, a);
                     Some (if \<not> ok then (-1, cfg2, None)
                           else case newcat2 of
                               Some n \<Rightarrow> (0, ast_category_append cfg2 n, Some cat2)
                             | None \<Rightarrow> (0, cfg2, Some cat2))
                   })"

definition dequote :: "string \<Rightarrow> string" where
  "dequote c =
     (let q = (if hd c = CHR ''<'' then CHR ''>'' else hd c)
      in if hd c = CHR 34 \<or> hd c = CHR ''<'' then (if last c = q then butlast (tl c) else c) else c)"

definition process_directive :: "file_env \<Rightarrow> loader \<Rightarrow> ast_config \<Rightarrow> nat option \<Rightarrow> string \<Rightarrow> int \<Rightarrow> string \<Rightarrow> line_result option" where
  "process_directive fe load cfg cat buf lineno configfile =
     (let word = takeWhile (\<lambda>c. schar c > 32) buf;
          arg = ast_strip (drop (Suc (length word)) buf)
      in if \<not> strcase_eq word ''include'' \<or> arg = [] then Some (0, cfg, cat)
         else do {
             (real_name, cfg1) \<leftarrow> ast_include_new fe cfg (if include_level cfg = 1 then [] else configfile) (dequote arg) lineno;
             (st, cfg2) \<leftarrow> load (dequote arg) cfg1 real_name;
             Some (if st = FILEMISSING then -1 else 0, cfg2, cat)
           })"

definition new_variable :: "ast_config \<Rightarrow> nat \<Rightarrow> string \<Rightarrow> string \<Rightarrow> bool \<Rightarrow> int \<Rightarrow> string \<Rightarrow> string \<Rightarrow> ast_config" where
  "new_variable cfg cat name value object lineno configfile suggested =
     change_cat cat (\<lambda>c. ast_variable_append c
       [(ast_variable_new (ast_strip name) (ast_strip value) (source_file suggested cfg configfile))
          \<lparr>v_lineno := lineno, v_object := object, v_blanklines := 0\<rparr>]) cfg"

text \<open>The last variable of a name is the one to be extended; the first with its name and value is changed.\<close>

definition append_value :: "ast_config \<Rightarrow> nat \<Rightarrow> string \<Rightarrow> string \<Rightarrow> int \<Rightarrow> string \<Rightarrow> string \<Rightarrow> ast_config" where
  "append_value cfg cat name c lineno configfile suggested =
     (case find (\<lambda>v. v_name v = ast_strip name) (case cat_at cfg cat of None \<Rightarrow> [] | Some k \<Rightarrow> rev (vars k)) of
        None \<Rightarrow> new_variable cfg cat name c False lineno configfile suggested
      | Some replace \<Rightarrow>
          change_cat cat (\<lambda>k. snd (ast_variable_update k (v_name replace)
            (ast_skip_blanks (ast_trim_blanks (v_value replace @ c))) (v_value replace) False)) cfg)"

definition process_variable :: "ast_config \<Rightarrow> nat option \<Rightarrow> string \<Rightarrow> int \<Rightarrow> string \<Rightarrow> string \<Rightarrow> line_result" where
  "process_variable cfg cat buf lineno configfile suggested =
     (case cat of
        None \<Rightarrow> (-1, cfg, None)
      | Some k \<Rightarrow>
          (0, case split_at CHR ''='' buf of
                None \<Rightarrow> cfg
              | Some (name, c) \<Rightarrow>
                  if name \<noteq> [] \<and> last name = CHR ''+'' then append_value cfg k (butlast name) c lineno configfile suggested
                  else if take 1 c = ''>'' then new_variable cfg k name (drop 1 c) True lineno configfile suggested
                  else new_variable cfg k name c False lineno configfile suggested,
           Some k))"

definition process_text_line ::
  "file_env \<Rightarrow> loader \<Rightarrow> ast_config \<Rightarrow> nat option \<Rightarrow> string \<Rightarrow> int \<Rightarrow> string \<Rightarrow> string \<Rightarrow> line_result option" where
  "process_text_line fe load cfg cat buf lineno configfile suggested =
     (if hd buf = CHR ''['' then process_header cfg cat (tl buf) lineno configfile suggested
      else if hd buf = CHR ''#'' then process_directive fe load cfg cat (tl buf) lineno configfile
      else Some (process_variable cfg cat buf lineno configfile suggested))"

section \<open>Files\<close>

text \<open>What a load keeps from file to file.\<close>

record load_state =
  ls_cfg :: ast_config
  ls_cat :: "nat option"
  ls_comment :: int
  ls_lineno :: int

text \<open>The lines of a file; the first component tells whether there was an error.\<close>

fun load_lines :: "file_env \<Rightarrow> loader \<Rightarrow> string \<Rightarrow> string \<Rightarrow> string option list \<Rightarrow> load_state \<Rightarrow> (bool \<times> load_state) option" where
  "load_lines fe load fn suggested [] s = Some (True, s)"
| "load_lines fe load fn suggested (None # ls) s = load_lines fe load fn suggested ls (s\<lparr>ls_lineno := ls_lineno s + 1\<rparr>)"
| "load_lines fe load fn suggested (Some buf # ls) s =
     do {
       (comment, text) \<leftarrow> strip_comments (ls_comment s) buf;
       let s1 = s\<lparr>ls_lineno := ls_lineno s + 1, ls_comment := comment\<rparr>;
           buffer = (case text of None \<Rightarrow> [] | Some t \<Rightarrow> ast_strip t)
       in if buffer = [] then load_lines fe load fn suggested ls s1
          else do {
            (res, cfg, cat) \<leftarrow> process_text_line fe load (ls_cfg s1) (ls_cat s1) buffer (ls_lineno s1) fn suggested;
            let s2 = s1\<lparr>ls_cfg := cfg, ls_cat := cat\<rparr>
            in if res \<noteq> 0 then Some (False, s2) else load_lines fe load fn suggested ls s2
          }
     }"

text \<open>The files a name stands for, and how many of them were read.\<close>

fun load_files :: "file_env \<Rightarrow> loader \<Rightarrow> string \<Rightarrow> string list \<Rightarrow> nat \<Rightarrow> load_state \<Rightarrow> (load_status \<times> ast_config) option" where
  "load_files fe load suggested [] n s = Some (if n = 0 then FILEMISSING else LOADED, ls_cfg s)"
| "load_files fe load suggested (f # fs) n s =
     (case read_file fe (take 255 f) of
        None \<Rightarrow> load_files fe load suggested fs n s
      | Some content \<Rightarrow>
          do {
            (ok, s1) \<leftarrow> load_lines fe load (take 255 f) suggested (read_lines content) s;
            if ok then load_files fe load suggested fs (Suc n) (s1\<lparr>ls_lineno := ls_lineno s1 + failed_read content\<rparr>)
            else Some (FILEINVALID, ls_cfg s1)
          })"

definition config_file_name :: "file_env \<Rightarrow> string \<Rightarrow> string" where
  "config_file_name fe filename = take 255 (if take 1 filename = ''/'' then filename else config_dir fe @ ''/'' @ filename)"

definition config_text_file_load :: "file_env \<Rightarrow> loader \<Rightarrow> loader" where
  "config_text_file_load fe load filename cfg suggested =
     load_files fe load suggested (expand fe (config_file_name fe filename)) 0
       \<lparr>ls_cfg = cfg, ls_cat = cur_cat cfg, ls_comment = 0, ls_lineno = 0\<rparr>"

text \<open>The first argument bounds the depth of the inclusions; the level of inclusion already does, see below.\<close>

fun ast_config_internal_load :: "nat \<Rightarrow> file_env \<Rightarrow> loader" where
  "ast_config_internal_load 0 fe filename cfg suggested = None"
| "ast_config_internal_load (Suc d) fe filename cfg suggested =
     (if max_include_level cfg > 0 \<and> include_level cfg = max_include_level cfg + 1 then Some (FILEMISSING, cfg)
      else do {
        (st, cfg1) \<leftarrow> config_text_file_load fe (ast_config_internal_load d fe) filename (cfg\<lparr>include_level := include_level cfg + 1\<rparr>) suggested;
        Some (st, if st = FILEINVALID then cfg1 else cfg1\<lparr>include_level := include_level cfg1 - 1\<rparr>)
      })"

definition ast_config_load2 :: "file_env \<Rightarrow> string \<Rightarrow> (load_status \<times> ast_config option) option" where
  "ast_config_load2 fe filename =
     map_option (\<lambda>(st, cfg). (st, if st = LOADED then Some cfg else None)) (ast_config_internal_load 12 fe filename ast_config_new [])"

section \<open>What is left of a line\<close>

lemma split_at_None: "split_at c s = None \<longleftrightarrow> c \<notin> set s"
proof -
  have "split_at c s = None \<longleftrightarrow> dropWhile (\<lambda>d. d \<noteq> c) s = []" by (cases "dropWhile (\<lambda>d. d \<noteq> c) s") (simp_all add: split_at_def del: dropWhile_eq_Nil_conv)
  then show ?thesis by (auto simp: dropWhile_eq_Nil_conv)
qed

lemma split_at_Some: "split_at c s = Some (a, b) \<longleftrightarrow> s = a @ c # b \<and> c \<notin> set a"
proof
  assume "split_at c s = Some (a, b)"
  then obtain x where d: "dropWhile (\<lambda>d. d \<noteq> c) s = x # b" and a: "a = takeWhile (\<lambda>d. d \<noteq> c) s"
    by (auto simp: split_at_def split: list.splits)
  have "x = c" using d hd_dropWhile [of "\<lambda>d. d \<noteq> c" s] by simp
  with d a takeWhile_dropWhile_id [of "\<lambda>d. d \<noteq> c" s] set_takeWhileD [of c "\<lambda>d. d \<noteq> c" s]
  show "s = a @ c # b \<and> c \<notin> set a" by auto
next
  assume "s = a @ c # b \<and> c \<notin> set a"
  then have "dropWhile (\<lambda>d. d \<noteq> c) s = c # b" "takeWhile (\<lambda>d. d \<noteq> c) s = a"
    by (simp_all, subst dropWhile_append2, auto, subst takeWhile_append2, auto)
  then show "split_at c s = Some (a, b)" by (simp add: split_at_def)
qed

lemma split_at_front: "c \<notin> set a \<Longrightarrow> split_at c (a @ c # b) = Some (a, b)"
  by (simp add: split_at_Some)

text \<open>The meaning of a line without block comments: the text up to the first semicolon that is not escaped.\<close>

fun visible :: "string \<Rightarrow> string" where
  "visible [] = []"
| "visible (c # s) =
     (if c = CHR '';'' then []
      else if c = backslash \<and> take 1 s = '';'' then CHR '';'' # visible (tl s)
      else c # visible s)"

lemma visible_plain: "CHR '';'' \<notin> set a \<Longrightarrow> visible a = a"
proof (induction a)
  case (Cons c a)
  then have "take 1 a \<noteq> '';''" by (cases a) auto
  with Cons show ?case by auto
qed simp

lemma visible_comment: "CHR '';'' \<notin> set a \<Longrightarrow> a = [] \<or> last a \<noteq> backslash \<Longrightarrow> visible (a @ CHR '';'' # b) = a"
proof (induction a)
  case (Cons c a)
  then have "c = backslash \<longrightarrow> take 1 (a @ CHR '';'' # b) \<noteq> '';''" by (cases a) auto
  with Cons show ?case by (cases "a = []") auto
qed simp

lemma visible_escape: "CHR '';'' \<notin> set a \<Longrightarrow> visible (a @ [backslash] @ CHR '';'' # b) = a @ CHR '';'' # visible b"
proof (induction a)
  case (Cons c a)
  then have "c = backslash \<longrightarrow> take 1 (a @ [backslash] @ CHR '';'' # b) \<noteq> '';''" by (cases a) auto
  with Cons show ?case by auto
qed simp

definition dashed :: "string \<Rightarrow> bool" where
  "dashed s \<longleftrightarrow> sublist ''--'' s"

lemma no_comment_marks:
  assumes "\<not> dashed (front @ CHR '';'' # behind)"
  shows "take 2 behind \<noteq> ''--''" "\<not> (length front \<ge> 2 \<and> drop (length front - 2) front = ''--'')" "\<not> dashed behind"
proof -
  show "take 2 behind \<noteq> ''--''"
  proof
    assume "take 2 behind = ''--''"
    then have "front @ CHR '';'' # behind = (front @ '';'') @ ''--'' @ drop 2 behind" by (metis append.assoc append_Cons append_Nil append_take_drop_id)
    with assms show False unfolding dashed_def sublist_def by blast
  qed
  show "\<not> (length front \<ge> 2 \<and> drop (length front - 2) front = ''--'')"
  proof
    assume "length front \<ge> 2 \<and> drop (length front - 2) front = ''--''"
    then have "front @ CHR '';'' # behind = take (length front - 2) front @ ''--'' @ (CHR '';'' # behind)" by (metis append.assoc append_take_drop_id)
    with assms show False unfolding dashed_def sublist_def by blast
  qed
  show "\<not> dashed behind"
  proof
    assume "dashed behind"
    then obtain a b where "behind = a @ ''--'' @ b" unfolding dashed_def sublist_def by blast
    then have "front @ CHR '';'' # behind = (front @ CHR '';'' # a) @ ''--'' @ b" by simp
    with assms show False unfolding dashed_def sublist_def by blast
  qed
qed

lemma loop_outside:
  "\<not> dashed s \<Longrightarrow> comment_loop 0 (Some t) True s = Some (0, Some (t @ visible s))"
proof (induction s arbitrary: t rule: length_induct)
  case (1 s)
  show ?case
  proof (cases "split_at CHR '';'' s")
    case None
    then have "visible s = s" by (simp add: split_at_None visible_plain)
    with None show ?thesis by (subst comment_loop.simps) (simp add: Let_def)
  next
    case (Some fb)
    obtain front behind where fb: "fb = (front, behind)" by (cases fb)
    with Some have s: "s = front @ CHR '';'' # behind" "CHR '';'' \<notin> set front" by (simp_all add: split_at_Some)
    note n = no_comment_marks [OF "1.prems" [unfolded s(1)]]
    show ?thesis
    proof (cases "front \<noteq> [] \<and> last front = backslash")
      case True
      then have f: "front = butlast front @ [backslash]" by (metis append_butlast_last_id)
      have "comment_loop 0 (Some (t @ butlast front @ '';'')) True behind = Some (0, Some ((t @ butlast front @ '';'') @ visible behind))"
        using "1.IH" s(1) n(3) by simp
      moreover have "visible s = butlast front @ CHR '';'' # visible behind"
        using visible_escape [of "butlast front" behind] f s by (metis append.assoc append_Cons append_Nil in_set_butlastD)
      ultimately show ?thesis using Some fb True by (subst comment_loop.simps) (simp add: Let_def)
    next
      case False
      then have "visible s = front" using visible_comment s by auto
      with Some fb False n(1,2) show ?thesis by (subst comment_loop.simps) (auto simp: Let_def)
    qed
  qed
qed

lemma loop_inside:
  "\<not> dashed s \<Longrightarrow> n \<noteq> 0 \<Longrightarrow> comment_loop n None j s = Some (n, None)"
proof (induction s rule: length_induct)
  case (1 s)
  show ?case
  proof (cases "split_at CHR '';'' s")
    case None
    then show ?thesis by (subst comment_loop.simps) (simp add: Let_def)
  next
    case (Some fb)
    obtain front behind where fb: "fb = (front, behind)" by (cases fb)
    with Some have s: "s = front @ CHR '';'' # behind" "CHR '';'' \<notin> set front" by (simp_all add: split_at_Some)
    note m = no_comment_marks [OF "1.prems"(1) [unfolded s(1)]]
    have "comment_loop n None j behind = Some (n, None)" using 1 s(1) m(3) by simp
    with Some fb m(1,2) "1.prems"(2) show ?thesis by (subst comment_loop.simps) (auto simp: Let_def)
  qed
qed

text \<open>
  C31: comments are removed as they should be: of a line without two dashes in a row what is left is the text
  in front of the first semicolon that is not escaped, with the escaped ones as plain semicolons; inside a
  block comment nothing is left.
\<close>

theorem comments_removed:
  assumes "\<not> dashed line"
  shows "strip_comments 0 line = Some (0, Some (visible line)) \<and> (n \<noteq> 0 \<longrightarrow> strip_comments n line = Some (n, None))"
  using loop_outside [OF assms, of "[]"] loop_inside [OF assms, of n True] by (simp add: strip_comments_def)

theorem comments_removed_witness:
  "strip_comments 0 (''a = b'' @ [backslash] @ '';c ; d'') = Some (0, Some ''a = b;c '') \<and>
    strip_comments 1 (''a = b'' @ [backslash] @ '';c ; d'') = Some (1, None)"
proof -
  have "\<not> dashed (''a = b'' @ [backslash] @ '';c ; d'')" by (simp add: dashed_def sublist_Cons_right)
  from comments_removed [OF this, of 1] show ?thesis by simp
qed

section \<open>Comments that go wrong\<close>

lemma loop_stuck:
  assumes "split_at CHR '';'' s = Some (front, behind)" "front = [] \<or> last front \<noteq> backslash"
    and "take 2 behind = ''--''" "take 1 (drop 2 behind) \<noteq> ''-''"
  shows "comment_loop MAX_NESTED_COMMENTS t j s = None"
proof (rule ccontr)
  assume "comment_loop MAX_NESTED_COMMENTS t j s \<noteq> None"
  then obtain y where y: "comment_loop MAX_NESTED_COMMENTS t j s = Some y" by blast
  have "MAX_NESTED_COMMENTS = MAX_NESTED_COMMENTS \<and> s = s \<longrightarrow> False"
  proof (rule comment_loop.raw_induct [of "\<lambda>c t' j' s' y. c = MAX_NESTED_COMMENTS \<and> s' = s \<longrightarrow> False", OF _ y])
    fix loop :: "int \<Rightarrow> string option \<Rightarrow> bool \<Rightarrow> string \<Rightarrow> (int \<times> string option) option" and c t' j' s' y'
    assume ih: "\<And>c t' j' s' y'. loop c t' j' s' = Some y' \<Longrightarrow> c = MAX_NESTED_COMMENTS \<and> s' = s \<longrightarrow> False"
    assume eq: "(let flow = (\<lambda>x. if j' then map_option (\<lambda>t. t @ x) t' else t')
      in case split_at CHR '';'' s' of
           None \<Rightarrow> Some (c, flow s')
         | Some (front, behind) \<Rightarrow>
             if front \<noteq> [] \<and> last front = backslash then loop c (flow (butlast front @ '';'')) j' behind
             else if take 2 behind = ''--'' \<and> take 1 (drop 2 behind) \<noteq> ''-''
             then if c < MAX_NESTED_COMMENTS then if c < 0 then None else loop (c + 1) (flow front) False (drop 2 behind)
                  else loop c t' j' s'
             else if length front \<ge> 2 \<and> drop (length front - 2) front = ''--''
             then if c - 1 = 0 then loop 0 (Some (case t' of None \<Rightarrow> [] | Some t \<Rightarrow> t)) True behind
                  else loop (c - 1) (flow (front @ '';'')) j' behind
             else if c = 0 then Some (c, flow front)
             else loop c (flow (front @ '';'')) j' behind) = Some y'"
    show "c = MAX_NESTED_COMMENTS \<and> s' = s \<longrightarrow> False"
    proof
      assume a: "c = MAX_NESTED_COMMENTS \<and> s' = s"
      with eq assms have "loop c t' j' s' = Some y'" by (auto simp: Let_def)
      from ih [OF this] a show False by blast
    qed
  qed
  then show False by simp
qed

lemma open_comment:
  assumes "0 \<le> n" "n < MAX_NESTED_COMMENTS"
  shows "\<exists>t. strip_comments n ('';--'' @ [newline]) = Some (n + 1, t) \<and> (t = None \<or> t = Some [])"
proof -
  have s: "split_at CHR '';'' ('';--'' @ [newline]) = Some ([], ''--'' @ [newline])" by (simp add: split_at_Some)
  have n: "split_at CHR '';'' [newline] = None" by (simp add: split_at_None)
  have "comment_loop (n + 1) u False [newline] = Some (n + 1, u)" for u by (subst comment_loop.simps) (simp add: n)
  with s assms show ?thesis unfolding strip_comments_def by (subst comment_loop.simps) (auto simp: Let_def)
qed

lemma nested_lines:
  assumes "int k + ls_comment s = MAX_NESTED_COMMENTS" "0 \<le> ls_comment s"
  shows "load_lines fe load fn suggested (replicate (Suc k) (Some ('';--'' @ [newline])) @ ls) s = None"
  using assms
proof (induction k arbitrary: s)
  case 0
  then have c: "ls_comment s = MAX_NESTED_COMMENTS" by simp
  have "strip_comments (ls_comment s) ('';--'' @ [newline]) = None"
    unfolding strip_comments_def c by (rule loop_stuck [where front = "[]" and behind = "''--'' @ [newline]"]) (simp_all add: split_at_Some)
  then show ?case by simp
next
  case (Suc k)
  from open_comment [of "ls_comment s"] Suc.prems obtain t where
    t: "strip_comments (ls_comment s) ('';--'' @ [newline]) = Some (ls_comment s + 1, t)" "t = None \<or> t = Some []" by auto
  let ?s = "s\<lparr>ls_lineno := ls_lineno s + 1, ls_comment := ls_comment s + 1\<rparr>"
  have "load_lines fe load fn suggested (replicate (Suc k) (Some ('';--'' @ [newline])) @ ls) ?s = None"
    by (rule Suc.IH) (use Suc.prems in simp_all)
  with t show ?case by (auto simp: Let_def ast_strip_def ast_skip_blanks_def ast_trim_blanks_def)
qed

text \<open>
  A file with more than 128 block comments inside each other never finishes loading: the limit is
  noticed, but the search for the next mark finds the same one again and again.
\<close>

theorem nested_comments_endless:
  assumes "ls_comment s = 0"
  shows "load_lines fe load fn suggested (replicate 129 (Some ('';--'' @ [newline])) @ ls) s = None"
  using nested_lines [of 128 s] assms by (simp add: MAX_NESTED_COMMENTS_def)

theorem nested_comments_endless_witness:
  "load_lines \<lparr>config_dir = ''/etc'', expand = (\<lambda>f. [f]), read_file = (\<lambda>f. None), existing = []\<rparr> (\<lambda>f cfg s. None) ''a'' []
     (replicate 129 (Some ('';--'' @ [newline])) @ []) \<lparr>ls_cfg = ast_config_new, ls_cat = None, ls_comment = 0, ls_lineno = 0\<rparr> = None"
  by (rule nested_comments_endless) simp

lemma stray_end:
  assumes "CHR '';'' \<notin> set front" "CHR '';'' \<notin> set behind" "take 2 behind \<noteq> ''--''"
  shows "strip_comments 0 (front @ ''--;'' @ behind) = Some (-1, Some (front @ ''--;'' @ behind))"
proof -
  have s: "split_at CHR '';'' (front @ ''--;'' @ behind) = Some (front @ ''--'', behind)"
    using assms(1) by (simp add: split_at_Some)
  have "split_at CHR '';'' behind = None" using assms(2) by (simp add: split_at_None)
  then have "comment_loop (-1) (Some t) True behind = Some (-1, Some (t @ behind))" for t by (subst comment_loop.simps) simp
  with s assms(3) show ?thesis unfolding strip_comments_def by (subst comment_loop.simps) (simp add: Let_def)
qed

lemma negative_ignores:
  assumes "ls_comment s = -1" "\<forall>b. Some b \<in> set ls \<longrightarrow> CHR '';'' \<notin> set b"
  shows "\<exists>t. load_lines fe load fn suggested ls s = Some (True, t) \<and> ls_cfg t = ls_cfg s \<and> ls_cat t = ls_cat s"
  using assms
proof (induction ls arbitrary: s)
  case (Cons l ls)
  show ?case
  proof (cases l)
    case None
    with Cons.IH [of "s\<lparr>ls_lineno := ls_lineno s + 1\<rparr>"] Cons.prems show ?thesis by auto
  next
    case (Some b)
    with Cons.prems(2) have "split_at CHR '';'' b = None" by (simp add: split_at_None)
    then have "strip_comments (ls_comment s) b = Some (-1, None)"
      unfolding strip_comments_def Cons.prems(1) by (subst comment_loop.simps) simp
    with Some Cons.IH [of "s\<lparr>ls_lineno := ls_lineno s + 1, ls_comment := -1\<rparr>"] Cons.prems(2) show ?thesis by auto
  qed
qed simp

text \<open>
  The end of a block comment where none is open silently drops the rest of the file: the number of open
  comments becomes -1, and every line that follows counts as comment.
\<close>

theorem stray_comment_end_drops_rest:
  assumes "ls_comment s = 0" "CHR '';'' \<notin> set front" "CHR '';'' \<notin> set behind" "take 2 behind \<noteq> ''--''"
    and "\<forall>b. Some b \<in> set ls \<longrightarrow> CHR '';'' \<notin> set b"
    and "load_lines fe load fn suggested [Some (front @ ''--;'' @ behind)] s = Some (True, t)"
  shows "\<exists>u. load_lines fe load fn suggested (Some (front @ ''--;'' @ behind) # ls) s = Some (True, u) \<and>
    ls_cfg u = ls_cfg t \<and> ls_cat u = ls_cat t"
proof -
  let ?l = "front @ ''--;'' @ behind" and ?s = "s\<lparr>ls_lineno := ls_lineno s + 1, ls_comment := -1\<rparr>"
  have st: "strip_comments (ls_comment s) ?l = Some (-1, Some ?l)" using stray_end [OF assms(2-4)] assms(1) by simp
  show ?thesis
  proof (cases "ast_strip ?l = []")
    case True
    with st assms(6) have "t = ?s" by simp
    with True st negative_ignores [of ?s ls] assms(5) show ?thesis by simp
  next
    case False
    from False st assms(6) obtain r cfg cat where
      p: "process_text_line fe load (ls_cfg s) (ls_cat s) (ast_strip ?l) (ls_lineno s + 1) fn suggested = Some (r, cfg, cat)"
      and r: "r = 0" and t: "t = ?s\<lparr>ls_cfg := cfg, ls_cat := cat\<rparr>"
      by (auto simp: Let_def split: bind_splits if_splits)
    with False st negative_ignores [of "?s\<lparr>ls_cfg := cfg, ls_cat := cat\<rparr>" ls] assms(5) show ?thesis by simp
  qed
qed

theorem stray_comment_end_drops_rest_witness:
  "\<exists>t u. load_lines \<lparr>config_dir = ''/etc'', expand = (\<lambda>f. [f]), read_file = (\<lambda>f. None), existing = []\<rparr> (\<lambda>f cfg s. None) ''a'' []
       [Some (''x = 1'' @ ''--;'' @ '' 2'')]
       \<lparr>ls_cfg = example_config [example_category 0 ''g'' []], ls_cat = Some 0, ls_comment = 0, ls_lineno = 0\<rparr> = Some (True, t) \<and>
     load_lines \<lparr>config_dir = ''/etc'', expand = (\<lambda>f. [f]), read_file = (\<lambda>f. None), existing = []\<rparr> (\<lambda>f cfg s. None) ''a'' []
       (Some (''x = 1'' @ ''--;'' @ '' 2'') # [Some ''y = 3''])
       \<lparr>ls_cfg = example_config [example_category 0 ''g'' []], ls_cat = Some 0, ls_comment = 0, ls_lineno = 0\<rparr> = Some (True, u) \<and>
     ls_cfg u = ls_cfg t \<and> ls_cat u = ls_cat t"
proof -
  let ?fe = "\<lparr>config_dir = ''/etc'', expand = (\<lambda>f. [f]), read_file = (\<lambda>f. None), existing = []\<rparr>"
  let ?s = "\<lparr>ls_cfg = example_config [example_category 0 ''g'' []], ls_cat = Some 0, ls_comment = 0, ls_lineno = 0\<rparr>"
  have st: "strip_comments 0 (''x = 1'' @ ''--;'' @ '' 2'') = Some (-1, Some (''x = 1'' @ ''--;'' @ '' 2''))" by (rule stray_end) simp_all
  have b: "ast_strip (''x = 1'' @ ''--;'' @ '' 2'') = ''x = 1--; 2''" by code_simp
  obtain t where t: "load_lines ?fe (\<lambda>f cfg s. None) ''a'' [] [Some (''x = 1'' @ ''--;'' @ '' 2'')] ?s = Some (True, t)"
    using st b by (simp add: process_text_line_def process_variable_def Let_def)
  have "\<exists>u. load_lines ?fe (\<lambda>f cfg s. None) ''a'' [] (Some (''x = 1'' @ ''--;'' @ '' 2'') # [Some ''y = 3'']) ?s = Some (True, u) \<and>
     ls_cfg u = ls_cfg t \<and> ls_cat u = ls_cat t"
    by (rule stray_comment_end_drops_rest [OF _ _ _ _ _ t]) simp_all
  with t show ?thesis by blast
qed

section \<open>What every load keeps\<close>

text \<open>
  A relation between the configuration before and after, which the lines and the inclusions have and which is
  reflexive and transitive, holds for every load.
\<close>

definition leave_level :: "load_status \<Rightarrow> ast_config \<Rightarrow> ast_config" where
  "leave_level st cfg = (if st = FILEINVALID then cfg else cfg\<lparr>include_level := include_level cfg - 1\<rparr>)"

definition level_reached :: "ast_config \<Rightarrow> bool" where
  "level_reached cfg \<longleftrightarrow> max_include_level cfg > 0 \<and> include_level cfg = max_include_level cfg + 1"

definition loader_keeps :: "(ast_config \<Rightarrow> ast_config \<Rightarrow> bool) \<Rightarrow> loader \<Rightarrow> bool" where
  "loader_keeps R load \<longleftrightarrow> (\<forall>f cfg sg st cfg1. load f cfg sg = Some (st, cfg1) \<longrightarrow> R cfg cfg1)"

locale load_relation =
  fixes R :: "ast_config \<Rightarrow> ast_config \<Rightarrow> bool"
  assumes R_refl: "R cfg cfg"
    and R_trans: "R a b \<Longrightarrow> R b c \<Longrightarrow> R a c"
    and R_header: "process_header cfg cat buf n fn sg = Some (res, cfg1, cat1) \<Longrightarrow> R cfg cfg1"
    and R_variable: "process_variable cfg cat buf n fn sg = (res, cfg1, cat1) \<Longrightarrow> R cfg cfg1"
    and R_include: "ast_include_new fe cfg from file n = Some (real, cfg1) \<Longrightarrow> R cfg cfg1"
    and R_level: "\<not> level_reached cfg \<Longrightarrow> R (cfg\<lparr>include_level := include_level cfg + 1\<rparr>) cfg1 \<Longrightarrow> R cfg (leave_level st cfg1)"
begin

lemma directive_keeps:
  assumes "loader_keeps R load" "process_directive fe load cfg cat buf n fn = Some (res, cfg1, cat1)"
  shows "R cfg cfg1"
proof -
  let ?word = "takeWhile (\<lambda>c. schar c > 32) buf"
  let ?arg = "ast_strip (drop (Suc (length ?word)) buf)"
  show ?thesis
  proof (cases "\<not> strcase_eq ?word ''include'' \<or> ?arg = []")
    case True
    with assms(2) R_refl show ?thesis by (simp add: process_directive_def Let_def)
  next
    case False
    from False assms(2) obtain real cfg2 st where
      i: "ast_include_new fe cfg (if include_level cfg = 1 then [] else fn) (dequote ?arg) n = Some (real, cfg2)"
      and "load (dequote ?arg) cfg2 real = Some (st, cfg1)"
      by (auto simp: process_directive_def Let_def split: bind_splits)
    with assms(1) have "R cfg2 cfg1" by (auto simp: loader_keeps_def)
    with R_include [OF i] show ?thesis by (rule R_trans)
  qed
qed

lemma line_keeps:
  assumes "loader_keeps R load" "process_text_line fe load cfg cat buf n fn sg = Some (res, cfg1, cat1)"
  shows "R cfg cfg1"
  using assms R_header R_variable directive_keeps [OF assms(1)] by (fastforce simp: process_text_line_def split: if_splits)

lemma lines_keep:
  assumes "loader_keeps R load" "load_lines fe load fn sg ls s = Some (ok, t)"
  shows "R (ls_cfg s) (ls_cfg t)"
  using assms(2)
proof (induction ls arbitrary: s)
  case Nil
  then show ?case using R_refl by simp
next
  case (Cons l ls)
  show ?case
  proof (cases l)
    case None
    with Cons show ?thesis by fastforce
  next
    case (Some buf)
    from Cons.prems Some obtain comment left where st: "strip_comments (ls_comment s) buf = Some (comment, left)"
      by (auto split: bind_splits)
    let ?s = "s\<lparr>ls_lineno := ls_lineno s + 1, ls_comment := comment\<rparr>"
    let ?b = "case left of None \<Rightarrow> [] | Some t \<Rightarrow> ast_strip t"
    show ?thesis
    proof (cases "?b = []")
      case True
      with Cons.prems Some st have "load_lines fe load fn sg ls ?s = Some (ok, t)" by (simp add: Let_def)
      from Cons.IH [OF this] show ?thesis by simp
    next
      case False
      with Cons.prems Some st obtain res cfg cat where
        p: "process_text_line fe load (ls_cfg ?s) (ls_cat ?s) ?b (ls_lineno ?s) fn sg = Some (res, cfg, cat)"
        and r: "(if res \<noteq> 0 then Some (False, ?s\<lparr>ls_cfg := cfg, ls_cat := cat\<rparr>)
          else load_lines fe load fn sg ls (?s\<lparr>ls_cfg := cfg, ls_cat := cat\<rparr>)) = Some (ok, t)"
        by (auto simp: Let_def split: bind_splits)
      have h: "R (ls_cfg s) cfg" using line_keeps [OF assms(1) p] by simp
      show ?thesis
      proof (cases "res = 0")
        case True
        with r Cons.IH [of "?s\<lparr>ls_cfg := cfg, ls_cat := cat\<rparr>"] have "R cfg (ls_cfg t)" by simp
        with h show ?thesis by (rule R_trans)
      next
        case False
        with r h show ?thesis by auto
      qed
    qed
  qed
qed

lemma files_keep:
  assumes "loader_keeps R load" "load_files fe load sg fs k s = Some (st, cfg)"
  shows "R (ls_cfg s) cfg"
  using assms(2)
proof (induction fs arbitrary: k s)
  case Nil
  then show ?case using R_refl by simp
next
  case (Cons f fs)
  show ?case
  proof (cases "read_file fe (take 255 f)")
    case None
    with Cons show ?thesis by simp
  next
    case (Some content)
    with Cons.prems obtain ok s1 where l: "load_lines fe load (take 255 f) sg (read_lines content) s = Some (ok, s1)"
      and r: "(if ok then load_files fe load sg fs (Suc k) (s1\<lparr>ls_lineno := ls_lineno s1 + failed_read content\<rparr>)
        else Some (FILEINVALID, ls_cfg s1)) = Some (st, cfg)"
      by (auto split: bind_splits)
    have h: "R (ls_cfg s) (ls_cfg s1)" by (rule lines_keep [OF assms(1) l])
    show ?thesis
    proof (cases ok)
      case True
      with r have "load_files fe load sg fs (Suc k) (s1\<lparr>ls_lineno := ls_lineno s1 + failed_read content\<rparr>) = Some (st, cfg)" by simp
      from Cons.IH [OF this] have "R (ls_cfg s1) cfg" by simp
      with h show ?thesis by (rule R_trans)
    next
      case False
      with r h show ?thesis by simp
    qed
  qed
qed

lemma load_keeps: "loader_keeps R (ast_config_internal_load d fe)"
proof (induction d)
  case 0
  then show ?case by (simp add: loader_keeps_def)
next
  case (Suc d)
  have "R cfg cfg1" if l: "ast_config_internal_load (Suc d) fe f cfg sg = Some (st, cfg1)" for f cfg sg st cfg1
  proof (cases "level_reached cfg")
    case True
    with l R_refl show ?thesis by (simp add: level_reached_def)
  next
    case False
    with l obtain st2 cfg2 where c: "config_text_file_load fe (ast_config_internal_load d fe) f (cfg\<lparr>include_level := include_level cfg + 1\<rparr>) sg = Some (st2, cfg2)"
      and e: "cfg1 = leave_level st2 cfg2"
      by (auto simp: level_reached_def leave_level_def split: bind_splits if_splits)
    from files_keep [OF Suc c [unfolded config_text_file_load_def]]
    have "R (cfg\<lparr>include_level := include_level cfg + 1\<rparr>) cfg2" by simp
    from R_level [OF False this] e show ?thesis by simp
  qed
  then show ?case by (auto simp: loader_keeps_def)
qed

end

end
