(* ===== verification/Config_Load.thy ===== *)
theory Config_Load
  imports Config_Parse
begin

text \<open>
  What loading a configuration guarantees: it ends however the files include each other, and what it builds is
  well-formed. Both rest on \<open>load_relation\<close>, interpreted on the level of inclusion and on well-formedness.
\<close>

section \<open>The level of inclusion\<close>

definition level_rel :: "ast_config \<Rightarrow> ast_config \<Rightarrow> bool" where
  "level_rel a b \<longleftrightarrow> max_include_level b = max_include_level a \<and> include_level a \<le> include_level b \<and>
     (0 < max_include_level a \<and> include_level a \<le> max_include_level a + 1 \<longrightarrow> include_level b \<le> max_include_level a + 1)"

lemma change_cat_level [simp]:
  "include_level (change_cat a f cfg) = include_level cfg" "max_include_level (change_cat a f cfg) = max_include_level cfg"
  "fresh_addr (change_cat a f cfg) = fresh_addr cfg" "cats_last (change_cat a f cfg) = cats_last cfg"
  by (simp_all add: change_cat_def)

lemma category_append_level [simp]:
  "include_level (ast_category_append cfg c) = include_level cfg" "max_include_level (ast_category_append cfg c) = max_include_level cfg"
  by (simp_all add: ast_category_append_def Let_def)

lemma header_word_level:
  assumes "header_word name w st = Some (ok, st1)" "include_level (fst st) = L \<and> max_include_level (fst st) = M"
  shows "include_level (fst st1) = L \<and> max_include_level (fst st1) = M"
  using assms by (cases st) (auto simp: header_word_def split: if_splits option.splits)

lemma header_words_level:
  assumes "header_words name ws st = Some (ok, st1)"
  shows "include_level (fst st1) = include_level (fst st) \<and> max_include_level (fst st1) = max_include_level (fst st)"
  by (rule header_words_keep [OF assms, where P = "\<lambda>s. include_level (fst s) = include_level (fst st) \<and> max_include_level (fst s) = max_include_level (fst st)"])
    (auto dest: header_word_level)

lemma header_level:
  assumes "process_header cfg cat buf n fn sg = Some (res, cfg1, cat1)"
  shows "include_level cfg1 = include_level cfg \<and> max_include_level cfg1 = max_include_level cfg"
  using assms
  by (auto simp: process_header_def Let_def split: option.splits if_splits bind_splits prod.splits dest!: header_words_level)

lemma variable_level:
  assumes "process_variable cfg cat buf n fn sg = (res, cfg1, cat1)"
  shows "include_level cfg1 = include_level cfg \<and> max_include_level cfg1 = max_include_level cfg"
  using assms by (auto simp: process_variable_def append_value_def new_variable_def split: option.splits if_splits prod.splits)

lemma include_level_kept:
  assumes "ast_include_new fe cfg from file n = Some (real, cfg1)"
  shows "include_level cfg1 = include_level cfg \<and> max_include_level cfg1 = max_include_level cfg"
  using assms by (auto simp: ast_include_new_def Let_def split: option.splits bind_splits)

interpretation levels: load_relation level_rel
proof
  fix cfg cfg1 :: ast_config and st
  assume "\<not> level_reached cfg" "level_rel (cfg\<lparr>include_level := include_level cfg + 1\<rparr>) cfg1"
  then show "level_rel cfg (leave_level st cfg1)" by (auto simp: level_rel_def level_reached_def leave_level_def)
qed (auto simp: level_rel_def dest: header_level variable_level include_level_kept)

section \<open>Well-formedness\<close>

definition wf_load :: "ast_config \<Rightarrow> bool" where
  "wf_load cfg \<longleftrightarrow> wf_config cfg \<and> (\<forall>c \<in> set (cats cfg). cat_addr c < fresh_addr cfg)"

lemma change_cat_wf:
  assumes "wf_load cfg" "\<And>c. wf_category c \<Longrightarrow> wf_category (f c)" "\<And>c. cat_addr (f c) = cat_addr c"
  shows "wf_load (change_cat a f cfg)"
proof -
  have "map cat_addr (cats (change_cat a f cfg)) = map cat_addr (cats cfg)" using assms(3) by (simp add: change_cat_def)
  moreover have "last_pos (cats (change_cat a f cfg)) = last_pos (cats cfg)" by (simp add: change_cat_def last_pos_def)
  moreover have "\<forall>c \<in> set (cats (change_cat a f cfg)). wf_category c \<and> cat_addr c < fresh_addr cfg"
    using assms by (auto simp: change_cat_def wf_load_def wf_config_def)
  ultimately show ?thesis using assms(1) by (simp add: wf_load_def wf_config_def)
qed

lemma cat_addr_append [simp]: "cat_addr (ast_variable_append c vs) = cat_addr c"
  by (simp add: ast_variable_append_def Let_def)

lemma cat_addr_inherit [simp]: "cat_addr (inherit_category c base) = cat_addr c"
proof -
  have "cat_addr (fold (\<lambda>v c. ast_variable_append c [variable_clone v]) vs c) = cat_addr c" for vs c
    by (induction vs arbitrary: c) simp_all
  then show ?thesis by (simp add: inherit_category_def)
qed

lemma category_append_wf:
  assumes "wf_load cfg" "wf_category c" "cat_addr c < fresh_addr cfg" "cat_addr c \<notin> cat_addr ` set (cats cfg)"
  shows "wf_load (ast_category_append cfg c)"
proof -
  have l: "append_at (cats_last cfg) (cats cfg) [c\<lparr>cat_level := include_level cfg\<rparr>] = cats cfg @ [c\<lparr>cat_level := include_level cfg\<rparr>]"
    using assms(1) by (simp add: wf_load_def wf_config_def append_at_last)
  show ?thesis using assms unfolding ast_category_append_def Let_def l wf_load_def wf_config_def
    by (auto simp: wf_category_def)
qed

text \<open>While the words of a header are read the new category has an address of its own.\<close>

definition wf_header :: "nat \<Rightarrow> header_state \<Rightarrow> bool" where
  "wf_header a = (\<lambda>(cfg, newcat, cat).
     wf_load cfg \<and> a < fresh_addr cfg \<and> a \<notin> cat_addr ` set (cats cfg) \<and>
     (\<forall>n. newcat = Some n \<longrightarrow> wf_category n \<and> cat_addr n = a))"

lemma change_cat_addrs:
  assumes "\<And>c. cat_addr (f c) = cat_addr c"
  shows "cat_addr ` set (cats (change_cat a f cfg)) = cat_addr ` set (cats cfg)"
proof -
  have "map cat_addr (cats (change_cat a f cfg)) = map cat_addr (cats cfg)" using assms by (simp add: change_cat_def)
  from arg_cong [OF this, of set] show ?thesis by simp
qed

lemma header_word_wf:
  assumes "header_word name w st = Some (ok, st1)" "wf_header a st"
  shows "wf_header a st1"
proof -
  obtain cfg newcat cat where st: "st = (cfg, newcat, cat)" by (cases st)
  have wf: "wf_load cfg" using assms(2) st by (simp add: wf_header_def)
  have k: "wf_header a (change_cat b f cfg, None, c)"
    if "\<And>c. wf_category c \<Longrightarrow> wf_category (f c)" "\<And>c. cat_addr (f c) = cat_addr c" for b c f
    using assms(2) st change_cat_wf [OF wf that(1,2)] change_cat_addrs [OF that(2)] by (simp add: wf_header_def)
  have i: "wf_header a (change_cat b (\<lambda>c. c\<lparr>ignored := True\<rparr>) cfg, None, c)" for b c by (rule k) (simp_all add: wf_category_def)
  have v: "wf_header a (change_cat b (\<lambda>c. ast_variable_append c vs) cfg, None, c)" for b c vs by (rule k) (simp_all add: append_exact(1))
  have h: "wf_header a (change_cat b (\<lambda>c. inherit_category c base) cfg, None, c)" for b c base by (rule k) (simp_all add: inherit_exact(1))
  have n: "wf_header a (cfg, None, c)" for c using assms(2) st by (simp add: wf_header_def)
  have m: "wf_header a (cfg, Some (x\<lparr>ignored := True\<rparr>), c)" "wf_header a (cfg, Some (inherit_category x base), c)" if "newcat = Some x" for x base c
    using assms(2) st that inherit_exact(1) by (auto simp: wf_header_def wf_category_def)
  show ?thesis using assms st by (auto simp: header_word_def move_variables_def i v h n m split: if_splits option.splits)
qed

lemma header_wf:
  assumes "process_header cfg cat buf n fn sg = Some (res, cfg1, cat1)" "wf_load cfg"
  shows "wf_load cfg1"
proof (cases "split_at CHR '']'' buf")
  case None
  with assms show ?thesis by (simp add: process_header_def)
next
  case (Some p)
  obtain catname c where p: "p = (catname, c)" by (cases p)
  let ?a = "fresh_addr cfg" and ?cfg = "cfg\<lparr>fresh_addr := Suc (fresh_addr cfg)\<rparr>"
  let ?n = "ast_category_new ?a catname (source_file sg cfg fn) n"
  have w: "wf_load ?cfg" "?a < fresh_addr ?cfg" "?a \<notin> cat_addr ` set (cats ?cfg)" "wf_category ?n" "cat_addr ?n = ?a"
    using assms(2) by (auto simp: wf_load_def wf_config_def wf_category_def ast_category_new_def last_pos_def less_Suc_eq)
  then have h: "wf_header ?a (?cfg, Some ?n, ?a)" by (simp add: wf_header_def)
  show ?thesis
  proof (cases "take 1 c \<noteq> ''(''")
    case True
    with assms(1) Some p have "cfg1 = ast_category_append ?cfg ?n" by (simp add: process_header_def Let_def)
    with category_append_wf [OF w(1,4)] w show ?thesis by simp
  next
    case False
    show ?thesis
    proof (cases "split_at CHR '')'' (drop 1 c)")
      case None
      with assms(1) Some p False w(1) show ?thesis by (simp add: process_header_def Let_def)
    next
      case (Some q)
      obtain options rest where q: "q = (options, rest)" by (cases q)
      from assms(1) \<open>split_at CHR '']'' buf = Some p\<close> p False Some q
      obtain ok cfg2 n2 c2 where hw: "header_words catname (strsep_all '','' options) (?cfg, Some ?n, ?a) = Some (ok, cfg2, n2, c2)"
        and r: "(res, cfg1, cat1) = (if \<not> ok then (-1, cfg2, None)
          else case n2 of Some n \<Rightarrow> (0, ast_category_append cfg2 n, Some c2) | None \<Rightarrow> (0, cfg2, Some c2))"
        by (auto simp: process_header_def Let_def split: bind_splits)
      have "wf_header ?a (cfg2, n2, c2)" by (rule header_words_keep [where P = "wf_header ?a", OF hw h]) (rule header_word_wf)
      with r category_append_wf show ?thesis by (auto simp: wf_header_def split: if_splits option.splits)
    qed
  qed
qed

lemma variable_wf:
  assumes "process_variable cfg cat buf n fn sg = (res, cfg1, cat1)" "wf_load cfg"
  shows "wf_load cfg1"
proof -
  have u: "cat_addr (snd (ast_variable_update c name val match obj)) = cat_addr c" for c name val match obj
    by (auto simp: ast_variable_update_def Let_def split: list.split)
  have nv: "wf_load (new_variable cfg k name val obj n fn sg)" for k name val obj
    unfolding new_variable_def by (rule change_cat_wf [OF assms(2)]) (simp_all add: append_exact(1))
  moreover have "wf_load (append_value cfg k name c n fn sg)" for k name c
  proof (cases "find (\<lambda>v. v_name v = ast_strip name) (case cat_at cfg k of None \<Rightarrow> [] | Some k \<Rightarrow> rev (vars k))")
    case None
    with nv show ?thesis by (simp add: append_value_def)
  next
    case (Some v)
    then show ?thesis unfolding append_value_def by (simp, intro change_cat_wf [OF assms(2)]) (simp_all add: update_wf u)
  qed
  ultimately show ?thesis using assms by (auto simp: process_variable_def split: option.splits if_splits prod.splits)
qed

lemma include_wf:
  assumes "ast_include_new fe cfg from file n = Some (real, cfg1)" "wf_load cfg"
  shows "wf_load cfg1"
  using assms by (auto simp: ast_include_new_def Let_def wf_load_def wf_config_def split: option.splits bind_splits)

interpretation formed: load_relation "\<lambda>a b. wf_load a \<longrightarrow> wf_load b"
proof
  fix cfg cfg1 :: ast_config and st
  assume "wf_load (cfg\<lparr>include_level := include_level cfg + 1\<rparr>) \<longrightarrow> wf_load cfg1"
  then show "wf_load cfg \<longrightarrow> wf_load (leave_level st cfg1)" by (auto simp: wf_load_def wf_config_def leave_level_def)
qed (auto intro: header_wf variable_wf include_wf)

text \<open>
  C30: a configuration that was loaded is well-formed, whatever is in the files: the pointers to the last
  category and to the last variable of each category are right, and no address is used twice.
\<close>

theorem loaded_config_well_formed:
  assumes "ast_config_load2 fe file = Some (st, Some cfg)"
  shows "wf_config cfg"
proof -
  obtain st1 cfg1 where l: "ast_config_internal_load 12 fe file ast_config_new [] = Some (st1, cfg1)" "cfg = cfg1"
    using assms by (auto simp: ast_config_load2_def split: if_splits)
  moreover have "wf_load ast_config_new" by (simp add: wf_load_def wf_config_def ast_config_new_def last_pos_def)
  ultimately show ?thesis using formed.load_keeps [of 12 fe] by (auto simp: loader_keeps_def wf_load_def)
qed

theorem loaded_config_well_formed_witness:
  "\<exists>cfg. ast_config_load2 \<lparr>config_dir = ''/etc'', expand = (\<lambda>f. [f]), read_file = (\<lambda>f. Some ''[a]''), existing = []\<rparr> ''a'' = Some (LOADED, Some cfg) \<and>
    wf_config cfg"
proof -
  have "ast_config_load2 \<lparr>config_dir = ''/etc'', expand = (\<lambda>f. [f]), read_file = (\<lambda>f. Some ''[a]''), existing = []\<rparr> ''a'' =
    Some (LOADED, Some \<lparr>cats = [\<lparr>cat_addr = 0, cat_name = ''a'', ignored = False, cat_level = 1, cat_file = [], cat_lineno = 1,
        template_instances = [], vars = [], vars_last = None\<rparr>], cats_last = Some 0, cur_cat = Some 0, last_browse = None,
      include_level = 0, max_include_level = 10, config_includes = [], fresh_addr = 1\<rparr>)" by code_simp
  then show ?thesis using loaded_config_well_formed by blast
qed

section \<open>Loading ends\<close>

lemma fgets_parts: "fst (fgets s) @ snd (fgets s) = s"
  by (simp add: fgets_def Let_def)

lemma skip_long_suffix: "\<exists>p. s = p @ skip_long s"
proof (induction s rule: skip_long.induct)
  case (1 s)
  obtain buf r where f: "(buf, r) = fgets s" by (metis surj_pair)
  have s: "s = buf @ r" using fgets_parts [of s] f by (metis fst_conv snd_conv)
  show ?case
  proof (cases "s = []")
    case True
    then show ?thesis by (simp add: skip_long.simps)
  next
    case False
    then have k: "skip_long s = (if length buf \<noteq> BUF_SIZE - 1 then r else skip_long r)"
      by (subst skip_long.simps) (simp add: f [symmetric])
    show ?thesis
    proof (cases "length buf = BUF_SIZE - 1")
      case True
      with 1 [OF False f] obtain p where "r = p @ skip_long r" by blast
      with s have "s = (buf @ p) @ skip_long r" by simp
      with k True show ?thesis by auto
    next
      case False
      with k s show ?thesis by auto
    qed
  qed
qed

lemma read_lines_part: "Some b \<in> set (read_lines s) \<Longrightarrow> sublist b s"
proof (induction s rule: read_lines.induct)
  case (1 s)
  obtain buf r where f: "(buf, r) = fgets s" by (metis surj_pair)
  have s: "s = buf @ r" using fgets_parts [of s] f by (metis fst_conv snd_conv)
  have "s \<noteq> []" using "1.prems" by (auto simp: read_lines.simps)
  show ?case
  proof (cases "length buf = BUF_SIZE - 1")
    case True
    have "Some b \<in> set (read_lines (skip_long r))" using "1.prems" \<open>s \<noteq> []\<close> True
      by (subst (asm) read_lines.simps) (simp add: f [symmetric])
    from "1.IH"(1) [OF \<open>s \<noteq> []\<close> f True this] have "sublist b (skip_long r)" .
    moreover obtain p where "r = p @ skip_long r" using skip_long_suffix by blast
    then have "sublist (skip_long r) s" using s by (metis append.assoc sublist_append_leftI)
    ultimately show ?thesis by (rule sublist_order.order_trans)
  next
    case False
    have "b = buf \<or> Some b \<in> set (read_lines r)" using "1.prems" \<open>s \<noteq> []\<close> False
      by (subst (asm) read_lines.simps) (simp add: f [symmetric])
    moreover have "sublist buf s" "sublist r s" using s by auto
    moreover have "Some b \<in> set (read_lines r) \<Longrightarrow> sublist b r" using "1.IH"(2) [OF \<open>s \<noteq> []\<close> f False] .
    ultimately show ?thesis using sublist_order.order_trans by blast
  qed
qed

lemma set_visible: "set (visible s) \<subseteq> set s"
proof (induction s rule: visible.induct)
  case (2 c s)
  then show ?case by (cases s) auto
qed simp

lemma set_strip: "set (ast_strip s) \<subseteq> set s"
  by (auto simp: ast_strip_def ast_trim_blanks_def ast_skip_blanks_def dest!: set_dropWhileD)

lemma strsep_all_chars: "w \<in> set (strsep_all ds s) \<Longrightarrow> set w \<subseteq> set s"
proof (induction ds s rule: strsep_all.induct)
  case (1 ds s)
  obtain t r where e: "strsep ds s = (t, r)" by (cases "strsep ds s")
  have t: "set t \<subseteq> set s" using e by (auto simp: strsep_def dest: set_takeWhileD)
  have r: "set r' \<subseteq> set s" if "r = Some r'" for r'
    using e that by (auto simp: strsep_def split: list.splits intro: set_dropWhileD) (metis list.set_intros(2) set_dropWhileD)
  show ?case
  proof (cases r)
    case None
    with "1.prems" e t show ?thesis by (simp add: strsep_all.simps [of ds s])
  next
    case (Some r')
    with "1.prems" e have "w = t \<or> w \<in> set (strsep_all ds r')" by (simp add: strsep_all.simps [of ds s])
    with t r [OF Some] "1.IH" [OF e [symmetric] Some] show ?thesis by auto
  qed
qed

lemma header_words_return:
  assumes "''+'' \<notin> set ws"
  shows "header_words name ws (cfg, Some n, cat) \<noteq> None"
  using assms
proof (induction ws arbitrary: n)
  case (Cons w ws)
  have "\<exists>ok n1. header_word name w (cfg, Some n, cat) = Some (ok, cfg, Some n1, cat)"
    using Cons.prems by (auto simp: header_word_def split: option.split)
  then obtain ok n1 where "header_word name w (cfg, Some n, cat) = Some (ok, cfg, Some n1, cat)" by blast
  with Cons.IH [of n1] Cons.prems show ?case by (cases ok) simp_all
qed simp

lemma header_returns:
  assumes "CHR ''+'' \<notin> set buf"
  shows "process_header cfg cat buf n fn sg \<noteq> None"
proof (cases "split_at CHR '']'' buf")
  case (Some p)
  obtain catname c where p: "p = (catname, c)" by (cases p)
  with Some have c: "CHR ''+'' \<notin> set c" using assms by (auto simp: split_at_Some)
  show ?thesis
  proof (cases "split_at CHR '')'' (drop 1 c)")
    case None
    with Some p show ?thesis by (simp add: process_header_def Let_def)
  next
    case (Some q)
    obtain options rest where q: "q = (options, rest)" by (cases q)
    have "set options \<subseteq> set (drop 1 c)" using Some q by (auto simp: split_at_Some)
    then have "set options \<subseteq> set c" by (meson set_drop_subset subset_trans)
    with c strsep_all_chars [of "''+''" "'',''" options] have "''+'' \<notin> set (strsep_all '','' options)" by auto
    then obtain ok cfg2 n2 c2 where "header_words catname (strsep_all '','' options)
        (cfg\<lparr>fresh_addr := Suc (fresh_addr cfg)\<rparr>, Some (ast_category_new (fresh_addr cfg) catname (source_file sg cfg fn) n), fresh_addr cfg) =
        Some (ok, cfg2, n2, c2)"
      using header_words_return by (metis not_None_eq prod_cases4)
    with Some q \<open>split_at CHR '']'' buf = Some p\<close> p show ?thesis by (cases n2) (simp_all add: process_header_def Let_def)
  qed
qed (simp add: process_header_def)

section \<open>Files included again\<close>

lemma decimal_digit_inj: "a < 10 \<Longrightarrow> b < 10 \<Longrightarrow> decimal_digit a = decimal_digit b \<longleftrightarrow> a = b"
  by (auto simp: decimal_digit_def char_of_eq_iff take_bit_nat_eq_self)

lemma show_nat_not_empty [simp]: "show_nat n \<noteq> []"
  by (subst show_nat.simps) simp

lemma show_nat_not_empty2 [simp]: "[] \<noteq> show_nat n"
  using show_nat_not_empty [of n] by (metis)

lemma show_nat_inj: "show_nat m = show_nat n \<Longrightarrow> m = n"
proof (induction m arbitrary: n rule: show_nat.induct)
  case (1 m)
  show ?case
  proof (cases "m < 10"; cases "n < 10")
    assume "\<not> m < 10" "\<not> n < 10"
    with "1.prems" have "show_nat (m div 10) = show_nat (n div 10)" "decimal_digit (m mod 10) = decimal_digit (n mod 10)"
      by (simp_all add: show_nat.simps [of m] show_nat.simps [of n])
    with "1.IH" \<open>\<not> m < 10\<close> have "m div 10 = n div 10" "m mod 10 = n mod 10" by (simp_all add: decimal_digit_inj)
    then show ?thesis by (metis div_mult_mod_eq)
  qed (use "1.prems" in \<open>auto simp: show_nat.simps [of m] show_nat.simps [of n] decimal_digit_inj\<close>)
qed

text \<open>
  Two numbers give the same name only when it was cut off. So if no file has a name of 255 characters, there is a free
  name among as many numbers as there are files and one more.
\<close>

lemma instance_name_inj:
  assumes "instance_name file m = instance_name file n" "length (instance_name file m) \<noteq> 255"
  shows "m = n"
proof -
  have "length (instance_name file n) \<noteq> 255" using assms by simp
  then have "instance_name file m = file @ ''~~'' @ show_nat m" "instance_name file n = file @ ''~~'' @ show_nat n"
    using assms(2) by (auto simp: instance_name_def)
  with assms(1) show_nat_inj [of m n] show ?thesis by simp
qed

lemma free_instance:
  assumes "\<forall>f \<in> set (existing fe). length f \<noteq> 255"
  shows "\<exists>k \<in> {Suc n..Suc n + length (existing fe)}. instance_name file k \<notin> set (existing fe)"
proof (rule ccontr)
  let ?K = "{Suc n..Suc n + length (existing fe)}"
  assume "\<not> ?thesis"
  then have sub: "instance_name file ` ?K \<subseteq> set (existing fe)" by blast
  have "inj_on (instance_name file) ?K"
  proof (rule inj_onI)
    fix x y assume "x \<in> ?K" "instance_name file x = instance_name file y"
    moreover from this(1) sub assms have "length (instance_name file x) \<noteq> 255" by blast
    ultimately show "x = y" using instance_name_inj by blast
  qed
  then have "Suc (length (existing fe)) = card (instance_name file ` ?K)" by (simp add: card_image)
  also have "\<dots> \<le> card (set (existing fe))" by (rule card_mono [OF _ sub]) simp
  also have "\<dots> \<le> length (existing fe)" by (rule card_length)
  finally show False by simp
qed

lemma next_instance_finds:
  assumes "n < k" "instance_name file k \<notin> set (existing fe)"
  shows "\<exists>j. next_instance fe file n = Some j \<and> n < j \<and> j \<le> k"
  using assms
proof (induction "k - n" arbitrary: n)
  case (Suc d)
  show ?case
  proof (cases "instance_name file (Suc n) \<in> set (existing fe)")
    case True
    with Suc.prems have "Suc n < k" by (metis Suc_lessI)
    moreover have "d = k - Suc n" using Suc.hyps(2) by simp
    ultimately obtain j where "next_instance fe file (Suc n) = Some j" "Suc n < j" "j \<le> k"
      using Suc.hyps(1) [of "Suc n"] Suc.prems(2) by blast
    with True show ?thesis by (subst next_instance.simps) simp
  next
    case False
    with Suc.prems(1) show ?thesis by (subst next_instance.simps) simp
  qed
qed simp

lemma next_instance_free: "next_instance fe file n = Some k \<Longrightarrow> n < k \<and> instance_name file k \<notin> set (existing fe)"
proof (rule next_instance.raw_induct [of "\<lambda>fe file n k. n < k \<and> instance_name file k \<notin> set (existing fe)"])
  fix loop :: "file_env \<Rightarrow> string \<Rightarrow> nat \<Rightarrow> nat option" and fe f n k
  assume ih: "\<And>fe f n k. loop fe f n = Some k \<Longrightarrow> n < k \<and> instance_name f k \<notin> set (existing fe)"
    and body: "(if instance_name f (Suc n) \<in> set (existing fe) then loop fe f (Suc n) else Some (Suc n)) = Some k"
  show "n < k \<and> instance_name f k \<notin> set (existing fe)"
    using ih [of fe f "Suc n" k] body by (auto split: if_splits)
qed

definition names_free :: "file_env \<Rightarrow> bool" where
  "names_free fe \<longleftrightarrow> (\<forall>f \<in> set (existing fe). length f \<noteq> 255)"

lemma include_new_returns: "names_free fe \<Longrightarrow> \<exists>real cfg1. ast_include_new fe cfg from file n = Some (real, cfg1)"
proof (cases "ast_include_find cfg file")
  case (Some inc)
  assume "names_free fe"
  with free_instance [of fe "inclusion_count inc" "file"] obtain k where "inclusion_count inc < k" "instance_name file k \<notin> set (existing fe)"
    by (auto simp: names_free_def Suc_le_eq)
  from next_instance_finds [OF this] Some show ?thesis by (auto simp: ast_include_new_def Let_def)
qed (simp add: ast_include_new_def)

text \<open>
  A file whose path has 255 characters and that is included twice: every name that is tried is the path itself, which
  exists, and the loop does not end.
\<close>

lemma long_name_endless:
  assumes "length file = 255" "file \<in> set (existing fe)" "ast_include_find cfg file \<noteq> None"
  shows "ast_include_new fe cfg from file n = None"
proof -
  have "instance_name file k = file" for k using assms(1) by (simp add: instance_name_def)
  with assms(2) next_instance_free [of fe "file"] have "next_instance fe file m = None" for m by (metis option.exhaust)
  with assms(3) show ?thesis by (auto simp: ast_include_new_def)
qed

section \<open>Every load returns\<close>

text \<open>Two loaders that both return the same for configurations at a level.\<close>

definition at_level :: "int \<Rightarrow> int \<Rightarrow> ast_config \<Rightarrow> bool" where
  "at_level m L cfg \<longleftrightarrow> 0 < m \<and> max_include_level cfg = m \<and> L \<le> include_level cfg \<and> include_level cfg \<le> m + 1"

definition same_loads :: "int \<Rightarrow> int \<Rightarrow> loader \<Rightarrow> loader \<Rightarrow> bool" where
  "same_loads m L load load' \<longleftrightarrow> (\<forall>f cfg sg. at_level m L cfg \<longrightarrow> load f cfg sg \<noteq> None \<and> load' f cfg sg = load f cfg sg)"

lemma at_level_kept: "level_rel a b \<Longrightarrow> at_level m L a \<Longrightarrow> at_level m L b"
  by (auto simp: at_level_def level_rel_def)

definition plain_text :: "string \<Rightarrow> bool" where
  "plain_text s \<longleftrightarrow> \<not> dashed s \<and> CHR ''+'' \<notin> set s"

lemma plain_part:
  assumes "sublist b c" "plain_text c"
  shows "plain_text b"
proof -
  obtain x y where c: "c = x @ b @ y" using assms(1) by (auto simp: sublist_def)
  have "sublist ''--'' b \<Longrightarrow> sublist ''--'' c" using assms(1) by (rule sublist_order.order_trans [rotated])
  with assms(2) c show ?thesis by (auto simp: plain_text_def dashed_def)
qed

lemma line_same:
  assumes "same_loads m L load load'" "at_level m L cfg" "CHR ''+'' \<notin> set buf" "names_free fe"
  shows "process_text_line fe load cfg cat buf n fn sg \<noteq> None \<and>
    process_text_line fe load' cfg cat buf n fn sg = process_text_line fe load cfg cat buf n fn sg"
proof -
  have h: "process_header cfg cat (tl buf) n fn sg \<noteq> None" by (rule header_returns) (use assms(3) in \<open>cases buf; auto\<close>)
  let ?word = "takeWhile (\<lambda>c. schar c > 32) (tl buf)"
  let ?arg = "ast_strip (drop (Suc (length ?word)) (tl buf))"
  obtain real cfg1 where i: "ast_include_new fe cfg (if include_level cfg = 1 then [] else fn) (dequote ?arg) n = Some (real, cfg1)"
    using include_new_returns [OF assms(4)] by blast
  have "at_level m L cfg1" using include_level_kept [OF i] assms(2) by (simp add: at_level_def)
  with assms(1) obtain st cfg2 where "load (dequote ?arg) cfg1 real = Some (st, cfg2)" "load' (dequote ?arg) cfg1 real = Some (st, cfg2)"
    unfolding same_loads_def by (metis not_None_eq surj_pair)
  with i have "process_directive fe load cfg cat (tl buf) n fn \<noteq> None \<and>
      process_directive fe load' cfg cat (tl buf) n fn = process_directive fe load cfg cat (tl buf) n fn"
    by (simp add: process_directive_def Let_def)
  with h show ?thesis by (cases "process_variable cfg cat buf n fn sg") (simp add: process_text_line_def)
qed

lemma lines_same:
  assumes "same_loads m L load load'" "loader_keeps level_rel load" "names_free fe" "\<forall>b. Some b \<in> set ls \<longrightarrow> plain_text b"
    and "ls_comment s = 0" "at_level m L (ls_cfg s)"
  shows "\<exists>ok t. load_lines fe load fn sg ls s = Some (ok, t) \<and> load_lines fe load' fn sg ls s = Some (ok, t) \<and> ls_comment t = 0"
  using assms(4-)
proof (induction ls arbitrary: s)
  case (Cons l ls)
  show ?case
  proof (cases l)
    case None
    with Cons.IH [of "s\<lparr>ls_lineno := ls_lineno s + 1\<rparr>"] Cons.prems show ?thesis by simp
  next
    case (Some b)
    let ?s = "s\<lparr>ls_lineno := ls_lineno s + 1, ls_comment := 0\<rparr>" and ?b = "ast_strip (visible b)"
    have p: "plain_text b" using Cons.prems(1) Some by simp
    then have st: "strip_comments (ls_comment s) b = Some (0, Some (visible b))"
      using loop_outside [of b "[]"] Cons.prems(2) by (simp add: plain_text_def strip_comments_def)
    have "CHR ''+'' \<notin> set ?b" using p set_strip [of "visible b"] set_visible [of b] by (auto simp: plain_text_def)
    from line_same [OF assms(1) Cons.prems(3) this assms(3)] obtain res cfg cat where
      l: "process_text_line fe load (ls_cfg s) (ls_cat s) ?b (ls_lineno s + 1) fn sg = Some (res, cfg, cat)"
        "process_text_line fe load' (ls_cfg s) (ls_cat s) ?b (ls_lineno s + 1) fn sg = Some (res, cfg, cat)"
      by (metis not_None_eq prod_cases3)
    have "at_level m L cfg" by (rule at_level_kept [OF levels.line_keeps [OF assms(2) l(1)] Cons.prems(3)])
    then show ?thesis
      using Some st l Cons.IH [of ?s] Cons.IH [of "?s\<lparr>ls_cfg := cfg, ls_cat := cat\<rparr>"] Cons.prems
      by (cases "?b = []"; cases "res = 0") (auto simp: Let_def)
  qed
qed auto

lemma files_same:
  assumes "same_loads m L load load'" "loader_keeps level_rel load" "names_free fe" "\<forall>f c. read_file fe f = Some c \<longrightarrow> plain_text c"
    and "ls_comment s = 0" "at_level m L (ls_cfg s)"
  shows "load_files fe load sg fs k s \<noteq> None \<and> load_files fe load' sg fs k s = load_files fe load sg fs k s"
  using assms(5-)
proof (induction fs arbitrary: k s)
  case (Cons f fs)
  show ?case
  proof (cases "read_file fe (take 255 f)")
    case None
    with Cons show ?thesis by simp
  next
    case (Some c)
    have "\<forall>b. Some b \<in> set (read_lines c) \<longrightarrow> plain_text b"
      using read_lines_part plain_part assms(4) Some by blast
    from lines_same [OF assms(1-3) this Cons.prems] obtain ok t where
      l: "load_lines fe load (take 255 f) sg (read_lines c) s = Some (ok, t)"
        "load_lines fe load' (take 255 f) sg (read_lines c) s = Some (ok, t)" and t: "ls_comment t = 0" by blast
    have "at_level m L (ls_cfg t)" by (rule at_level_kept [OF levels.lines_keep [OF assms(2) l(1)] Cons.prems(2)])
    with Some l t Cons.IH [of "t\<lparr>ls_lineno := ls_lineno t + failed_read c\<rparr>" "Suc k"] show ?thesis by (cases ok) simp_all
  qed
qed simp

lemma loads_same:
  assumes "names_free fe" "\<forall>f c. read_file fe f = Some c \<longrightarrow> plain_text c"
  shows "at_level m L cfg \<Longrightarrow> nat (m + 2 - L) \<le> d \<Longrightarrow>
    ast_config_internal_load d fe fname cfg sg \<noteq> None \<and>
    ast_config_internal_load (d + k) fe fname cfg sg = ast_config_internal_load d fe fname cfg sg"
proof (induction d arbitrary: L cfg fname sg)
  case 0
  then show ?case by (simp add: at_level_def)
next
  case (Suc d)
  show ?case
  proof (cases "level_reached cfg")
    case True
    then show ?thesis by (simp add: level_reached_def)
  next
    case False
    let ?cfg = "cfg\<lparr>include_level := include_level cfg + 1\<rparr>"
    have a: "at_level m (L + 1) ?cfg" using Suc.prems(1) False by (auto simp: at_level_def level_reached_def)
    have "same_loads m (L + 1) (ast_config_internal_load d fe) (ast_config_internal_load (d + k) fe)"
      unfolding same_loads_def using Suc.IH [of "L + 1"] Suc.prems(2) by auto
    from files_same [OF this levels.load_keeps assms, of "\<lparr>ls_cfg = ?cfg, ls_cat = cur_cat ?cfg, ls_comment = 0, ls_lineno = 0\<rparr>" sg
        "expand fe (config_file_name fe fname)" 0] a
    obtain st cfg1 where "config_text_file_load fe (ast_config_internal_load d fe) fname ?cfg sg = Some (st, cfg1)"
      "config_text_file_load fe (ast_config_internal_load (d + k) fe) fname ?cfg sg = Some (st, cfg1)"
      by (auto simp: config_text_file_load_def)
    with False show ?thesis by (auto simp: level_reached_def)
  qed
qed

text \<open>
  C29: loading ends, however the files include each other, when no file has two dashes in a row or a plus sign in its
  contents, and there is no file whose path has exactly 255 characters. A depth of twelve is enough, since the
  level of inclusion is limited to ten: more depth gives the same result. The conditions exclude the loads that do not
  end: comments nested too deep, a category that inherits from itself by way of \<open>(+,\<dots>)\<close>, and a file with
  a path of 255 characters that is included twice (\<open>long_name_endless\<close>).
\<close>

theorem loading_returns:
  assumes "names_free fe" "\<forall>f c. read_file fe f = Some c \<longrightarrow> plain_text c"
  shows "\<exists>r. \<forall>k. ast_config_internal_load (12 + k) fe fname ast_config_new [] = Some r"
proof -
  have a: "at_level 10 0 ast_config_new" by (simp add: at_level_def ast_config_new_def)
  have "ast_config_internal_load 12 fe fname ast_config_new [] \<noteq> None" using loads_same [OF assms a, of 12 fname "[]" 0] by simp
  then obtain r where "ast_config_internal_load 12 fe fname ast_config_new [] = Some r" by blast
  with loads_same [OF assms a, of 12 fname "[]"] show ?thesis by auto
qed

text \<open>A file that includes itself, which is included again under a new name each time; the first of these names is taken.\<close>

theorem loading_returns_witness:
  "\<exists>r. \<forall>k. ast_config_internal_load (12 + k)
     \<lparr>config_dir = ''/etc'', expand = (\<lambda>f. [f]), read_file = (\<lambda>f. Some ''#include a''), existing = [''a~~1'']\<rparr> ''a'' ast_config_new [] = Some r"
  by (rule loading_returns) (simp_all add: names_free_def plain_text_def dashed_def sublist_Cons_right)

end
