(* ===== verification/Config_Save.thy ===== *)
theory Config_Save
  imports Config_Load
begin

text \<open>
  Writing a configuration back to its files, \<open>main/config.c\<close>, for a configuration that was loaded without
  comments. The files are a map from names to contents; the pads the code keeps per file in a container are the
  map from names to line numbers. \<open>None\<close> is a use of freed memory. What is saved and loaded again is the same,
  under the conditions the theorem states, and the lack of escapes for semicolons is shown to lose data.
\<close>

section \<open>Operations\<close>

record save_state =
  sv_text :: "string \<Rightarrow> string"
  sv_line :: "string \<Rightarrow> int option"
  sv_output :: "nat list"

text \<open>What saving uses of the system: the directory, whether a file can be opened, and the date as \<open>ctime\<close> gives it.\<close>

record save_env =
  sv_dir :: string
  sv_writable :: "string \<Rightarrow> bool"
  sv_date :: string
  sv_generator :: string

definition gen_header :: "save_env \<Rightarrow> string \<Rightarrow> string \<Rightarrow> string" where
  "gen_header se configfile fn =
     '';!'' @ [newline] @ '';! Automatically generated configuration file'' @ [newline] @
     (if configfile \<noteq> fn then '';! Filename: '' @ configfile @ '' ('' @ fn @ '')'' @ [newline]
      else '';! Filename: '' @ configfile @ [newline]) @
     '';! Generator: '' @ sv_generator se @ [newline] @
     '';! Creation Date: '' @ take 255 (sv_date se) @ '';!'' @ [newline]"

definition absolute :: "save_env \<Rightarrow> string \<Rightarrow> string" where
  "absolute se f = take 4095 (if take 1 f = ''/'' then f else sv_dir se @ ''/'' @ f)"

definition set_fn :: "save_env \<Rightarrow> string \<Rightarrow> string \<Rightarrow> save_state \<Rightarrow> string \<times> save_state" where
  "set_fn se file configfile s =
     (let fn = absolute se (if file = [] then configfile else file)
      in (fn, case sv_line s fn of Some _ \<Rightarrow> s | None \<Rightarrow> s\<lparr>sv_line := (sv_line s)(fn := Some 1)\<rparr>))"

text \<open>The blank lines in front of an entry and the line the file is at then.\<close>

definition insert_leading_blank_lines :: "int \<Rightarrow> int \<Rightarrow> string \<times> int" where
  "insert_leading_blank_lines at lineno =
     (if lineno - at < 0 \<or> lineno = 0 then ([], at)
      else if lineno - at < 5 then (replicate (nat (lineno - at)) newline, lineno + 1)
      else ([newline], lineno + 1))"

definition include_line :: "ast_config_include \<Rightarrow> string" where
  "include_line incl = ''#include '' @ [CHR 34] @ included_file incl @ [CHR 34] @ [newline]"

definition due_includes :: "ast_config \<Rightarrow> string \<Rightarrow> int \<Rightarrow> save_state \<Rightarrow> nat list" where
  "due_includes cfg file lineno s =
     filter (\<lambda>i. include_location_file (config_includes cfg ! i) = file \<and> lineno > include_location_lineno (config_includes cfg ! i) \<and>
       i \<notin> set (sv_output s)) [0..<length (config_includes cfg)]"

text \<open>Adding an entry, a category or a variable, to its file: the includes in front of it, blank lines, and the entry.\<close>

definition save_entry :: "save_env \<Rightarrow> ast_config \<Rightarrow> string \<Rightarrow> string \<Rightarrow> int \<Rightarrow> string \<Rightarrow> save_state \<Rightarrow> bool \<times> save_state" where
  "save_entry se cfg configfile file lineno entry s =
     (let (fn, s1) = set_fn se file configfile s
      in if \<not> sv_writable se fn then (False, s1)
         else let due = due_includes cfg file lineno s1;
                  (blank, at) = insert_leading_blank_lines (the (sv_line s1 fn)) lineno
              in (True, s1\<lparr>sv_text := (sv_text s1)(fn := sv_text s1 fn @ concat (map (\<lambda>i. include_line (config_includes cfg ! i)) due) @ blank @ entry),
                           sv_line := (sv_line s1)(fn := Some at), sv_output := sv_output s1 @ due\<rparr>))"

fun join_names :: "string list \<Rightarrow> string" where
  "join_names [] = []"
| "join_names [n] = n"
| "join_names (n # ns) = n @ '','' @ join_names ns"

definition category_line :: "ast_category \<Rightarrow> string" where
  "category_line cat =
     ''['' @ cat_name cat @ '']'' @
     (if ignored cat \<or> template_instances cat \<noteq> []
      then ''('' @ (if ignored cat then ''!'' else []) @ (if ignored cat \<and> template_instances cat \<noteq> [] then '','' else []) @
           join_names (map fst (template_instances cat)) @ '')''
      else []) @ [newline]"

definition variable_line :: "ast_variable \<Rightarrow> string" where
  "variable_line var = v_name var @ '' '' @ (if v_object var then ''=>'' else ''='') @ '' '' @ v_value var @ [newline] @ replicate (nat (v_blanklines var)) newline"

definition inherited :: "ast_variable \<Rightarrow> ast_variable list \<Rightarrow> bool" where
  "inherited var base \<longleftrightarrow> (\<exists>v \<in> set base. strcase_eq (v_name var) (v_name v) \<and> v_value var = v_value v)"

text \<open>A variable that one of the templates has is not written. The templates must still be there.\<close>

fun template_has :: "ast_config \<Rightarrow> ast_variable \<Rightarrow> (string \<times> nat) list \<Rightarrow> bool option" where
  "template_has cfg var [] = Some False"
| "template_has cfg var ((n, a) # xs) =
     (case cat_at cfg a of None \<Rightarrow> None | Some inst \<Rightarrow> if inherited var (vars inst) then Some True else template_has cfg var xs)"

fun save_vars :: "save_env \<Rightarrow> ast_config \<Rightarrow> string \<Rightarrow> (string \<times> nat) list \<Rightarrow> ast_variable list \<Rightarrow> save_state \<Rightarrow> (bool \<times> save_state) option" where
  "save_vars se cfg configfile insts [] s = Some (True, s)"
| "save_vars se cfg configfile insts (var # vs) s =
     do {
       found \<leftarrow> template_has cfg var insts;
       if found then save_vars se cfg configfile insts vs s
       else case save_entry se cfg configfile (v_file var) (v_lineno var) (variable_line var) s of
           (False, s1) \<Rightarrow> Some (False, s1)
         | (True, s1) \<Rightarrow> save_vars se cfg configfile insts vs s1
     }"

fun save_cats :: "save_env \<Rightarrow> ast_config \<Rightarrow> string \<Rightarrow> ast_category list \<Rightarrow> save_state \<Rightarrow> (bool \<times> save_state) option" where
  "save_cats se cfg configfile [] s = Some (True, s)"
| "save_cats se cfg configfile (cat # cs) s =
     (case save_entry se cfg configfile (cat_file cat) (cat_lineno cat) (category_line cat) s of
        (False, s1) \<Rightarrow> Some (False, s1)
      | (True, s1) \<Rightarrow>
          do {
            (ok, s2) \<leftarrow> save_vars se cfg configfile (template_instances cat) (vars cat) s1;
            if ok then save_cats se cfg configfile cs s2 else Some (False, s2)
          })"

text \<open>The inclusions behind the last entry of their file.\<close>

fun save_includes :: "save_env \<Rightarrow> ast_config \<Rightarrow> string \<Rightarrow> nat list \<Rightarrow> save_state \<Rightarrow> bool \<times> save_state" where
  "save_includes se cfg configfile [] s = (True, s)"
| "save_includes se cfg configfile (i # is) s =
     (if i \<in> set (sv_output s) then save_includes se cfg configfile is s
      else let (fn, s1) = set_fn se (include_location_file (config_includes cfg ! i)) configfile s
           in if \<not> sv_writable se fn then (False, s1)
              else save_includes se cfg configfile is
                     (s1\<lparr>sv_text := (sv_text s1)(fn := sv_text s1 fn @ include_line (config_includes cfg ! i)), sv_output := sv_output s1 @ [i]\<rparr>))"

text \<open>The files that are included are emptied first.\<close>

definition empty_file :: "save_env \<Rightarrow> string \<Rightarrow> string \<Rightarrow> save_state \<Rightarrow> save_state" where
  "empty_file se configfile file s =
     (let (fn, s1) = set_fn se file configfile s
      in if sv_writable se fn then s1\<lparr>sv_text := (sv_text s1)(fn := gen_header se configfile fn)\<rparr> else s1)"

definition ast_config_text_file_save :: "save_env \<Rightarrow> string \<Rightarrow> ast_config \<Rightarrow> (string \<Rightarrow> string) \<Rightarrow> (int \<times> (string \<Rightarrow> string)) option" where
  "ast_config_text_file_save se configfile cfg files =
     (let s = fold (\<lambda>incl. empty_file se configfile (included_file incl)) (config_includes cfg) \<lparr>sv_text = files, sv_line = Map.empty, sv_output = []\<rparr>
      in if \<not> sv_writable se (absolute se configfile) then Some (-1, sv_text s)
         else do {
           (ok, s1) \<leftarrow> save_cats se cfg configfile (cats cfg) (empty_file se configfile [] s);
           if \<not> ok then Some (-1, sv_text s1)
           else let (ok2, s2) = save_includes se cfg configfile [0..<length (config_includes cfg)] s1
                in Some (if ok2 then 0 else -1, sv_text s2)
         })"

section \<open>Stripping\<close>

definition blank :: "char \<Rightarrow> bool" where
  "blank c \<longleftrightarrow> uchar c < 33"

text \<open>A text without blanks at its ends.\<close>

definition tight :: "string \<Rightarrow> bool" where
  "tight s \<longleftrightarrow> s = [] \<or> \<not> blank (hd s) \<and> \<not> blank (last s)"

lemma skip_tight: "s \<noteq> [] \<Longrightarrow> \<not> blank (hd s) \<Longrightarrow> ast_skip_blanks s = s"
  by (cases s) (simp_all add: ast_skip_blanks_def blank_def)

lemma trim_blanks: "\<forall>c \<in> set w. blank c \<Longrightarrow> ast_trim_blanks (s @ w) = ast_trim_blanks s"
  unfolding ast_trim_blanks_def blank_def by (simp, subst dropWhile_append2) auto

lemma trim_tight: "s \<noteq> [] \<Longrightarrow> \<not> blank (last s) \<Longrightarrow> ast_trim_blanks s = s"
  by (cases s rule: rev_cases) (simp_all add: ast_trim_blanks_def blank_def)

lemma strip_tight: "tight s \<Longrightarrow> ast_strip s = s"
proof (cases "s = []")
  case False
  assume "tight s"
  with False show ?thesis by (simp add: ast_strip_def tight_def skip_tight trim_tight)
qed (simp add: ast_strip_def ast_skip_blanks_def ast_trim_blanks_def)

lemma strip_around:
  assumes "\<forall>c \<in> set a. blank c" "\<forall>c \<in> set b. blank c" "tight s"
  shows "ast_strip (a @ s @ b) = s"
proof (cases "s = []")
  case True
  with assms(1,2) show ?thesis
    by (simp add: ast_strip_def ast_skip_blanks_def ast_trim_blanks_def blank_def dropWhile_append2 dropWhile_eq_Nil_conv [THEN iffD2])
next
  case False
  with assms(3) have "ast_skip_blanks (a @ s @ b) = s @ b"
    using assms(1) skip_tight [of "s @ b"] by (simp add: ast_skip_blanks_def blank_def dropWhile_append2 tight_def)
  moreover have "ast_trim_blanks (s @ b) = s" using assms(2,3) False by (simp add: trim_blanks trim_tight tight_def)
  ultimately show ?thesis by (simp add: ast_strip_def)
qed

lemma blank_space [simp]: "blank CHR '' ''" "blank newline" by (simp_all add: blank_def uchar_def)

section \<open>What a configuration says\<close>

type_synonym var_view = "string \<times> string \<times> bool"
type_synonym cat_view = "string \<times> bool \<times> string list \<times> var_view list"

definition var_view :: "ast_variable \<Rightarrow> var_view" where
  "var_view v = (v_name v, v_value v, v_object v)"

definition cat_view :: "ast_category \<Rightarrow> cat_view" where
  "cat_view c = (cat_name c, ignored c, map fst (template_instances c), map var_view (vars c))"

text \<open>The state of a load after the categories \<open>vs\<close>; the last of them is the current one.\<close>

definition reads :: "load_state \<Rightarrow> cat_view list \<Rightarrow> bool" where
  "reads t vs \<longleftrightarrow> wf_load (ls_cfg t) \<and> ls_comment t = 0 \<and> map cat_view (cats (ls_cfg t)) = vs \<and>
     (cats (ls_cfg t) \<noteq> [] \<longrightarrow> ls_cat t = Some (cat_addr (last (cats (ls_cfg t)))))"

lemma no_semicolon: "CHR '';'' \<notin> set l \<Longrightarrow> strip_comments 0 l = Some (0, Some l)"
  unfolding strip_comments_def by (subst comment_loop.simps) (simp add: split_at_None [THEN iffD2])

lemma comment_line: "take 2 l \<noteq> ''--'' \<Longrightarrow> strip_comments 0 (CHR '';'' # l) = Some (0, Some [])"
  using split_at_front [of "CHR '';''" "[]" l] unfolding strip_comments_def by (subst comment_loop.simps) (simp add: Let_def)

text \<open>A line that changes nothing.\<close>

definition inert :: "string \<Rightarrow> bool" where
  "inert l \<longleftrightarrow> (\<exists>t. strip_comments 0 l = Some (0, Some t) \<and> ast_strip t = [])"

lemma inert_newline: "inert [newline]"
  using no_semicolon [of "[newline]"] strip_around [of "[newline]" "[]" "[]"] by (simp add: inert_def tight_def)

lemma inert_comment: "take 2 l \<noteq> ''--'' \<Longrightarrow> inert (CHR '';'' # l)"
  using comment_line [of l] by (simp add: inert_def ast_strip_def ast_skip_blanks_def ast_trim_blanks_def)

lemma load_inert:
  assumes "inert l" "reads t vs"
  shows "\<exists>u. reads u vs \<and> load_lines fe load fn sg (Some l # ls) t = load_lines fe load fn sg ls u"
proof -
  have "reads (t\<lparr>ls_lineno := ls_lineno t + 1, ls_comment := 0\<rparr>) vs" using assms(2) by (simp add: reads_def)
  moreover have "load_lines fe load fn sg (Some l # ls) t = load_lines fe load fn sg ls (t\<lparr>ls_lineno := ls_lineno t + 1, ls_comment := 0\<rparr>)"
    using assms by (auto simp: inert_def reads_def)
  ultimately show ?thesis by blast
qed

section \<open>Reading a variable\<close>

text \<open>Names and values that a line can hold.\<close>

definition name_ok :: "string \<Rightarrow> bool" where
  "name_ok n \<longleftrightarrow> tight n \<and> CHR '';'' \<notin> set n \<and> CHR ''='' \<notin> set n \<and> newline \<notin> set n \<and>
     (n \<noteq> [] \<longrightarrow> hd n \<noteq> CHR ''['' \<and> hd n \<noteq> CHR ''#'')"

definition value_ok :: "string \<Rightarrow> bool" where
  "value_ok v \<longleftrightarrow> tight v \<and> CHR '';'' \<notin> set v \<and> newline \<notin> set v"

definition var_ok :: "ast_variable \<Rightarrow> bool" where
  "var_ok v \<longleftrightarrow> name_ok (v_name v) \<and> value_ok (v_value v) \<and> v_blanklines v = 0 \<and> length (variable_line v) < BUF_SIZE - 1"

lemma strip_variable_line:
  assumes "name_ok n" "value_ok v" "op = ''='' \<or> op = ''=>''" "\<forall>c \<in> set w. blank c"
  shows "ast_strip (n @ '' '' @ op @ '' '' @ v @ w) = (if n = [] then [] else n @ '' '') @ op @ (if v = [] then [] else '' '' @ v)"
proof -
  let ?b = "(if n = [] then [] else n @ '' '') @ op @ (if v = [] then [] else '' '' @ v)"
  have "tight ?b" using assms by (auto simp: tight_def name_ok_def value_ok_def blank_def uchar_def)
  then have "ast_strip ((if n = [] then '' '' else []) @ ?b @ (if v = [] then '' '' @ w else w)) = ?b"
    by (intro strip_around) (use assms(4) in auto)
  moreover have "n @ '' '' @ op @ '' '' @ v @ w =
      (if n = [] then '' '' else []) @ ?b @ (if v = [] then '' '' @ w else w)" by simp
  ultimately show ?thesis by simp
qed

lemma change_last:
  assumes "distinct (map cat_addr (cs @ [c]))"
  shows "map (\<lambda>d. if cat_addr d = cat_addr c then f d else d) (cs @ [c]) = cs @ [f c]"
proof -
  have "\<forall>d \<in> set cs. cat_addr d \<noteq> cat_addr c" using assms by (fastforce simp: image_iff)
  then have "map (\<lambda>d. if cat_addr d = cat_addr c then f d else d) cs = cs" by (simp add: map_idI)
  then show ?thesis by simp
qed

text \<open>A line of which this text is left.\<close>

definition variable_text :: "ast_variable \<Rightarrow> string" where
  "variable_text v =
     (if v_name v = [] then [] else v_name v @ '' '') @ (if v_object v then ''=>'' else ''='') @ (if v_value v = [] then [] else '' '' @ v_value v)"

lemma load_variable_text:
  assumes "name_ok (v_name v)" "value_ok (v_value v)" "strip_comments 0 l = Some (0, Some x)" "ast_strip x = variable_text v"
    and "reads t (vs @ [(n, i, ts, ws)])"
  shows "\<exists>u. reads u (vs @ [(n, i, ts, ws @ [var_view v])]) \<and>
    load_lines fe load fn sg (Some l # ls) t = load_lines fe load fn sg ls u"
proof -
  let ?n = "v_name v" and ?v = "v_value v" and ?op = "if v_object v then ''=>'' else ''=''"
  let ?nn = "if ?n = [] then [] else ?n @ '' ''" and ?vv = "if ?v = [] then [] else '' '' @ ?v"
  let ?b = "?nn @ ?op @ ?vv"
  note ok = assms(1,2)
  have b: "ast_strip x = ?b" using assms(4) by (simp add: variable_text_def)
  obtain cs c where cs: "cats (ls_cfg t) = cs @ [c]" "map cat_view cs = vs" "cat_view c = (n, i, ts, ws)"
    using assms(5) by (auto simp: reads_def map_eq_append_conv)
  have t: "wf_load (ls_cfg t)" "ls_comment t = 0" "ls_cat t = Some (cat_addr c)" using assms(5) cs by (auto simp: reads_def)
  have sp: "split_at CHR ''='' ?b = Some (?nn, (if v_object v then ''>'' else []) @ ?vv)"
    using ok(1) by (simp add: split_at_Some name_ok_def)
  have st2: "ast_strip ?nn = ?n" "ast_strip ?vv = ?v"
    using strip_around [of "[]" "'' ''" ?n] strip_around [of "'' ''" "[]" ?v] ok strip_tight [of "[]"]
    by (auto simp: name_ok_def value_ok_def tight_def)
  have hd: "hd ?b \<noteq> CHR ''[''" "hd ?b \<noteq> CHR ''#''" using ok(1) by (auto simp: name_ok_def)
  let ?w = "(ast_variable_new ?n ?v (source_file sg (ls_cfg t) fn))\<lparr>v_lineno := ls_lineno t + 1, v_object := v_object v, v_blanklines := 0\<rparr>"
  let ?cfg = "change_cat (cat_addr c) (\<lambda>c. ast_variable_append c [?w]) (ls_cfg t)"
  have "?nn = [] \<or> last ?nn \<noteq> CHR ''+''" by simp
  then have p: "process_text_line fe load (ls_cfg t) (ls_cat t) ?b (ls_lineno t + 1) fn sg = Some (0, ?cfg, Some (cat_addr c))"
    using hd sp st2 t(3) by (auto simp: process_text_line_def process_variable_def new_variable_def)
  let ?u = "t\<lparr>ls_lineno := ls_lineno t + 1, ls_comment := 0, ls_cfg := ?cfg, ls_cat := Some (cat_addr c)\<rparr>"
  have "distinct (map cat_addr (cs @ [c]))" "wf_category c" using t(1) cs(1) by (auto simp: wf_load_def wf_config_def)
  note ch = change_last [OF this(1), of "\<lambda>c. ast_variable_append c [?w]"]
  have cc: "cats ?cfg = cs @ [ast_variable_append c [?w]]" using ch cs(1) by (simp add: change_cat_def)
  have "cat_view (ast_variable_append c [?w]) = (n, i, ts, ws @ [var_view v])"
    using cs(3) append_exact(2) [OF \<open>wf_category c\<close>, of "[?w]"]
    by (simp add: cat_view_def var_view_def ast_variable_append_def ast_variable_new_def Let_def)
  moreover have "wf_load ?cfg" by (rule change_cat_wf [OF t(1)]) (simp_all add: append_exact(1))
  ultimately have "reads ?u (vs @ [(n, i, ts, ws @ [var_view v])])" using cc cs(2) by (simp add: reads_def)
  moreover have "load_lines fe load fn sg (Some l # ls) t = load_lines fe load fn sg ls ?u"
    using assms(3) b p t(2) by (simp add: Let_def)
  ultimately show ?thesis by blast
qed

lemma load_variable:
  assumes "var_ok v" "reads t (vs @ [(n, i, ts, ws)])"
  shows "\<exists>u. reads u (vs @ [(n, i, ts, ws @ [var_view v])]) \<and>
    load_lines fe load fn sg (Some (variable_line v) # ls) t = load_lines fe load fn sg ls u"
proof -
  have ok: "name_ok (v_name v)" "value_ok (v_value v)" "v_blanklines v = 0" using assms(1) by (simp_all add: var_ok_def)
  have l: "variable_line v = v_name v @ '' '' @ (if v_object v then ''=>'' else ''='') @ '' '' @ v_value v @ [newline]"
    using ok(3) by (simp add: variable_line_def)
  have "CHR '';'' \<notin> set (variable_line v)" using ok unfolding l name_ok_def value_ok_def by auto
  then have st: "strip_comments 0 (variable_line v) = Some (0, Some (variable_line v))" by (rule no_semicolon)
  have "ast_strip (variable_line v) = variable_text v" unfolding l variable_text_def by (rule strip_variable_line [OF ok(1,2)]) auto
  from load_variable_text [OF ok(1,2) st this assms(2)] show ?thesis .
qed

section \<open>Reading a category\<close>

definition word_ok :: "string \<Rightarrow> bool" where
  "word_ok w \<longleftrightarrow> CHR '','' \<notin> set w \<and> CHR '')'' \<notin> set w \<and> CHR '';'' \<notin> set w \<and> newline \<notin> set w"

lemma strsep_all_plain: "CHR '','' \<notin> set w \<Longrightarrow> strsep_all '','' w = [w]"
proof -
  assume "CHR '','' \<notin> set w"
  then have "dropWhile (\<lambda>c. c \<notin> set '','') w = []" "takeWhile (\<lambda>c. c \<notin> set '','') w = w" by auto
  then have "strsep '','' w = (w, None)" unfolding strsep_def by (simp only: list.case)
  then show ?thesis by (subst strsep_all.simps) simp
qed

lemma strsep_all_join: "ns \<noteq> [] \<Longrightarrow> \<forall>n \<in> set ns. CHR '','' \<notin> set n \<Longrightarrow> strsep_all '','' (join_names ns) = ns"
proof (induction ns rule: join_names.induct)
  case (3 n m ns)
  have d: "dropWhile (\<lambda>c. c \<notin> set '','') (n @ '','' @ join_names (m # ns)) = '','' @ join_names (m # ns)"
    "takeWhile (\<lambda>c. c \<notin> set '','') (n @ '','' @ join_names (m # ns)) = n"
    using 3(3) by (simp, subst dropWhile_append2, auto, subst takeWhile_append2, auto)
  have "strsep '','' (join_names (n # m # ns)) = (n, Some (join_names (m # ns)))"
    using d by (simp add: strsep_def)
  with 3 show ?case by (subst strsep_all.simps) simp
qed (simp_all add: strsep_all_plain)

lemma set_join: "set (join_names ns) \<subseteq> insert CHR '','' (\<Union>n \<in> set ns. set n)"
  by (induction ns rule: join_names.induct) auto

text \<open>The words of a header that was written.\<close>

definition header_list :: "ast_category \<Rightarrow> string list" where
  "header_list c = (if ignored c then [''!''] else []) @ map fst (template_instances c)"

lemma category_line_words:
  "category_line c = ''['' @ cat_name c @ '']'' @ (if header_list c = [] then [] else ''('' @ join_names (header_list c) @ '')'') @ [newline]"
  by (cases "template_instances c") (auto simp: category_line_def header_list_def)

definition template_of :: "cat_view list \<Rightarrow> string \<Rightarrow> cat_view option" where
  "template_of vs w = find (\<lambda>x. strcase_eq (fst x) w) vs"

lemma find_view: "find (\<lambda>x. P (fst x)) (map cat_view cs) = map_option cat_view (find (\<lambda>c. P (cat_name c)) cs)"
  by (induction cs) (simp_all add: cat_view_def)

lemma category_get_view:
  assumes "template_of (map cat_view (cats cfg)) w = Some x"
  shows "\<exists>c. category_get cfg (None, w) True = Some c \<and> cat_view c = x"
proof -
  have "find (\<lambda>c. False) cs = None" for cs :: "ast_category list" by (induction cs) simp_all
  with assms find_view [of "\<lambda>n. strcase_eq n w" "cats cfg"] show ?thesis by (auto simp: template_of_def category_get_def)
qed

lemma inherit_view:
  assumes "wf_category n" "cat_view n = (name, i, ts, ws)" "cat_view base = (w, i', ts', bs)"
  shows "cat_view (inherit_category n base) = (name, i, ts @ [w], ws @ bs)"
proof -
  have f: "cat_name (fold (\<lambda>v c. ast_variable_append c [variable_clone v]) vs c) = cat_name c \<and>
      ignored (fold (\<lambda>v c. ast_variable_append c [variable_clone v]) vs c) = ignored c \<and>
      template_instances (fold (\<lambda>v c. ast_variable_append c [variable_clone v]) vs c) = template_instances c" for vs c
    by (induction vs arbitrary: c) (simp_all add: ast_variable_append_def Let_def)
  have v: "map var_view (map variable_clone vs) = map var_view vs" for vs
    by (simp add: var_view_def variable_clone_def ast_variable_new_def)
  from inherit_exact(2) [OF assms(1), of base] v [of "vars base"] f assms(2,3) show ?thesis
    by (auto simp: cat_view_def inherit_category_def)
qed

lemma template_words:
  assumes "wf_category n" "cat_view n = (name, i, ts, ws)"
    and "\<forall>w \<in> set us. w \<noteq> ''!'' \<and> w \<noteq> ''+'' \<and> (\<exists>b. template_of (map cat_view (cats cfg)) w = Some b \<and> fst b = w)"
  shows "\<exists>m. header_words catname us (cfg, Some n, a) = Some (True, cfg, Some m, a) \<and> wf_category m \<and> cat_addr m = cat_addr n \<and>
    cat_view m = (name, i, ts @ us, ws @ concat (map (\<lambda>w. snd (snd (snd (the (template_of (map cat_view (cats cfg)) w))))) us))"
  using assms
proof (induction us arbitrary: n ts ws)
  case (Cons w us)
  obtain b where b: "template_of (map cat_view (cats cfg)) w = Some b" "fst b = w" using Cons.prems(3) by auto
  from category_get_view [OF b(1)] obtain c where c: "category_get cfg (None, w) True = Some c" "cat_view c = b" by blast
  obtain i' ts' bs where bb: "b = (w, i', ts', bs)" using b(2) by (cases b) auto
  have "header_word catname w (cfg, Some n, a) = Some (True, cfg, Some (inherit_category n c), a)"
    using c(1) Cons.prems(3) by (simp add: header_word_def)
  moreover have "cat_view (inherit_category n c) = (name, i, ts @ [w], ws @ bs)"
    by (rule inherit_view [OF Cons.prems(1,2)]) (use c(2) bb in simp)
  ultimately show ?case using Cons.IH [of "inherit_category n c" "ts @ [w]" "ws @ bs"] Cons.prems(3) inherit_exact(1) [OF Cons.prems(1)] b bb by simp
qed simp

definition cat_ok :: "ast_category \<Rightarrow> bool" where
  "cat_ok c \<longleftrightarrow> length (cat_name c) \<le> 79 \<and> CHR '']'' \<notin> set (cat_name c) \<and> CHR '';'' \<notin> set (cat_name c) \<and> newline \<notin> set (cat_name c) \<and>
     (\<forall>w \<in> fst ` set (template_instances c). word_ok w \<and> w \<noteq> ''!'' \<and> w \<noteq> ''+'') \<and> length (category_line c) < BUF_SIZE - 1"

lemma header_list_ok:
  assumes "cat_ok c"
  shows "\<forall>w \<in> set (header_list c). word_ok w"
  using assms by (auto simp: cat_ok_def header_list_def word_ok_def)

lemma join_ok: "\<forall>w \<in> set ws. word_ok w \<Longrightarrow> CHR '')'' \<notin> set (join_names ws) \<and> CHR '';'' \<notin> set (join_names ws) \<and> newline \<notin> set (join_names ws)"
  using set_join [of ws] by (auto simp: word_ok_def)

text \<open>The words of a header, the mark of a template first.\<close>

lemma header_list_words:
  assumes "wf_category n" "cat_view n = (name, False, [], [])"
    and "\<forall>w \<in> fst ` set (template_instances c). w \<noteq> ''!'' \<and> w \<noteq> ''+'' \<and> (\<exists>b. template_of (map cat_view (cats cfg)) w = Some b \<and> fst b = w)"
  shows "\<exists>m. header_words catname (header_list c) (cfg, Some n, a) = Some (True, cfg, Some m, a) \<and> wf_category m \<and> cat_addr m = cat_addr n \<and>
    cat_view m = (name, ignored c, map fst (template_instances c),
      concat (map (\<lambda>w. snd (snd (snd (the (template_of (map cat_view (cats cfg)) w))))) (map fst (template_instances c))))"
proof (cases "ignored c")
  case True
  let ?n = "n\<lparr>ignored := True\<rparr>"
  have n: "wf_category ?n" "cat_view ?n = (name, True, [], [])" using assms(1,2) by (simp_all add: wf_category_def cat_view_def)
  have h: "header_list c = ''!'' # map fst (template_instances c)" using True by (simp add: header_list_def)
  have "header_word catname ''!'' (cfg, Some n, a) = Some (True, cfg, Some ?n, a)" by (simp add: header_word_def)
  with template_words [OF n, of "map fst (template_instances c)" cfg catname a] assms(3) True show ?thesis unfolding h by auto
next
  case False
  with template_words [OF assms(1,2), of "map fst (template_instances c)" cfg catname a] assms(3) show ?thesis
    by (auto simp: header_list_def)
qed

lemma load_category:
  assumes "cat_ok c" "reads t vs"
    and "\<forall>w \<in> fst ` set (template_instances c). \<exists>b. template_of vs w = Some b \<and> fst b = w"
  shows "\<exists>u. reads u (vs @ [(cat_name c, ignored c, map fst (template_instances c),
      concat (map (\<lambda>w. snd (snd (snd (the (template_of vs w))))) (map fst (template_instances c))))]) \<and>
    load_lines fe load fn sg (Some (category_line c) # ls) t = load_lines fe load fn sg ls u"
proof -
  let ?o = "if header_list c = [] then [] else ''('' @ join_names (header_list c) @ '')''"
  let ?b = "''['' @ cat_name c @ '']'' @ ?o"
  note j = join_ok [OF header_list_ok [OF assms(1)]]
  have l: "category_line c = ?b @ [newline]" by (simp add: category_line_words)
  have "CHR '';'' \<notin> set (category_line c)" using assms(1) j unfolding l cat_ok_def by auto
  then have st: "strip_comments 0 (category_line c) = Some (0, Some (category_line c))" by (rule no_semicolon)
  have "tight ?b" by (auto simp: tight_def blank_def uchar_def)
  then have b: "ast_strip (category_line c) = ?b" using strip_around [of "[]" "[newline]" ?b] unfolding l by simp
  let ?cfg = "ls_cfg t" let ?a = "fresh_addr ?cfg" let ?cfg1 = "?cfg\<lparr>fresh_addr := Suc ?a\<rparr>"
  let ?n = "ast_category_new ?a (cat_name c) (source_file sg ?cfg fn) (ls_lineno t + 1)"
  have t: "wf_load ?cfg" "ls_comment t = 0" "map cat_view (cats ?cfg) = vs" using assms(2) by (auto simp: reads_def)
  have n: "wf_category ?n" "cat_view ?n = (cat_name c, False, [], [])" "cat_addr ?n = ?a"
    using assms(1) by (simp_all add: wf_category_def cat_view_def ast_category_new_def last_pos_def cat_ok_def)
  have "\<forall>w \<in> fst ` set (template_instances c). w \<noteq> ''!'' \<and> w \<noteq> ''+'' \<and> (\<exists>b. template_of (map cat_view (cats ?cfg1)) w = Some b \<and> fst b = w)"
    using assms(1,3) t(3) by (auto simp: cat_ok_def)
  from header_list_words [OF n(1,2) this, of "cat_name c" ?a] obtain m where
    m: "header_words (cat_name c) (header_list c) (?cfg1, Some ?n, ?a) = Some (True, ?cfg1, Some m, ?a)" "wf_category m" "cat_addr m = ?a"
      "cat_view m = (cat_name c, ignored c, map fst (template_instances c),
        concat (map (\<lambda>w. snd (snd (snd (the (template_of vs w))))) (map fst (template_instances c))))" using n(3) t(3) by auto
  let ?cfg2 = "ast_category_append ?cfg1 m"
  have "split_at CHR '']'' (cat_name c @ '']'' @ ?o) = Some (cat_name c, ?o)" using assms(1) by (simp add: split_at_Some cat_ok_def)
  moreover have "split_at CHR '')'' (join_names (header_list c) @ '')'') = Some (join_names (header_list c), [])" using j by (simp add: split_at_Some)
  moreover have "header_list c \<noteq> [] \<Longrightarrow> strsep_all '','' (join_names (header_list c)) = header_list c"
    using strsep_all_join header_list_ok [OF assms(1)] by (simp add: word_ok_def)
  ultimately have ph: "process_header ?cfg (ls_cat t) (cat_name c @ '']'' @ ?o) (ls_lineno t + 1) fn sg = Some (0, ?cfg2, Some ?a)"
    using m(1) by (cases "header_list c = []") (simp_all add: process_header_def Let_def)
  then have p: "process_text_line fe load ?cfg (ls_cat t) ?b (ls_lineno t + 1) fn sg = Some (0, ?cfg2, Some ?a)"
    by (simp add: process_text_line_def)
  let ?u = "t\<lparr>ls_lineno := ls_lineno t + 1, ls_comment := 0, ls_cfg := ?cfg2, ls_cat := Some ?a\<rparr>"
  have w1: "wf_load ?cfg1" "?a \<notin> cat_addr ` set (cats ?cfg1)" using t(1) by (auto simp: wf_load_def wf_config_def less_Suc_eq)
  have cc: "cats ?cfg2 = cats ?cfg @ [m\<lparr>cat_level := include_level ?cfg\<rparr>]"
    using w1(1) by (simp add: ast_category_append_def wf_load_def wf_config_def append_at_last Let_def)
  have "wf_load ?cfg2" by (rule category_append_wf [OF w1(1) m(2)]) (use m(3) w1(2) in simp_all)
  with cc t(3) m(3,4) have "reads ?u (vs @ [(cat_name c, ignored c, map fst (template_instances c),
      concat (map (\<lambda>w. snd (snd (snd (the (template_of vs w))))) (map fst (template_instances c))))])"
    by (simp add: reads_def cat_view_def)
  moreover have "load_lines fe load fn sg (Some (category_line c) # ls) t = load_lines fe load fn sg ls ?u"
    using st b p t(2) by (simp add: Let_def)
  ultimately show ?thesis by blast
qed

section \<open>The lines of a file\<close>

definition line_ok :: "string \<Rightarrow> bool" where
  "line_ok l \<longleftrightarrow> l \<noteq> [] \<and> last l = newline \<and> newline \<notin> set (butlast l) \<and> length l < BUF_SIZE - 1"

lemma fgets_line:
  assumes "line_ok l"
  shows "fgets (l @ rest) = (l, rest)"
proof -
  have l: "l = butlast l @ [newline]" using assms by (metis append_butlast_last_id line_ok_def)
  then have "split_at newline (l @ rest) = Some (butlast l, rest)"
    using assms split_at_front [of newline "butlast l" rest] by (metis append.assoc append_Cons append_Nil line_ok_def)
  moreover have "Suc (length (butlast l)) = length l" using assms by (simp add: line_ok_def)
  ultimately show ?thesis using assms by (simp add: fgets_def line_ok_def min_def)
qed

lemma read_concat: "\<forall>l \<in> set ls. line_ok l \<Longrightarrow> read_lines (concat ls) = map Some ls"
proof (induction ls)
  case (Cons l ls)
  then have l: "line_ok l" by simp
  have "concat (l # ls) \<noteq> []" using l by (simp add: line_ok_def)
  with Cons fgets_line [OF l, of "concat ls"] l show ?case by (subst read_lines.simps) (simp add: line_ok_def)
qed (simp add: read_lines.simps)

lemma load_inerts:
  "\<forall>b \<in> set bs. inert b \<Longrightarrow> reads t vs \<Longrightarrow> \<exists>u. reads u vs \<and> load_lines fe load fn sg (map Some bs @ ls) t = load_lines fe load fn sg ls u"
proof (induction bs arbitrary: t)
  case (Cons b bs)
  have "inert b" using Cons.prems(1) by simp
  from load_inert [OF this Cons.prems(2), of fe load fn sg "map Some bs @ ls"]
  obtain u where u: "reads u vs" "load_lines fe load fn sg (Some b # map Some bs @ ls) t = load_lines fe load fn sg (map Some bs @ ls) u" by blast
  with Cons.IH [OF _ u(1)] Cons.prems(1) show ?case by auto
qed auto

text \<open>The entries among the lines; between them there are blank lines only.\<close>

abbreviation entries_of :: "string list \<Rightarrow> string list" where
  "entries_of ls \<equiv> filter (\<lambda>l. l \<noteq> [newline]) ls"

lemma first_entry:
  assumes "entries_of ls = e # es"
  shows "\<exists>bs rest. ls = bs @ e # rest \<and> (\<forall>b \<in> set bs. inert b) \<and> entries_of rest = es"
proof -
  from filter_eq_ConsD [OF assms] obtain bs rest where "ls = bs @ e # rest" "\<forall>b \<in> set bs. \<not> b \<noteq> [newline]" "es = entries_of rest" by (elim exE conjE)
  moreover from this(2) have "\<forall>b \<in> set bs. inert b" using inert_newline by auto
  ultimately show ?thesis by metis
qed

lemma no_entry: "entries_of ls = [] \<Longrightarrow> \<forall>b \<in> set ls. inert b"
  using inert_newline by (auto simp: filter_empty_conv)

lemma load_variables:
  assumes "\<forall>v \<in> set ov. var_ok v" "reads t (vs @ [(n, i, ts, ws)])" "entries_of ls = map variable_line ov @ es"
  shows "\<exists>u rest. reads u (vs @ [(n, i, ts, ws @ map var_view ov)]) \<and> entries_of rest = es \<and>
    load_lines fe load fn sg (map Some ls) t = load_lines fe load fn sg (map Some rest) u"
  using assms
proof (induction ov arbitrary: t ws ls)
  case (Cons v ov)
  have "entries_of ls = variable_line v # (map variable_line ov @ es)" using Cons.prems(3) by simp
  from first_entry [OF this] obtain bs rest where
    ls: "ls = bs @ variable_line v # rest" "\<forall>b \<in> set bs. inert b" "entries_of rest = map variable_line ov @ es" by blast
  from load_inerts [OF ls(2) Cons.prems(2), of fe load fn sg "Some (variable_line v) # map Some rest"] obtain t1 where
    t1: "reads t1 (vs @ [(n, i, ts, ws)])" "load_lines fe load fn sg (map Some ls) t = load_lines fe load fn sg (Some (variable_line v) # map Some rest) t1"
    using ls(1) by auto
  have "var_ok v" using Cons.prems(1) by simp
  from load_variable [OF this t1(1), of fe load fn sg "map Some rest"] obtain t2 where
    t2: "reads t2 (vs @ [(n, i, ts, ws @ [var_view v])])" "load_lines fe load fn sg (Some (variable_line v) # map Some rest) t1 = load_lines fe load fn sg (map Some rest) t2"
    by blast
  have "\<forall>v \<in> set ov. var_ok v" using Cons.prems(1) by simp
  from Cons.IH [OF this t2(1) ls(3)] t1(2) t2(2) show ?case by simp
next
  case Nil
  then show ?case by auto
qed

section \<open>Saving and loading\<close>

definition template_vars :: "ast_config \<Rightarrow> ast_category \<Rightarrow> ast_variable list" where
  "template_vars cfg c = concat (map (\<lambda>(n, a). vars (the (cat_at cfg a))) (template_instances c))"

definition own_vars :: "ast_config \<Rightarrow> ast_category \<Rightarrow> ast_variable list" where
  "own_vars cfg c = drop (length (template_vars cfg c)) (vars c)"

text \<open>
  A category that can be written and read: its templates stand in front of it, its variables are those of
  its templates and then its own, which no template has, and names and values fit on a line.
\<close>

definition savable_cat :: "ast_config \<Rightarrow> ast_category list \<Rightarrow> ast_category \<Rightarrow> bool" where
  "savable_cat cfg earlier c \<longleftrightarrow> cat_ok c \<and> cat_file c = [] \<and> (\<forall>v \<in> set (own_vars cfg c). var_ok v \<and> v_file v = []) \<and>
     (\<forall>(n, a) \<in> set (template_instances c). \<exists>b \<in> set earlier. cat_addr b = a \<and> cat_name b = n) \<and>
     map var_view (take (length (template_vars cfg c)) (vars c)) = map var_view (template_vars cfg c) \<and>
     (\<forall>v \<in> set (own_vars cfg c). \<forall>(n, a) \<in> set (template_instances c). \<not> inherited v (vars (the (cat_at cfg a))))"

fun savable_from :: "ast_config \<Rightarrow> ast_category list \<Rightarrow> ast_category list \<Rightarrow> bool" where
  "savable_from cfg earlier [] = True"
| "savable_from cfg earlier (c # cs) = (savable_cat cfg earlier c \<and> savable_from cfg (earlier @ [c]) cs)"

definition savable :: "ast_config \<Rightarrow> bool" where
  "savable cfg \<longleftrightarrow> config_includes cfg = [] \<and> distinct (map cat_addr (cats cfg)) \<and>
     distinct (map (\<lambda>c. map c_tolower (cat_name c)) (cats cfg)) \<and> savable_from cfg [] (cats cfg)"

definition cat_entries :: "ast_config \<Rightarrow> ast_category \<Rightarrow> string list" where
  "cat_entries cfg c = category_line c # map variable_line (own_vars cfg c)"

lemma cat_at_addr:
  assumes "distinct (map cat_addr (cats cfg))" "b \<in> set (cats cfg)"
  shows "cat_at cfg (cat_addr b) = Some b"
proof -
  have f: "find (\<lambda>c. cat_addr c = cat_addr b) cs = Some b" if "distinct (map cat_addr cs)" "b \<in> set cs" for cs
    using that by (induction cs) (auto simp: image_iff)
  from f [OF assms] show ?thesis by (simp add: cat_at_def)
qed

lemma template_of_name:
  assumes "distinct (map (\<lambda>c. map c_tolower (cat_name c)) cs)" "b \<in> set cs"
  shows "template_of (map cat_view cs) (cat_name b) = Some (cat_view b)"
  using assms
proof (induction cs)
  case (Cons c cs)
  show ?case
  proof (cases "b = c")
    case True
    then show ?thesis by (simp add: template_of_def cat_view_def)
  next
    case False
    then have "b \<in> set cs" using Cons.prems(2) by simp
    moreover have "\<not> strcase_eq (cat_name c) (cat_name b)" using Cons.prems(1) calculation by (auto simp: strcase_eq_def)
    ultimately show ?thesis using Cons.IH Cons.prems(1) by (simp add: template_of_def cat_view_def)
  qed
qed simp

text \<open>The templates of a category, as they are and as they are read.\<close>

lemma templates_read:
  assumes "savable_cat cfg earlier c" "distinct (map cat_addr (cats cfg))" "set earlier \<subseteq> set (cats cfg)"
    and "distinct (map (\<lambda>c. map c_tolower (cat_name c)) earlier)"
  shows "\<forall>w \<in> fst ` set (template_instances c). \<exists>b. template_of (map cat_view earlier) w = Some b \<and> fst b = w"
    and "concat (map (\<lambda>w. snd (snd (snd (the (template_of (map cat_view earlier) w))))) (map fst (template_instances c))) = map var_view (template_vars cfg c)"
proof -
  have x: "template_of (map cat_view earlier) n = Some (cat_view (the (cat_at cfg a))) \<and> cat_name (the (cat_at cfg a)) = n"
    if "(n, a) \<in> set (template_instances c)" for n a
  proof -
    from that assms(1) obtain b where "b \<in> set earlier" "cat_addr b = a" "cat_name b = n" by (auto simp: savable_cat_def)
    with template_of_name [OF assms(4)] cat_at_addr [OF assms(2)] assms(3) show ?thesis by auto
  qed
  then show "\<forall>w \<in> fst ` set (template_instances c). \<exists>b. template_of (map cat_view earlier) w = Some b \<and> fst b = w"
    by (fastforce simp: cat_view_def)
  have "map (\<lambda>w. snd (snd (snd (the (template_of (map cat_view earlier) w))))) (map fst (template_instances c)) =
      map (\<lambda>(n, a). map var_view (vars (the (cat_at cfg a)))) (template_instances c)"
    using x by (auto simp: cat_view_def)
  moreover have "map var_view (template_vars cfg c) = concat (map (\<lambda>(n, a). map var_view (vars (the (cat_at cfg a)))) (template_instances c))"
    by (simp add: template_vars_def map_concat comp_def split_def)
  ultimately show "concat (map (\<lambda>w. snd (snd (snd (the (template_of (map cat_view earlier) w))))) (map fst (template_instances c))) =
      map var_view (template_vars cfg c)"
    by (simp only:)
qed

lemma savable_view:
  assumes "savable_cat cfg earlier c"
  shows "cat_view c = (cat_name c, ignored c, map fst (template_instances c), map var_view (template_vars cfg c) @ map var_view (own_vars cfg c))"
proof -
  have "map var_view (vars c) = map var_view (take (length (template_vars cfg c)) (vars c)) @ map var_view (own_vars cfg c)"
    unfolding own_vars_def by (metis append_take_drop_id map_append)
  with assms show ?thesis by (simp add: cat_view_def savable_cat_def)
qed

lemma load_entries:
  assumes "savable_from cfg earlier cs" "distinct (map cat_addr (cats cfg))" "set (earlier @ cs) \<subseteq> set (cats cfg)"
    and "distinct (map (\<lambda>c. map c_tolower (cat_name c)) (earlier @ cs))"
    and "reads t (map cat_view earlier)" "entries_of ls = concat (map (cat_entries cfg) cs)"
  shows "\<exists>u. load_lines fe load fn sg (map Some ls) t = Some (True, u) \<and> reads u (map cat_view (earlier @ cs))"
  using assms(1,3-)
proof (induction cs arbitrary: earlier t ls)
  case Nil
  from no_entry [of ls] Nil.prems(5) have "\<forall>b \<in> set ls. inert b" by simp
  from load_inerts [OF this Nil.prems(4), of fe load fn sg "[]"] show ?case by auto
next
  case (Cons c cs)
  have c: "savable_cat cfg earlier c" "cat_ok c" "\<forall>v \<in> set (own_vars cfg c). var_ok v" using Cons.prems(1) by (auto simp: savable_cat_def)
  have e: "set earlier \<subseteq> set (cats cfg)" "distinct (map (\<lambda>c. map c_tolower (cat_name c)) earlier)" using Cons.prems(2,3) by auto
  note tr = templates_read [OF c(1) assms(2) e]
  have "entries_of ls = category_line c # (map variable_line (own_vars cfg c) @ concat (map (cat_entries cfg) cs))"
    using Cons.prems(5) by (simp add: cat_entries_def [of cfg c])
  from first_entry [OF this] obtain bs rest where
    ls: "ls = bs @ category_line c # rest" "\<forall>b \<in> set bs. inert b" "entries_of rest = map variable_line (own_vars cfg c) @ concat (map (cat_entries cfg) cs)"
    by blast
  from load_inerts [OF ls(2) Cons.prems(4), of fe load fn sg "Some (category_line c) # map Some rest"] obtain t1 where
    t1: "reads t1 (map cat_view earlier)" "load_lines fe load fn sg (map Some ls) t = load_lines fe load fn sg (Some (category_line c) # map Some rest) t1"
    using ls(1) by auto
  from load_category [OF c(2) t1(1) tr(1), of fe load fn sg "map Some rest"] obtain t2 where
    t2: "reads t2 (map cat_view earlier @ [(cat_name c, ignored c, map fst (template_instances c), map var_view (template_vars cfg c))])"
      "load_lines fe load fn sg (Some (category_line c) # map Some rest) t1 = load_lines fe load fn sg (map Some rest) t2"
    unfolding tr(2) by blast
  from load_variables [OF c(3) t2(1) ls(3), of fe load fn sg] obtain t3 rest' where
    t3: "reads t3 (map cat_view (earlier @ [c]))" "entries_of rest' = concat (map (cat_entries cfg) cs)"
      "load_lines fe load fn sg (map Some rest) t2 = load_lines fe load fn sg (map Some rest') t3"
    using savable_view [OF c(1)] by auto
  from Cons.IH [OF _ _ _ t3(1,2)] Cons.prems(1-3) t1(2) t2(2) t3(3) show ?case by simp
qed

lemma save_entry_text:
  assumes "config_includes cfg = []" "fn = absolute se configfile" "sv_writable se fn"
  shows "\<exists>s1 k. save_entry se cfg configfile [] lineno entry s = (True, s1) \<and>
    sv_text s1 = (sv_text s)(fn := sv_text s fn @ replicate k newline @ entry)"
proof -
  obtain s0 where s0: "set_fn se [] configfile s = (fn, s0)" "sv_text s0 = sv_text s"
    using assms(2) by (cases "sv_line s fn") (simp_all add: set_fn_def Let_def)
  obtain k at where b: "insert_leading_blank_lines (the (sv_line s0 fn)) lineno = (replicate k newline, at)"
  proof (cases "lineno - the (sv_line s0 fn) < 0 \<or> lineno = 0")
    case True
    with that [of 0] show ?thesis by (simp add: insert_leading_blank_lines_def)
  next
    case False
    with that [of "nat (lineno - the (sv_line s0 fn))"] that [of 1] show ?thesis
      by (cases "lineno - the (sv_line s0 fn) < 5") (auto simp: insert_leading_blank_lines_def)
  qed
  with s0 assms show ?thesis by (auto simp: save_entry_def due_includes_def)
qed

text \<open>What saving adds to the file: lines whose entries are the given ones.\<close>

definition writes :: "string \<Rightarrow> save_state \<Rightarrow> save_state \<Rightarrow> string list \<Rightarrow> bool" where
  "writes fn s s1 es \<longleftrightarrow> (\<exists>ls. sv_text s1 = (sv_text s)(fn := sv_text s fn @ concat ls) \<and> entries_of ls = es)"

lemma writes_refl: "writes fn s s []"
  unfolding writes_def by (rule exI [of _ "[]"]) simp

lemma writes_trans: "writes fn s s1 es \<Longrightarrow> writes fn s1 s2 fs \<Longrightarrow> writes fn s s2 (es @ fs)"
  unfolding writes_def
proof (elim exE conjE)
  fix ls ms assume "sv_text s1 = (sv_text s)(fn := sv_text s fn @ concat ls)" "entries_of ls = es"
    "sv_text s2 = (sv_text s1)(fn := sv_text s1 fn @ concat ms)" "entries_of ms = fs"
  then show "\<exists>ls. sv_text s2 = (sv_text s)(fn := sv_text s fn @ concat ls) \<and> entries_of ls = es @ fs"
    by (intro exI [of _ "ls @ ms"]) simp
qed

lemma save_entry_writes:
  assumes "config_includes cfg = []" "fn = absolute se configfile" "sv_writable se fn" "entry \<noteq> [newline]"
  shows "\<exists>s1. save_entry se cfg configfile [] lineno entry s = (True, s1) \<and> writes fn s s1 [entry]"
proof -
  obtain s1 k where e: "save_entry se cfg configfile [] lineno entry s = (True, s1)"
    and t: "sv_text s1 = (sv_text s)(fn := sv_text s fn @ replicate k newline @ entry)"
    using save_entry_text [OF assms(1-3), of lineno entry s] by (elim exE conjE)
  have "entries_of (replicate k [newline] @ [entry]) = [entry]" using assms(4) by simp
  moreover have "replicate k newline @ entry = concat (replicate k [newline] @ [entry])" by (induction k) simp_all
  ultimately have "writes fn s s1 [entry]" unfolding writes_def t by (intro exI [of _ "replicate k [newline] @ [entry]"]) simp
  with e show ?thesis by blast
qed

lemma variable_line_entry: "variable_line v \<noteq> [newline]"
  by (cases "v_name v") (simp_all add: variable_line_def)

lemma category_line_entry: "category_line c \<noteq> [newline]"
  by (simp add: category_line_def)

lemma save_vars_writes:
  assumes "config_includes cfg = []" "fn = absolute se configfile" "sv_writable se fn"
    and "\<forall>v \<in> set vs. template_has cfg v insts = Some (h v)" "\<forall>v \<in> set vs. \<not> h v \<longrightarrow> v_file v = []"
  shows "\<exists>s1. save_vars se cfg configfile insts vs s = Some (True, s1) \<and> writes fn s s1 (map variable_line (filter (\<lambda>v. \<not> h v) vs))"
  using assms(4,5)
proof (induction vs arbitrary: s)
  case Nil
  then show ?case using writes_refl by simp
next
  case (Cons v vs)
  show ?case
  proof (cases "h v")
    case True
    with Cons show ?thesis by simp
  next
    case False
    from save_entry_writes [OF assms(1-3) variable_line_entry, of "v_lineno v" v s] obtain s1 where
      s1: "save_entry se cfg configfile [] (v_lineno v) (variable_line v) s = (True, s1)" "writes fn s s1 [variable_line v]" by blast
    from Cons.IH [of s1] Cons.prems obtain s2 where
      s2: "save_vars se cfg configfile insts vs s1 = Some (True, s2)" "writes fn s1 s2 (map variable_line (filter (\<lambda>v. \<not> h v) vs))" by auto
    from writes_trans [OF s1(2) s2(2)] False s1(1) s2(1) Cons.prems show ?thesis by simp
  qed
qed

lemma template_has_value:
  assumes "\<forall>(n, a) \<in> set insts. cat_at cfg a \<noteq> None"
  shows "template_has cfg v insts = Some (\<exists>(n, a) \<in> set insts. inherited v (vars (the (cat_at cfg a))))"
  using assms
proof (induction insts)
  case (Cons x xs)
  obtain n a where x: "x = (n, a)" by (cases x)
  with Cons obtain c where "cat_at cfg a = Some c" by auto
  with Cons x show ?case by auto
qed simp

lemma inherited_view: "var_view v = var_view w \<Longrightarrow> w \<in> set base \<Longrightarrow> inherited v base"
  unfolding inherited_def var_view_def by (intro bexI [of _ w]) simp_all

lemma save_cat_vars:
  assumes "config_includes cfg = []" "fn = absolute se configfile" "sv_writable se fn"
    and "savable_cat cfg earlier c" "distinct (map cat_addr (cats cfg))" "set earlier \<subseteq> set (cats cfg)"
  shows "\<exists>s1. save_vars se cfg configfile (template_instances c) (vars c) s = Some (True, s1) \<and> writes fn s s1 (map variable_line (own_vars cfg c))"
proof -
  let ?h = "\<lambda>v. \<exists>(n, a) \<in> set (template_instances c). inherited v (vars (the (cat_at cfg a)))"
  let ?tv = "template_vars cfg c"
  have "cat_at cfg a \<noteq> None" if "(n, a) \<in> set (template_instances c)" for n a
  proof -
    have "\<forall>(n, a) \<in> set (template_instances c). \<exists>b \<in> set earlier. cat_addr b = a \<and> cat_name b = n" using assms(4) by (simp add: savable_cat_def)
    from bspec [OF this that] obtain b where b: "b \<in> set earlier" "cat_addr b = a" by auto
    have "cat_at cfg (cat_addr b) = Some b" by (rule cat_at_addr [OF assms(5)]) (use assms(6) b(1) in blast)
    with b(2) show ?thesis by simp
  qed
  then have "\<forall>(n, a) \<in> set (template_instances c). cat_at cfg a \<noteq> None" by blast
  then have h: "template_has cfg v (template_instances c) = Some (?h v)" for v by (rule template_has_value)
  have own: "\<forall>v \<in> set (own_vars cfg c). \<not> ?h v \<and> v_file v = []" using assms(4) by (auto simp: savable_cat_def)
  have inh: "?h v" if v: "v \<in> set (take (length ?tv) (vars c))" for v
  proof -
    have "map var_view (take (length ?tv) (vars c)) = map var_view ?tv" using assms(4) by (simp add: savable_cat_def)
    from arg_cong [OF this, of set] v have "var_view v \<in> var_view ` set ?tv" by auto
    then obtain w where w: "w \<in> set ?tv" "var_view v = var_view w" by blast
    from w(1) obtain x where "x \<in> set (template_instances c)" "w \<in> set (vars (the (cat_at cfg (snd x))))"
      by (auto simp: template_vars_def)
    with inherited_view [OF w(2)] show ?thesis by (intro bexI [of _ x]) (auto simp: split_def)
  qed
  have split: "vars c = take (length ?tv) (vars c) @ own_vars cfg c" by (simp add: own_vars_def)
  have "filter (\<lambda>v. \<not> ?h v) (vars c) = filter (\<lambda>v. \<not> ?h v) (take (length ?tv) (vars c)) @ filter (\<lambda>v. \<not> ?h v) (own_vars cfg c)"
    by (subst split) (simp only: filter_append)
  also have "\<dots> = own_vars cfg c" using inh own by (simp add: filter_True filter_False)
  finally have f: "filter (\<lambda>v. \<not> ?h v) (vars c) = own_vars cfg c" .
  have "v_file v = []" if "v \<in> set (vars c)" "\<not> ?h v" for v
  proof -
    have "v \<in> set (filter (\<lambda>v. \<not> ?h v) (vars c))" using that by simp
    with own show ?thesis unfolding f by blast
  qed
  then have "\<forall>v \<in> set (vars c). \<not> ?h v \<longrightarrow> v_file v = []" by blast
  from save_vars_writes [OF assms(1-3) _ this, of "template_instances c" s] h show ?thesis unfolding f by simp
qed

lemma save_cats_writes:
  assumes "config_includes cfg = []" "fn = absolute se configfile" "sv_writable se fn" "distinct (map cat_addr (cats cfg))"
    and "savable_from cfg earlier cs" "set (earlier @ cs) \<subseteq> set (cats cfg)"
  shows "\<exists>s1. save_cats se cfg configfile cs s = Some (True, s1) \<and> writes fn s s1 (concat (map (cat_entries cfg) cs))"
  using assms(5,6)
proof (induction cs arbitrary: earlier s)
  case Nil
  then show ?case using writes_refl by simp
next
  case (Cons c cs)
  have c: "savable_cat cfg earlier c" "cat_file c = []" "set earlier \<subseteq> set (cats cfg)" using Cons.prems by (auto simp: savable_cat_def)
  from save_entry_writes [OF assms(1-3) category_line_entry, of "cat_lineno c" c s] obtain s1 where
    s1: "save_entry se cfg configfile [] (cat_lineno c) (category_line c) s = (True, s1)" "writes fn s s1 [category_line c]" by blast
  from save_cat_vars [OF assms(1-3) c(1) assms(4) c(3), of s1] obtain s2 where
    s2: "save_vars se cfg configfile (template_instances c) (vars c) s1 = Some (True, s2)" "writes fn s1 s2 (map variable_line (own_vars cfg c))" by blast
  have "savable_from cfg (earlier @ [c]) cs" "set ((earlier @ [c]) @ cs) \<subseteq> set (cats cfg)" using Cons.prems by auto
  from Cons.IH [OF this, of s2] obtain s3 where
    s3: "save_cats se cfg configfile cs s2 = Some (True, s3)" "writes fn s2 s3 (concat (map (cat_entries cfg) cs))" by blast
  from writes_trans [OF writes_trans [OF s1(2) s2(2)] s3(2)] s1(1) s2(1) s3(1) c(2) show ?case by (simp add: cat_entries_def [of cfg c])
qed

text \<open>The lines of the header a saved file starts with.\<close>

definition header_lines :: "save_env \<Rightarrow> string \<Rightarrow> string \<Rightarrow> string list" where
  "header_lines se configfile fn =
     ['';!'' @ [newline], '';! Automatically generated configuration file'' @ [newline],
      '';! Filename: '' @ (if configfile \<noteq> fn then configfile @ '' ('' @ fn @ '')'' else configfile) @ [newline],
      '';! Generator: '' @ sv_generator se @ [newline], '';! Creation Date: '' @ sv_date se, '';!'' @ [newline]]"

lemma gen_header_lines: "length (sv_date se) \<le> 255 \<Longrightarrow> gen_header se configfile fn = concat (header_lines se configfile fn)"
  by (simp add: gen_header_def header_lines_def)

lemma header_inert: "\<forall>l \<in> set (header_lines se configfile fn). inert l"
  unfolding header_lines_def by (auto intro!: inert_comment)

lemma cat_line_ok:
  assumes "cat_ok c"
  shows "line_ok (category_line c)"
proof -
  note j = join_ok [OF header_list_ok [OF assms]]
  let ?b = "''['' @ cat_name c @ '']'' @ (if header_list c = [] then [] else ''('' @ join_names (header_list c) @ '')'')"
  have l: "category_line c = ?b @ [newline]" by (simp add: category_line_words)
  have "newline \<notin> set ?b" using assms j by (auto simp: cat_ok_def)
  then show ?thesis using assms unfolding line_ok_def cat_ok_def l by (simp del: append.simps append_assoc)
qed

lemma var_line_ok:
  assumes "var_ok v"
  shows "line_ok (variable_line v)"
proof -
  let ?b = "v_name v @ '' '' @ (if v_object v then ''=>'' else ''='') @ '' '' @ v_value v"
  have l: "variable_line v = ?b @ [newline]" using assms by (simp add: variable_line_def var_ok_def)
  have "newline \<notin> set ?b" using assms by (auto simp: var_ok_def name_ok_def value_ok_def)
  then show ?thesis using assms unfolding line_ok_def var_ok_def l by (simp del: append.simps append_assoc)
qed

lemma entries_ok:
  assumes "savable_from cfg earlier cs" "l \<in> set (concat (map (cat_entries cfg) cs))"
  shows "line_ok l"
  using assms
proof (induction cs arbitrary: earlier)
  case (Cons c cs)
  then show ?case using cat_line_ok [of c] var_line_ok by (auto simp: cat_entries_def savable_cat_def)
qed simp

lemma line_ok_newline: "line_ok [newline]" by (simp add: line_ok_def BUF_SIZE_def)

lemma save_text:
  assumes "savable cfg" "fn = absolute se configfile" "sv_writable se fn" "length (sv_date se) \<le> 255"
  shows "\<exists>files1 ls. ast_config_text_file_save se configfile cfg files = Some (0, files1) \<and>
    files1 fn = concat (header_lines se configfile fn @ ls) \<and> entries_of ls = concat (map (cat_entries cfg) (cats cfg))"
proof -
  let ?s0 = "\<lparr>sv_text = files, sv_line = Map.empty, sv_output = []\<rparr>"
  let ?s = "empty_file se configfile [] ?s0"
  have i: "config_includes cfg = []" and d: "distinct (map cat_addr (cats cfg))" and f: "savable_from cfg [] (cats cfg)"
    using assms(1) by (simp_all add: savable_def)
  have "sv_text ?s = files(fn := gen_header se configfile fn)"
    using assms(2,3) by (simp add: empty_file_def set_fn_def Let_def split: option.split)
  then have s: "sv_text ?s fn = concat (header_lines se configfile fn)" using gen_header_lines [OF assms(4)] by simp
  from save_cats_writes [OF i assms(2,3) d f, of ?s] obtain s1 where
    s1: "save_cats se cfg configfile (cats cfg) ?s = Some (True, s1)" "writes fn ?s s1 (concat (map (cat_entries cfg) (cats cfg)))" by auto
  from s1(2) obtain ls where ls: "sv_text s1 = (sv_text ?s)(fn := sv_text ?s fn @ concat ls)" "entries_of ls = concat (map (cat_entries cfg) (cats cfg))"
    unfolding writes_def by blast
  have "ast_config_text_file_save se configfile cfg files = Some (0, sv_text s1)"
    using s1(1) i assms(2,3) by (simp add: ast_config_text_file_save_def)
  moreover have "sv_text s1 fn = concat (header_lines se configfile fn @ ls)" using ls(1) s by simp
  ultimately show ?thesis using ls(2) by blast
qed

text \<open>
  C28: what is saved is what is loaded, for a configuration of one file that is \<open>savable\<close>: it has no inclusions; no
  two categories have names that are equal up to case; every template of a category stands in front of
  it; the variables of a category are first those of its templates, in order, and then its own; no template of a
  category has a variable with the name (up to case) and the value of one of its own variables, because saving takes such a
  variable for an inherited one and drops it (\<open>repeated_variable_dropped\<close>). Names and values fit on their lines:
  category names of at most 79 characters without closing bracket, semicolon and newline; names of variables without leading and
  trailing blanks, semicolon, equals sign and newline, not starting with an opening bracket or hash; values without leading and
  trailing blanks, semicolon and newline; lines shorter than the buffer; no blank lines recorded. Comments are not
  part of the model. When the file can be written, the lines of its header fit too, and
  loading reads what was written, then saving succeeds and loading gives the same categories in the same order, with their
  templates and variables, their names, values and kinds.
\<close>

theorem save_load_roundtrip:
  assumes "savable cfg" "fn = absolute se configfile" "sv_writable se fn" "length (sv_date se) \<le> 255"
    and "\<forall>l \<in> set (header_lines se configfile fn). line_ok l"
    and "expand fe (config_file_name fe configfile) = [f]"
    and "\<forall>files1. ast_config_text_file_save se configfile cfg files = Some (0, files1) \<longrightarrow> read_file fe (take 255 f) = Some (files1 fn)"
  shows "\<exists>files1 cfg1. ast_config_text_file_save se configfile cfg files = Some (0, files1) \<and>
    ast_config_load2 fe configfile = Some (LOADED, Some cfg1) \<and> map cat_view (cats cfg1) = map cat_view (cats cfg)"
proof -
  from save_text [OF assms(1-4), of files] obtain files1 ls where
    sv: "ast_config_text_file_save se configfile cfg files = Some (0, files1)" and t: "files1 fn = concat (header_lines se configfile fn @ ls)"
    and e: "entries_of ls = concat (map (cat_entries cfg) (cats cfg))" by blast
  have d: "distinct (map cat_addr (cats cfg))" "distinct (map (\<lambda>c. map c_tolower (cat_name c)) (cats cfg))" and sf: "savable_from cfg [] (cats cfg)"
    using assms(1) by (simp_all add: savable_def)
  have "line_ok l" if "l \<in> set ls" for l
  proof (cases "l = [newline]")
    case True
    then show ?thesis using line_ok_newline by simp
  next
    case False
    with that have "l \<in> set (entries_of ls)" by simp
    then show ?thesis unfolding e by (rule entries_ok [OF sf])
  qed
  with assms(5) have "\<forall>l \<in> set (header_lines se configfile fn @ ls). line_ok l" by auto
  from read_concat [OF this] have r: "read_lines (files1 fn) = map Some (header_lines se configfile fn) @ map Some ls" using t by simp
  let ?cfg = "ast_config_new\<lparr>include_level := 1\<rparr>"
  let ?t = "\<lparr>ls_cfg = ?cfg, ls_cat = None, ls_comment = 0, ls_lineno = 0\<rparr>"
  let ?load = "ast_config_internal_load 11 fe"
  have "reads ?t []" by (simp add: reads_def wf_load_def wf_config_def ast_config_new_def last_pos_def)
  from load_inerts [where bs = "header_lines se configfile fn", OF header_inert this, of fe ?load "take 255 f" "[]" "map Some ls"] obtain u where
    u: "reads u []" "load_lines fe ?load (take 255 f) [] (read_lines (files1 fn)) ?t = load_lines fe ?load (take 255 f) [] (map Some ls) u"
    unfolding r by blast
  from load_entries [OF sf d(1) _ _ _ e, of u fe ?load "take 255 f" "[]"] d(2) u(1) obtain v where
    v: "load_lines fe ?load (take 255 f) [] (map Some ls) u = Some (True, v)" "reads v (map cat_view (cats cfg))" by auto
  have c: "config_text_file_load fe ?load configfile ?cfg [] = Some (LOADED, ls_cfg v)"
    using assms(6) assms(7) [rule_format, OF sv] u(2) v(1) by (simp add: config_text_file_load_def ast_config_new_def)
  have "ast_config_internal_load 12 fe configfile ast_config_new [] = Some (LOADED, (ls_cfg v)\<lparr>include_level := include_level (ls_cfg v) - 1\<rparr>)"
    using c by (simp add: eval_nat_numeral ast_config_new_def)
  then have "ast_config_load2 fe configfile = Some (LOADED, Some ((ls_cfg v)\<lparr>include_level := include_level (ls_cfg v) - 1\<rparr>))"
    by (simp add: ast_config_load2_def)
  moreover have "map cat_view (cats (ls_cfg v)) = map cat_view (cats cfg)" using v(2) by (simp add: reads_def)
  ultimately show ?thesis using sv by auto
qed

text \<open>A template, and a category with a variable of the template and one of its own.\<close>

definition template_example :: ast_config where
  "template_example = example_config
     [(example_category 0 ''t'' [ast_variable_new ''x'' ''1'' []])\<lparr>ignored := True\<rparr>,
      (example_category 1 ''c'' [variable_clone (ast_variable_new ''x'' ''1'' []), (ast_variable_new ''y'' ''2 3'' [])\<lparr>v_object := True\<rparr>])
        \<lparr>template_instances := [(''t'', 0)]\<rparr>]"

definition example_save_env :: save_env where
  "example_save_env = \<lparr>sv_dir = ''/etc'', sv_writable = (\<lambda>f. True), sv_date = ''now'' @ [newline], sv_generator = ''manager''\<rparr>"

definition example_file_env :: file_env where
  "example_file_env = \<lparr>config_dir = ''/etc'', expand = (\<lambda>f. [f]),
     read_file = (\<lambda>f. map_option (\<lambda>r. snd r ''/etc/a.conf'') (ast_config_text_file_save example_save_env ''a.conf'' template_example (\<lambda>_. []))),
     existing = []\<rparr>"

theorem save_load_roundtrip_witness:
  "\<exists>files1 cfg1. ast_config_text_file_save example_save_env ''a.conf'' template_example (\<lambda>_. []) = Some (0, files1) \<and>
    ast_config_load2 example_file_env ''a.conf'' = Some (LOADED, Some cfg1) \<and> map cat_view (cats cfg1) = map cat_view (cats template_example)"
proof (rule save_load_roundtrip [where fn = "''/etc/a.conf''" and f = "config_file_name example_file_env ''a.conf''"])
  show "savable template_example" by code_simp
  show "''/etc/a.conf'' = absolute example_save_env ''a.conf''" by code_simp
  show "\<forall>l \<in> set (header_lines example_save_env ''a.conf'' ''/etc/a.conf''). line_ok l" by code_simp
qed (simp_all add: example_save_env_def example_file_env_def)

text \<open>
  A category that repeats a variable of its template behind a variable of its own: the repetition is not written, so
  that it is gone after the file is loaded again.
\<close>

definition repeated_example :: ast_config where
  "repeated_example = example_config
     [(example_category 0 ''t'' [ast_variable_new ''x'' ''1'' []])\<lparr>ignored := True\<rparr>,
      (example_category 1 ''c'' [variable_clone (ast_variable_new ''x'' ''1'' []), ast_variable_new ''y'' ''2'' [], ast_variable_new ''x'' ''1'' []])
        \<lparr>template_instances := [(''t'', 0)]\<rparr>]"

lemma repeated_variable_dropped:
  "map_option (\<lambda>r. drop (length (gen_header example_save_env ''a.conf'' ''/etc/a.conf'')) (snd r ''/etc/a.conf''))
    (ast_config_text_file_save example_save_env ''a.conf'' repeated_example (\<lambda>_. [])) =
    Some (''[t](!)'' @ [newline] @ ''x = 1'' @ [newline] @ ''[c](t)'' @ [newline] @ ''y = 2'' @ [newline])"
  by code_simp

section \<open>Semicolons\<close>

text \<open>
  C33: a semicolon in a value is saved as it is, without the backslash it was written with: when the saved line is
  loaded, the variable has only what stands in front of the semicolon.
\<close>

theorem semicolon_cuts_saved_value:
  assumes "name_ok (v_name v)" "v_value v = a @ '';'' @ b" "value_ok a" "a = [] \<or> last a \<noteq> backslash"
    and "\<not> dashed (variable_line v)" "reads t (vs @ [(n, i, ts, ws)])"
  shows "\<exists>u. load_lines fe load fn sg (Some (variable_line v) # ls) t = load_lines fe load fn sg ls u \<and>
    reads u (vs @ [(n, i, ts, ws @ [(v_name v, a, v_object v)])])"
proof -
  let ?op = "if v_object v then ''=>'' else ''=''"
  let ?x = "v_name v @ '' '' @ ?op @ '' '' @ a"
  have "variable_line v = ?x @ CHR '';'' # b @ [newline] @ replicate (nat (v_blanklines v)) newline"
    using assms(2) by (simp add: variable_line_def)
  moreover have "CHR '';'' \<notin> set ?x" "?x = [] \<or> last ?x \<noteq> backslash" using assms(1,3,4) by (auto simp: name_ok_def value_ok_def)
  ultimately have "visible (variable_line v) = ?x" using visible_comment [of ?x] by simp
  with loop_outside [OF assms(5), of "[]"] have st: "strip_comments 0 (variable_line v) = Some (0, Some ?x)" by (simp add: strip_comments_def)
  let ?w = "v\<lparr>v_value := a\<rparr>"
  have "ast_strip ?x = variable_text ?w"
    using strip_variable_line [OF assms(1,3), of ?op "[]"] by (simp add: variable_text_def)
  from load_variable_text [OF _ _ st this assms(6), of fe load fn sg ls] assms(1,3) show ?thesis by (auto simp: var_view_def)
qed

theorem semicolon_cuts_saved_value_witness:
  "\<exists>u. load_lines example_file_env (\<lambda>f cfg s. None) ''a'' [] (Some (variable_line (ast_variable_new ''x'' ''1;2'' [])) # [])
      \<lparr>ls_cfg = (example_config [example_category 0 ''g'' []])\<lparr>fresh_addr := 1\<rparr>, ls_cat = Some 0, ls_comment = 0, ls_lineno = 0\<rparr> =
      load_lines example_file_env (\<lambda>f cfg s. None) ''a'' [] [] u \<and>
    reads u ([] @ [(''g'', False, [], [] @ [(v_name (ast_variable_new ''x'' ''1;2'' []), ''1'', v_object (ast_variable_new ''x'' ''1;2'' []))])])"
proof (rule semicolon_cuts_saved_value [where b = "''2''"])
  show "name_ok (v_name (ast_variable_new ''x'' ''1;2'' []))" by code_simp
  show "value_ok ''1''" by code_simp
  show "\<not> dashed (variable_line (ast_variable_new ''x'' ''1;2'' []))"
    by (simp add: dashed_def sublist_Cons_right variable_line_def ast_variable_new_def)
qed (simp_all add: ast_variable_new_def reads_def wf_load_def wf_config_def wf_category_def cat_view_def example_config_def example_category_def
  ast_category_new_def ast_config_new_def last_pos_def)

end
