(* ===== verification/Ast_G711.thy ===== *)
theory Ast_G711
  imports Ast_Prelude
begin

text \<open>
  The conversion between linear samples and the logarithmic codes of telephony, \<open>main/ulaw.c\<close> and
  \<open>main/alaw.c\<close>, as they are built by default: tables that are filled at the start, indexed by the upper
  bits of a sample. A sample is an integer of 16 bits, a code a byte. The locale \<open>companding\<close> is what
  both codes provide; they are accurate in proportion to the sample, and coding again what was decoded changes nothing.
\<close>

unbundle bit_operations_syntax

section \<open>Tables\<close>

definition to_short :: "int \<Rightarrow> int" where
  "to_short x = (x + 32768) mod 65536 - 32768"

text \<open>The loop over all samples: a later sample overwrites what an earlier one with the same index has left.\<close>

definition fill_table :: "nat \<Rightarrow> (int \<Rightarrow> 8 word) \<Rightarrow> 8 word list" where
  "fill_table shift encode =
     fold (\<lambda>i t. t[nat (drop_bit shift (i mod 65536)) := encode i]) [-32768..32767] (replicate (2 ^ (16 - shift)) 0)"

section \<open>The code of \<open>main/ulaw.c\<close>\<close>

definition BIAS :: int where "BIAS = 0x84"

definition CLIP :: int where "CLIP = 32635"

definition exp_lut :: "nat list" where
  "exp_lut = [0, 0, 1, 1] @ replicate 4 2 @ replicate 8 3 @ replicate 16 4 @ replicate 32 5 @ replicate 64 6 @ replicate 128 7"

definition linear2ulaw :: "int \<Rightarrow> 8 word" where
  "linear2ulaw x =
     (let sign = drop_bit 8 x AND 0x80;
          sample = (if sign \<noteq> 0 then to_short (- x) else x);
          sample = (if sample > CLIP then CLIP else sample);
          sample = to_short (sample + BIAS);
          exponent = exp_lut ! nat (drop_bit 7 sample AND 0xFF);
          mantissa = drop_bit (exponent + 3) sample AND 0x0F
      in NOT (word_of_int (sign OR push_bit 4 (int exponent) OR mantissa)))"

definition ulaw_etab :: "int list" where
  "ulaw_etab = [0, 132, 396, 924, 1980, 4092, 8316, 16764]"

definition mulaw_entry :: "int \<Rightarrow> int" where
  "mulaw_entry i =
     (let mu = 255 - i;
          e = nat ((mu AND 0x70) div 16);
          f = mu AND 0x0F;
          y = f * 2 ^ (e + 3) + ulaw_etab ! e
      in if mu AND 0x80 \<noteq> 0 then - y else y)"

definition ast_mulaw :: "int list" where
  "ast_mulaw = map mulaw_entry [0..255]"

definition ast_lin2mu :: "8 word list" where
  "ast_lin2mu = fill_table 2 linear2ulaw"

definition AST_LIN2MU :: "int \<Rightarrow> 8 word" where
  "AST_LIN2MU a = ast_lin2mu ! nat (drop_bit 2 (a mod 65536))"

definition AST_MULAW :: "8 word \<Rightarrow> int" where
  "AST_MULAW a = ast_mulaw ! unat a"

section \<open>The code of \<open>main/alaw.c\<close>\<close>

definition AMI_MASK :: int where "AMI_MASK = 0x55"

definition seg_end :: "int list" where
  "seg_end = [0xFF, 0x1FF, 0x3FF, 0x7FF, 0xFFF, 0x1FFF, 0x3FFF, 0x7FFF]"

definition linear2alaw :: "int \<Rightarrow> 8 word" where
  "linear2alaw linear =
     (let msk = (if linear \<ge> 0 then AMI_MASK OR 0x80 else AMI_MASK);
          pcm_val = (if linear \<ge> 0 then linear else - linear);
          seg = length (takeWhile (\<lambda>e. \<not> pcm_val \<le> e) seg_end)
      in word_of_int ((push_bit 4 (int seg) OR (drop_bit (if seg \<noteq> 0 then seg + 3 else 4) pcm_val AND 0x0F)) XOR msk))"

definition alaw2linear :: "8 word \<Rightarrow> int" where
  "alaw2linear code =
     (let alaw = uint code XOR AMI_MASK;
          i = push_bit 4 (alaw AND 0x0F) + 8;
          seg = nat (drop_bit 4 (alaw AND 0x70));
          i = (if seg \<noteq> 0 then push_bit (seg - 1) (i + 0x100) else i)
      in to_short (if alaw AND 0x80 \<noteq> 0 then i else - i))"

definition ast_alaw :: "int list" where
  "ast_alaw = map (\<lambda>i. alaw2linear (word_of_int i)) [0..255]"

definition ast_lin2a :: "8 word list" where
  "ast_lin2a = fill_table 3 linear2alaw"

definition AST_LIN2A :: "int \<Rightarrow> 8 word" where
  "AST_LIN2A a = ast_lin2a ! nat (drop_bit 3 (a mod 65536))"

definition AST_ALAW :: "8 word \<Rightarrow> int" where
  "AST_ALAW a = ast_alaw ! unat a"

section \<open>What a table holds\<close>

lemma fold_update_length: "length (fold (\<lambda>i t. t[idx i := g i]) is t) = length t"
  by (induction "is" arbitrary: t) simp_all

lemma fold_update_other: "\<forall>i \<in> set is. idx i \<noteq> k \<Longrightarrow> fold (\<lambda>i t. t[idx i := g i]) is t ! k = t ! k"
  by (induction "is" arbitrary: t) simp_all

lemma fold_update_last:
  assumes "l \<le> j" "j \<le> u" "idx j < length t" "\<forall>i. j < i \<and> i \<le> u \<longrightarrow> idx i \<noteq> idx j"
  shows "fold (\<lambda>i t. t[idx i := g i]) [l..u] t ! idx j = (g (j :: int) :: 'a)"
proof -
  have s: "[l..u] = [l..j - 1] @ j # [j + 1..u]" using assms(1,2) by (rule upto_split3)
  have "\<forall>i \<in> set [j + 1..u]. idx i \<noteq> idx j" using assms(4) by auto
  then show ?thesis using assms(3) by (simp add: s fold_update_other fold_update_length)
qed

lemma index_div: "0 < p \<Longrightarrow> 0 < n \<Longrightarrow> (i :: int) mod (p * n) div p = i div p mod n"
  by (simp add: zmod_zmult2_eq)

lemma div_below:
  assumes "0 < p" "x < h * p"
  shows "x div p < (h :: int)"
proof (rule ccontr)
  assume "\<not> x div p < h"
  then have "h * p \<le> x div p * p" using assms(1) by (intro mult_right_mono) simp_all
  moreover have "x div p * p \<le> x" using assms(1) by (metis div_mult_mod_eq le_add_same_cancel1 pos_mod_sign)
  ultimately show False using assms(2) by simp
qed

lemma div_above:
  assumes "0 < p" "- h * p \<le> x"
  shows "- h \<le> x div (p :: int)"
proof -
  have "(- h * p) div p = - h" by (rule nonzero_mult_div_cancel_right) (use assms(1) in simp)
  moreover have "(- h * p) div p \<le> x div p" by (rule zdiv_mono1 [OF assms(2,1)])
  ultimately show ?thesis by linarith
qed

lemma same_residue:
  assumes "a \<le> b" "b < a + n" "(b :: int) mod n = a mod n"
  shows "b = a"
proof (rule ccontr)
  assume "b \<noteq> a"
  moreover have "n dvd b - a" using assms(3) by (simp add: mod_eq_dvd_iff)
  ultimately show False using assms(1,2) zdvd_imp_le [of n "b - a"] by simp
qed

lemma fill_table_entry:
  assumes "shift \<le> 15" "- 32768 \<le> x" "x \<le> 32767"
  shows "fill_table shift encode ! nat (drop_bit shift (x mod 65536)) = encode (x div 2 ^ shift * 2 ^ shift + (2 ^ shift - 1))"
proof -
  define p h :: int where "p = 2 ^ shift" and "h = 2 ^ (15 - shift)"
  have ph: "0 < p" "0 < h" "p * h = 32768" using assms(1) by (simp_all add: p_def h_def flip: power_add)
  let ?idx = "\<lambda>i. nat (drop_bit shift (i mod 65536))" and ?j = "x div p * p + (p - 1)"
  have p2h: "p * (2 * h) = 65536" using ph(3) by (simp add: mult.commute)
  have idx: "?idx i = nat (i div p mod (2 * h))" for i
    using index_div [of p "2 * h" i] ph(1,2) unfolding p2h by (simp add: drop_bit_eq_div p_def [symmetric])
  have hp: "h * p = 32768" using ph(3) by (simp add: mult.commute)
  have k: "- h \<le> x div p" "x div p < h" by (rule div_above, use assms(2) hp ph(1) in simp_all) (rule div_below, use assms(3) ph(1) hp in simp_all)
  have jp: "?j div p = x div p" using ph(1) by simp
  have "- h * p \<le> x div p * p" "(x div p + 1) * p \<le> h * p" using k ph(1) by (intro mult_right_mono; simp)+
  then have r: "- 32768 \<le> ?j" "?j \<le> 32767" using hp ph(1) by (simp_all add: distrib_right)
  have "nat (2 * h) = 2 ^ (16 - shift)" using assms(1) by (simp add: h_def nat_mult_distrib nat_power_eq Suc_diff_le flip: power_Suc)
  moreover have "nat (?j div p mod (2 * h)) < nat (2 * h)" using ph(2) by (simp add: nat_less_eq_zless)
  ultimately have len: "?idx ?j < length (replicate (2 ^ (16 - shift)) (0 :: 8 word))" by (simp only: idx length_replicate)
  have "?idx i \<noteq> ?idx ?j" if "?j < i" "i \<le> 32767" for i
  proof
    assume "?idx i = ?idx ?j"
    then have m: "i div p mod (2 * h) = x div p mod (2 * h)" unfolding idx jp using ph(2) by (simp add: eq_nat_nat_iff)
    have "x div p \<le> i div p" using zdiv_mono1 [of ?j i p] that(1) ph(1) jp by simp
    moreover have "i div p < h" by (rule div_below) (use that(2) ph(1) hp in simp_all)
    ultimately have "i div p = x div p" using same_residue [OF _ _ m] k by simp
    then have "i < x div p * p + p" using ph(1) by (metis add_less_cancel_left div_mult_mod_eq pos_mod_bound)
    with that(1) show False by simp
  qed
  then have "\<forall>i. ?j < i \<and> i \<le> 32767 \<longrightarrow> ?idx i \<noteq> ?idx ?j" by blast
  from fold_update_last [OF r len this, of encode] have "fill_table shift encode ! ?idx ?j = encode ?j" unfolding fill_table_def .
  moreover have "?idx ?j = ?idx x" by (simp only: idx jp)
  ultimately show ?thesis by (simp add: p_def)
qed

lemma AST_LIN2MU_last: "- 32768 \<le> x \<Longrightarrow> x \<le> 32767 \<Longrightarrow> AST_LIN2MU x = linear2ulaw (x div 4 * 4 + 3)"
  using fill_table_entry [of 2 x linear2ulaw] by (simp add: AST_LIN2MU_def ast_lin2mu_def)

lemma AST_LIN2A_last: "- 32768 \<le> x \<Longrightarrow> x \<le> 32767 \<Longrightarrow> AST_LIN2A x = linear2alaw (x div 8 * 8 + 7)"
  using fill_table_entry [of 3 x linear2alaw] by (simp add: AST_LIN2A_def ast_lin2a_def)

lemma unat_byte: "unat (b :: 8 word) < 256"
proof -
  have "unat b < 2 ^ LENGTH(8)" by (rule unsigned_less)
  then show ?thesis by simp
qed

lemma byte_cases:
  assumes "list_all P (map word_of_nat [0..<256])"
  shows "P (b :: 8 word)"
proof -
  have "unat b < 256" by (rule unat_byte)
  then have "word_of_nat (unat b) \<in> set (map word_of_nat [0..<256] :: 8 word list)" by (auto intro!: image_eqI [of _ _ "unat b"])
  with assms show ?thesis by (auto simp: list_all_iff)
qed

lemma upto_byte: "unat (b :: 8 word) < length [0..255] \<and> [0..255] ! unat b = uint b"
proof -
  have "nth [0..255] (unat b) = 0 + int (unat b)" by (rule nth_upto) (use unat_byte [of b] in linarith)
  then show ?thesis using unat_byte [of b] by (simp del: upto.simps)
qed

lemma AST_MULAW_entry: "AST_MULAW b = mulaw_entry (uint b)"
  unfolding AST_MULAW_def ast_mulaw_def using upto_byte [of b] by (simp only: nth_map)

lemma AST_ALAW_entry: "AST_ALAW b = alaw2linear b"
  unfolding AST_ALAW_def ast_alaw_def using upto_byte [of b] by (simp only: nth_map word_of_int_uint)

section \<open>Coding a sample\<close>

lemma exp_lut_log: "1 \<le> k \<Longrightarrow> k < 256 \<Longrightarrow> 2 ^ (exp_lut ! k) \<le> k \<and> k < 2 ^ (exp_lut ! k + 1) \<and> exp_lut ! k \<le> 7"
proof -
  have "list_all (\<lambda>k. 2 ^ (exp_lut ! k) \<le> k \<and> k < 2 ^ (exp_lut ! k + 1) \<and> exp_lut ! k \<le> 7) [1..<256]" by code_simp
  then show "1 \<le> k \<Longrightarrow> k < 256 \<Longrightarrow> 2 ^ (exp_lut ! k) \<le> k \<and> k < 2 ^ (exp_lut ! k + 1) \<and> exp_lut ! k \<le> 7"
    by (simp add: list_all_iff)
qed

lemma ulaw_decode:
  assumes "s \<in> {0, 128}" "e \<le> 7" "0 \<le> q" "q \<le> 15"
  shows "mulaw_entry (uint (NOT (word_of_int (s OR push_bit 4 (int e) OR q)) :: 8 word)) =
    (if s = 0 then 1 else -1) * (q * 2 ^ (e + 3) + 132 * (2 ^ e - 1))"
proof -
  have "list_all (\<lambda>s. list_all (\<lambda>e. list_all (\<lambda>q. mulaw_entry (uint (NOT (word_of_int (s OR push_bit 4 (int e) OR q)) :: 8 word)) =
    (if s = 0 then 1 else -1) * (q * 2 ^ (e + 3) + 132 * (2 ^ e - 1))) [0..15]) [0..<8]) [0, 128]" by code_simp
  with assms show ?thesis by (auto simp: list_all_iff)
qed

lemma alaw_decode:
  assumes "m \<in> {AMI_MASK, AMI_MASK OR 0x80}" "e \<le> 7" "0 \<le> q" "q \<le> 15"
  shows "alaw2linear (word_of_int ((push_bit 4 (int e) OR q) XOR m)) =
    (if m = AMI_MASK then -1 else 1) * (if e = 0 then q * 16 + 8 else (q + 16) * 2 ^ (e + 3) + 2 ^ (e + 2))"
proof -
  have "list_all (\<lambda>m. list_all (\<lambda>e. list_all (\<lambda>q. alaw2linear (word_of_int ((push_bit 4 (int e) OR q) XOR m)) =
    (if m = AMI_MASK then -1 else 1) * (if e = 0 then q * 16 + 8 else (q + 16) * 2 ^ (e + 3) + 2 ^ (e + 2))) [0..15]) [0..<8]) [AMI_MASK, AMI_MASK OR 0x80]" by code_simp
  then have "\<forall>m \<in> {AMI_MASK, AMI_MASK OR 0x80}. \<forall>e \<in> {0..<8}. \<forall>q \<in> {0..15}. alaw2linear (word_of_int ((push_bit 4 (int e) OR q) XOR m)) =
    (if m = AMI_MASK then -1 else 1) * (if e = 0 then q * 16 + 8 else (q + 16) * 2 ^ (e + 3) + 2 ^ (e + 2))"
    unfolding list_all_iff by (simp del: mult_minus1)
  moreover have "e \<in> {0..<8}" "q \<in> {0..15}" using assms(2-) by auto
  ultimately show ?thesis using assms(1) by blast
qed

lemma mod_mask: "(x :: int) AND 0x0F = x mod 16" "x AND 0xFF = x mod 256"
  using take_bit_eq_mask [of 4 x] take_bit_eq_mask [of 8 x] by (simp_all add: take_bit_eq_mod mask_eq_exp_minus_1)

lemma sign_bit: "- 32768 \<le> x \<Longrightarrow> x \<le> 32767 \<Longrightarrow> drop_bit 8 x AND 0x80 = (if x < 0 then 128 else (0 :: int))"
proof -
  assume x: "- 32768 \<le> x" "x \<le> 32767"
  have "list_all (\<lambda>k. k AND 0x80 = (if k < 0 then 128 else (0 :: int))) [-128..127]" by code_simp
  then have "\<forall>k \<in> {-128..127}. k AND 0x80 = (if k < 0 then 128 else (0 :: int))" unfolding list_all_iff set_upto .
  moreover have "drop_bit 8 x \<in> {-128..127}" "drop_bit 8 x < 0 \<longleftrightarrow> x < 0" using x by (auto simp: drop_bit_eq_div)
  ultimately show ?thesis by metis
qed

text \<open>A number and the step of the scale it is on.\<close>

lemma scale_step:
  assumes "2 ^ (e + 7) \<le> m" "m < 2 ^ (e + 8)"
  shows "16 \<le> m div 2 ^ (e + 3)" "m div 2 ^ (e + 3) < 32" "m div 2 ^ (e + 3) * 2 ^ (e + 3) \<le> m" "m < m div 2 ^ (e + 3) * 2 ^ (e + 3) + (2 :: int) ^ (e + 3)"
proof -
  let ?p = "2 ^ (e + 3) :: int"
  have p: "2 ^ (e + 7) = 16 * ?p" "2 ^ (e + 8) = 32 * ?p" "0 < ?p" by (simp_all add: power_add)
  show "16 \<le> m div ?p" using zdiv_mono1 [OF assms(1) p(3)] p by simp
  show l: "m div ?p * ?p \<le> m" using p(3) by (metis div_mult_mod_eq le_add_same_cancel1 pos_mod_sign)
  have "m div ?p * ?p < 32 * ?p" using l assms(2) p(2) by linarith
  then show "m div ?p < 32" using p(3) by (simp add: mult_less_cancel_right)
  show "m < m div ?p * ?p + ?p" using p(3) by (metis add_less_cancel_left div_mult_mod_eq pos_mod_bound)
qed

lemma mod_16: "16 \<le> k \<Longrightarrow> k < 32 \<Longrightarrow> (k :: int) mod 16 = k - 16"
  by presburger

text \<open>The direct conversions are exact up to a thirty-second part of the sample; the least sample is not among them.\<close>

lemma ulaw_close:
  assumes "- 32768 < x" "x \<le> 32767"
  shows "32 * \<bar>AST_MULAW (linear2ulaw x) - x\<bar> \<le> \<bar>x\<bar> + 132"
proof -
  let ?c = "if \<bar>x\<bar> > CLIP then CLIP else \<bar>x\<bar>" and ?s = "if x < 0 then 128 else (0 :: int)"
  define m where "m = ?c + 132"
  define e where "e = exp_lut ! nat (m div 128)"
  define q where "q = m div 2 ^ (e + 3) - 16"
  have m: "132 \<le> m" "m \<le> 32767" by (auto simp: m_def CLIP_def)
  have "1 \<le> nat (m div 128)" "nat (m div 128) < 256" using m by linarith+
  from exp_lut_log [OF this] have e: "2 ^ e \<le> nat (m div 128)" "nat (m div 128) < 2 ^ (e + 1)" "e \<le> 7" by (simp_all add: e_def)
  have "(2 :: int) ^ e \<le> m div 128" "m div 128 < 2 ^ (e + 1)" using e(1,2) m(1) by (simp_all add: nat_less_iff le_nat_iff)
  then have em: "2 ^ (e + 7) \<le> m" "m < 2 ^ (e + 8)" by (simp_all add: power_add)
  note st = scale_step [OF em]
  have q: "0 \<le> q" "q \<le> 15" "(m div 2 ^ (e + 3)) mod 16 = q" using st(1,2) mod_16 [OF st(1,2)] by (auto simp: q_def)
  have "(if drop_bit 8 x AND 0x80 \<noteq> 0 then to_short (- x) else x) = \<bar>x\<bar>" using assms sign_bit [of x] by (simp add: to_short_def)
  moreover have "to_short (?c + BIAS) = m" using m by (simp add: to_short_def BIAS_def m_def)
  moreover have "drop_bit 7 m AND 0xFF = m div 128" using m by (simp add: mod_mask drop_bit_eq_div)
  ultimately have "linear2ulaw x = NOT (word_of_int (?s OR push_bit 4 (int e) OR q))"
    unfolding linear2ulaw_def Let_def using assms sign_bit [of x] q(3) by (simp only: mod_mask drop_bit_eq_div e_def)
  then have d: "AST_MULAW (linear2ulaw x) = (if x < 0 then -1 else 1) * (q * 2 ^ (e + 3) + 132 * (2 ^ e - 1))"
    using ulaw_decode [of ?s e q] e(3) q by (simp add: AST_MULAW_entry)
  have "q * 2 ^ (e + 3) + 132 * (2 ^ e - 1) = m div 2 ^ (e + 3) * 2 ^ (e + 3) + 2 ^ (e + 2) - 132"
    by (simp add: q_def power_add algebra_simps)
  moreover have "(2 :: int) ^ (e + 3) = 2 * 2 ^ (e + 2)" by (simp add: power_add)
  ultimately have y: "\<bar>q * 2 ^ (e + 3) + 132 * (2 ^ e - 1) - (m - 132)\<bar> \<le> 2 ^ (e + 2)" using st(3,4) by linarith
  have b: "32 * 2 ^ (e + 2) \<le> m" "(2 :: int) ^ (e + 2) \<le> 512"
    using em(1) power_increasing [of "e + 2" 9 "2 :: int"] e(3) by (simp_all add: power_add)
  let ?y = "q * 2 ^ (e + 3) + 132 * (2 ^ e - 1)"
  have a: "\<bar>AST_MULAW (linear2ulaw x) - x\<bar> = \<bar>?y - \<bar>x\<bar>\<bar>" using d by (simp add: abs_if)
  show ?thesis
  proof (cases "\<bar>x\<bar> > CLIP")
    case True
    then have "m - 132 = 32635" "32635 < \<bar>x\<bar>" "\<bar>x\<bar> \<le> 32767" using assms by (simp_all add: m_def CLIP_def abs_le_iff)
    moreover from this y b(2) have "\<bar>?y - \<bar>x\<bar>\<bar> \<le> 644" by linarith
    moreover have "32 * k \<le> l + 132" if "k \<le> 644" "32635 < l" for k l :: int using that by simp
    ultimately show ?thesis unfolding a by blast
  next
    case False
    then have "m - 132 = \<bar>x\<bar>" by (simp add: m_def)
    with y have "\<bar>?y - \<bar>x\<bar>\<bar> \<le> 2 ^ (e + 2)" by simp
    moreover have "32 * k \<le> l + 132" if "k \<le> 2 ^ (e + 2)" "l = m - 132" for k l :: int using that b(1) by linarith
    ultimately show ?thesis unfolding a using \<open>m - 132 = \<bar>x\<bar>\<close> by metis
  qed
qed

lemma seg_end_log:
  assumes "0 \<le> m" "m \<le> 32767" "seg = length (takeWhile (\<lambda>e. \<not> m \<le> e) seg_end)"
  shows "seg \<le> 7 \<and> (if seg = 0 then m \<le> 255 else 2 ^ (seg + 7) \<le> m \<and> m < 2 ^ (seg + 8))"
  using assms by (simp add: seg_end_def)

lemma alaw_close:
  assumes "- 32768 < x" "x \<le> 32767"
  shows "32 * \<bar>AST_ALAW (linear2alaw x) - x\<bar> \<le> \<bar>x\<bar> + 256"
proof -
  define m where "m = \<bar>x\<bar>"
  define seg where "seg = length (takeWhile (\<lambda>e. \<not> m \<le> e) seg_end)"
  define q where "q = m div 2 ^ (if seg = 0 then 4 else seg + 3) mod 16"
  let ?msk = "if x \<ge> 0 then AMI_MASK OR 0x80 else AMI_MASK"
  have m: "0 \<le> m" "m \<le> 32767" using assms by (auto simp: m_def)
  note s = seg_end_log [OF m seg_def]
  have "linear2alaw x = word_of_int ((push_bit 4 (int seg) OR q) XOR ?msk)"
    by (simp add: linear2alaw_def Let_def mod_mask drop_bit_eq_div q_def seg_def m_def abs_if)
  moreover have "AMI_MASK OR 0x80 \<noteq> AMI_MASK" by (simp add: AMI_MASK_def)
  moreover have q: "0 \<le> q" "q \<le> 15" by (simp_all add: q_def)
  ultimately have d: "AST_ALAW (linear2alaw x) = (if x \<ge> 0 then 1 else -1) * (if seg = 0 then q * 16 + 8 else (q + 16) * 2 ^ (seg + 3) + 2 ^ (seg + 2))"
    using alaw_decode [of ?msk seg q] s by (simp add: AST_ALAW_entry)
  have "32 * \<bar>(if seg = 0 then q * 16 + 8 else (q + 16) * 2 ^ (seg + 3) + 2 ^ (seg + 2)) - m\<bar> \<le> m + 256"
  proof (cases "seg = 0")
    case True
    with s m have "q = m div 16" by (simp add: q_def)
    moreover have "m div 16 * 16 \<le> m" "m < m div 16 * 16 + 16" by linarith+
    ultimately have "\<bar>q * 16 + 8 - m\<bar> \<le> 8" by simp
    with True m show ?thesis by simp
  next
    case False
    then have em: "2 ^ (seg + 7) \<le> m" "m < 2 ^ (seg + 8)" using s by auto
    note st = scale_step [OF em]
    have "q + 16 = m div 2 ^ (seg + 3)" using mod_16 [OF st(1,2)] False by (simp add: q_def)
    with st(3,4) have "\<bar>(q + 16) * 2 ^ (seg + 3) + 2 ^ (seg + 2) - m\<bar> \<le> 2 ^ (seg + 2)" by (simp add: power_add)
    moreover have "32 * 2 ^ (seg + 2) \<le> m" using em(1) by (simp add: power_add)
    ultimately show ?thesis using False m by simp
  qed
  then show ?thesis unfolding d by (auto simp: m_def abs_if split: if_splits)
qed

section \<open>Companding\<close>

text \<open>
  What a code provides: the table looks a sample up at the last sample of its group, the direct conversion is close
  to the sample, and a decoded sample is coded so that the same comes out.
\<close>

locale companding =
  fixes encode lookup :: "int \<Rightarrow> 8 word" and decode :: "8 word \<Rightarrow> int" and width slack :: int
  assumes width: "1 < width" "32768 mod width = 0"
    and lookup_last: "- 32768 \<le> x \<Longrightarrow> x \<le> 32767 \<Longrightarrow> lookup x = encode (x div width * width + (width - 1))"
    and encode_close: "- 32768 < x \<Longrightarrow> x \<le> 32767 \<Longrightarrow> 32 * \<bar>decode (encode x) - x\<bar> \<le> \<bar>x\<bar> + slack"
    and decode_again: "decode (lookup (decode b)) = decode b"
begin

lemma lookup_close:
  assumes "- 32768 \<le> x" "x \<le> 32767"
  shows "\<bar>decode (lookup x) - x\<bar> \<le> (\<bar>x\<bar> + width - 1 + slack) div 32 + (width - 1)"
proof -
  let ?y = "x div width * width + (width - 1)"
  have m: "x = x div width * width + x mod width" "0 \<le> x mod width" "x mod width < width" using width(1) by simp_all
  have y: "x \<le> ?y" "?y \<le> x + (width - 1)" using m by linarith+
  obtain h where h: "32768 = h * width" using width(2) by (metis mod_0_imp_dvd dvdE mult.commute)
  have "x div width < h" by (rule div_below) (use assms(2) h width(1) in simp_all)
  then have "(x div width + 1) * width \<le> h * width" using width(1) by (intro mult_right_mono) simp_all
  then have "?y \<le> 32767" using h by (simp add: algebra_simps)
  moreover have "- h \<le> x div width" by (rule div_above) (use assms(1) h width(1) in simp_all)
  then have "- h * width \<le> x div width * width" using width(1) by (intro mult_right_mono) simp_all
  then have "- 32768 < ?y" using h width(1) by simp
  ultimately have "32 * \<bar>decode (encode ?y) - ?y\<bar> \<le> \<bar>?y\<bar> + slack" by (intro encode_close)
  then have "32 * \<bar>decode (lookup x) - ?y\<bar> \<le> \<bar>x\<bar> + width - 1 + slack" using lookup_last [OF assms] y by simp
  moreover have "k \<le> l div 32" if "32 * k \<le> l" for k l :: int using that by linarith
  ultimately have "\<bar>decode (lookup x) - ?y\<bar> \<le> (\<bar>x\<bar> + width - 1 + slack) div 32" by blast
  with y show ?thesis by linarith
qed

text \<open>Passing through any number of such codings changes a decoded sample no more than the first one.\<close>

lemma tandem: "((\<lambda>x. decode (lookup x)) ^^ n) (decode (lookup x)) = decode (lookup x)"
  by (induction n) (simp_all add: decode_again)

end

lemma ulaw_again: "AST_LIN2MU (AST_MULAW b) = (if b = 0x7F then 0xFF else b)"
proof -
  have "list_all (\<lambda>b. - 32768 \<le> mulaw_entry (uint b) \<and> mulaw_entry (uint b) \<le> 32767 \<and>
    linear2ulaw (mulaw_entry (uint b) div 4 * 4 + 3) = (if b = 0x7F then 0xFF else b)) (map word_of_nat [0..<256] :: 8 word list)" by code_simp
  from byte_cases [OF this, of b] show ?thesis using AST_LIN2MU_last [of "AST_MULAW b"] by (simp only: AST_MULAW_entry)
qed

lemma alaw_again: "AST_LIN2A (AST_ALAW b) = b"
proof -
  have "list_all (\<lambda>b. - 32768 \<le> alaw2linear b \<and> alaw2linear b \<le> 32767 \<and>
    linear2alaw (alaw2linear b div 8 * 8 + 7) = b) (map word_of_nat [0..<256] :: 8 word list)" by code_simp
  from byte_cases [OF this, of b] show ?thesis using AST_LIN2A_last [of "AST_ALAW b"] by (simp only: AST_ALAW_entry)
qed

interpretation ulaw: companding linear2ulaw AST_LIN2MU AST_MULAW 4 132
proof
  have "AST_MULAW 0x7F = AST_MULAW 0xFF" unfolding AST_MULAW_entry by code_simp
  then show "AST_MULAW (AST_LIN2MU (AST_MULAW b)) = AST_MULAW b" for b by (simp add: ulaw_again)
qed (simp_all add: AST_LIN2MU_last ulaw_close)

interpretation alaw: companding linear2alaw AST_LIN2A AST_ALAW 8 256
  by unfold_locales (simp_all add: AST_LIN2A_last alaw_close alaw_again)

text \<open>
  C34: both codes are accurate: a sample that is looked up in the table and decoded differs from the original by at
  most a thirty-second part of it, the bias of the code, and the bits the table leaves out; this holds for every sample
  of 16 bits, the clipped ones and the least one too.
\<close>

theorem g711_accurate:
  assumes "- 32768 \<le> x" "x \<le> 32767"
  shows "\<bar>AST_MULAW (AST_LIN2MU x) - x\<bar> \<le> (\<bar>x\<bar> + 135) div 32 + 3 \<and> \<bar>AST_ALAW (AST_LIN2A x) - x\<bar> \<le> (\<bar>x\<bar> + 263) div 32 + 7"
  using ulaw.lookup_close [OF assms] alaw.lookup_close [OF assms] by (simp add: add.commute)

theorem g711_accurate_witness:
  "\<bar>AST_MULAW (AST_LIN2MU (-1000)) - (-1000)\<bar> \<le> 38 \<and> \<bar>AST_ALAW (AST_LIN2A (-1000)) - (-1000)\<bar> \<le> 46"
  using g711_accurate [of "-1000"] by simp

text \<open>
  C35: coding what was decoded gives the same byte, for the one code always, for the other except that
  the code of the negative zero becomes that of the positive one; so any number of further
  codings in tandem leaves the samples of a call as the first one has left them.
\<close>

theorem g711_tandem_stable:
  "AST_LIN2MU (AST_MULAW b) = (if b = 0x7F then 0xFF else b) \<and> AST_LIN2A (AST_ALAW b) = b \<and>
   ((\<lambda>x. AST_MULAW (AST_LIN2MU x)) ^^ n) (AST_MULAW (AST_LIN2MU x)) = AST_MULAW (AST_LIN2MU x) \<and>
   ((\<lambda>x. AST_ALAW (AST_LIN2A x)) ^^ n) (AST_ALAW (AST_LIN2A x)) = AST_ALAW (AST_LIN2A x)"
  using ulaw_again alaw_again ulaw.tandem alaw.tandem by blast

text \<open>The least sample is coded as a zero by both conversions; the tables hide it.\<close>

lemma least_sample_wrong: "linear2ulaw (- 32768) = 0x7F \<and> linear2alaw (- 32768) = 0xD5 \<and> AST_MULAW 0x7F = 0 \<and> AST_ALAW 0xD5 = 8"
  unfolding AST_MULAW_entry AST_ALAW_entry by code_simp

end
