(* ===== verification/G711_New.thy ===== *)
theory G711_New
  imports Ast_G711
begin

text \<open>
  The alternative conversions of \<open>main/ulaw.c\<close> and \<open>main/alaw.c\<close>, which are built with \<open>G711_NEW_ALGORITHM\<close>.
  Their tables are indexed by the magnitude and are exact: a lookup agrees with the conversion for every sample, as the tests
  in the code expect. The direct conversions of the two algorithms agree on all samples but the least one; the lookups of the
  two builds agree on the samples that are not negative, because the default tables round each sample up within its entry.
\<close>

unbundle bit_operations_syntax

section \<open>Operations\<close>

definition ast_ulaw_get_sign_mag :: "int \<Rightarrow> int \<times> int" where
  "ast_ulaw_get_sign_mag sample = (drop_bit 8 (sample mod 65536) AND 0x80, if sample < 0 then - sample else sample)"

definition linear2ulaw_new :: "int \<Rightarrow> bool \<Rightarrow> 8 word" where
  "linear2ulaw_new sample full_coding =
     (let (sign, mag) = ast_ulaw_get_sign_mag sample;
          mag = (if mag > CLIP then CLIP else mag);
          sign = drop_bit 8 sample AND 0x80;
          mag = mag + BIAS;
          exponent = exp_lut ! nat (drop_bit 7 mag AND 0xFF);
          mantissa = drop_bit (exponent + 3) mag AND 0x0F
      in if full_coding then NOT (word_of_int (sign OR push_bit 4 (int exponent) OR mantissa))
         else word_of_int (push_bit 4 (int exponent) OR mantissa))"

definition ulaw2linear_new :: "8 word \<Rightarrow> int" where
  "ulaw2linear_new code =
     (let ulawbyte = uint (NOT code);
          exponent = nat (drop_bit 4 (ulawbyte AND 0x70));
          mantissa = ulawbyte AND 0x0F;
          sample = push_bit (exponent + 3) mantissa + ulaw_etab ! exponent
      in if ulawbyte AND 0x80 \<noteq> 0 then - sample else sample)"

definition lin2mu_new :: "8 word list" where
  "lin2mu_new = map (\<lambda>k. linear2ulaw_new (to_short (8 * int k)) False) [0..<4097]"

definition AST_LIN2MU_new :: "int \<Rightarrow> 8 word" where
  "AST_LIN2MU_new sample = (case ast_ulaw_get_sign_mag sample of (sign, mag) \<Rightarrow> NOT (word_of_int sign OR lin2mu_new ! nat (drop_bit 3 (mag + 4))))"

definition ast_alaw_get_sign_mag :: "int \<Rightarrow> int \<times> int" where
  "ast_alaw_get_sign_mag sample = ((drop_bit 8 (sample mod 65536) AND 0x80) XOR 0x80, if sample < 0 then - sample else sample)"

definition alaw_exp_lut :: "nat list" where
  "alaw_exp_lut = [1, 1, 2, 2] @ replicate 4 3 @ replicate 8 4 @ replicate 16 5 @ replicate 32 6 @ replicate 64 7"

definition linear2alaw_new :: "int \<Rightarrow> bool \<Rightarrow> 8 word" where
  "linear2alaw_new sample full_coding =
     (let (sign, mag) = ast_alaw_get_sign_mag sample;
          mag = (if mag > 32767 then 32767 else mag);
          exponent = alaw_exp_lut ! nat (drop_bit 8 mag AND 0x7F);
          mantissa = drop_bit (exponent + 3) mag AND 0x0F;
          exponent = (if mag < 0x100 then 0 else exponent)
      in if full_coding then word_of_int (sign OR push_bit 4 (int exponent) OR mantissa) XOR 0x55
         else word_of_int (push_bit 4 (int exponent) OR mantissa))"

definition alaw2linear_new :: "8 word \<Rightarrow> int" where
  "alaw2linear_new code =
     (let alawbyte = uint (code XOR 0x55);
          exponent = nat (drop_bit 4 (alawbyte AND 0x70));
          mantissa = alawbyte AND 0x0F;
          sample = push_bit 4 mantissa + 8;
          sample = (if exponent \<noteq> 0 then push_bit (exponent - 1) (sample + 0x100) else sample)
      in if alawbyte AND 0x80 = 0 then - sample else sample)"

definition lin2a_new :: "8 word list" where
  "lin2a_new = map (\<lambda>k. linear2alaw_new (to_short (16 * int k)) False) [0..<2049]"

definition AST_LIN2A_new :: "int \<Rightarrow> 8 word" where
  "AST_LIN2A_new sample = (case ast_alaw_get_sign_mag sample of (sign, mag) \<Rightarrow> (word_of_int sign OR lin2a_new ! nat (drop_bit 4 mag)) XOR 0x55)"

section \<open>Signs and magnitudes\<close>

lemma sign_bit_mod: "- 32768 \<le> x \<Longrightarrow> x \<le> 32767 \<Longrightarrow> drop_bit 8 (x mod 65536) AND 0x80 = (if x < 0 then 128 else (0 :: int))"
proof -
  assume x: "- 32768 \<le> x" "x \<le> 32767"
  have "(x mod 65536) div 256 = x div 256 mod 256" using index_div [of 256 256 x] by simp
  then have "drop_bit 8 (x mod 65536) AND 0x80 = (drop_bit 8 x AND 0xFF) AND 0x80" by (simp add: drop_bit_eq_div mod_mask)
  also have "\<dots> = drop_bit 8 x AND 0x80" by (simp add: and.assoc)
  finally show ?thesis using sign_bit [OF x] by simp
qed

lemma ulaw_sign_mag: "- 32768 \<le> x \<Longrightarrow> x \<le> 32767 \<Longrightarrow> ast_ulaw_get_sign_mag x = (if x < 0 then 128 else 0, \<bar>x\<bar>)"
  by (simp add: ast_ulaw_get_sign_mag_def sign_bit_mod)

lemma alaw_sign_mag: "- 32768 \<le> x \<Longrightarrow> x \<le> 32767 \<Longrightarrow> ast_alaw_get_sign_mag x = (if x < 0 then 0 else 128, \<bar>x\<bar>)"
  by (simp add: ast_alaw_get_sign_mag_def sign_bit_mod)

text \<open>The code of a magnitude, without its sign. It depends on the upper bits only.\<close>

definition ulaw_code :: "int \<Rightarrow> int" where
  "ulaw_code m =
     (let exponent = exp_lut ! nat (drop_bit 7 m AND 0xFF)
      in push_bit 4 (int exponent) OR (drop_bit (exponent + 3) m AND 0x0F))"

definition alaw_code :: "int \<Rightarrow> int" where
  "alaw_code m =
     (let exponent = alaw_exp_lut ! nat (drop_bit 8 m AND 0x7F)
      in push_bit 4 (int (if m < 0x100 then 0 else exponent)) OR (drop_bit (exponent + 3) m AND 0x0F))"

lemma ulaw_code_upper: "drop_bit 3 m = drop_bit 3 n \<Longrightarrow> ulaw_code m = ulaw_code n"
proof -
  assume e: "drop_bit 3 m = drop_bit 3 n"
  have "drop_bit (k + 3) m = drop_bit (k + 3) n" for k using e by (metis add.commute drop_bit_drop_bit)
  from this [of 4] this show ?thesis by (simp add: ulaw_code_def)
qed

lemma alaw_exp_lut_pos: "0 \<le> k \<Longrightarrow> k < 128 \<Longrightarrow> 1 \<le> alaw_exp_lut ! nat k"
proof -
  have "list_all (\<lambda>k. 1 \<le> alaw_exp_lut ! k) [0..<128]" by code_simp
  then show "0 \<le> k \<Longrightarrow> k < 128 \<Longrightarrow> 1 \<le> alaw_exp_lut ! nat k" by (simp add: list_all_iff)
qed

lemma alaw_code_upper:
  assumes "drop_bit 4 m = drop_bit 4 n" "0 \<le> m" "0 \<le> n"
  shows "alaw_code m = alaw_code n"
proof -
  have d: "drop_bit (k + 4) m = drop_bit (k + 4) n" for k using assms(1) by (metis add.commute drop_bit_drop_bit)
  have e: "drop_bit 8 m = drop_bit 8 n" using d [of 4] by simp
  have "m < 256 \<longleftrightarrow> drop_bit 8 m < 1" "n < 256 \<longleftrightarrow> drop_bit 8 n < 1" unfolding drop_bit_eq_div by (simp_all, presburger+)
  then have l: "m < 256 \<longleftrightarrow> n < 256" using e by simp
  let ?k = "alaw_exp_lut ! nat (drop_bit 8 m AND 0x7F)"
  have "drop_bit 8 m AND 0x7F = drop_bit 8 m mod 128"
    using take_bit_eq_mask [of 7 "drop_bit 8 m"] by (simp add: take_bit_eq_mod mask_eq_exp_minus_1)
  then have "1 \<le> ?k" using alaw_exp_lut_pos by simp
  then have "?k + 3 = (?k - 1) + 4" by simp
  then have "drop_bit (?k + 3) m = drop_bit (?k + 3) n" using d by metis
  with e l show ?thesis by (simp add: alaw_code_def Let_def)
qed

lemma linear2ulaw_new_code:
  assumes "- 32768 \<le> x" "x \<le> 32767"
  shows "linear2ulaw_new x True = NOT (word_of_int (if x < 0 then 128 else 0) OR word_of_int (ulaw_code (min \<bar>x\<bar> CLIP + 132)))"
    and "linear2ulaw_new x False = word_of_int (ulaw_code (min \<bar>x\<bar> CLIP + 132))"
proof -
  have "(if \<bar>x\<bar> > CLIP then CLIP else \<bar>x\<bar>) = min \<bar>x\<bar> CLIP" by simp
  then show "linear2ulaw_new x True = NOT (word_of_int (if x < 0 then 128 else 0) OR word_of_int (ulaw_code (min \<bar>x\<bar> CLIP + 132)))"
    "linear2ulaw_new x False = word_of_int (ulaw_code (min \<bar>x\<bar> CLIP + 132))"
    using ulaw_sign_mag [OF assms] sign_bit [OF assms]
    by (simp_all add: linear2ulaw_new_def ulaw_code_def BIAS_def Let_def of_int_or_eq del: word_of_int_numeral)
qed

lemma linear2alaw_new_code:
  assumes "- 32768 \<le> x" "x \<le> 32767"
  shows "linear2alaw_new x True = (word_of_int (if x < 0 then 0 else 128) OR word_of_int (alaw_code (min \<bar>x\<bar> 32767))) XOR 0x55"
    and "linear2alaw_new x False = word_of_int (alaw_code (min \<bar>x\<bar> 32767))"
proof -
  have m: "(if \<bar>x\<bar> > 32767 then 32767 else \<bar>x\<bar>) = min \<bar>x\<bar> 32767" by simp
  show "linear2alaw_new x True = (word_of_int (if x < 0 then 0 else 128) OR word_of_int (alaw_code (min \<bar>x\<bar> 32767))) XOR 0x55"
    "linear2alaw_new x False = word_of_int (alaw_code (min \<bar>x\<bar> 32767))"
    unfolding linear2alaw_new_def alaw_code_def Let_def alaw_sign_mag [OF assms] prod.case m by (simp_all only: of_int_or_eq if_True if_False)
qed

section \<open>The tables are exact\<close>

lemma short_multiple: "0 \<le> k \<Longrightarrow> k \<le> 32768 \<Longrightarrow> - 32768 \<le> to_short k \<and> to_short k \<le> 32767 \<and> \<bar>to_short k\<bar> = k"
proof (cases "k = 32768")
  case True
  then show ?thesis by (simp add: to_short_def)
qed (simp add: to_short_def)

lemma ulaw_lookup:
  assumes "- 32768 \<le> x" "x \<le> 32767"
  shows "AST_LIN2MU_new x = linear2ulaw_new x True"
proof -
  define k where "k = (\<bar>x\<bar> + 4) div 8"
  have k: "0 \<le> k" "k \<le> 4096" using assms by (auto simp: k_def abs_if)
  note s = short_multiple [of "8 * k"]
  have "lin2mu_new ! nat k = linear2ulaw_new (to_short (8 * k)) False" using k by (simp add: lin2mu_new_def nat_less_iff del: upt_Suc)
  also have "\<dots> = word_of_int (ulaw_code (min (8 * k) CLIP + 132))" using linear2ulaw_new_code(2) [of "to_short (8 * k)"] s k by simp
  also have "ulaw_code (min (8 * k) CLIP + 132) = ulaw_code (min \<bar>x\<bar> CLIP + 132)"
  proof (rule ulaw_code_upper)
    have "8 * k \<le> \<bar>x\<bar> + 4" "\<bar>x\<bar> + 4 < 8 * k + 8" unfolding k_def by linarith+
    then have "(min (8 * k) CLIP + 132) div 8 = (min \<bar>x\<bar> CLIP + 132) div 8" by (simp add: min_def CLIP_def) linarith
    then show "drop_bit 3 (min (8 * k) CLIP + 132) = drop_bit 3 (min \<bar>x\<bar> CLIP + 132)" by (simp add: drop_bit_eq_div)
  qed
  finally have "lin2mu_new ! nat (drop_bit 3 (\<bar>x\<bar> + 4)) = word_of_int (ulaw_code (min \<bar>x\<bar> CLIP + 132))" by (simp add: k_def drop_bit_eq_div)
  then show ?thesis unfolding AST_LIN2MU_new_def ulaw_sign_mag [OF assms] prod.case linear2ulaw_new_code(1) [OF assms] by (simp only:)
qed

lemma alaw_lookup:
  assumes "- 32768 \<le> x" "x \<le> 32767"
  shows "AST_LIN2A_new x = linear2alaw_new x True"
proof -
  define k where "k = \<bar>x\<bar> div 16"
  have k: "0 \<le> k" "k \<le> 2048" using assms by (auto simp: k_def abs_if)
  note s = short_multiple [of "16 * k"]
  have "lin2a_new ! nat k = linear2alaw_new (to_short (16 * k)) False" using k by (simp add: lin2a_new_def nat_less_iff del: upt_Suc)
  also have "\<dots> = word_of_int (alaw_code (min (16 * k) 32767))" using linear2alaw_new_code(2) [of "to_short (16 * k)"] s k by simp
  also have "alaw_code (min (16 * k) 32767) = alaw_code (min \<bar>x\<bar> 32767)"
  proof (rule alaw_code_upper)
    have "16 * k \<le> \<bar>x\<bar>" "\<bar>x\<bar> < 16 * k + 16" unfolding k_def by linarith+
    then have "min (16 * k) 32767 div 16 = min \<bar>x\<bar> 32767 div 16" by (simp add: min_def) linarith
    then show "drop_bit 4 (min (16 * k) 32767) = drop_bit 4 (min \<bar>x\<bar> 32767)" by (simp add: drop_bit_eq_div)
  qed (use k in simp_all)
  finally have "lin2a_new ! nat (drop_bit 4 \<bar>x\<bar>) = word_of_int (alaw_code (min \<bar>x\<bar> 32767))" by (simp add: k_def drop_bit_eq_div)
  then show ?thesis unfolding AST_LIN2A_new_def alaw_sign_mag [OF assms] prod.case linear2alaw_new_code(1) [OF assms] by (simp only:)
qed

section \<open>Both algorithms agree\<close>

lemma ulaw_agree:
  assumes "- 32768 < x" "x \<le> 32767"
  shows "linear2ulaw_new x True = linear2ulaw x"
proof -
  have "(if drop_bit 8 x AND 0x80 \<noteq> 0 then to_short (- x) else x) = \<bar>x\<bar>" using assms sign_bit [of x] by (simp add: to_short_def)
  moreover have "to_short ((if \<bar>x\<bar> > CLIP then CLIP else \<bar>x\<bar>) + BIAS) = (if \<bar>x\<bar> > CLIP then CLIP else \<bar>x\<bar>) + BIAS"
    by (simp add: to_short_def CLIP_def BIAS_def)
  moreover have "ast_ulaw_get_sign_mag x = (if x < 0 then 128 else 0, \<bar>x\<bar>)" using assms by (intro ulaw_sign_mag) simp_all
  ultimately show ?thesis unfolding linear2ulaw_new_def linear2ulaw_def Let_def by (simp only: prod.case if_True)
qed

lemma alaw_exponent:
  assumes "0 \<le> m" "m \<le> 32767"
  shows "length (takeWhile (\<lambda>e. \<not> m \<le> e) seg_end) = (if m < 256 then 0 else alaw_exp_lut ! nat (m div 256))"
    and "alaw_exp_lut ! nat (m div 256) \<le> 7" "m < 256 \<Longrightarrow> alaw_exp_lut ! nat (m div 256) = 1"
proof -
  have "list_all (\<lambda>k. length (takeWhile (\<lambda>e. \<not> k \<le> e) [0, 1, 3, 7, 15, 31, 63, 127]) = (if k < 1 then 0 else alaw_exp_lut ! nat k) \<and>
    alaw_exp_lut ! nat k \<le> 7) [0..127]" by code_simp
  then have a: "\<forall>k \<in> {0..127}. length (takeWhile (\<lambda>e. \<not> k \<le> e) [0, 1, 3, 7, 15, 31, 63, 127]) = (if k < 1 then 0 else alaw_exp_lut ! nat k) \<and>
    alaw_exp_lut ! nat k \<le> 7" unfolding list_all_iff set_upto .
  define k where "k = m div 256"
  have k: "k \<in> {0..127}" using assms by (auto simp: k_def)
  have c: "m \<le> 256 * e + 255 \<longleftrightarrow> k \<le> e" for e unfolding k_def by linarith
  have "m < 256 \<longleftrightarrow> k < 1" unfolding k_def by linarith
  moreover have "takeWhile (\<lambda>e. \<not> m \<le> e) seg_end = map (\<lambda>e. 256 * e + 255) (takeWhile (\<lambda>e. \<not> k \<le> e) [0, 1, 3, 7, 15, 31, 63, 127])"
  proof -
    have "seg_end = map (\<lambda>e. 256 * e + 255) [0, 1, 3, 7, 15, 31, 63, 127]" by (simp add: seg_end_def)
    then have "takeWhile (\<lambda>e. \<not> m \<le> e) seg_end = map (\<lambda>e. 256 * e + 255) (takeWhile ((\<lambda>e. \<not> m \<le> e) \<circ> (\<lambda>e. 256 * e + 255)) [0, 1, 3, 7, 15, 31, 63, 127])"
      by (metis takeWhile_map)
    then show ?thesis by (simp only: comp_def c)
  qed
  ultimately show "length (takeWhile (\<lambda>e. \<not> m \<le> e) seg_end) = (if m < 256 then 0 else alaw_exp_lut ! nat (m div 256))"
    "alaw_exp_lut ! nat (m div 256) \<le> 7" using a k by (simp_all only: length_map k_def [symmetric])
  show "m < 256 \<Longrightarrow> alaw_exp_lut ! nat (m div 256) = 1" using assms(1) by (simp add: alaw_exp_lut_def)
qed

lemma alaw_mask:
  assumes "e \<le> 7" "0 \<le> q" "q \<le> 15"
  shows "word_of_int ((push_bit 4 (int e) OR q) XOR (AMI_MASK OR 0x80)) = (word_of_int (0x80 OR push_bit 4 (int e) OR q) XOR 0x55 :: 8 word)"
    and "word_of_int ((push_bit 4 (int e) OR q) XOR AMI_MASK) = (word_of_int (0 OR push_bit 4 (int e) OR q) XOR 0x55 :: 8 word)"
proof -
  have "list_all (\<lambda>e. list_all (\<lambda>q. word_of_int ((push_bit 4 (int e) OR q) XOR (AMI_MASK OR 0x80)) = (word_of_int (0x80 OR push_bit 4 (int e) OR q) XOR 0x55 :: 8 word) \<and>
    word_of_int ((push_bit 4 (int e) OR q) XOR AMI_MASK) = (word_of_int (0 OR push_bit 4 (int e) OR q) XOR 0x55 :: 8 word)) [0..15]) [0..<8]" by code_simp
  then have "\<forall>e \<in> {0..<8}. \<forall>q \<in> {0..15}. word_of_int ((push_bit 4 (int e) OR q) XOR (AMI_MASK OR 0x80)) = (word_of_int (0x80 OR push_bit 4 (int e) OR q) XOR 0x55 :: 8 word) \<and>
    word_of_int ((push_bit 4 (int e) OR q) XOR AMI_MASK) = (word_of_int (0 OR push_bit 4 (int e) OR q) XOR 0x55 :: 8 word)"
    unfolding list_all_iff set_upto set_upt .
  moreover have "e \<in> {0..<8}" "q \<in> {0..15}" using assms by auto
  ultimately show "word_of_int ((push_bit 4 (int e) OR q) XOR (AMI_MASK OR 0x80)) = (word_of_int (0x80 OR push_bit 4 (int e) OR q) XOR 0x55 :: 8 word)"
    "word_of_int ((push_bit 4 (int e) OR q) XOR AMI_MASK) = (word_of_int (0 OR push_bit 4 (int e) OR q) XOR 0x55 :: 8 word)" by blast+
qed

lemma alaw_agree:
  assumes "- 32768 < x" "x \<le> 32767"
  shows "linear2alaw_new x True = linear2alaw x"
proof -
  define m where "m = \<bar>x\<bar>"
  define seg where "seg = (if m < 256 then 0 else alaw_exp_lut ! nat (m div 256))"
  define q where "q = drop_bit (alaw_exp_lut ! nat (m div 256) + 3) m AND 0x0F"
  have m: "0 \<le> m" "m \<le> 32767" using assms by (auto simp: m_def)
  have "drop_bit 8 m AND 0x7F = m div 256"
    using m take_bit_eq_mask [of 7 "drop_bit 8 m"] by (simp add: take_bit_eq_mod mask_eq_exp_minus_1 drop_bit_eq_div)
  moreover have "ast_alaw_get_sign_mag x = (if x < 0 then 0 else 128, m)" unfolding m_def using assms by (intro alaw_sign_mag) simp_all
  ultimately have n: "linear2alaw_new x True = word_of_int ((if x < 0 then 0 else 128) OR push_bit 4 (int seg) OR q) XOR 0x55"
    using m by (simp add: linear2alaw_new_def Let_def seg_def q_def)
  have "(if x \<ge> 0 then x else - x) = m" by (simp add: m_def)
  moreover have "1 \<le> alaw_exp_lut ! nat (m div 256)" by (rule alaw_exp_lut_pos) (use m in linarith)+
  then have "alaw_exp_lut ! nat (m div 256) + 3 = (if seg \<noteq> 0 then seg + 3 else 4)"
    using alaw_exponent(3) [OF m] by (simp add: seg_def)
  ultimately have "linear2alaw x = word_of_int ((push_bit 4 (int seg) OR q) XOR (if x \<ge> 0 then AMI_MASK OR 0x80 else AMI_MASK))"
    using alaw_exponent(1) [OF m] unfolding linear2alaw_def Let_def q_def by (simp only: seg_def [symmetric])
  moreover have "seg \<le> 7" "0 \<le> q" "q \<le> 15" using alaw_exponent(2) [OF m] by (simp_all add: seg_def q_def mod_mask)
  ultimately show ?thesis using alaw_mask [of seg q] n by (simp split: if_splits)
qed

lemma decoders_agree: "ulaw2linear_new b = AST_MULAW b" "alaw2linear_new b = AST_ALAW b"
proof -
  have "list_all (\<lambda>b. ulaw2linear_new b = mulaw_entry (uint b)) (map word_of_nat [0..<256] :: 8 word list)" by code_simp
  from byte_cases [OF this] show "ulaw2linear_new b = AST_MULAW b" by (simp add: AST_MULAW_entry)
  have "list_all (\<lambda>b. alaw2linear_new b = alaw2linear b) (map word_of_nat [0..<256] :: 8 word list)" by code_simp
  from byte_cases [OF this] show "alaw2linear_new b = AST_ALAW b" by (simp add: AST_ALAW_entry)
qed

section \<open>The lookups of the two builds\<close>

text \<open>
  Rounding up within the samples of one entry of the table does not change the code of a sample that is not negative.
\<close>

lemma div_double: "0 < p \<Longrightarrow> a div p = b div p \<Longrightarrow> a div (p * 2) = b div (p * 2 :: int)"
  by (simp add: zdiv_zmult2_eq)

lemma same_codes:
  assumes "0 \<le> x" "x \<le> 32767" "0 \<le> y" "y \<le> 32767"
  shows "(min y CLIP + 132) div 8 = (min x CLIP + 132) div 8 \<Longrightarrow> linear2ulaw_new y True = linear2ulaw_new x True"
    "y div 16 = x div 16 \<Longrightarrow> linear2alaw_new y True = linear2alaw_new x True"
proof -
  assume "(min y CLIP + 132) div 8 = (min x CLIP + 132) div 8"
  then have "drop_bit 3 (min y CLIP + 132) = drop_bit 3 (min x CLIP + 132)" by (simp add: drop_bit_eq_div)
  from ulaw_code_upper [OF this] show "linear2ulaw_new y True = linear2ulaw_new x True" using assms by (simp add: linear2ulaw_new_code)
next
  assume "y div 16 = x div 16"
  then have "drop_bit 4 y = drop_bit 4 x" by (simp add: drop_bit_eq_div)
  from alaw_code_upper [OF this assms(3,1)] show "linear2alaw_new y True = linear2alaw_new x True"
    using assms by (simp add: linear2alaw_new_code)
qed

lemma rounded_range:
  assumes "- 32768 \<le> x" "x \<le> 32767"
  shows "- 32768 < x div 4 * 4 + 3" "x div 4 * 4 + 3 \<le> (32767 :: int)" "- 32768 < x div 8 * 8 + 7" "x div 8 * 8 + 7 \<le> (32767 :: int)"
  using div_below [of 4 x 8192] div_above [of 4 8192 x] div_below [of 8 x 4096] div_above [of 8 4096 x] assms by linarith+

lemma ulaw_code_rounded:
  assumes "0 \<le> x" "x \<le> 32767"
  shows "linear2ulaw_new (x div 4 * 4 + 3) True = linear2ulaw_new x True"
proof -
  let ?y = "x div 4 * 4 + 3"
  have y: "0 \<le> ?y" "?y \<le> 32767" using assms rounded_range [of x] by simp_all
  have "(min ?y CLIP + 132) div 8 = (min x CLIP + 132) div 8"
  proof (cases "x \<le> CLIP")
    case True
    then have "?y \<le> CLIP" using div_below [of 4 x 8159] unfolding CLIP_def by linarith
    moreover have "(?y + 132) div 4 = x div 4 + 33" "(x + 132) div 4 = x div 4 + 33" by linarith+
    then have "(?y + 132) div 8 = (x + 132) div 8" using div_double [of 4 "?y + 132" "x + 132"] by simp
    ultimately show ?thesis using True by simp
  next
    case False
    moreover have "x \<le> ?y" by linarith
    ultimately show ?thesis by simp
  qed
  from same_codes(1) [OF assms y this] show ?thesis .
qed

lemma alaw_code_rounded:
  assumes "0 \<le> x" "x \<le> 32767"
  shows "linear2alaw_new (x div 8 * 8 + 7) True = linear2alaw_new x True"
proof -
  let ?y = "x div 8 * 8 + 7"
  have y: "0 \<le> ?y" "?y \<le> 32767" using assms rounded_range [of x] by simp_all
  have "?y div 8 = x div 8" by linarith
  then have "?y div 16 = x div 16" using div_double [of 8 ?y x] by simp
  from same_codes(2) [OF assms y this] show ?thesis .
qed

text \<open>
  The default build looks a sample up after rounding it up within its entry of the table; the new algorithm does not round.
\<close>

lemma default_lookup_rounds:
  assumes "- 32768 \<le> x" "x \<le> 32767"
  shows "AST_LIN2MU x = AST_LIN2MU_new (x div 4 * 4 + 3)" "AST_LIN2A x = AST_LIN2A_new (x div 8 * 8 + 7)"
proof -
  note y = rounded_range [OF assms]
  show "AST_LIN2MU x = AST_LIN2MU_new (x div 4 * 4 + 3)"
    using AST_LIN2MU_last [OF assms] ulaw_lookup ulaw_agree [OF y(1,2)] y(1,2) by simp
  show "AST_LIN2A x = AST_LIN2A_new (x div 8 * 8 + 7)"
    using AST_LIN2A_last [OF assms] alaw_lookup alaw_agree [OF y(3,4)] y(3,4) by simp
qed

text \<open>
  C36: how the two algorithms that the code can be built with are related. The tables of the new one give exactly its
  direct conversion, for every sample, and that is the direct conversion of the old one for all samples but the least;
  both decode every byte to the same sample. The encoders as they are built are not the same function: the tables of the
  old algorithm, which is the default, code a sample like the new algorithm codes the largest sample of its group of four (\<open>mu\<close>-law) or
  eight (A-law). For samples that are not negative this makes no difference, and the two builds give the same bytes; for
  negative ones it can, as for -4 and -16 (\<open>g711_builds_differ\<close>).
\<close>

theorem g711_algorithms_related:
  assumes "- 32768 \<le> x" "x \<le> 32767"
  shows "AST_LIN2MU_new x = linear2ulaw_new x True \<and> AST_LIN2A_new x = linear2alaw_new x True \<and>
    (x \<noteq> - 32768 \<longrightarrow> linear2ulaw_new x True = linear2ulaw x \<and> linear2alaw_new x True = linear2alaw x) \<and>
    ulaw2linear_new b = AST_MULAW b \<and> alaw2linear_new b = AST_ALAW b \<and>
    AST_LIN2MU x = AST_LIN2MU_new (x div 4 * 4 + 3) \<and> AST_LIN2A x = AST_LIN2A_new (x div 8 * 8 + 7) \<and>
    (0 \<le> x \<longrightarrow> AST_LIN2MU x = AST_LIN2MU_new x \<and> AST_LIN2A x = AST_LIN2A_new x)"
proof -
  have "AST_LIN2MU x = AST_LIN2MU_new x \<and> AST_LIN2A x = AST_LIN2A_new x" if "0 \<le> x"
  proof -
    note y = rounded_range [OF assms]
    then show ?thesis
      using default_lookup_rounds [OF assms] ulaw_lookup alaw_lookup ulaw_code_rounded [OF that assms(2)]
        alaw_code_rounded [OF that assms(2)] assms by simp
  qed
  with assms ulaw_lookup [OF assms] alaw_lookup [OF assms] ulaw_agree [of x] alaw_agree [of x] decoders_agree [of b]
    default_lookup_rounds [OF assms] show ?thesis by simp
qed

theorem g711_algorithms_related_witness:
  "AST_LIN2MU_new 5 = linear2ulaw 5 \<and> AST_LIN2A_new 5 = linear2alaw 5 \<and> ulaw2linear_new 3 = AST_MULAW 3 \<and>
    AST_LIN2MU 5 = AST_LIN2MU_new 5 \<and> AST_LIN2MU (-4) = AST_LIN2MU_new (-1) \<and> AST_LIN2A (-16) = AST_LIN2A_new (-9)"
proof -
  have "AST_LIN2MU_new 5 = linear2ulaw 5 \<and> AST_LIN2A_new 5 = linear2alaw 5 \<and> AST_LIN2MU 5 = AST_LIN2MU_new 5"
    using g711_algorithms_related [of 5 3, simplified] by metis
  moreover have "ulaw2linear_new 3 = AST_MULAW 3 \<and> AST_LIN2MU (-4) = AST_LIN2MU_new (-1)" using g711_algorithms_related [of "-4" 3] by simp
  moreover have "AST_LIN2A (-16) = AST_LIN2A_new (-9)" using g711_algorithms_related [of "-16" 3] by simp
  ultimately show ?thesis by blast
qed

text \<open>Two samples that the builds code differently.\<close>

lemma g711_builds_differ:
  "AST_LIN2MU (-4) = 0x7F \<and> AST_LIN2MU_new (-4) = 0x7E \<and> AST_LIN2A (-16) \<noteq> AST_LIN2A_new (-16)"
proof -
  have "linear2ulaw (-1) = 0x7F" "linear2ulaw_new (-4) True = 0x7E" "linear2alaw (-9) \<noteq> linear2alaw_new (-16) True" by code_simp+
  then show ?thesis using AST_LIN2MU_last [of "-4"] AST_LIN2A_last [of "-16"] ulaw_lookup [of "-4"] alaw_lookup [of "-16"] by simp
qed

end
