(* ===== verification/Spec2Isabelle.thy ===== *)
theory Spec2Isabelle
  imports Ast_Sched Abstract_Jb Pbx_Run Ast_Translate Obj2_Search Udptl_Size Config_Save G711_New
begin

text \<open>
  \<^bold>\<open>A verification of the core services of Asterisk 1.8.\<close>

  Asterisk is a telephone exchange: channel drivers deliver calls as channels, the dialplan
  (\<open>main/pbx.c\<close>) decides what happens to a call, and applications act on it. Below both lie services
  that everything else uses: heaps, hash tables, reference-counted objects, the scheduler, the jitter
  buffers that smooth the audio of a channel, the translation between media formats, the packets of a
  facsimile transmission, the codes of telephone audio, and the configuration files. This development
  models these services, the core of the dialplan and the run of a call through it from the C sources,
  as executable functions on records, and proves what their callers rely on.

  \<^bold>\<open>Parts and theories.\<close>

  \<^item> \<^verbatim>\<open>Ast_Prelude\<close>, \<^verbatim>\<open>C_String\<close>: lists, 32-bit wrap-around, and the functions of the C library on
    strings. A NUL-terminated string is the list of the characters before the terminator.
  \<^item> \<^verbatim>\<open>Ast_Heap\<close> (\<open>main/heap.c\<close>): the array heap. Elements are addresses in a store that keeps the index
    the C code writes into each element (\<open>__heap_index\<close>). Push, pop and removal keep the order and the
    indices and change exactly one element. The locale \<open>prio_queue\<close> is the contract of a queue with
    removal of arbitrary elements; the heap interprets it.
  \<^item> \<^verbatim>\<open>Ast_Hashtab\<close> (\<open>main/hashtab.c\<close>): buckets, hash functions, lookup, insertion, removal, resizing. The
    locale \<open>object_table\<close> is the contract of a table keyed by an equivalence; the locale \<open>hash_key\<close>, a
    comparison and a hash that agree, provides it.
  \<^item> \<^verbatim>\<open>Ast_Time\<close> (\<open>time.h\<close>, \<open>main/utils.c\<close>): arithmetic on \<open>struct timeval\<close>.
  \<^item> \<^verbatim>\<open>Ast_Sched\<close> (\<open>main/sched.c\<close>): the scheduler, a heap and a hash table over the same entries. Callbacks
    are arbitrary functions that may add and delete entries while the queue runs. The theorems show the
    invariant between heap, table and counter, that a run ends when callbacks schedule nothing that is due
    at once, and that it calls exactly the entries due, once each, when moreover the callbacks ask for no
    further call and leave the entries that are due alone.
  \<^item> \<^verbatim>\<open>Adaptive_Jb\<close> (\<open>main/jitterbuf.c\<close>), \<^verbatim>\<open>Fixed_Jb\<close> (\<open>main/fixedjitterbuf.c\<close>): the two jitter buffers.
    \<^verbatim>\<open>Abstract_Jb\<close> (\<open>main/abstract_jb.c\<close>) is the buffer of a channel on top of either: the table of
    operations of an implementation is a record, as in C, and the locale \<open>jb_contract\<close> is what the
    channel needs of one. It is interpreted on both; the accounting of frames (none lost, none freed
    twice) and the end of the delivery loop are proved once in the locale.
  \<^item> \<^verbatim>\<open>Ext_Pattern\<close> (\<open>main/pbx.c\<close>): comparison and matching of extensions. Matching is shown to decide the
    language of a pattern, in which empty sets are ignored as documented; only a number that ends in front of
    an empty set at the end of the pattern is refused by the code. Comparison is a total preorder on
    patterns without the character 255, which in a range makes the comparison loop for ever.
  \<^item> \<^verbatim>\<open>Pbx_Timing\<close> (\<open>main/pbx.c\<close>): time specifications of includes. The compiled masks are shown to allow
    exactly the times the text of the specification describes.
  \<^item> \<^verbatim>\<open>Pbx_Context\<close> (\<open>main/pbx.c\<close>): contexts. A context keeps its extensions sorted by matching preference,
    each with a chain of priorities and two hash tables over it; adding an extension keeps this and
    changes one entry. It rests on \<^verbatim>\<open>Ext_Pattern\<close> for the order, through the locale \<open>cmp_preorder\<close>, and on
    \<^verbatim>\<open>Ast_Hashtab\<close> for the tables, through interpretations of \<open>hash_key\<close> on its key functions.
  \<^item> \<^verbatim>\<open>Pbx_Find\<close> (\<open>main/pbx.c\<close>): the search for an extension through contexts, switches and includes. It
    returns for every graph of includes, and is a complete depth-first search of the contexts reachable
    through the includes that are valid at the time.
  \<^item> \<^verbatim>\<open>Ast_Frame\<close>, \<^verbatim>\<open>Ast_Channel\<close> (\<open>main/channel.c\<close>, \<open>main/pbx.c\<close>): what the dialplan uses of a channel. The queue of
    frames gives up media when it grows too long, never signalling; the flags of a soft hangup; the
    variables, where setting and reading agree.
  \<^item> \<^verbatim>\<open>Pbx_Run\<close> (\<open>main/pbx.c\<close>): the run of a call. \<open>pbx_extension_helper\<close> connects the search with the
    applications, \<open>pbx_turn\<close> is one turn of the loop of \<open>__ast_pbx_run\<close>. A call runs the priorities of its
    extension in order, goes on only at places that exist as long as the dialled numbers fit the channel, and the number of calls keeps its limit. Applications, the
    digits that arrive and the clock are an arbitrary environment.
  \<^item> \<^verbatim>\<open>Ast_Translate\<close> (\<open>main/translate.c\<close>): the matrix of translations. Building it ends and leaves a best
    path for every pair of formats, following it builds that path, and the choice of formats for two
    channels is best; every operation on the translators keeps this.
  \<^item> \<^verbatim>\<open>Ast_Obj2\<close>, \<^verbatim>\<open>Obj2_Search\<close> (\<open>main/astobj2.c\<close>): objects in a store, with their reference counts and
    containers. The counts are exact through every operation, nested destructors included; a search
    finds what is there; an iterator visits every object once, although the container changes meanwhile; one
    combination of flags makes a search endless.
  \<^item> \<^verbatim>\<open>Udptl\<close>, \<^verbatim>\<open>Udptl_Size\<close> (\<open>main/udptl.c\<close>): facsimile packets with their error recovery. A packet is the
    list of its bytes; \<open>None\<close> is undefined behaviour, such as a write outside a buffer. A transmission with copies of
    earlier packets survives losses until the numbers wrap, and fits the far end's buffer when that is not tiny; a sum repairs a single loss; a refused
    packet can make the receiver overrun a buffer, and with sums frames of the computed size bring a session to a halt.
  \<^item> \<^verbatim>\<open>Ast_G711\<close>, \<^verbatim>\<open>G711_New\<close> (\<open>main/ulaw.c\<close>, \<open>main/alaw.c\<close>): the logarithmic codes of audio, in the two algorithms
    they can be built with. The tables are filled by the loops of the code, bytes are words. The locale \<open>companding\<close> is what a
    code provides; it is interpreted for both. The error of a sample is bounded in proportion to it, coding in tandem is
    stable, and the algorithms agree except that the tables of the default one round negative samples.
  \<^item> \<^verbatim>\<open>Ast_Config\<close>, \<^verbatim>\<open>Config_Parse\<close>, \<^verbatim>\<open>Config_Load\<close>, \<^verbatim>\<open>Config_Save\<close> (\<open>main/config.c\<close>): configuration files.
    Lists of categories and variables with the pointers to their last nodes; the lines of a file, the removal of
    comments, headers with templates, values that are extended, nested inclusions; writing a configuration back to
    its files. What an operation or a load keeps is a relation between the configurations before and after it:
    the locale \<open>load_relation\<close> lifts it from a line to a whole load, and is interpreted for the level of inclusion and for the
    well-formedness of the lists. Loading returns for texts without two dashes in a row and without plus signs, unless a file has a path of 255
    characters; a configuration of one file with distinct categories, and variables that do not repeat those of the templates,
    is loaded again as it was saved; values with semicolons are cut.

  \<^bold>\<open>Conventions.\<close> State is passed explicitly; a C function with an out parameter or a changed structure
  returns the new value. Pointers are addresses where identity matters (heap elements, scheduler entries,
  frames) and values elsewhere. Integers that may overflow are words or are wrapped explicitly with
  \<open>to_int32\<close>. Functions that may fail to return have an optional result: \<open>None\<close> is a loop that never
  ends. Failing allocations are boolean arguments. Locks are not modelled: every operation is one atomic
  step, which is what its lock makes it.

  \<^bold>\<open>Bounds and fuel.\<close> The run loop of the scheduler, the delivery loop of the jitter buffer, the loop of a
  call, the completion of the translation matrix, the release of references and the search in a container
  are functions that may be undefined; their theorems state when they return. The search for an extension
  recurses at most 129 deep, because every level adds a name to a stack of at most 128, so it is defined
  by recursion on this depth, and the theorem that it returns uses that bound. Inclusions of configuration
  files are followed with fuel 12: the level of inclusion starts at 0 and stops at 11, and more fuel is shown to give the same.

  \<^bold>\<open>Not modelled.\<close> Channel drivers, applications, the manager and command line interfaces, file formats and
  other codecs: they are dominated by input and output. Of channels: bridging, masquerading and the threads. Of
  the dialplan: removal of extensions, hints, variable substitution and the trie of the alternative
  matching algorithm. Of translation: the measurement of costs and the frames. Of
  facsimile: sockets and the negotiation in channel drivers. Of configuration files: comments that are kept
  for a later save, programs whose output is included, the cache of modification times and the realtime engines. Of the hash tables:
  duplication, traversal and statistics. Of the scheduler: its thread and its reports. Third-party code
  in the tree is left out.
\<close>

end
